(* ===== verification/Prelude.thy ===== *)
theory Prelude
  imports Main "HOL-Library.Word"
begin

text \<open>
  Shared vocabulary of the development: the machine types of the C++ code, the ways a
  call can fail, the loop shapes that recur in the sources (linear scans, running minima,
  \<^verbatim>\<open>std::min_element\<close>), the decimal text of numbers, and a locale for state machines
  with an inductive invariant.
\<close>

section \<open>Machine types and failures\<close>

type_synonym byte = "8 word"
type_synonym u16 = "16 word"
type_synonym u32 = "32 word"
type_synonym u64 = "64 word"
type_synonym node_id = u32
type_synonym bytes = "byte list"

text \<open>
  \<open>Assert\<close> is a failed \<^verbatim>\<open>assert\<close>, \<open>Throw\<close> an exception that leaves the
  function, \<open>Undefined\<close> an access the C++ standard gives no meaning to.
\<close>

datatype error = Assert string | Throw string | Undefined string

type_synonym 'a result = "error + 'a"

fun bindE :: "'a result \<Rightarrow> ('a \<Rightarrow> 'b result) \<Rightarrow> 'b result" where
  "bindE (Inl e) f = Inl e"
| "bindE (Inr x) f = f x"

definition guardE :: "bool \<Rightarrow> error \<Rightarrow> unit result" where
  "guardE b e = (if b then Inr () else Inl e)"

lemma bindE_cong [fundef_cong]:
  "m = m' \<Longrightarrow> (\<And>x. m' = Inr x \<Longrightarrow> f x = f' x) \<Longrightarrow> bindE m f = bindE m' f'"
  by (cases m') auto

lemma bindE_Inr_iff [simp]: "bindE m f = Inr y \<longleftrightarrow> (\<exists>x. m = Inr x \<and> f x = Inr y)"
  by (cases m) auto

lemma guardE_Inr_iff [simp]: "guardE b e = Inr u \<longleftrightarrow> b"
  by (simp add: guardE_def)

lemma guardE_True [simp]: "guardE True e = Inr ()"
  by (simp add: guardE_def)

lemma guardE_False [simp]: "guardE False e = Inl e"
  by (simp add: guardE_def)

text \<open>The value of a call that succeeds, and what a function sees of it.\<close>

definition result_of :: "'a result \<Rightarrow> 'a" where
  "result_of r = (case r of Inr x \<Rightarrow> x)"

definition of_result :: "('a \<Rightarrow> 'b) \<Rightarrow> 'a result \<Rightarrow> 'b option" where
  "of_result f r = (case r of Inl e \<Rightarrow> None | Inr x \<Rightarrow> Some (f x))"

lemma result_of_Inr [simp]: "result_of (Inr x) = x"
  by (simp add: result_of_def)

lemma of_result_Some: "of_result f r = Some y \<Longrightarrow> r = Inr (result_of r) \<and> f (result_of r) = y"
  by (auto simp: of_result_def split: sum.splits)

section \<open>Linear scans\<close>

text \<open>
  \<^verbatim>\<open>for(int r = 0; r < n; ++r) if(P(r)) return r; return -1;\<close>
\<close>

fun scan_from :: "(nat \<Rightarrow> bool) \<Rightarrow> nat \<Rightarrow> nat \<Rightarrow> int" where
  "scan_from P i 0 = -1"
| "scan_from P i (Suc k) = (if P i then int i else scan_from P (Suc i) k)"

definition scan :: "(nat \<Rightarrow> bool) \<Rightarrow> nat \<Rightarrow> int" where
  "scan P n = scan_from P 0 n"

lemma scan_from_cases:
  "(scan_from P i k = -1 \<and> (\<forall>j. i \<le> j \<longrightarrow> j < i + k \<longrightarrow> \<not> P j)) \<or>
   (\<exists>r. scan_from P i k = int r \<and> i \<le> r \<and> r < i + k \<and> P r \<and> (\<forall>j. i \<le> j \<longrightarrow> j < r \<longrightarrow> \<not> P j))"
proof (induction k arbitrary: i)
  case 0
  then show ?case by simp
next
  case (Suc k)
  show ?case
  proof (cases "P i")
    case True
    then show ?thesis by auto
  next
    case False
    have le: "i \<le> j \<longleftrightarrow> j = i \<or> Suc i \<le> j" for j by auto
    from Suc[of "Suc i"] False show ?thesis
      by (simp add: le) (metis Suc_leD Suc_le_lessD le_imp_less_Suc less_irrefl_nat not_less_eq_eq)
  qed
qed

lemma scan_None_iff: "scan P n = -1 \<longleftrightarrow> (\<forall>j < n. \<not> P j)"
  using scan_from_cases[of P 0 n] by (auto simp: scan_def)

lemma scan_SomeD:
  assumes "scan P n \<noteq> -1"
  obtains r where "scan P n = int r" "r < n" "P r" "\<forall>j < r. \<not> P j"
  using assms scan_from_cases[of P 0 n] by (auto simp: scan_def)

lemma scan_eq_int_iff: "scan P n = int r \<longleftrightarrow> r < n \<and> P r \<and> (\<forall>j < r. \<not> P j)"
proof
  assume "scan P n = int r"
  then show "r < n \<and> P r \<and> (\<forall>j < r. \<not> P j)"
    using scan_SomeD[of P n] by auto
next
  assume r: "r < n \<and> P r \<and> (\<forall>j < r. \<not> P j)"
  then have "scan P n \<noteq> -1" by (auto simp: scan_None_iff)
  then obtain q where q: "scan P n = int q" "q < n" "P q" "\<forall>j < q. \<not> P j"
    by (rule scan_SomeD)
  with r have "q = r" by (meson linorder_neqE_nat)
  with q show "scan P n = int r" by simp
qed

lemma scan_ge: "-1 \<le> scan P n"
  using scan_from_cases[of P 0 n] by (auto simp: scan_def)

lemma scan_less: "0 < n \<Longrightarrow> scan P n < int n"
  using scan_from_cases[of P 0 n] by (auto simp: scan_def)

lemma scan_cong: "(\<And>i. i < n \<Longrightarrow> P i = Q i) \<Longrightarrow> scan P n = scan Q n"
proof (cases "scan Q n = -1")
  case True
  then have "scan P n = -1" if "\<And>i. i < n \<Longrightarrow> P i = Q i" using that by (simp add: scan_None_iff)
  moreover assume "\<And>i. i < n \<Longrightarrow> P i = Q i"
  ultimately show ?thesis using True by simp
next
  case False
  assume eq: "\<And>i. i < n \<Longrightarrow> P i = Q i"
  from False obtain r where r: "scan Q n = int r" by (rule scan_SomeD)
  then have "scan P n = int r" using eq by (auto simp: scan_eq_int_iff)
  with r show ?thesis by simp
qed

section \<open>Running minima\<close>

text \<open>
  \<^verbatim>\<open>m = x; for(...) if(a[i] < m) m = a[i];\<close>
\<close>

fun min_from :: "'a::linorder \<Rightarrow> 'a list \<Rightarrow> 'a" where
  "min_from m [] = m"
| "min_from m (y # ys) = min_from (if y < m then y else m) ys"

lemma min_from_le: "min_from m ys \<le> m"
  by (induction m ys rule: min_from.induct) (auto split: if_splits)

lemma min_from_le_elem: "y \<in> set ys \<Longrightarrow> min_from m ys \<le> y"
proof (induction m ys rule: min_from.induct)
  case (2 m z zs)
  have "min_from (if z < m then z else m) zs \<le> z"
    using min_from_le[of "if z < m then z else m" zs] by (auto split: if_splits)
  with 2 show ?case by auto
qed simp

lemma min_from_in: "min_from m ys \<in> insert m (set ys)"
  by (induction m ys rule: min_from.induct) (auto split: if_splits)

lemma min_from_greatest: "z \<le> m \<Longrightarrow> (\<And>y. y \<in> set ys \<Longrightarrow> z \<le> y) \<Longrightarrow> z \<le> min_from m ys"
  using min_from_in[of m ys] by auto

text \<open>\<^verbatim>\<open>std::min_element\<close>: the position of the first smallest element.\<close>

fun min_pos :: "'a::linorder list \<Rightarrow> nat" where
  "min_pos [] = 0"
| "min_pos [x] = 0"
| "min_pos (x # y # ys) =
     (let k = min_pos (y # ys) in if (y # ys) ! k < x then Suc k else 0)"

lemma min_pos_less: "xs \<noteq> [] \<Longrightarrow> min_pos xs < length xs"
  by (induction xs rule: min_pos.induct) (auto simp: Let_def)

lemma min_pos_le: "i < length xs \<Longrightarrow> xs ! min_pos xs \<le> xs ! i"
proof (induction xs arbitrary: i rule: min_pos.induct)
  case (3 x y ys)
  let ?k = "min_pos (y # ys)"
  have rest: "(y # ys) ! ?k \<le> (y # ys) ! j" if "j < length (y # ys)" for j
    using "3.IH" that by simp
  show ?case
  proof (cases i)
    case 0
    then show ?thesis by (auto simp: Let_def)
  next
    case (Suc j)
    with "3.prems" have "(y # ys) ! ?k \<le> (y # ys) ! j" by (intro rest) simp
    with Suc show ?thesis by (auto simp: Let_def)
  qed
qed auto

lemma min_pos_first: "i < min_pos xs \<Longrightarrow> xs ! min_pos xs < xs ! i"
proof (induction xs arbitrary: i rule: min_pos.induct)
  case (3 x y ys)
  then show ?case by (cases i) (auto simp: Let_def split: if_splits)
qed auto

section \<open>Lists\<close>

lemma foldl_invariant:
  "P s \<Longrightarrow> (\<And>s x. x \<in> set xs \<Longrightarrow> P s \<Longrightarrow> P (f s x)) \<Longrightarrow> P (foldl f s xs)"
  by (induction xs arbitrary: s) auto

lemma count_list_update_True:
  "i < length xs \<Longrightarrow> \<not> xs ! i \<Longrightarrow> count_list (xs[i := True]) True = Suc (count_list xs True)"
  by (induction xs arbitrary: i) (auto split: nat.splits)

lemma count_list_le_length: "count_list xs y \<le> length xs"
  by (induction xs) auto

lemma count_list_split_nth:
  "i < length xs \<Longrightarrow>
   count_list xs y = count_list (take i xs @ drop (Suc i) xs) y + (if xs ! i = y then 1 else 0)"
  by (induction xs arbitrary: i) (auto split: nat.splits simp: nth_Cons' Suc_diff_Suc gr0_conv_Suc)

section \<open>Decimal text\<close>

text \<open>
  What \<^verbatim>\<open>operator<<\<close> prints for an unsigned and for a signed number, and what
  \<^verbatim>\<open>operator>>\<close> and \<^verbatim>\<open>std::stoi\<close> read back: the longest run of digits.
\<close>

definition digit_char :: "nat \<Rightarrow> char" where
  "digit_char d = char_of (48 + d)"

definition is_digit :: "char \<Rightarrow> bool" where
  "is_digit c \<longleftrightarrow> 48 \<le> (of_char c :: nat) \<and> (of_char c :: nat) \<le> 57"

fun show_nat :: "nat \<Rightarrow> string" where
  "show_nat n = (if n < 10 then [digit_char n] else show_nat (n div 10) @ [digit_char (n mod 10)])"

declare show_nat.simps [simp del]

definition show_int :: "int \<Rightarrow> string" where
  "show_int i = (if i < 0 then CHR ''-'' # show_nat (nat (- i)) else show_nat (nat i))"

definition digits_value :: "string \<Rightarrow> nat" where
  "digits_value ds = foldl (\<lambda>v c. v * 10 + (of_char c - 48)) 0 ds"

lemma of_char_digit [simp]: "d < 10 \<Longrightarrow> (of_char (digit_char d) :: nat) = 48 + d"
  by (simp add: digit_char_def)

lemma is_digit_digit_char [simp]: "d < 10 \<Longrightarrow> is_digit (digit_char d)"
  by (simp add: is_digit_def)

lemma show_nat_digits: "c \<in> set (show_nat n) \<Longrightarrow> is_digit c"
proof (induction n rule: show_nat.induct)
  case (1 n)
  then show ?case by (cases "n < 10") (auto simp: show_nat.simps[of n])
qed

lemma show_nat_nonempty [simp]: "show_nat n \<noteq> []"
  by (subst show_nat.simps) simp

lemma digits_value_snoc: "digits_value (ds @ [c]) = digits_value ds * 10 + (of_char c - 48)"
  by (simp add: digits_value_def)

lemma digits_value_show [simp]: "digits_value (show_nat n) = n"
proof (induction n rule: show_nat.induct)
  case (1 n)
  show ?case
  proof (cases "n < 10")
    case True
    then show ?thesis by (simp add: show_nat.simps[of n] digits_value_def)
  next
    case False
    with 1 show ?thesis by (simp add: show_nat.simps[of n] digits_value_snoc)
  qed
qed

section \<open>State machines with an invariant\<close>

inductive reachable :: "('s \<Rightarrow> bool) \<Rightarrow> ('s \<Rightarrow> 's \<Rightarrow> bool) \<Rightarrow> 's \<Rightarrow> bool"
  for init step where
  reachable_init: "init s \<Longrightarrow> reachable init step s"
| reachable_step: "reachable init step s \<Longrightarrow> step s t \<Longrightarrow> reachable init step t"

lemma reachable_steps: "step\<^sup>*\<^sup>* s t \<Longrightarrow> reachable init step s \<Longrightarrow> reachable init step t"
  by (induction rule: rtranclp_induct) (auto intro: reachable_step)

locale state_machine =
  fixes init :: "'s \<Rightarrow> bool"
    and step :: "'s \<Rightarrow> 's \<Rightarrow> bool"
    and inv :: "'s \<Rightarrow> bool"
  assumes inv_init: "init s \<Longrightarrow> inv s"
    and inv_step: "inv s \<Longrightarrow> step s t \<Longrightarrow> inv t"
begin

lemma inv_reachable: "reachable init step s \<Longrightarrow> inv s"
  by (induction rule: reachable.induct) (auto intro: inv_init inv_step)

end

end
