(* ===== verification/Containers.thy ===== *)
theory Containers
  imports Prelude
begin

text \<open>
  The standard-library containers the sources rely on. \<^verbatim>\<open>std::map\<close> is a list of
  entries in increasing key order, so that \<^verbatim>\<open>begin()\<close> is its head and a range-based
  loop is a traversal of the list; the locale \<open>ordered_map\<close> is the contract its
  clients use. \<^verbatim>\<open>std::queue\<close> and \<^verbatim>\<open>std::list\<close> are lists with
  \<^verbatim>\<open>push\<close> at the end and \<^verbatim>\<open>front\<close>/\<^verbatim>\<open>pop\<close> at the head;
  \<^verbatim>\<open>set_difference\<close> is the merge loop of \<^verbatim>\<open><algorithm>\<close>.
\<close>

section \<open>std::map\<close>

type_synonym ('k, 'v) smap = "('k \<times> 'v) list"

definition sm_wf :: "('k::linorder, 'v) smap \<Rightarrow> bool" where
  "sm_wf m \<longleftrightarrow> sorted_wrt (<) (map fst m)"

fun sm_find :: "('k::linorder, 'v) smap \<Rightarrow> 'k \<Rightarrow> 'v option" where
  "sm_find [] k = None"
| "sm_find ((k', v) # m) k = (if k = k' then Some v else sm_find m k)"

text \<open>\<^verbatim>\<open>emplace\<close> leaves an existing entry alone; \<^verbatim>\<open>m[k] = v\<close> overwrites.\<close>

fun sm_emplace :: "'k::linorder \<Rightarrow> 'v \<Rightarrow> ('k, 'v) smap \<Rightarrow> ('k, 'v) smap" where
  "sm_emplace k v [] = [(k, v)]"
| "sm_emplace k v ((k', v') # m) =
     (if k < k' then (k, v) # (k', v') # m
      else if k = k' then (k', v') # m
      else (k', v') # sm_emplace k v m)"

fun sm_assign :: "'k::linorder \<Rightarrow> 'v \<Rightarrow> ('k, 'v) smap \<Rightarrow> ('k, 'v) smap" where
  "sm_assign k v [] = [(k, v)]"
| "sm_assign k v ((k', v') # m) =
     (if k < k' then (k, v) # (k', v') # m
      else if k = k' then (k, v) # m
      else (k', v') # sm_assign k v m)"

fun sm_erase :: "'k::linorder \<Rightarrow> ('k, 'v) smap \<Rightarrow> ('k, 'v) smap" where
  "sm_erase k [] = []"
| "sm_erase k ((k', v') # m) = (if k = k' then m else (k', v') # sm_erase k m)"

fun sm_begin :: "('k::linorder, 'v) smap \<Rightarrow> ('k \<times> 'v) option" where
  "sm_begin [] = None"
| "sm_begin (e # m) = Some e"

subsection \<open>Keys and the order invariant\<close>

lemma sm_wf_Nil [simp]: "sm_wf []"
  by (simp add: sm_wf_def)

lemma sm_wf_Cons [simp]: "sm_wf ((k, v) # m) \<longleftrightarrow> (\<forall>k' \<in> fst ` set m. k < k') \<and> sm_wf m"
  by (auto simp: sm_wf_def)

lemma keys_emplace: "fst ` set (sm_emplace k v m) = insert k (fst ` set m)"
  by (induction k v m rule: sm_emplace.induct) auto

lemma keys_assign: "fst ` set (sm_assign k v m) = insert k (fst ` set m)"
  by (induction k v m rule: sm_assign.induct) auto

lemma keys_erase: "sm_wf m \<Longrightarrow> fst ` set (sm_erase k m) = fst ` set m - {k}"
  by (induction k m rule: sm_erase.induct) auto

lemma sm_wf_emplace: "sm_wf m \<Longrightarrow> sm_wf (sm_emplace k v m)"
  by (induction k v m rule: sm_emplace.induct) (auto simp: keys_emplace)

lemma sm_wf_assign: "sm_wf m \<Longrightarrow> sm_wf (sm_assign k v m)"
  by (induction k v m rule: sm_assign.induct) (auto simp: keys_assign)

lemma sm_wf_erase: "sm_wf m \<Longrightarrow> sm_wf (sm_erase k m)"
  by (induction k m rule: sm_erase.induct) (auto simp: keys_erase)

lemma sm_find_None_iff: "sm_find m k = None \<longleftrightarrow> k \<notin> fst ` set m"
  by (induction m k rule: sm_find.induct) auto

lemma dom_sm_find: "dom (sm_find m) = fst ` set m"
  using sm_find_None_iff[of m] by (auto simp: dom_def)

lemma sm_find_in_set: "sm_find m k = Some v \<Longrightarrow> (k, v) \<in> set m"
  by (induction m k rule: sm_find.induct) (auto split: if_splits)

lemma sm_find_iff_in_set: "sm_wf m \<Longrightarrow> sm_find m k = Some v \<longleftrightarrow> (k, v) \<in> set m"
proof (induction m k rule: sm_find.induct)
  case (2 k' v' m k)
  then show ?case by (auto simp: image_iff)
qed simp

lemma sm_find_erase: "sm_wf m \<Longrightarrow> sm_find (sm_erase k m) = (sm_find m)(k := None)"
proof (induction k m rule: sm_erase.induct)
  case (2 k k' v' m)
  then show ?case using sm_find_None_iff[of m k] by (auto simp: fun_eq_iff)
qed auto

lemma sm_find_emplace:
  "sm_wf m \<Longrightarrow> sm_find (sm_emplace k v m) =
     (case sm_find m k of None \<Rightarrow> (sm_find m)(k \<mapsto> v) | Some _ \<Rightarrow> sm_find m)"
proof (induction k v m rule: sm_emplace.induct)
  case (2 k v k' v' m)
  have "sm_find m k = None" if "k < k'"
    using that 2 by (auto simp: sm_find_None_iff)
  with 2 show ?case by (auto simp: fun_eq_iff split: option.splits)
qed auto

lemma sm_find_assign: "sm_wf m \<Longrightarrow> sm_find (sm_assign k v m) = (sm_find m)(k \<mapsto> v)"
  by (induction k v m rule: sm_assign.induct) (auto simp: fun_eq_iff)

lemma set_emplace_subset: "set (sm_emplace k v m) \<subseteq> insert (k, v) (set m)"
  by (induction k v m rule: sm_emplace.induct) auto

lemma set_assign_subset: "set (sm_assign k v m) \<subseteq> insert (k, v) (set m)"
  by (induction k v m rule: sm_assign.induct) auto

lemma set_erase_subset: "set (sm_erase k m) \<subseteq> set m"
  by (induction k m rule: sm_erase.induct) auto

subsection \<open>The contract of an ordered map\<close>

locale ordered_map =
  fixes empty :: 'm
    and lookup :: "'m \<Rightarrow> 'k::linorder \<Rightarrow> 'v option"
    and emplace :: "'k \<Rightarrow> 'v \<Rightarrow> 'm \<Rightarrow> 'm"
    and assign :: "'k \<Rightarrow> 'v \<Rightarrow> 'm \<Rightarrow> 'm"
    and erase :: "'k \<Rightarrow> 'm \<Rightarrow> 'm"
    and least :: "'m \<Rightarrow> ('k \<times> 'v) option"
    and wf :: "'m \<Rightarrow> bool"
  assumes wf_empty: "wf empty"
    and lookup_empty: "lookup empty k = None"
    and wf_emplace: "wf m \<Longrightarrow> wf (emplace k v m)"
    and wf_assign: "wf m \<Longrightarrow> wf (assign k v m)"
    and wf_erase: "wf m \<Longrightarrow> wf (erase k m)"
    and lookup_emplace: "wf m \<Longrightarrow> lookup (emplace k v m) =
          (case lookup m k of None \<Rightarrow> (lookup m)(k \<mapsto> v) | Some _ \<Rightarrow> lookup m)"
    and lookup_assign: "wf m \<Longrightarrow> lookup (assign k v m) = (lookup m)(k \<mapsto> v)"
    and lookup_erase: "wf m \<Longrightarrow> lookup (erase k m) = (lookup m)(k := None)"
    and least_None: "wf m \<Longrightarrow> least m = None \<longleftrightarrow> lookup m = Map.empty"
    and least_lookup: "wf m \<Longrightarrow> least m = Some (k, v) \<Longrightarrow> lookup m k = Some v"
    and least_le: "wf m \<Longrightarrow> least m = Some (k, v) \<Longrightarrow> lookup m k' \<noteq> None \<Longrightarrow> k \<le> k'"
begin

lemma dom_emplace: "wf m \<Longrightarrow> dom (lookup (emplace k v m)) = insert k (dom (lookup m))"
  by (auto simp: lookup_emplace split: option.splits)

lemma dom_assign: "wf m \<Longrightarrow> dom (lookup (assign k v m)) = insert k (dom (lookup m))"
  by (simp add: lookup_assign)

lemma dom_erase: "wf m \<Longrightarrow> dom (lookup (erase k m)) = dom (lookup m) - {k}"
  by (simp add: lookup_erase)

lemma emplace_fresh:
  "wf m \<Longrightarrow> lookup m k = None \<Longrightarrow> lookup (emplace k v m) = (lookup m)(k \<mapsto> v)"
  by (simp add: lookup_emplace)

lemma erase_emplace_fresh:
  "wf m \<Longrightarrow> lookup m k = None \<Longrightarrow> lookup (erase k (emplace k v m)) = lookup m"
  by (simp add: lookup_erase wf_emplace emplace_fresh fun_eq_iff)

lemma least_of_interval:
  \<comment> \<open>the first key is the lower end of any key set that contains its lower end\<close>
  assumes "wf m" and "least m = Some (k, v)" and "a \<in> dom (lookup m)"
    and "\<And>k'. k' \<in> dom (lookup m) \<Longrightarrow> a \<le> k'"
  shows "k = a"
proof (rule antisym)
  show "k \<le> a" using assms(1-3) least_le by blast
  show "a \<le> k" using assms(1,2,4) least_lookup by blast
qed

end

interpretation std_map:
  ordered_map "[]" sm_find sm_emplace sm_assign sm_erase sm_begin sm_wf
proof
  fix m :: "('k::linorder, 'v) smap" and k k' v
  show "sm_begin m = None \<longleftrightarrow> sm_find m = Map.empty" if "sm_wf m"
    by (cases m) (auto simp: fun_eq_iff)
  show "sm_find m k = Some v" if "sm_wf m" "sm_begin m = Some (k, v)"
    using that by (cases m) auto
  show "k \<le> k'" if "sm_wf m" "sm_begin m = Some (k, v)" "sm_find m k' \<noteq> None"
    using that by (cases m) (auto simp: sm_find_None_iff[symmetric] less_imp_le split: if_splits
        dest!: sm_find_in_set)
qed (auto simp: sm_wf_emplace sm_wf_assign sm_wf_erase sm_find_emplace sm_find_assign sm_find_erase)

subsection \<open>Totals over the entries\<close>

definition sm_total :: "('v \<Rightarrow> nat) \<Rightarrow> ('k, 'v) smap \<Rightarrow> nat" where
  "sm_total f m = sum_list (map (\<lambda>(k, v). f v) m)"

lemma sm_total_Nil [simp]: "sm_total f [] = 0"
  by (simp add: sm_total_def)

lemma sm_total_Cons [simp]: "sm_total f ((k, v) # m) = f v + sm_total f m"
  by (simp add: sm_total_def)

lemma sm_total_emplace: "sm_find m k = None \<Longrightarrow> sm_wf m \<Longrightarrow> sm_total f (sm_emplace k v m) = f v + sm_total f m"
  by (induction k v m rule: sm_emplace.induct) (auto split: if_splits)

lemma sm_total_assign: "sm_find m k = None \<Longrightarrow> sm_wf m \<Longrightarrow> sm_total f (sm_assign k v m) = f v + sm_total f m"
  by (induction k v m rule: sm_assign.induct) (auto split: if_splits)

lemma sm_total_erase: "sm_find m k = Some v \<Longrightarrow> sm_total f m = f v + sm_total f (sm_erase k m)"
  by (induction k m rule: sm_erase.induct) (auto split: if_splits)

section \<open>std::set\_difference\<close>

text \<open>
  The merge loop of \<^verbatim>\<open><algorithm>\<close>: it advances through both ranges comparing the
  heads, so it computes the difference of two ranges sorted by \<^verbatim>\<open><\<close>.
\<close>

fun set_difference :: "'a::linorder list \<Rightarrow> 'a list \<Rightarrow> 'a list" where
  "set_difference [] ys = []"
| "set_difference (x # xs) [] = x # xs"
| "set_difference (x # xs) (y # ys) =
     (if x < y then x # set_difference xs (y # ys)
      else if y < x then set_difference (x # xs) ys
      else set_difference xs ys)"

lemma set_set_difference:
  "sorted_wrt (<) xs \<Longrightarrow> sorted_wrt (<) ys \<Longrightarrow> set (set_difference xs ys) = set xs - set ys"
proof (induction xs ys rule: set_difference.induct)
  case (3 x xs y ys)
  consider "x < y" | "y < x" | "x = y" by (rule linorder_cases)
  then show ?case
  proof cases
    case 1
    with "3.prems" have "x \<notin> set (y # ys)" by (auto dest: less_trans)
    with 1 3 show ?thesis by simp blast
  next
    case 2
    with "3.prems" have "y \<notin> set (x # xs)" by (auto dest: less_trans)
    with 2 3 show ?thesis by auto
  next
    case 3
    with "3.prems" have "x \<notin> set xs" by auto
    with 3 "3.IH"(3) "3.prems" show ?thesis by auto
  qed
qed auto

end
