(* ===== verification/Codec.thy ===== *)
theory Codec
  imports Prelude
begin

text \<open>
  Fixed-width little-endian integers in a byte buffer, as the sources write and read
  them by casting a \<^verbatim>\<open>char*\<close>: \<^verbatim>\<open>((uint32_t*)buf)[0] = n\<close> and back. A
  \<open>fixed_codec\<close> is such an encoding with a fixed width; the locale proves how a value
  written at the front of a buffer is read back, and the codecs of the wire structures
  are interpretations of it.
\<close>

section \<open>Little-endian integers\<close>

fun le_bytes :: "nat \<Rightarrow> nat \<Rightarrow> bytes" where
  "le_bytes 0 n = []"
| "le_bytes (Suc w) n = word_of_nat n # le_bytes w (n div 256)"

fun le_value :: "bytes \<Rightarrow> nat" where
  "le_value [] = 0"
| "le_value (b # bs) = unat b + 256 * le_value bs"

lemma length_le_bytes [simp]: "length (le_bytes w n) = w"
  by (induction w n rule: le_bytes.induct) auto

lemma le_value_le_bytes: "le_value (le_bytes w n) = n mod 256 ^ w"
proof (induction w n rule: le_bytes.induct)
  case (2 w n)
  have "unat (word_of_nat n :: byte) = n mod 256" by (simp add: unat_of_nat)
  with 2 show ?case by (simp add: mod_mult2_eq)
qed simp

definition enc32 :: "u32 \<Rightarrow> bytes" where "enc32 x = le_bytes 4 (unat x)"
definition dec32 :: "bytes \<Rightarrow> u32" where "dec32 bs = word_of_nat (le_value (take 4 bs))"
definition enc64 :: "u64 \<Rightarrow> bytes" where "enc64 x = le_bytes 8 (unat x)"
definition dec64 :: "bytes \<Rightarrow> u64" where "dec64 bs = word_of_nat (le_value (take 8 bs))"
definition enc_bool :: "bool \<Rightarrow> bytes" where "enc_bool b = [if b then 1 else 0]"
definition dec_bool :: "bytes \<Rightarrow> bool" where "dec_bool bs = (case bs of [] \<Rightarrow> False | b # _ \<Rightarrow> b \<noteq> 0)"

section \<open>Fixed-width codecs\<close>

locale fixed_codec =
  fixes enc :: "'a \<Rightarrow> bytes"
    and dec :: "bytes \<Rightarrow> 'a"
    and width :: nat
  assumes enc_length: "length (enc x) = width"
    and dec_enc: "dec (enc x @ rest) = x"
begin

lemma dec_exact: "dec (enc x) = x"
  using dec_enc[of x "[]"] by simp

lemma drop_enc: "drop width (enc x @ rest) = rest"
  by (simp add: enc_length)

lemma take_enc: "take width (enc x @ rest) = enc x"
  by (simp add: enc_length)

lemma enc_inject: "enc x = enc y \<longleftrightarrow> x = y"
  using dec_exact by metis

lemma dec_overwrite:
  \<comment> \<open>a value stored at the front of a buffer is what a later load reads\<close>
  "dec (enc x @ drop width buf) = x"
  by (rule dec_enc)

lemma overwrite_length: "width \<le> length buf \<Longrightarrow> length (enc x @ drop width buf) = length buf"
  by (simp add: enc_length)

end

interpretation u32_codec: fixed_codec enc32 dec32 4
proof
  fix x :: u32 and rest
  show "dec32 (enc32 x @ rest) = x"
    using unsigned_less[where ?'a = nat, of x]
    by (simp add: dec32_def enc32_def le_value_le_bytes)
qed (simp add: enc32_def)

interpretation u64_codec: fixed_codec enc64 dec64 8
proof
  fix x :: u64 and rest
  show "dec64 (enc64 x @ rest) = x"
    using unsigned_less[where ?'a = nat, of x]
    by (simp add: dec64_def enc64_def le_value_le_bytes)
qed (simp add: enc64_def)

interpretation bool_codec: fixed_codec enc_bool dec_bool 1
  by unfold_locales (auto simp: enc_bool_def dec_bool_def)

section \<open>Runs of 32-bit words\<close>

text \<open>\<^verbatim>\<open>for(i...) { n = ((node_id_t*)buf)[0]; buf += sizeof(node_id_t); }\<close>\<close>

fun dec32_list :: "nat \<Rightarrow> bytes \<Rightarrow> u32 list" where
  "dec32_list 0 bs = []"
| "dec32_list (Suc n) bs = dec32 bs # dec32_list n (drop 4 bs)"

definition enc32_list :: "u32 list \<Rightarrow> bytes" where
  "enc32_list xs = concat (map enc32 xs)"

lemma length_enc32_list [simp]: "length (enc32_list xs) = 4 * length xs"
  by (induction xs) (auto simp: enc32_list_def u32_codec.enc_length)

lemma dec32_list_enc: "dec32_list (length xs) (enc32_list xs @ rest) = xs"
proof (induction xs)
  case (Cons x xs)
  then show ?case
    by (simp add: enc32_list_def u32_codec.dec_enc u32_codec.enc_length)
qed (simp add: enc32_list_def)

end
