(* ===== verification/Sst_Row.thy ===== *)
theory Sst_Row
  imports Containers Codec
begin

text \<open>
  The row of the shared state table (\<^verbatim>\<open>derecho_row.h\<close>, \<^verbatim>\<open>derecho_row.cpp\<close>) and the
  part of the table object the code handles: the rows as this node sees them, the index
  of its own row, the predicates it has registered and the calls it has made. The
  table's implementation is a separate library: \<^verbatim>\<open>put\<close>, \<^verbatim>\<open>freeze\<close> and
  \<^verbatim>\<open>sync_with_members\<close> are recorded as calls, and what other nodes' rows become
  is left to the environment.
\<close>

section \<open>The row\<close>

record derecho_row =
  seq_num :: int
  stable_num :: int
  delivered_num :: int
  persisted_num :: int
  row_vid :: int
  suspected :: "bool list"
  changes :: "node_id list"
  joiner_ip :: string
  nChanges :: int
  nCommitted :: int
  nAcked :: int
  nReceived :: "int list"
  wedged :: bool
  globalMin :: "int list"
  globalMinReady :: bool

text \<open>Arrays of the row have the template parameter \<open>N\<close> as their length; a \<^verbatim>\<open>cstring\<close> has 50.\<close>

definition row_wf :: "nat \<Rightarrow> derecho_row \<Rightarrow> bool" where
  "row_wf N r \<longleftrightarrow> length (suspected r) = N \<and> length (changes r) = N \<and>
     length (joiner_ip r) = 50 \<and> length (nReceived r) = N \<and> length (globalMin r) = N"

definition set_array_prefix :: "'a list \<Rightarrow> 'a list \<Rightarrow> nat \<Rightarrow> 'a list" where
  "set_array_prefix dst src num = take num src @ drop num dst"

text \<open>\<^verbatim>\<open>init(newRow, vid)\<close>, \<^verbatim>\<open>init(newRow)\<close> and \<^verbatim>\<open>init_from_existing\<close>.\<close>

definition init_row_vid :: "nat \<Rightarrow> derecho_row \<Rightarrow> int \<Rightarrow> derecho_row" where
  "init_row_vid N newRow v = newRow\<lparr>row_vid := v,
     suspected := replicate N False,
     globalMin := replicate N 0,
     changes := replicate N 0,
     nChanges := v, nCommitted := v, nAcked := v,
     wedged := False, globalMinReady := False\<rparr>"

definition init_row :: "nat \<Rightarrow> derecho_row \<Rightarrow> derecho_row" where
  "init_row N newRow = init_row_vid N newRow 0"

definition init_from_existing :: "nat \<Rightarrow> derecho_row \<Rightarrow> derecho_row \<Rightarrow> derecho_row" where
  "init_from_existing N newRow existingRow = newRow\<lparr>
     changes := changes existingRow,
     suspected := replicate N False,
     globalMin := replicate N 0,
     nChanges := nChanges existingRow,
     nCommitted := nCommitted existingRow,
     nAcked := nAcked existingRow,
     wedged := False, globalMinReady := False\<rparr>"

section \<open>C strings in a row\<close>

text \<open>
  A \<^verbatim>\<open>cstring\<close> is 50 characters; its text ends at the first NUL. \<^verbatim>\<open>strcpy\<close> copies
  the text of the source and one NUL, and has no meaning when they do not fit.
\<close>

definition NUL :: char where
  "NUL = CHR 0x00"

definition c_str :: "string \<Rightarrow> string" where
  "c_str s = takeWhile (\<lambda>c. c \<noteq> NUL) s"

definition set_cstring :: "string \<Rightarrow> string \<Rightarrow> string result" where
  "set_cstring element v =
     (let t = c_str v in
      if length t < length element
      then Inr (t @ [NUL] @ drop (Suc (length t)) element)
      else Inl (Undefined ''strcpy past the end of a cstring''))"

definition equals_cstring :: "string \<Rightarrow> string \<Rightarrow> bool" where
  "equals_cstring element v \<longleftrightarrow> c_str element = c_str v"

definition increment :: "int \<Rightarrow> int" where
  "increment member = member + 1"

section \<open>The table as this node holds it\<close>

text \<open>
  The predicates the code registers, named by the lambda they stand for. The one-time
  predicates of a view change carry the values their lambdas capture.
\<close>

datatype pred_id =
    Stability | Delivery | Sender
  | Suspected_changed | Start_join | Change_commit_ready | Leader_proposed | Leader_committed
  | Meta_wedged bool int | GlobalMin_ready bool int

datatype sst_call = Put derecho_row | Freeze nat | Sync | Start_predicates

record sst =
  rows :: "derecho_row list"
  local_index :: nat
  preds :: "pred_id list"
  calls :: "sst_call list"

abbreviation num_rows :: "sst \<Rightarrow> nat" where
  "num_rows s \<equiv> length (rows s)"

definition local_row :: "sst \<Rightarrow> derecho_row" where
  "local_row s = rows s ! local_index s"

definition set_row :: "nat \<Rightarrow> derecho_row \<Rightarrow> sst \<Rightarrow> sst" where
  "set_row i r s = s\<lparr>rows := (rows s)[i := r]\<rparr>"

definition set_local :: "derecho_row \<Rightarrow> sst \<Rightarrow> sst" where
  "set_local r s = set_row (local_index s) r s"

definition upd_local :: "(derecho_row \<Rightarrow> derecho_row) \<Rightarrow> sst \<Rightarrow> sst" where
  "upd_local f s = set_local (f (local_row s)) s"

definition put :: "sst \<Rightarrow> sst" where
  "put s = s\<lparr>calls := calls s @ [Put (local_row s)]\<rparr>"

definition freeze :: "nat \<Rightarrow> sst \<Rightarrow> sst" where
  "freeze q s = s\<lparr>calls := calls s @ [Freeze q]\<rparr>"

definition sync_with_members :: "sst \<Rightarrow> sst" where
  "sync_with_members s = s\<lparr>calls := calls s @ [Sync]\<rparr>"

definition start_predicate_evaluation :: "sst \<Rightarrow> sst" where
  "start_predicate_evaluation s = s\<lparr>calls := calls s @ [Start_predicates]\<rparr>"

definition insert_pred :: "pred_id \<Rightarrow> sst \<Rightarrow> sst" where
  "insert_pred p s = s\<lparr>preds := preds s @ [p]\<rparr>"

definition remove_pred :: "pred_id \<Rightarrow> sst \<Rightarrow> sst" where
  "remove_pred p s = s\<lparr>preds := removeAll p (preds s)\<rparr>"

definition delete_all_predicates :: "sst \<Rightarrow> sst" where
  "delete_all_predicates s = s\<lparr>preds := []\<rparr>"

definition sst_wf :: "nat \<Rightarrow> sst \<Rightarrow> bool" where
  "sst_wf N s \<longleftrightarrow> local_index s < num_rows s \<and> (\<forall>r \<in> set (rows s). row_wf N r)"

section \<open>Lemmas on rows\<close>

named_theorems sst_simps

lemma row_wf_init [simp]:
  "length (joiner_ip r) = 50 \<Longrightarrow> length (nReceived r) = N \<Longrightarrow> row_wf N (init_row_vid N r v)"
  by (simp add: row_wf_def init_row_vid_def)

lemma row_wf_init_from_existing:
  "row_wf N r \<Longrightarrow> row_wf N e \<Longrightarrow> row_wf N (init_from_existing N r e)"
  by (simp add: row_wf_def init_from_existing_def)

lemma length_set_array_prefix:
  "num \<le> length src \<Longrightarrow> num \<le> length dst \<Longrightarrow> length (set_array_prefix dst src num) = length dst"
  by (simp add: set_array_prefix_def)

lemma nth_set_array_prefix:
  "num \<le> length src \<Longrightarrow> num \<le> length dst \<Longrightarrow> i < length dst \<Longrightarrow>
   set_array_prefix dst src num ! i = (if i < num then src ! i else dst ! i)"
  by (auto simp: set_array_prefix_def nth_append)

lemma c_str_idem [simp]: "c_str (c_str v) = c_str v"
  by (simp add: c_str_def takeWhile_idem)

lemma c_str_append_NUL [simp]: "c_str (c_str v @ NUL # rest) = c_str v"
  by (simp add: c_str_def takeWhile_tail)

lemma length_set_cstring: "set_cstring element v = Inr e \<Longrightarrow> length e = length element"
  by (auto simp: set_cstring_def Let_def split: if_splits)

lemma set_cstring_reads_back: "set_cstring element v = Inr e \<Longrightarrow> c_str e = c_str v"
  by (auto simp: set_cstring_def Let_def split: if_splits)

section \<open>Lemmas on the table\<close>

lemma local_row_set_local [sst_simps]:
  "local_index s < num_rows s \<Longrightarrow> local_row (set_local r s) = r"
  by (simp add: local_row_def set_local_def set_row_def)

lemma local_row_upd_local [sst_simps]:
  "local_index s < num_rows s \<Longrightarrow> local_row (upd_local f s) = f (local_row s)"
  by (simp add: upd_local_def local_row_set_local)

lemma rows_upd_local [sst_simps]:
  "rows (upd_local f s) = (rows s)[local_index s := f (rows s ! local_index s)]"
  by (simp add: upd_local_def set_local_def set_row_def local_row_def)

lemma upd_local_fields [sst_simps]:
  "local_index (upd_local f s) = local_index s" "preds (upd_local f s) = preds s"
  "calls (upd_local f s) = calls s" "num_rows (upd_local f s) = num_rows s"
  by (simp_all add: upd_local_def set_local_def set_row_def)

lemma put_fields [sst_simps]:
  "rows (put s) = rows s" "local_index (put s) = local_index s" "preds (put s) = preds s"
  "local_row (put s) = local_row s"
  by (simp_all add: put_def local_row_def)

lemma freeze_fields [sst_simps]:
  "rows (freeze q s) = rows s" "local_index (freeze q s) = local_index s"
  "preds (freeze q s) = preds s" "local_row (freeze q s) = local_row s"
  by (simp_all add: freeze_def local_row_def)

lemma sync_fields [sst_simps]:
  "rows (sync_with_members s) = rows s" "local_index (sync_with_members s) = local_index s"
  "preds (sync_with_members s) = preds s" "local_row (sync_with_members s) = local_row s"
  by (simp_all add: sync_with_members_def local_row_def)

lemma pred_fields [sst_simps]:
  "rows (insert_pred p s) = rows s" "rows (remove_pred p s) = rows s"
  "local_index (insert_pred p s) = local_index s" "local_index (remove_pred p s) = local_index s"
  "local_row (insert_pred p s) = local_row s" "local_row (remove_pred p s) = local_row s"
  "calls (insert_pred p s) = calls s" "calls (remove_pred p s) = calls s"
  by (simp_all add: insert_pred_def remove_pred_def local_row_def)

lemma row_other_upd_local [sst_simps]:
  "i \<noteq> local_index s \<Longrightarrow> rows (upd_local f s) ! i = rows s ! i"
  by (simp add: rows_upd_local)

lemma sst_wf_put [sst_simps]: "sst_wf N (put s) = sst_wf N s"
  by (simp add: sst_wf_def put_fields)

lemma sst_wf_upd_local:
  "sst_wf N s \<Longrightarrow> (row_wf N (local_row s) \<Longrightarrow> row_wf N (f (local_row s))) \<Longrightarrow> sst_wf N (upd_local f s)"
  unfolding sst_wf_def local_row_def by (auto simp: sst_simps set_update_subset_insert
      dest!: set_update_subset_insert[THEN subsetD])

lemma sst_wf_local: "sst_wf N s \<Longrightarrow> row_wf N (local_row s)"
  by (simp add: sst_wf_def local_row_def)

lemma sst_wf_row: "sst_wf N s \<Longrightarrow> i < num_rows s \<Longrightarrow> row_wf N (rows s ! i)"
  by (simp add: sst_wf_def)

end
