(* ===== verification/Rpc.thy ===== *)
theory Rpc
  imports Containers Codec
begin

text \<open>
  Remote invocation (\<^verbatim>\<open>derecho_caller.h\<close>): the 24-byte message header, the promises a
  caller waits on (\<^verbatim>\<open>PendingResults\<close>, \<^verbatim>\<open>QueryResults\<close>), the invocation and reply
  formats of \<^verbatim>\<open>RemoteInvocable\<close>, and the \<^verbatim>\<open>Dispatcher\<close> that routes a message by its
  opcode. What a registered function does with its serialised arguments
  (\<^verbatim>\<open>from_bytes\<close>, the call, \<^verbatim>\<open>to_bytes\<close>) is the field \<open>fn\<close> of an
  invocable; the random invocation ids are arguments.
\<close>

section \<open>The message header\<close>

definition header_space :: nat where
  "header_space = 8 + 8 + 8"

definition populate_header :: "bytes \<Rightarrow> u64 \<Rightarrow> u64 \<Rightarrow> u64 \<Rightarrow> bytes" where
  "populate_header reply_buf payload_size op from =
     enc64 payload_size @ enc64 op @ enc64 from @ drop header_space reply_buf"

definition retrieve_header :: "bytes \<Rightarrow> u64 \<times> u64 \<times> u64" where
  "retrieve_header reply_buf =
     (dec64 reply_buf, dec64 (drop 8 reply_buf), dec64 (drop (8 + 8) reply_buf))"

section \<open>Promises and futures\<close>

datatype exn = Remote_exception u64 | Node_removed u64

datatype outcome = Unset | Value bytes | Exception exn

record promise =
  future_taken :: bool
  outcome :: outcome

definition new_promise :: promise where
  "new_promise = \<lparr>future_taken = False, outcome = Unset\<rparr>"

definition get_future :: "promise \<Rightarrow> promise result" where
  "get_future p = (if future_taken p then Inl (Throw ''future_already_retrieved'')
                   else Inr (p\<lparr>future_taken := True\<rparr>))"

definition satisfy :: "outcome \<Rightarrow> promise \<Rightarrow> promise result" where
  "satisfy o' p = (if outcome p \<noteq> Unset then Inl (Throw ''promise_already_satisfied'')
                   else Inr (p\<lparr>outcome := o'\<rparr>))"

section \<open>PendingResults\<close>

text \<open>
  \<open>pending_map\<close> holds the keys of the reply map once the promise of that map is
  fulfilled; \<open>map_taken\<close> says that the future of the map has been retrieved.
\<close>

record pending_results =
  pending_map :: "u64 list option"
  map_taken :: bool
  populated_promises :: "(u64, promise) smap"
  map_fulfilled :: bool
  dest_nodes :: "u64 set"
  set_nodes :: "u64 set"

definition new_pending :: pending_results where
  "new_pending = \<lparr>pending_map = None, map_taken = False, populated_promises = [],
     map_fulfilled = False, dest_nodes = {}, set_nodes = {}\<rparr>"

definition promise_of :: "pending_results \<Rightarrow> u64 \<Rightarrow> promise" where
  "promise_of pr n = (case sm_find (populated_promises pr) n of None \<Rightarrow> new_promise | Some p \<Rightarrow> p)"

definition set_promise :: "u64 \<Rightarrow> promise \<Rightarrow> pending_results \<Rightarrow> pending_results" where
  "set_promise n p pr = pr\<lparr>populated_promises := sm_assign n p (populated_promises pr)\<rparr>"

fun take_futures :: "u64 list \<Rightarrow> pending_results \<Rightarrow> pending_results result" where
  "take_futures [] pr = Inr pr"
| "take_futures (e # who) pr =
     bindE (get_future (promise_of pr e)) (\<lambda>p. take_futures who (set_promise e p pr))"

definition fulfill_map :: "u64 list \<Rightarrow> pending_results \<Rightarrow> pending_results result" where
  "fulfill_map who pr =
     bindE (take_futures who (pr\<lparr>map_fulfilled := True\<rparr>)) (\<lambda>pr1.
       let pr2 = pr1\<lparr>dest_nodes := dest_nodes pr1 \<union> set who\<rparr>
       in if pending_map pr2 \<noteq> None then Inl (Throw ''promise_already_satisfied'')
          else Inr (pr2\<lparr>pending_map := Some (remdups who)\<rparr>))"

definition pr_set_value :: "u64 \<Rightarrow> bytes \<Rightarrow> pending_results \<Rightarrow> pending_results result" where
  "pr_set_value n v pr =
     (let pr = pr\<lparr>set_nodes := insert n (set_nodes pr)\<rparr>
      in bindE (satisfy (Value v) (promise_of pr n)) (\<lambda>p. Inr (set_promise n p pr)))"

definition pr_set_exception :: "u64 \<Rightarrow> exn \<Rightarrow> pending_results \<Rightarrow> pending_results result" where
  "pr_set_exception n e pr =
     (let pr = pr\<lparr>set_nodes := insert n (set_nodes pr)\<rparr>
      in bindE (satisfy (Exception e) (promise_of pr n)) (\<lambda>p. Inr (set_promise n p pr)))"

definition set_exception_for_removed_node :: "u64 \<Rightarrow> pending_results \<Rightarrow> pending_results result" where
  "set_exception_for_removed_node n pr =
     bindE (guardE (map_fulfilled pr) (Assert ''map_fulfilled'')) (\<lambda>_.
       if n \<in> dest_nodes pr \<and> n \<notin> set_nodes pr
       then pr_set_exception n (Node_removed n) pr else Inr pr)"

definition pr_get_future :: "pending_results \<Rightarrow> pending_results result" where
  "pr_get_future pr = (if map_taken pr then Inl (Throw ''future_already_retrieved'')
                       else Inr (pr\<lparr>map_taken := True\<rparr>))"

section \<open>QueryResults\<close>

text \<open>
  The caller's side: \<open>rmap\<close> is the reply map once moved out of the future, with the
  nodes whose future is still valid. \<open>None\<close> as a result of a read is "blocks".
\<close>

record query_results =
  rmap :: "u64 list"
  valid_futures :: "u64 list"

definition new_query :: query_results where
  "new_query = \<lparr>rmap = [], valid_futures = []\<rparr>"

definition query_wait :: "pending_results \<Rightarrow> query_results \<Rightarrow> query_results option" where
  "query_wait pr q =
     (if rmap q = [] then
        (case pending_map pr of Some ks \<Rightarrow> Some (q\<lparr>rmap := ks, valid_futures := ks\<rparr>) | None \<Rightarrow> None)
      else Some q)"

definition reply_get :: "pending_results \<Rightarrow> query_results \<Rightarrow> u64 \<Rightarrow> ((outcome \<times> query_results) result) option" where
  "reply_get pr q n =
     (case query_wait pr q of
        None \<Rightarrow> None
      | Some q' \<Rightarrow>
          if rmap q' = [] then Some (Inl (Assert ''rmap.size() > 0''))
          else if n \<notin> set (rmap q') then Some (Inl (Assert ''rmap.count(nid)''))
          else if n \<notin> set (valid_futures q') then Some (Inl (Assert ''rmap.at(nid).valid()''))
          else if outcome (promise_of pr n) = Unset then None
          else Some (Inr (outcome (promise_of pr n),
                          q'\<lparr>valid_futures := removeAll n (valid_futures q')\<rparr>)))"

section \<open>RemoteInvocable\<close>

text \<open>
  \<open>fn obj args\<close> is the registered function applied to its serialised arguments: the
  object's new state and the serialised result, or \<open>None\<close> when the call throws.
\<close>

record 'o invocable =
  invoke_id :: u64
  reply_id :: u64
  is_void :: bool
  fn :: "'o \<Rightarrow> bytes \<Rightarrow> 'o \<times> bytes option"
  ret :: "(u64, pending_results) smap"

text \<open>
  A size reaches its allocator as an \<^verbatim>\<open>int\<close>, and the sizes of the arguments of a call are
  summed in one. From 2 GiB on the number is another: negative, which the allocators of the
  sources take back as a \<^verbatim>\<open>size_t\<close> and refuse with a null pointer, or too small, so that the
  bytes run past the buffer before any assertion on the size. The write is undefined either
  way, as it is through the null pointer of any other size refused.
\<close>

definition int_alloc :: "(nat \<Rightarrow> bool) \<Rightarrow> nat \<Rightarrow> bool" where
  "int_alloc out_alloc n \<longleftrightarrow> n < 2 ^ 31 \<and> out_alloc n"

lemma int_alloc_code [code]: "int_alloc out_alloc n \<longleftrightarrow> int n < 2 ^ 31 \<and> out_alloc n"
  by (simp add: int_alloc_def)

lemma int_alloc_nested [simp]:
  "int_alloc (\<lambda>size. int_alloc out_alloc (size + header_space)) k = int_alloc out_alloc (k + header_space)"
  by (auto simp: int_alloc_def)

text \<open>
  \<^verbatim>\<open>Send\<close>: the allocator is asked for the whole size; a null result is written
  through. The result is the payload and the map entry of the invocation, default-created.
\<close>

definition invocable_send ::
  "'o invocable \<Rightarrow> u64 \<Rightarrow> bytes list \<Rightarrow> (nat \<Rightarrow> bool) \<Rightarrow> ('o invocable \<times> bytes) result" where
  "invocable_send h inv_id args out_alloc =
     (let size = 8 + sum_list (map length args) in
      if \<not> int_alloc out_alloc size then Inl (Undefined ''write outside a buffer'')
      else
        (let buf = enc64 inv_id @ concat args;
             pr = (case sm_find (ret h) inv_id of None \<Rightarrow> new_pending | Some p \<Rightarrow> p)
         in bindE (guardE (length buf = size) (Assert ''check_size == size'')) (\<lambda>_.
            bindE (pr_get_future pr) (\<lambda>pr'.
              Inr (h\<lparr>ret := sm_assign inv_id pr' (ret h)\<rparr>, buf)))))"

definition receive_call ::
  "'o invocable \<Rightarrow> 'o \<Rightarrow> bytes \<Rightarrow> (nat \<Rightarrow> bool) \<Rightarrow> ('o \<times> bytes option) result" where
  "receive_call h obj recv_buf out_alloc =
     (let inv_id = dec64 recv_buf; (obj', r) = fn h obj (drop 8 recv_buf)
      in if is_void h then
           (case r of None \<Rightarrow> Inl (Throw ''exception of the invoked function'')
            | Some _ \<Rightarrow> Inr (obj', None))
         else
           (let out = (case r of Some res \<Rightarrow> enc_bool False @ enc64 inv_id @ res
                       | None \<Rightarrow> enc_bool True @ enc64 inv_id)
            in if \<not> int_alloc out_alloc (length out) then Inl (Undefined ''write outside a buffer'')
               else Inr (obj', Some out)))"

definition receive_response :: "'o invocable \<Rightarrow> u64 \<Rightarrow> bytes \<Rightarrow> 'o invocable result" where
  "receive_response h n response =
     (let is_exception = dec_bool response; inv_id = dec64 (drop 1 response)
      in if is_void h then
           (if is_exception then Inl (Throw ''remote_exception_occurred'')
            else Inl (Assert ''was not expecting a response!''))
         else
           (case sm_find (ret h) inv_id of
              None \<Rightarrow> Inl (Assert ''ret.count(invocation_id)'')
            | Some pr \<Rightarrow>
                bindE (if is_exception then pr_set_exception n (Remote_exception n) pr
                       else pr_set_value n (drop (1 + 8) response) pr)
                  (\<lambda>pr'. Inr (h\<lparr>ret := sm_assign inv_id pr' (ret h)\<rparr>))))"

section \<open>Dispatcher\<close>

record 'o dispatcher =
  nid :: u64
  invs :: "'o invocable list"
  objects :: 'o

definition route :: "(u64 \<Rightarrow> 'o invocable \<Rightarrow> bool) \<Rightarrow> u64 \<Rightarrow> 'o dispatcher \<Rightarrow> int" where
  "route P opcode d = scan (\<lambda>k. P opcode (invs d ! k)) (length (invs d))"

text \<open>
  \<^verbatim>\<open>handle_receive(indx, received_from, buf, payload_size, out_alloc)\<close>: the reply
  buffer is allocated with room for the header, which is filled in afterwards.
\<close>

definition handle_receive ::
  "'o dispatcher \<Rightarrow> u64 \<Rightarrow> u64 \<Rightarrow> bytes \<Rightarrow> u64 \<Rightarrow> (nat \<Rightarrow> bool) \<Rightarrow> ('o dispatcher \<times> bytes) result" where
  "handle_receive d indx received_from buf payload_size out_alloc =
     bindE (guardE (payload_size \<noteq> 0) (Assert ''payload_size'')) (\<lambda>_.
       let k = route (\<lambda>op h. op = invoke_id h) indx d;
           j = route (\<lambda>op h. op = reply_id h) indx d
       in if k \<noteq> -1 then
            (let h = invs d ! nat k in
             bindE (receive_call h (objects d) buf (\<lambda>size. int_alloc out_alloc (size + header_space)))
               (\<lambda>(obj', reply). case reply of
                   None \<Rightarrow> Inr (d\<lparr>objects := obj'\<rparr>, [])
                 | Some out \<Rightarrow>
                     Inr (d\<lparr>objects := obj'\<rparr>,
                          populate_header (replicate header_space 0 @ out)
                            (word_of_nat (length out)) (reply_id h) (nid d))))
          else if j \<noteq> -1 then
            bindE (receive_response (invs d ! nat j) received_from buf)
              (\<lambda>h'. Inr (d\<lparr>invs := (invs d)[nat j := h']\<rparr>, []))
          else Inl (Throw ''out_of_range''))"

text \<open>\<^verbatim>\<open>handle_receive(buf, size, out_alloc)\<close>: the header in the buffer replaces \<^verbatim>\<open>size\<close>.\<close>

definition handle_receive_buf ::
  "'o dispatcher \<Rightarrow> bytes \<Rightarrow> (nat \<Rightarrow> bool) \<Rightarrow> ('o dispatcher \<times> bytes) result" where
  "handle_receive_buf d buf out_alloc =
     (let (payload_size, indx, received_from) = retrieve_header buf
      in handle_receive d indx received_from (drop header_space buf) payload_size out_alloc)"

text \<open>\<^verbatim>\<open>RemoteInvocableClass::Send\<close> for the invocable at position \<open>k\<close>.\<close>

definition dispatcher_send ::
  "'o dispatcher \<Rightarrow> nat \<Rightarrow> u64 \<Rightarrow> bytes list \<Rightarrow> (nat \<Rightarrow> bool) \<Rightarrow> ('o dispatcher \<times> bytes) result" where
  "dispatcher_send d k inv_id args out_alloc =
     bindE (invocable_send (invs d ! k) inv_id args (\<lambda>size. int_alloc out_alloc (size + header_space)))
       (\<lambda>(h', payload).
          Inr (d\<lparr>invs := (invs d)[k := h']\<rparr>,
               populate_header (replicate header_space 0 @ payload)
                 (word_of_nat (length payload)) (invoke_id h') (nid d)))"

text \<open>
  A \<^verbatim>\<open>Pending<Ret>\<close> refers to one entry of an invocable's \<^verbatim>\<open>ret\<close> map: the
  invocable's position and the invocation id.
\<close>

type_synonym pref = "nat \<times> u64"

definition pending_at :: "'o dispatcher \<Rightarrow> pref \<Rightarrow> pending_results option" where
  "pending_at d p = (if fst p < length (invs d) then sm_find (ret (invs d ! fst p)) (snd p) else None)"

definition update_pending ::
  "(pending_results \<Rightarrow> pending_results result) \<Rightarrow> pref \<Rightarrow> 'o dispatcher \<Rightarrow> 'o dispatcher result" where
  "update_pending f p d =
     (case pending_at d p of
        None \<Rightarrow> Inl (Undefined ''dangling PendingResults reference'')
      | Some pr \<Rightarrow> bindE (f pr) (\<lambda>pr'.
          let h = invs d ! fst p
          in Inr (d\<lparr>invs := (invs d)[fst p := h\<lparr>ret := sm_assign (snd p) pr' (ret h)\<rparr>]\<rparr>)))"

definition pending_fulfill_map :: "node_id list \<Rightarrow> pref \<Rightarrow> 'o dispatcher \<Rightarrow> 'o dispatcher result" where
  "pending_fulfill_map nodes p d = update_pending (fulfill_map (map ucast nodes)) p d"

definition pending_set_removed :: "node_id \<Rightarrow> pref \<Rightarrow> 'o dispatcher \<Rightarrow> 'o dispatcher result" where
  "pending_set_removed removed p d = update_pending (set_exception_for_removed_node (ucast removed)) p d"

section \<open>The header round trip\<close>

lemma length_populate_header [simp]:
  "header_space \<le> length buf \<Longrightarrow> length (populate_header buf s p f) = length buf"
  by (simp add: populate_header_def header_space_def u64_codec.enc_length)

lemma header_roundtrip: "retrieve_header (populate_header buf s p f) = (s, p, f)"
proof -
  have "drop 16 (enc64 s @ enc64 p @ enc64 f @ rest) = enc64 f @ rest" for rest
    by (simp add: u64_codec.enc_length)
  then show ?thesis
    by (simp add: retrieve_header_def populate_header_def u64_codec.dec_enc u64_codec.enc_length)
qed

lemma drop_populate_header [simp]:
  "drop header_space (populate_header buf s p f) = drop header_space buf"
  by (simp add: populate_header_def header_space_def u64_codec.enc_length)

section \<open>The promise invariant\<close>

text \<open>
  A node is in \<open>set_nodes\<close> exactly when its promise is satisfied, and in
  \<open>dest_nodes\<close> exactly when its future has been handed out in the reply map.
\<close>

definition pr_wf :: "pending_results \<Rightarrow> bool" where
  "pr_wf pr \<longleftrightarrow> sm_wf (populated_promises pr) \<and>
     (\<forall>n. n \<in> set_nodes pr \<longleftrightarrow> outcome (promise_of pr n) \<noteq> Unset) \<and>
     (\<forall>n. n \<in> dest_nodes pr \<longleftrightarrow> future_taken (promise_of pr n)) \<and>
     (case pending_map pr of None \<Rightarrow> \<not> map_fulfilled pr \<and> dest_nodes pr = {}
      | Some ks \<Rightarrow> map_fulfilled pr \<and> set ks = dest_nodes pr)"

lemma pr_wf_new: "pr_wf new_pending"
  by (simp add: pr_wf_def new_pending_def promise_of_def new_promise_def)

lemma promise_of_set_promise [simp]:
  "sm_wf (populated_promises pr) \<Longrightarrow>
   promise_of (set_promise n p pr) m = (if m = n then p else promise_of pr m)"
  by (simp add: promise_of_def set_promise_def sm_find_assign)

lemma set_promise_fields [simp]:
  "pending_map (set_promise n p pr) = pending_map pr" "map_fulfilled (set_promise n p pr) = map_fulfilled pr"
  "dest_nodes (set_promise n p pr) = dest_nodes pr" "set_nodes (set_promise n p pr) = set_nodes pr"
  "map_taken (set_promise n p pr) = map_taken pr"
  by (simp_all add: set_promise_def)

lemma sm_wf_set_promise [simp]:
  "sm_wf (populated_promises pr) \<Longrightarrow> sm_wf (populated_promises (set_promise n p pr))"
  by (simp add: set_promise_def sm_wf_assign)

lemma promise_of_other_fields [simp]:
  "promise_of (pr\<lparr>map_fulfilled := b\<rparr>) n = promise_of pr n"
  "promise_of (pr\<lparr>dest_nodes := D\<rparr>) n = promise_of pr n"
  "promise_of (pr\<lparr>set_nodes := S\<rparr>) n = promise_of pr n"
  "promise_of (pr\<lparr>pending_map := M\<rparr>) n = promise_of pr n"
  "promise_of (pr\<lparr>map_taken := t\<rparr>) n = promise_of pr n"
  by (simp_all add: promise_of_def)

lemma take_futures_ok:
  assumes "sm_wf (populated_promises pr)" "distinct who"
    and "\<forall>e \<in> set who. \<not> future_taken (promise_of pr e)"
  shows "\<exists>pr'. take_futures who pr = Inr pr' \<and> sm_wf (populated_promises pr') \<and>
     (\<forall>n. promise_of pr' n = (if n \<in> set who then (promise_of pr n)\<lparr>future_taken := True\<rparr> else promise_of pr n)) \<and>
     pending_map pr' = pending_map pr \<and> map_fulfilled pr' = map_fulfilled pr \<and>
     dest_nodes pr' = dest_nodes pr \<and> set_nodes pr' = set_nodes pr \<and> map_taken pr' = map_taken pr"
  using assms
proof (induction who arbitrary: pr)
  case (Cons e who)
  let ?p = "(promise_of pr e)\<lparr>future_taken := True\<rparr>"
  have head: "get_future (promise_of pr e) = Inr ?p"
    using Cons.prems by (simp add: get_future_def)
  have prems: "sm_wf (populated_promises (set_promise e ?p pr))" "distinct who"
    "\<forall>x \<in> set who. \<not> future_taken (promise_of (set_promise e ?p pr) x)"
    using Cons.prems by auto
  from Cons.IH[OF prems] obtain pr' where pr': "take_futures who (set_promise e ?p pr) = Inr pr'"
    "sm_wf (populated_promises pr')"
    "\<forall>n. promise_of pr' n = (if n \<in> set who then (promise_of (set_promise e ?p pr) n)\<lparr>future_taken := True\<rparr>
        else promise_of (set_promise e ?p pr) n)"
    "pending_map pr' = pending_map pr" "map_fulfilled pr' = map_fulfilled pr"
    "dest_nodes pr' = dest_nodes pr" "set_nodes pr' = set_nodes pr" "map_taken pr' = map_taken pr"
    by auto
  with Cons.prems(1,2) show ?case by (intro exI[of _ pr']) (auto simp: head)
qed auto

lemma fulfill_map_ok:
  assumes "pr_wf pr" "\<not> map_fulfilled pr" "distinct who"
  shows "\<exists>pr'. fulfill_map who pr = Inr pr' \<and> pr_wf pr' \<and> map_fulfilled pr' \<and>
    dest_nodes pr' = set who \<and> pending_map pr' = Some who \<and> set_nodes pr' = set_nodes pr \<and>
    (\<forall>n. outcome (promise_of pr' n) = outcome (promise_of pr n))"
proof -
  have none: "pending_map pr = None" and dest: "dest_nodes pr = {}"
    using assms(1,2) by (auto simp: pr_wf_def split: option.splits)
  let ?pr = "pr\<lparr>map_fulfilled := True\<rparr>"
  have "sm_wf (populated_promises ?pr)" "\<forall>e \<in> set who. \<not> future_taken (promise_of ?pr e)"
    using assms(1) dest by (auto simp: pr_wf_def)
  from take_futures_ok[OF this(1) assms(3) this(2)] obtain pr1 where
    pr1: "take_futures who ?pr = Inr pr1" "sm_wf (populated_promises pr1)"
    "\<forall>n. promise_of pr1 n = (if n \<in> set who then (promise_of pr n)\<lparr>future_taken := True\<rparr> else promise_of pr n)"
    "pending_map pr1 = None" "map_fulfilled pr1" "dest_nodes pr1 = {}" "set_nodes pr1 = set_nodes pr"
    using none dest by auto
  have old: "\<not> future_taken (promise_of pr n)" for n
    using assms(1) dest by (simp add: pr_wf_def)
  let ?pr' = "pr1\<lparr>dest_nodes := set who, pending_map := Some who\<rparr>"
  have "fulfill_map who pr = Inr ?pr'"
    using pr1 assms(3) by (simp add: fulfill_map_def Let_def distinct_remdups_id)
  moreover have "pr_wf ?pr'"
    using pr1 assms(1) old by (auto simp: pr_wf_def)
  ultimately show ?thesis using pr1 by auto
qed

lemma pr_set_value_ok:
  assumes "pr_wf pr" "n \<notin> set_nodes pr"
  shows "\<exists>pr'. pr_set_value n v pr = Inr pr' \<and> pr_wf pr' \<and> set_nodes pr' = insert n (set_nodes pr) \<and>
    outcome (promise_of pr' n) = Value v \<and> (\<forall>m. m \<noteq> n \<longrightarrow> promise_of pr' m = promise_of pr m) \<and>
    dest_nodes pr' = dest_nodes pr \<and> map_fulfilled pr' = map_fulfilled pr"
  using assms by (auto simp: pr_set_value_def satisfy_def Let_def pr_wf_def split: option.splits)

lemma pr_set_exception_ok:
  assumes "pr_wf pr" "n \<notin> set_nodes pr"
  shows "\<exists>pr'. pr_set_exception n e pr = Inr pr' \<and> pr_wf pr' \<and> set_nodes pr' = insert n (set_nodes pr) \<and>
    outcome (promise_of pr' n) = Exception e \<and> (\<forall>m. m \<noteq> n \<longrightarrow> promise_of pr' m = promise_of pr m) \<and>
    dest_nodes pr' = dest_nodes pr \<and> map_fulfilled pr' = map_fulfilled pr"
  using assms by (auto simp: pr_set_exception_def satisfy_def Let_def pr_wf_def split: option.splits)

lemma pr_set_value_twice:
  "pr_wf pr \<Longrightarrow> n \<in> set_nodes pr \<Longrightarrow> pr_set_value n v pr = Inl (Throw ''promise_already_satisfied'')"
  by (simp add: pr_set_value_def satisfy_def pr_wf_def Let_def)

text \<open>
  Removing a node never raises once the map is fulfilled, resolves the node's promise if
  the query went to it, and leaves every answer that had arrived as it was.
\<close>

lemma set_exception_for_removed_node_ok:
  assumes "pr_wf pr" "map_fulfilled pr"
  shows "\<exists>pr'. set_exception_for_removed_node n pr = Inr pr' \<and> pr_wf pr' \<and> map_fulfilled pr' \<and>
    dest_nodes pr' = dest_nodes pr \<and> (n \<in> dest_nodes pr \<longrightarrow> n \<in> set_nodes pr') \<and>
    set_nodes pr \<subseteq> set_nodes pr' \<and> (\<forall>m \<in> set_nodes pr. promise_of pr' m = promise_of pr m)"
proof (cases "n \<in> dest_nodes pr \<and> n \<notin> set_nodes pr")
  case True
  then obtain pr' where "pr_set_exception n (Node_removed n) pr = Inr pr'" "pr_wf pr'"
    "set_nodes pr' = insert n (set_nodes pr)" "\<forall>m. m \<noteq> n \<longrightarrow> promise_of pr' m = promise_of pr m"
    "dest_nodes pr' = dest_nodes pr" "map_fulfilled pr' = map_fulfilled pr"
    using pr_set_exception_ok[OF assms(1)] by blast
  with True assms show ?thesis
    by (intro exI[of _ pr']) (auto simp: set_exception_for_removed_node_def)
next
  case False
  with assms show ?thesis by (auto simp: set_exception_for_removed_node_def)
qed

section \<open>Well-formed dispatchers\<close>

text \<open>
  Opcodes come from a global counter, so the two opcodes of every invocable are distinct
  from all others.
\<close>

definition opcodes :: "'o dispatcher \<Rightarrow> u64 list" where
  "opcodes d = map invoke_id (invs d) @ map reply_id (invs d)"

definition dispatcher_wf :: "'o dispatcher \<Rightarrow> bool" where
  "dispatcher_wf d \<longleftrightarrow> distinct (opcodes d) \<and>
     (\<forall>h \<in> set (invs d). sm_wf (ret h) \<and> (\<forall>(k, pr) \<in> set (ret h). pr_wf pr))"

lemma opcode_eq_iff:
  assumes "dispatcher_wf d" "j < length (invs d)" "k < length (invs d)"
  shows "invoke_id (invs d ! j) = invoke_id (invs d ! k) \<longleftrightarrow> j = k"
    and "reply_id (invs d ! j) = reply_id (invs d ! k) \<longleftrightarrow> j = k"
proof -
  have "distinct (map invoke_id (invs d))" "distinct (map reply_id (invs d))"
    using assms(1) by (auto simp: dispatcher_wf_def opcodes_def)
  from nth_eq_iff_index_eq[OF this(1), of j k] nth_eq_iff_index_eq[OF this(2), of j k] assms(2,3)
  show "invoke_id (invs d ! j) = invoke_id (invs d ! k) \<longleftrightarrow> j = k"
    and "reply_id (invs d ! j) = reply_id (invs d ! k) \<longleftrightarrow> j = k" by simp_all
qed

lemma route_invoke:
  "dispatcher_wf d \<Longrightarrow> k < length (invs d) \<Longrightarrow>
   route (\<lambda>op h. op = invoke_id h) (invoke_id (invs d ! k)) d = int k"
  by (auto simp: route_def scan_eq_int_iff opcode_eq_iff)

lemma route_reply:
  "dispatcher_wf d \<Longrightarrow> k < length (invs d) \<Longrightarrow>
   route (\<lambda>op h. op = reply_id h) (reply_id (invs d ! k)) d = int k"
  by (auto simp: route_def scan_eq_int_iff opcode_eq_iff)

lemma route_invoke_of_reply:
  assumes "dispatcher_wf d" "k < length (invs d)"
  shows "route (\<lambda>op h. op = invoke_id h) (reply_id (invs d ! k)) d = -1"
proof -
  have "reply_id (invs d ! k) \<noteq> invoke_id (invs d ! j)" if "j < length (invs d)" for j
    using assms that by (force simp: dispatcher_wf_def opcodes_def image_iff in_set_conv_nth)
  then show ?thesis by (simp add: route_def scan_None_iff)
qed

lemma dispatcher_wf_pending:
  "dispatcher_wf d \<Longrightarrow> pending_at d p = Some pr \<Longrightarrow> pr_wf pr"
  by (force simp: dispatcher_wf_def pending_at_def dest!: sm_find_in_set split: if_splits)

end
