(* ===== verification/Persistence.thy ===== *)
theory Persistence
  imports Containers Codec
begin

text \<open>
  The message log (\<^verbatim>\<open>persistence.h\<close>, \<^verbatim>\<open>filewriter.h\<close>, \<^verbatim>\<open>filewriter.cpp\<close>) and the two
  tools that read it back for recovery (\<^verbatim>\<open>latest_logged_message.cpp\<close>,
  \<^verbatim>\<open>log_tail_length.cpp\<close>). The byte form of a metadata record is chosen by the
  serialization library and is a parameter: \<open>to_bytes\<close>, \<open>from_bytes\<close> and the
  record's size. \<open>enc_metadata\<close> is the layout of the packed struct, used as its instance.
\<close>

section \<open>Data\<close>

text \<open>
  A logged message points into a message buffer: \<open>m_data\<close> is the memory from the pointer
  to the end of the allocation, so reading more than \<open>length m_data\<close> bytes leaves it.
\<close>

record pmessage =
  m_data :: bytes
  m_length :: u64
  m_view_id :: u32
  m_sender :: u32
  m_index :: u64
  m_cooked :: bool

record metadata =
  md_view_id :: u32
  md_is_cooked :: bool
  md_sender :: u32
  md_index :: u64
  md_offset :: u64
  md_length :: u64

definition MAGIC_NUMBER :: bytes where
  "MAGIC_NUMBER = [68, 69, 82, 69, 67, 72, 79, 29]"

definition file_header :: bytes where
  "file_header = MAGIC_NUMBER @ enc32 0"

text \<open>The packed struct: padding fields are left unset by the writer and read as zero here.\<close>

definition enc_metadata :: "metadata \<Rightarrow> bytes" where
  "enc_metadata md = enc32 (md_view_id md) @ enc_bool (md_is_cooked md) @ [0, 0, 0] @
     enc32 (md_sender md) @ [0, 0, 0, 0] @ enc64 (md_index md) @
     enc64 (md_offset md) @ enc64 (md_length md)"

definition dec_metadata :: "bytes \<Rightarrow> metadata" where
  "dec_metadata bs = \<lparr>md_view_id = dec32 bs, md_is_cooked = dec_bool (drop 4 bs),
     md_sender = dec32 (drop 8 bs), md_index = dec64 (drop 16 bs),
     md_offset = dec64 (drop 24 bs), md_length = dec64 (drop 32 bs)\<rparr>"

section \<open>FileWriter\<close>

text \<open>
  Each thread waits on a condition variable with no predicate: a notification wakes a
  thread that is waiting and is lost otherwise. A queued callback is the upcall of the time
  it was queued, bound to its message; upcalls are told apart by a number.
\<close>

datatype thread_pc = Starting | Waiting | Woken | Exited

record file_writer =
  upcall :: nat
  pending_writes :: "pmessage list"
  pending_callbacks :: "(nat \<times> pmessage) list"
  issued_callbacks :: "(nat \<times> pmessage) list"
  exit_flag :: bool
  writer_pc :: thread_pc
  callback_pc :: thread_pc
  data_file :: bytes
  metadata_file :: bytes
  current_offset :: u64

definition notify :: "thread_pc \<Rightarrow> thread_pc" where
  "notify pc = (if pc = Waiting then Woken else pc)"

text \<open>The constructor: both threads are started on the files as they are on disk.\<close>

definition new_file_writer :: "nat \<Rightarrow> bytes \<Rightarrow> bytes \<Rightarrow> file_writer" where
  "new_file_writer u data meta = \<lparr>upcall = u, pending_writes = [], pending_callbacks = [],
     issued_callbacks = [], exit_flag = False, writer_pc = Starting, callback_pc = Starting,
     data_file = data, metadata_file = meta, current_offset = 0\<rparr>"

definition destroy_file_writer :: "file_writer \<Rightarrow> file_writer" where
  "destroy_file_writer fw = fw\<lparr>exit_flag := True, writer_pc := notify (writer_pc fw),
     callback_pc := notify (callback_pc fw)\<rparr>"

definition set_message_written_upcall :: "nat \<Rightarrow> file_writer \<Rightarrow> file_writer" where
  "set_message_written_upcall u fw = fw\<lparr>upcall := u\<rparr>"

definition write_message :: "pmessage \<Rightarrow> file_writer \<Rightarrow> file_writer" where
  "write_message m fw = fw\<lparr>pending_writes := pending_writes fw @ [m],
     writer_pc := notify (writer_pc fw)\<rparr>"

definition loop_or_exit :: "file_writer \<Rightarrow> thread_pc" where
  "loop_or_exit fw = (if exit_flag fw then Exited else Waiting)"

text \<open>\<^verbatim>\<open>perform_writes\<close> up to its first wait: the header is appended, the offset starts at 0.\<close>

definition writer_start :: "file_writer \<Rightarrow> file_writer" where
  "writer_start fw = fw\<lparr>current_offset := 0,
     metadata_file := metadata_file fw @ file_header,
     writer_pc := loop_or_exit fw\<rparr>"

definition metadata_of :: "pmessage \<Rightarrow> u64 \<Rightarrow> metadata" where
  "metadata_of m off = \<lparr>md_view_id = m_view_id m, md_is_cooked = m_cooked m,
     md_sender = m_sender m, md_index = m_index m, md_offset = off, md_length = m_length m\<rparr>"

text \<open>One iteration of the inner loop.\<close>

definition write_one :: "(metadata \<Rightarrow> bytes) \<Rightarrow> pmessage \<Rightarrow> file_writer \<Rightarrow> file_writer result" where
  "write_one to_bytes m fw =
     (if unat (m_length m) > length (m_data m) then Inl (Undefined ''read past the message buffer'')
      else Inr (fw\<lparr>
        data_file := data_file fw @ take (unat (m_length m)) (m_data m),
        metadata_file := metadata_file fw @ to_bytes (metadata_of m (current_offset fw)),
        current_offset := current_offset fw + m_length m,
        pending_callbacks := pending_callbacks fw @ [(upcall fw, m)],
        callback_pc := notify (callback_pc fw)\<rparr>))"

fun write_all :: "(metadata \<Rightarrow> bytes) \<Rightarrow> pmessage list \<Rightarrow> file_writer \<Rightarrow> file_writer result" where
  "write_all to_bytes [] fw = Inr (fw\<lparr>pending_writes := []\<rparr>)"
| "write_all to_bytes (m # ms) fw =
     bindE (write_one to_bytes m (fw\<lparr>pending_writes := ms\<rparr>)) (write_all to_bytes ms)"

text \<open>
  A wake-up of the writer thread: the writes lock is held until the queue is empty, so
  the drain is one step.
\<close>

definition writer_wake :: "(metadata \<Rightarrow> bytes) \<Rightarrow> file_writer \<Rightarrow> file_writer result" where
  "writer_wake to_bytes fw =
     bindE (write_all to_bytes (pending_writes fw) fw) (\<lambda>fw'.
       Inr (fw'\<lparr>writer_pc := loop_or_exit fw'\<rparr>))"

definition callback_start :: "file_writer \<Rightarrow> file_writer" where
  "callback_start fw = fw\<lparr>callback_pc := loop_or_exit fw\<rparr>"

text \<open>
  \<^verbatim>\<open>issue_callbacks\<close>: a woken thread issues one callback with the lock released, and
  goes back to waiting once the queue is empty.
\<close>

definition callback_wake :: "file_writer \<Rightarrow> file_writer" where
  "callback_wake fw = (case pending_callbacks fw of
       [] \<Rightarrow> fw\<lparr>callback_pc := loop_or_exit fw\<rparr>
     | c # cs \<Rightarrow> fw\<lparr>pending_callbacks := cs, issued_callbacks := issued_callbacks fw @ [c]\<rparr>)"

inductive fw_step :: "(metadata \<Rightarrow> bytes) \<Rightarrow> file_writer \<Rightarrow> file_writer \<Rightarrow> bool" for to_bytes where
  fw_write: "unat (m_length m) \<le> length (m_data m) \<Longrightarrow> fw_step to_bytes fw (write_message m fw)"
| fw_start: "writer_pc fw = Starting \<Longrightarrow> fw_step to_bytes fw (writer_start fw)"
| fw_wake: "writer_pc fw = Woken \<Longrightarrow> writer_wake to_bytes fw = Inr fw' \<Longrightarrow> fw_step to_bytes fw fw'"
| fw_cb_start: "callback_pc fw = Starting \<Longrightarrow> fw_step to_bytes fw (callback_start fw)"
| fw_cb_wake: "callback_pc fw = Woken \<Longrightarrow> fw_step to_bytes fw (callback_wake fw)"
| fw_upcall: "fw_step to_bytes fw (set_message_written_upcall u fw)"
| fw_destroy: "fw_step to_bytes fw (destroy_file_writer fw)"

section \<open>The recovery tools\<close>

text \<open>\<^verbatim>\<open>latest_logged_message\<close>: the record that ends the metadata file.\<close>

definition latest_logged_message :: "(bytes \<Rightarrow> metadata) \<Rightarrow> nat \<Rightarrow> bytes \<Rightarrow> u32 \<times> u32 \<times> u64" where
  "latest_logged_message from_bytes size_of_metadata meta =
     (let md = from_bytes (drop (length meta - size_of_metadata) meta)
      in (md_view_id md, md_sender md, md_index md))"

text \<open>
  The loop of \<^verbatim>\<open>log_tail_length\<close>. A read that meets the end of the file keeps the bytes it
  got, sets the stream's fail state, and its iteration still runs. \<open>pos\<close> is \<^verbatim>\<open>tellg()\<close>,
  which answers -1 on a failed stream.
\<close>

record tail_scan =
  ts_key :: "u32 \<times> u32 \<times> u64"
  ts_ok :: bool
  ts_buffer :: bytes
  ts_pos :: nat
  ts_offset :: u64
  ts_size :: u64

definition tail_read :: "(bytes \<Rightarrow> metadata) \<Rightarrow> nat \<Rightarrow> bool \<Rightarrow> bytes \<Rightarrow> tail_scan \<Rightarrow> tail_scan" where
  "tail_read from_bytes w print_metadata file st =
     (let got = take w (drop (ts_pos st) file);
          ok = (length got = w);
          buf = got @ drop (length got) (ts_buffer st);
          pos = ts_pos st + length got;
          md = from_bytes buf
      in st\<lparr>ts_key := (md_view_id md, md_sender md, md_index md), ts_ok := ok, ts_buffer := buf,
            ts_pos := pos,
            ts_offset := (if print_metadata then (if ok then word_of_nat pos else -1) else md_offset md),
            ts_size := (if print_metadata then ts_size st else md_length md)\<rparr>)"

function tail_loop ::
  "(bytes \<Rightarrow> metadata) \<Rightarrow> nat \<Rightarrow> bool \<Rightarrow> bytes \<Rightarrow> u32 \<times> u32 \<times> u64 \<Rightarrow> tail_scan \<Rightarrow> tail_scan" where
  "tail_loop from_bytes w print_metadata file target st =
     (if ts_key st \<noteq> target \<and> ts_ok st \<and> 0 < w
      then tail_loop from_bytes w print_metadata file target (tail_read from_bytes w print_metadata file st)
      else st)"
  by pat_completeness auto
termination
  by (relation "measure (\<lambda>(_, w, _, file, _, st). (length file - ts_pos st) + (if ts_ok st then 1 else 0))")
     (auto simp: tail_read_def Let_def)

declare tail_loop.simps [simp del]

definition log_tail_length ::
  "(bytes \<Rightarrow> metadata) \<Rightarrow> nat \<Rightarrow> bool \<Rightarrow> bytes \<Rightarrow> bytes \<Rightarrow> u32 \<times> u32 \<times> u64 \<Rightarrow> u64" where
  "log_tail_length from_bytes w print_metadata data meta target =
     (let st = tail_loop from_bytes w print_metadata meta target
                 \<lparr>ts_key = (0, 0, 0), ts_ok = (length file_header \<le> length meta),
                  ts_buffer = replicate w 0, ts_pos = length file_header,
                  ts_offset = 0, ts_size = 0\<rparr>;
          file_size = (if print_metadata then (if ts_ok st then word_of_nat (length meta) else -1)
                       else word_of_nat (length data));
          target_size = (if print_metadata then word_of_nat w else ts_size st)
      in file_size - (ts_offset st + target_size))"

section \<open>The metadata record\<close>

interpretation metadata_codec: fixed_codec enc_metadata dec_metadata 40
proof
  fix md :: metadata and rest
  have d: "drop 8 (enc32 a @ enc_bool b @ [0, 0, 0] @ t) = t"
    "drop 4 (enc32 a @ u) = u"
    "drop 16 (enc32 a @ enc_bool b @ [0, 0, 0] @ enc32 c @ [0, 0, 0, 0] @ t) = t"
    "drop 24 (enc32 a @ enc_bool b @ [0, 0, 0] @ enc32 c @ [0, 0, 0, 0] @ enc64 e @ t) = t"
    "drop 32 (enc32 a @ enc_bool b @ [0, 0, 0] @ enc32 c @ [0, 0, 0, 0] @ enc64 e @ enc64 f @ t) = t"
    for a c :: u32 and b and e f :: u64 and t u
    by (simp_all add: u32_codec.enc_length u64_codec.enc_length bool_codec.enc_length)
  have e: "dec_bool (enc_bool b @ t) = b" for b t by (rule bool_codec.dec_enc)
  show "dec_metadata (enc_metadata md @ rest) = md"
    unfolding enc_metadata_def dec_metadata_def append_assoc d
    by (simp only: u32_codec.dec_enc u64_codec.dec_enc e) simp
qed (simp add: enc_metadata_def u32_codec.enc_length u64_codec.enc_length bool_codec.enc_length)

section \<open>What a drain of the queue writes\<close>

definition readable :: "pmessage \<Rightarrow> bool" where
  "readable m \<longleftrightarrow> unat (m_length m) \<le> length (m_data m)"

definition payload :: "pmessage \<Rightarrow> bytes" where
  "payload m = take (unat (m_length m)) (m_data m)"

fun metas :: "u64 \<Rightarrow> pmessage list \<Rightarrow> metadata list" where
  "metas off [] = []"
| "metas off (m # ms) = metadata_of m off # metas (off + m_length m) ms"

definition payloads :: "pmessage list \<Rightarrow> bytes" where
  "payloads ms = concat (map payload ms)"

definition records :: "(metadata \<Rightarrow> bytes) \<Rightarrow> u64 \<Rightarrow> pmessage list \<Rightarrow> bytes" where
  "records to_bytes off ms = concat (map to_bytes (metas off ms))"

definition end_offset :: "u64 \<Rightarrow> pmessage list \<Rightarrow> u64" where
  "end_offset off ms = foldl (\<lambda>o' m. o' + m_length m) off ms"

lemma length_payload [simp]: "readable m \<Longrightarrow> length (payload m) = unat (m_length m)"
  by (simp add: readable_def payload_def)

lemma length_metas [simp]: "length (metas off ms) = length ms"
  by (induction off ms rule: metas.induct) auto

lemma metas_append: "metas off (xs @ ys) = metas off xs @ metas (end_offset off xs) ys"
  by (induction off xs rule: metas.induct) (auto simp: end_offset_def)

lemma payloads_append [simp]: "payloads (xs @ ys) = payloads xs @ payloads ys"
  by (simp add: payloads_def)

lemma records_append: "records tb off (xs @ ys) = records tb off xs @ records tb (end_offset off xs) ys"
  by (simp add: records_def metas_append)

lemma end_offset_append: "end_offset off (xs @ ys) = end_offset (end_offset off xs) ys"
  by (simp add: end_offset_def)

text \<open>Everything written so far, in order: each write queued one callback for its message.\<close>

definition written :: "file_writer \<Rightarrow> pmessage list" where
  "written fw = map snd (issued_callbacks fw @ pending_callbacks fw)"

lemma write_all_spec:
  assumes "\<forall>m \<in> set ms. readable m"
  shows "\<exists>fw'. write_all tb ms fw = Inr fw' \<and>
    data_file fw' = data_file fw @ payloads ms \<and>
    metadata_file fw' = metadata_file fw @ records tb (current_offset fw) ms \<and>
    current_offset fw' = end_offset (current_offset fw) ms \<and>
    pending_callbacks fw' = pending_callbacks fw @ map (Pair (upcall fw)) ms \<and>
    issued_callbacks fw' = issued_callbacks fw \<and> pending_writes fw' = [] \<and>
    exit_flag fw' = exit_flag fw \<and> upcall fw' = upcall fw \<and> writer_pc fw' = writer_pc fw"
  using assms
proof (induction ms arbitrary: fw)
  case Nil
  then show ?case by (simp add: payloads_def records_def end_offset_def)
next
  case (Cons m ms)
  then have m: "unat (m_length m) \<le> length (m_data m)" by (simp add: readable_def)
  let ?fw = "fw\<lparr>pending_writes := ms, data_file := data_file fw @ payload m,
    metadata_file := metadata_file fw @ tb (metadata_of m (current_offset fw)),
    current_offset := current_offset fw + m_length m,
    pending_callbacks := pending_callbacks fw @ [(upcall fw, m)], callback_pc := notify (callback_pc fw)\<rparr>"
  have "write_one tb m (fw\<lparr>pending_writes := ms\<rparr>) = Inr ?fw"
    using m by (simp add: write_one_def payload_def)
  moreover obtain fw' where "write_all tb ms ?fw = Inr fw'"
    "data_file fw' = data_file ?fw @ payloads ms"
    "metadata_file fw' = metadata_file ?fw @ records tb (current_offset ?fw) ms"
    "current_offset fw' = end_offset (current_offset ?fw) ms"
    "pending_callbacks fw' = pending_callbacks ?fw @ map (Pair (upcall ?fw)) ms"
    "issued_callbacks fw' = issued_callbacks ?fw" "pending_writes fw' = []"
    "exit_flag fw' = exit_flag ?fw" "upcall fw' = upcall ?fw" "writer_pc fw' = writer_pc ?fw"
    using Cons.IH[of ?fw] Cons.prems by auto
  ultimately show ?case
    by (intro exI[of _ fw']) (simp add: payloads_def records_def end_offset_def)
qed

lemma writer_wake_spec:
  assumes "\<forall>m \<in> set (pending_writes fw). readable m"
  shows "\<exists>fw'. writer_wake tb fw = Inr fw' \<and>
    data_file fw' = data_file fw @ payloads (pending_writes fw) \<and>
    metadata_file fw' = metadata_file fw @ records tb (current_offset fw) (pending_writes fw) \<and>
    current_offset fw' = end_offset (current_offset fw) (pending_writes fw) \<and>
    written fw' = written fw @ pending_writes fw \<and> pending_writes fw' = [] \<and>
    writer_pc fw' = loop_or_exit fw"
proof -
  obtain fw' where "write_all tb (pending_writes fw) fw = Inr fw'"
    "data_file fw' = data_file fw @ payloads (pending_writes fw)"
    "metadata_file fw' = metadata_file fw @ records tb (current_offset fw) (pending_writes fw)"
    "current_offset fw' = end_offset (current_offset fw) (pending_writes fw)"
    "pending_callbacks fw' = pending_callbacks fw @ map (Pair (upcall fw)) (pending_writes fw)"
    "issued_callbacks fw' = issued_callbacks fw" "pending_writes fw' = []" "exit_flag fw' = exit_flag fw"
    using write_all_spec[OF assms, of tb fw] by blast
  then show ?thesis
    by (intro exI[of _ "fw'\<lparr>writer_pc := loop_or_exit fw'\<rparr>"])
       (simp add: writer_wake_def written_def loop_or_exit_def comp_def)
qed

section \<open>The log invariant\<close>

text \<open>
  Started on files \<open>data0\<close>, \<open>meta0\<close>: the files are those plus exactly the messages of
  the callbacks queued so far, in queue order.
\<close>

definition log_inv :: "(metadata \<Rightarrow> bytes) \<Rightarrow> bytes \<Rightarrow> bytes \<Rightarrow> file_writer \<Rightarrow> bool" where
  "log_inv tb data0 meta0 fw \<longleftrightarrow>
     (\<forall>m \<in> set (pending_writes fw) \<union> set (written fw). readable m) \<and>
     (if writer_pc fw = Starting
      then written fw = [] \<and> data_file fw = data0 \<and> metadata_file fw = meta0
      else data_file fw = data0 @ payloads (written fw) \<and>
           metadata_file fw = meta0 @ file_header @ records tb 0 (written fw) \<and>
           current_offset fw = end_offset 0 (written fw))"

lemma log_inv_start: "log_inv tb data0 meta0 (new_file_writer u data0 meta0)"
  by (simp add: log_inv_def new_file_writer_def written_def)

lemma notify_Starting [simp]: "notify pc = Starting \<longleftrightarrow> pc = Starting"
  by (simp add: notify_def)

lemma loop_or_exit_Starting [simp]: "loop_or_exit fw \<noteq> Starting"
  by (simp add: loop_or_exit_def)

lemma log_inv_wake:
  assumes "log_inv tb data0 meta0 fw" "writer_pc fw = Woken" "writer_wake tb fw = Inr fw'"
  shows "log_inv tb data0 meta0 fw'"
  using writer_wake_spec[of fw tb] assms
  by (auto simp: log_inv_def records_append end_offset_append)

lemma log_inv_step:
  assumes "fw_step tb fw fw'" "log_inv tb data0 meta0 fw"
  shows "log_inv tb data0 meta0 fw'"
  using assms
proof (induction rule: fw_step.induct)
  case (fw_wake fw fw')
  then show ?case by (blast intro: log_inv_wake)
next
  case (fw_cb_wake fw)
  have "written (callback_wake fw) = written fw"
    by (simp add: written_def callback_wake_def split: list.splits)
  then show ?case using fw_cb_wake
    by (simp add: log_inv_def) (simp add: callback_wake_def split: list.splits)
qed (auto simp: log_inv_def write_message_def writer_start_def callback_start_def
    set_message_written_upcall_def destroy_file_writer_def written_def readable_def payloads_def
    records_def end_offset_def)

definition fresh_writer :: "bytes \<Rightarrow> bytes \<Rightarrow> file_writer \<Rightarrow> bool" where
  "fresh_writer data0 meta0 fw \<longleftrightarrow> (\<exists>u. fw = new_file_writer u data0 meta0)"

interpretation file_log: state_machine "fresh_writer data0 meta0" "fw_step tb" "log_inv tb data0 meta0"
  for data0 meta0 tb
  by unfold_locales (auto simp: fresh_writer_def log_inv_start intro: log_inv_step)

section \<open>Where a message is in the log\<close>

lemma metas_nth: "i < length ms \<Longrightarrow> metas off ms ! i = metadata_of (ms ! i) (end_offset off (take i ms))"
proof (induction off ms arbitrary: i rule: metas.induct)
  case (2 off m ms)
  then show ?case by (cases i) (auto simp: end_offset_def)
qed simp

lemma unat_end_offset:
  assumes "\<forall>m \<in> set ms. readable m" "length (payloads ms) < 2 ^ 64"
  shows "unat (end_offset 0 ms) = length (payloads ms)"
  using assms
proof (induction ms rule: rev_induct)
  case (snoc m ms)
  have "end_offset 0 (ms @ [m]) = end_offset 0 ms + m_length m" by (simp add: end_offset_def)
  with snoc show ?case by (simp add: unat_word_ariths payloads_def)
qed (simp add: end_offset_def payloads_def)

lemma payloads_split:
  "i < length ms \<Longrightarrow> payloads ms = payloads (take i ms) @ payload (ms ! i) @ payloads (drop (Suc i) ms)"
  unfolding payloads_def by (metis append_assoc concat.simps(2) concat_append id_take_nth_drop list.simps(9) map_append)

lemma drop_records:
  assumes "\<And>x. length (tb x) = w" "i \<le> length ms"
  shows "drop (i * w) (records tb off ms) = records tb (end_offset off (take i ms)) (drop i ms)"
proof -
  have len: "length (records tb o' xs) = length xs * w" for o' xs
    using assms(1) by (induction o' xs rule: metas.induct) (auto simp: records_def)
  have "records tb off ms = records tb off (take i ms) @ records tb (end_offset off (take i ms)) (drop i ms)"
    by (metis append_take_drop_id records_append)
  then show ?thesis using len assms(2) by simp
qed

lemma record_at:
  assumes "fixed_codec tb fb w" "i < length ms"
  shows "\<exists>rest. drop (i * w) (records tb off ms) = tb (metas off ms ! i) @ rest"
proof -
  have "drop i ms = ms ! i # drop (Suc i) ms" using assms(2) by (rule Cons_nth_drop_Suc[symmetric])
  with drop_records[of tb w i ms off] assms fixed_codec.enc_length[OF assms(1)] show ?thesis
    by (simp add: metas_nth records_def)
qed

definition md_key :: "metadata \<Rightarrow> u32 \<times> u32 \<times> u64" where
  "md_key md = (md_view_id md, md_sender md, md_index md)"

definition m_key :: "pmessage \<Rightarrow> u32 \<times> u32 \<times> u64" where
  "m_key m = (m_view_id m, m_sender m, m_index m)"

lemma md_key_metas: "i < length ms \<Longrightarrow> md_key (metas off ms ! i) = m_key (ms ! i)"
  by (simp add: metas_nth md_key_def m_key_def metadata_of_def)

lemma reachable_log:
  assumes "reachable (fresh_writer data0 meta0) (fw_step tb) fw" "written fw \<noteq> []"
  shows "data_file fw = data0 @ payloads (written fw)"
    and "metadata_file fw = meta0 @ file_header @ records tb 0 (written fw)"
    and "\<forall>m \<in> set (written fw). readable m"
  using file_log.inv_reachable[OF assms(1)] assms(2) by (auto simp: log_inv_def split: if_splits)

lemma drop_end_offset:
  assumes "\<forall>m \<in> set ms. readable m" "length (payloads ms) < 2 ^ 64" "i < length ms"
  shows "drop (unat (md_offset (metas 0 ms ! i))) (payloads ms) = payload (ms ! i) @ payloads (drop (Suc i) ms)"
proof -
  have split: "payloads ms = payloads (take i ms) @ payload (ms ! i) @ payloads (drop (Suc i) ms)"
    using assms(3) by (rule payloads_split)
  have "\<forall>m \<in> set (take i ms). readable m" using assms(1) by (auto dest: in_set_takeD)
  moreover have "length (payloads (take i ms)) < 2 ^ 64" using assms(2) split by simp
  ultimately have "unat (end_offset 0 (take i ms)) = length (payloads (take i ms))"
    by (rule unat_end_offset)
  with split assms(3) show ?thesis by (simp add: metas_nth metadata_of_def)
qed

lemma log_slice:
  assumes log: "reachable (fresh_writer data0 meta0) (fw_step tb) fw" and i: "i < length (written fw)"
    and codec: "fixed_codec tb fb w" and size: "length (data_file fw) < 2 ^ 64"
  shows "fb (drop (length meta0 + length file_header + i * w) (metadata_file fw)) = metas 0 (written fw) ! i"
    and "take (unat (md_length (metas 0 (written fw) ! i)))
           (drop (length data0 + unat (md_offset (metas 0 (written fw) ! i))) (data_file fw)) =
         payload (written fw ! i)"
proof -
  let ?ws = "written fw"
  from i have ne: "?ws \<noteq> []" by auto
  note log' = reachable_log[OF log ne]
  obtain rest where "drop (i * w) (records tb 0 ?ws) = tb (metas 0 ?ws ! i) @ rest"
    using record_at[OF codec i] by blast
  then show "fb (drop (length meta0 + length file_header + i * w) (metadata_file fw)) = metas 0 ?ws ! i"
    using fixed_codec.dec_enc[OF codec] by (simp add: log'(2))
  have "length (payloads ?ws) < 2 ^ 64" using size log'(1) by simp
  from drop_end_offset[OF log'(3) this i]
  have "drop (length data0 + unat (md_offset (metas 0 ?ws ! i))) (data_file fw) =
      payload (?ws ! i) @ payloads (drop (Suc i) ?ws)"
    by (simp add: log'(1))
  moreover have "unat (md_length (metas 0 ?ws ! i)) = length (payload (?ws ! i))"
    using i log'(3) by (simp add: metas_nth metadata_of_def)
  ultimately show "take (unat (md_length (metas 0 ?ws ! i)))
      (drop (length data0 + unat (md_offset (metas 0 ?ws ! i))) (data_file fw)) = payload (?ws ! i)"
    by simp
qed

section \<open>The scan of log\_tail\_length\<close>

lemma tail_read_hit:
  assumes codec: "fixed_codec tb fb w" and j: "j < length ms"
    and pos: "ts_pos st = length file_header + j * w"
  shows "tail_read fb w pm (file_header @ records tb 0 ms) st =
     st\<lparr>ts_key := m_key (ms ! j), ts_ok := True, ts_buffer := tb (metas 0 ms ! j) @ drop w (ts_buffer st),
        ts_pos := length file_header + Suc j * w,
        ts_offset := (if pm then word_of_nat (length file_header + Suc j * w) else md_offset (metas 0 ms ! j)),
        ts_size := (if pm then ts_size st else md_length (metas 0 ms ! j))\<rparr>"
proof -
  obtain rest where rest: "drop (j * w) (records tb 0 ms) = tb (metas 0 ms ! j) @ rest"
    using record_at[OF codec j] by blast
  have got: "take w (drop (ts_pos st) (file_header @ records tb 0 ms)) = tb (metas 0 ms ! j)"
    using fixed_codec.enc_length[OF codec] by (simp add: pos rest)
  show ?thesis
    unfolding tail_read_def got Let_def
    using md_key_metas[OF j, of 0] fixed_codec.dec_enc[OF codec] fixed_codec.enc_length[OF codec]
    by (simp add: pos md_key_def)
qed

lemma tail_loop_finds:
  assumes codec: "fixed_codec tb fb w" and w: "0 < w" and i: "i < length ms"
    and first: "\<forall>k < i. m_key (ms ! k) \<noteq> m_key (ms ! i)"
    and st: "ts_key st \<noteq> m_key (ms ! i)" "ts_ok st" "ts_pos st = length file_header + j * w" "j \<le> i"
  shows "\<exists>st'. tail_loop fb w pm (file_header @ records tb 0 ms) (m_key (ms ! i)) st = st' \<and>
     ts_ok st' \<and>
     ts_offset st' = (if pm then word_of_nat (length file_header + Suc i * w) else md_offset (metas 0 ms ! i)) \<and>
     ts_size st' = (if pm then ts_size st else md_length (metas 0 ms ! i))"
  using st
proof (induction "i - j" arbitrary: j st)
  case 0
  then have ji: "j = i" by simp
  note hit = tail_read_hit[OF codec i, of st pm]
  show ?case
    using 0 w by (simp add: ji tail_loop.simps[of fb w pm _ _ st] hit tail_loop.simps[of fb w pm _ _ "_\<lparr>ts_size := _\<rparr>"])
next
  case (Suc d)
  then have j: "j < i" "j < length ms" using i by simp_all
  let ?file = "file_header @ records tb 0 ms"
  let ?st = "tail_read fb w pm ?file st"
  have step: "tail_loop fb w pm ?file (m_key (ms ! i)) st = tail_loop fb w pm ?file (m_key (ms ! i)) ?st"
    using Suc.prems w by (subst tail_loop.simps) simp
  note hit = tail_read_hit[OF codec j(2) Suc.prems(3), of pm]
  have "ts_key ?st \<noteq> m_key (ms ! i)" "ts_ok ?st" "ts_pos ?st = length file_header + Suc j * w"
    "ts_size ?st = ts_size st \<or> \<not> pm" "Suc j \<le> i" "d = i - Suc j"
    using first j Suc.hyps(2) by (simp_all add: hit)
  from Suc.hyps(1)[OF this(6) this(1,2,3,5)] this(4) show ?case
    by (auto simp: step)
qed

end
