(* ===== verification/Derecho_Group.thy ===== *)
theory Derecho_Group
  imports Sst_Row Rpc Persistence
begin

text \<open>
  \<^verbatim>\<open>DerechoGroup\<close> (\<^verbatim>\<open>derecho_group.h\<close>, \<^verbatim>\<open>derecho_group_impl.h\<close>): the totally ordered
  multicast built on one RDMC group per sender and the SST. The group's fields are a
  record; every method, RDMC handler and SST trigger is a function on it. Calls to RDMC,
  to the application's callbacks and to the TCP layer are recorded in \<open>dg_calls\<close>.
\<close>

section \<open>Messages\<close>

record message =
  sender_rank :: int
  index :: int
  msize :: u64
  message_buffer :: "bytes option"

text \<open>The packed header at the front of every message: two 32-bit words and a flag.\<close>

definition sizeof_header :: nat where
  "sizeof_header = 9"

definition h_header_size :: "bytes \<Rightarrow> u32" where
  "h_header_size b = dec32 b"

definition h_pause_sending_turns :: "bytes \<Rightarrow> u32" where
  "h_pause_sending_turns b = dec32 (drop 4 b)"

definition h_cooked_send :: "bytes \<Rightarrow> bool" where
  "h_cooked_send b = dec_bool (drop 8 b)"

definition fill_header :: "bytes \<Rightarrow> int \<Rightarrow> bool \<Rightarrow> bytes" where
  "fill_header b pause_sending_turns cooked_send =
     enc32 (word_of_nat sizeof_header) @ enc32 (word_of_int pause_sending_turns) @
     enc_bool cooked_send @ drop sizeof_header b"

text \<open>\<^verbatim>\<open>MessageBuffer(size)\<close>: fresh memory, whose contents nothing depends on.\<close>

definition new_message_buffer :: "u64 \<Rightarrow> bytes" where
  "new_message_buffer sz = replicate (unat sz) 0"

record derecho_params =
  max_payload_size :: u64
  dp_block_size :: u64
  filename :: string
  dp_window_size :: u32
  timeout_ms :: u32
  rpc_port :: u32

definition compute_max_msg_size :: "u64 \<Rightarrow> u64 \<Rightarrow> u64 result" where
  "compute_max_msg_size max_payload block =
     (let max_msg_size = max_payload + word_of_nat sizeof_header
      in if block = 0 then Inl (Undefined ''division by zero'')
         else if max_msg_size mod block \<noteq> 0 then Inr ((max_msg_size div block + 1) * block)
         else Inr max_msg_size)"

text \<open>\<^verbatim>\<open>index_of\<close>: the position of an element, or the size of the container.\<close>

fun index_of :: "'a list \<Rightarrow> 'a \<Rightarrow> nat" where
  "index_of [] x = 0"
| "index_of (y # ys) x = (if y = x then 0 else Suc (index_of ys x))"

section \<open>The group\<close>

datatype group_call =
    Rdmc_create nat "node_id list"
  | Rdmc_destroy nat
  | Rdmc_send nat message
  | Stability_callback int int bytes u64
  | Persistence_callback int u64 bytes u64
  | Tcp_write node_id bytes
  | Tcp_destroy
  | Notify_sender

record 'o dgroup =
  dg_members :: "node_id list"
  member_index :: nat
  block_size :: u64
  max_msg_size :: u64
  window_size :: u32
  dispatchers :: "'o dispatcher"
  toFulfillQueue :: "pref list"
  fulfilledList :: "pref list"
  rdmc_group_num_offset :: u16
  rdmc_groups_created :: bool
  total_message_buffers :: u32
  free_message_buffers :: "bytes list"
  reply_buffer_size :: u64
  future_message_index :: int
  next_send :: "message option"
  pending_sends :: "message list"
  current_send :: "message option"
  current_receives :: "(int, message) smap"
  locally_stable_messages :: "(int, message) smap"
  non_persistent_messages :: "(int, message) smap"
  next_message_to_deliver :: int
  sender_timeout :: u32
  thread_shutdown :: bool
  dg_sst :: sst
  dg_writer :: "file_writer option"
  dg_calls :: "group_call list"

abbreviation dg_n :: "'o dgroup \<Rightarrow> nat" where
  "dg_n g \<equiv> length (dg_members g)"

abbreviation my_row :: "'o dgroup \<Rightarrow> derecho_row" where
  "my_row g \<equiv> rows (dg_sst g) ! member_index g"

definition call :: "group_call \<Rightarrow> 'o dgroup \<Rightarrow> 'o dgroup" where
  "call c g = g\<lparr>dg_calls := dg_calls g @ [c]\<rparr>"

definition upd_my_row :: "(derecho_row \<Rightarrow> derecho_row) \<Rightarrow> 'o dgroup \<Rightarrow> 'o dgroup" where
  "upd_my_row f g = g\<lparr>dg_sst := set_row (member_index g) (f (my_row g)) (dg_sst g)\<rparr>"

definition sst_put :: "'o dgroup \<Rightarrow> 'o dgroup" where
  "sst_put g = g\<lparr>dg_sst := put (dg_sst g)\<rparr>"

text \<open>
  Sequence numbers are a row-major pair: message \<open>index\<close> of sender \<open>rank\<close> has number
  \<open>index * num_members + rank\<close>.
\<close>

definition seq_of :: "nat \<Rightarrow> int \<Rightarrow> int \<Rightarrow> int" where
  "seq_of n rank idx = idx * int n + rank"

section \<open>Sending\<close>

definition window_start :: "'o dgroup \<Rightarrow> int \<Rightarrow> int" where
  "window_start g idx = (idx - uint (window_size g)) * int (dg_n g) + int (member_index g)"

text \<open>
  \<^verbatim>\<open>get_position\<close>: \<open>None\<close> is a null pointer, otherwise the offset in the buffer of
  \<^verbatim>\<open>next_send\<close> that the returned pointer refers to.
\<close>

definition get_position ::
  "'o dgroup \<Rightarrow> u64 \<Rightarrow> int \<Rightarrow> bool \<Rightarrow> ('o dgroup \<times> nat option) result" where
  "get_position g payload_size pause_sending_turns cooked_send =
     (if \<not> rdmc_groups_created g then Inr (g, None)
      else
        let msg_size = (if payload_size = 0 then max_msg_size g
                        else payload_size + word_of_nat sizeof_header)
        in if max_msg_size g < msg_size then Inr (g, None)
        else if list_ex (\<lambda>i. delivered_num (rows (dg_sst g) ! i) < window_start g (future_message_index g))
                 [0..<dg_n g] then Inr (g, None)
        else if thread_shutdown g then Inr (g, None)
        else if free_message_buffers g = [] then Inr (g, None)
        else
          let buf = last (free_message_buffers g);
              msg = \<lparr>sender_rank = int (member_index g), index = future_message_index g, msize = msg_size,
                     message_buffer = Some (fill_header buf pause_sending_turns cooked_send)\<rparr>
          in if length buf < sizeof_header then Inl (Undefined ''header written past the buffer'')
             else Inr (g\<lparr>free_message_buffers := butlast (free_message_buffers g),
                         next_send := Some msg,
                         future_message_index := future_message_index g + (pause_sending_turns + 1)\<rparr>,
                       Some sizeof_header))"

definition send :: "'o dgroup \<Rightarrow> ('o dgroup \<times> bool) result" where
  "send g =
     (if thread_shutdown g \<or> \<not> rdmc_groups_created g then Inr (g, False)
      else case next_send g of
          None \<Rightarrow> Inl (Assert ''next_send'')
        | Some msg \<Rightarrow> Inr (call Notify_sender
                        (g\<lparr>pending_sends := pending_sends g @ [msg], next_send := None\<rparr>), True))"

definition should_send :: "'o dgroup \<Rightarrow> bool" where
  "should_send g =
     (if \<not> rdmc_groups_created g then False
      else case pending_sends g of
          [] \<Rightarrow> False
        | msg # _ \<Rightarrow>
            if nReceived (my_row g) ! member_index g < index msg - 1 then False
            else \<not> list_ex (\<lambda>i. delivered_num (rows (dg_sst g) ! i) < window_start g (index msg) \<or>
                     (dg_writer g \<noteq> None \<and>
                      persisted_num (rows (dg_sst g) ! i) < window_start g (index msg)))
                   [0..<dg_n g])"

text \<open>
  One turn of \<^verbatim>\<open>send_loop\<close> after its wait returns: \<open>rdmc_ok\<close> is the answer of
  \<^verbatim>\<open>rdmc::send\<close>. The thrown string literal is not a \<^verbatim>\<open>std::exception\<close>, so the
  handler of the loop does not catch it.
\<close>

definition send_loop_turn :: "bool \<Rightarrow> 'o dgroup \<Rightarrow> 'o dgroup result" where
  "send_loop_turn rdmc_ok g =
     (if thread_shutdown g then Inr g
      else case pending_sends g of
          [] \<Rightarrow> Inl (Undefined ''front of an empty queue'')
        | msg # rest \<Rightarrow>
            let g' = call (Rdmc_send (member_index g + unat (rdmc_group_num_offset g)) msg)
                       (g\<lparr>current_send := Some msg\<rparr>)
            in if \<not> rdmc_ok then Inl (Throw ''rdmc::send returned false'')
               else Inr (g'\<lparr>pending_sends := rest\<rparr>))"

section \<open>Receiving\<close>

text \<open>The destination callback of the RDMC group of another sender.\<close>

definition receive_destination :: "nat \<Rightarrow> u64 \<Rightarrow> 'o dgroup \<Rightarrow> 'o dgroup result" where
  "receive_destination groupnum sz g =
     (if groupnum = member_index g then Inl (Assert ''false'')
      else if free_message_buffers g = [] then Inl (Assert ''!free_message_buffers.empty()'')
      else
        let idx = nReceived (my_row g) ! groupnum + 1;
            msg = \<lparr>sender_rank = int groupnum, index = idx, msize = sz,
                   message_buffer = Some (last (free_message_buffers g))\<rparr>;
            sequence_number = seq_of (dg_n g) (int groupnum) idx
        in Inr (g\<lparr>free_message_buffers := butlast (free_message_buffers g),
                  current_receives := sm_assign sequence_number msg (current_receives g)\<rparr>))"

definition add_received :: "nat \<Rightarrow> int \<Rightarrow> derecho_row \<Rightarrow> derecho_row" where
  "add_received groupnum k r = r\<lparr>nReceived := (nReceived r)[groupnum := nReceived r ! groupnum + k]\<rparr>"

text \<open>The empty messages of the turns the sender skips.\<close>

fun skip_turns :: "nat \<Rightarrow> nat \<Rightarrow> int \<Rightarrow> int \<Rightarrow> 'o dgroup \<Rightarrow> 'o dgroup" where
  "skip_turns groupnum 0 idx sequence_number g = g"
| "skip_turns groupnum (Suc k) idx sequence_number g =
     (let idx = idx + 1; sequence_number = sequence_number + int (dg_n g);
          g = upd_my_row (add_received groupnum 1) g;
          msg = \<lparr>sender_rank = int groupnum, index = idx, msize = 0, message_buffer = None\<rparr>
      in skip_turns groupnum k idx sequence_number
           (g\<lparr>locally_stable_messages := sm_assign sequence_number msg (locally_stable_messages g)\<rparr>))"

text \<open>
  The last message of the round-robin order before which nothing is missing:
  \<^verbatim>\<open>(*min_ptr + 1) * num_members + min_index - 1\<close>.
\<close>

definition contiguous_seq :: "nat \<Rightarrow> int list \<Rightarrow> int" where
  "contiguous_seq n received =
     (let min_index = min_pos (take n received)
      in (take n received ! min_index + 1) * int n + int min_index - 1)"

definition update_seq_num :: "'o dgroup \<Rightarrow> 'o dgroup" where
  "update_seq_num g =
     (let new_seq_num = contiguous_seq (dg_n g) (nReceived (my_row g))
      in if new_seq_num > seq_num (my_row g)
         then sst_put (upd_my_row (\<lambda>r. r\<lparr>seq_num := new_seq_num\<rparr>) g)
         else sst_put g)"

definition take_received :: "nat \<Rightarrow> int \<Rightarrow> 'o dgroup \<Rightarrow> 'o dgroup result" where
  "take_received groupnum sequence_number g =
     (if groupnum = member_index g then
        (case current_send g of
           None \<Rightarrow> Inl (Assert ''current_send'')
         | Some msg \<Rightarrow> Inr (g\<lparr>locally_stable_messages := sm_assign sequence_number msg (locally_stable_messages g),
                             current_send := None\<rparr>))
      else
        (case sm_find (current_receives g) sequence_number of
           None \<Rightarrow> Inl (Assert ''it != current_receives.end()'')
         | Some msg \<Rightarrow> Inr (g\<lparr>locally_stable_messages := sm_emplace sequence_number msg (locally_stable_messages g),
                             current_receives := sm_erase sequence_number (current_receives g)\<rparr>)))"

text \<open>\<open>data\<close> is the received message, in the buffer the handler moves.\<close>

definition rdmc_receive_handler :: "nat \<Rightarrow> bytes \<Rightarrow> 'o dgroup \<Rightarrow> 'o dgroup result" where
  "rdmc_receive_handler groupnum data g0 =
     (let g = upd_my_row (add_received groupnum 1) g0;
          idx = nReceived (my_row g) ! groupnum;
          sequence_number = seq_of (dg_n g) (int groupnum) idx
      in bindE (take_received groupnum sequence_number g) (\<lambda>g.
           Inr (update_seq_num
             (skip_turns groupnum (unat (h_pause_sending_turns data)) idx sequence_number g))))"

definition receive_handler_plus_notify :: "nat \<Rightarrow> bytes \<Rightarrow> 'o dgroup \<Rightarrow> 'o dgroup result" where
  "receive_handler_plus_notify groupnum data g =
     bindE (rdmc_receive_handler groupnum data g) (\<lambda>g'. Inr (call Notify_sender g'))"

section \<open>Delivery\<close>

text \<open>
  The cooked part of \<^verbatim>\<open>deliver_message\<close>: the destination list is parsed off the front
  of the payload, and \<open>off\<close> is where \<^verbatim>\<open>buf\<close> points afterwards.
\<close>

definition deliver_cooked :: "message \<Rightarrow> bytes \<Rightarrow> 'o dgroup \<Rightarrow> ('o dgroup \<times> nat) result" where
  "deliver_cooked msg b g =
     (let off = unat (h_header_size b);
          dest_size = unat (dec64 (drop off b));
          nodes = dec32_list dest_size (drop (off + 8) b);
          in_dest = (dg_members g ! member_index g \<in> set nodes);
          off' = off + 8 + 4 * dest_size;
          max_payload = max_msg_size g - word_of_nat sizeof_header
      in if length b < off' then Inl (Undefined ''destination list runs past the buffer'')
         else if in_dest \<or> dest_size = 0 then
           bindE (handle_receive_buf (dispatchers g) (drop off' b) (\<lambda>size. size \<le> unat max_payload)) (\<lambda>(d, reply).
             let g = g\<lparr>dispatchers := d\<rparr>
             in if length reply > unat (reply_buffer_size g) then Inl (Undefined ''reply written past deliveryBuffer'')
                else if reply = [] then Inr (g, off')
                else
                  let id = dg_members g ! nat (sender_rank msg)
                  in if id = dg_members g ! member_index g then
                       bindE (handle_receive_buf (dispatchers g) reply (\<lambda>_. False)) (\<lambda>(d, _).
                         let g = g\<lparr>dispatchers := d\<rparr>
                         in if dest_size = 0 then
                              (case toFulfillQueue g of
                                 [] \<Rightarrow> Inl (Undefined ''front of an empty queue'')
                               | p # ps \<Rightarrow>
                                   bindE (pending_fulfill_map (dg_members g) p (dispatchers g)) (\<lambda>d.
                                     Inr (g\<lparr>dispatchers := d, fulfilledList := fulfilledList g @ [p],
                                            toFulfillQueue := ps\<rparr>, off')))
                            else Inr (g, off'))
                     else Inr (call (Tcp_write id reply) g, off'))
         else Inr (g, off'))"

definition release_message :: "message \<Rightarrow> bytes \<Rightarrow> nat \<Rightarrow> 'o dgroup \<Rightarrow> 'o dgroup" where
  "release_message msg b off g =
     (case dg_writer g of
        Some fw \<Rightarrow>
          (let pm = \<lparr>m_data = drop (off + unat (h_header_size b)) b, m_length = msize msg,
                     m_view_id = word_of_int (row_vid (my_row g)),
                     m_sender = dg_members g ! nat (sender_rank msg),
                     m_index = word_of_int (index msg), m_cooked = h_cooked_send b\<rparr>;
               sequence_number = seq_of (dg_n g) (sender_rank msg) (index msg)
           in g\<lparr>non_persistent_messages := sm_emplace sequence_number msg (non_persistent_messages g),
                dg_writer := Some (write_message pm fw)\<rparr>)
      | None \<Rightarrow> g\<lparr>free_message_buffers := free_message_buffers g @ [b]\<rparr>)"

definition deliver_message :: "message \<Rightarrow> 'o dgroup \<Rightarrow> 'o dgroup result" where
  "deliver_message msg g =
     (if msize msg > 0 then
        (case message_buffer msg of
           None \<Rightarrow> Inl (Undefined ''message without a buffer'')
         | Some b \<Rightarrow>
             if h_cooked_send b then
               bindE (deliver_cooked msg b g) (\<lambda>(g, off). Inr (release_message msg b off g))
             else
               Inr (release_message msg b 0
                 (call (Stability_callback (sender_rank msg) (index msg)
                          (drop (unat (h_header_size b)) b) (msize msg)) g)))
      else Inr g)"

fun deliver_range :: "int list \<Rightarrow> 'o dgroup \<Rightarrow> 'o dgroup result" where
  "deliver_range [] g = Inr g"
| "deliver_range (seq # seqs) g =
     (case sm_find (locally_stable_messages g) seq of
        None \<Rightarrow> deliver_range seqs g
      | Some msg \<Rightarrow> bindE (deliver_message msg g) (\<lambda>g'.
          deliver_range seqs (g'\<lparr>locally_stable_messages := sm_erase seq (locally_stable_messages g')\<rparr>)))"

definition deliver_messages_upto :: "int list \<Rightarrow> 'o dgroup \<Rightarrow> 'o dgroup result" where
  "deliver_messages_upto max_indices_for_senders g =
     bindE (guardE (length max_indices_for_senders = dg_n g) (Assert ''max_indices_for_senders.size()'')) (\<lambda>_.
       let curr_seq_num = delivered_num (my_row g);
           max_seq_num = foldl (\<lambda>m sender. max m (seq_of (dg_n g) (int sender) (max_indices_for_senders ! sender)))
                           curr_seq_num [0..<length max_indices_for_senders]
       in deliver_range [curr_seq_num..max_seq_num] g)"

section \<open>The SST predicates of the group\<close>

definition min_over_rows :: "(derecho_row \<Rightarrow> int) \<Rightarrow> 'o dgroup \<Rightarrow> int" where
  "min_over_rows f g = min_from (f (rows (dg_sst g) ! 0)) (map (\<lambda>i. f (rows (dg_sst g) ! i)) [0..<dg_n g])"

definition stability_trig :: "'o dgroup \<Rightarrow> 'o dgroup" where
  "stability_trig g =
     (let min_seq_num = min_over_rows seq_num g
      in if min_seq_num > stable_num (my_row g)
         then sst_put (upd_my_row (\<lambda>r. r\<lparr>stable_num := min_seq_num\<rparr>) g)
         else g)"

definition delivery_trig :: "'o dgroup \<Rightarrow> 'o dgroup result" where
  "delivery_trig g =
     (let min_stable_num = min_over_rows stable_num g
      in case sm_begin (locally_stable_messages g) of
           None \<Rightarrow> Inr g
         | Some (least_undelivered_seq_num, msg) \<Rightarrow>
             if least_undelivered_seq_num \<le> min_stable_num then
               bindE (deliver_message msg g) (\<lambda>g.
                 let g = sst_put (upd_my_row (\<lambda>r. r\<lparr>delivered_num := least_undelivered_seq_num\<rparr>) g)
                 in Inr (g\<lparr>locally_stable_messages :=
                           sm_erase least_undelivered_seq_num (locally_stable_messages g)\<rparr>))
             else Inr g)"

definition sender_pred :: "'o dgroup \<Rightarrow> bool" where
  "sender_pred g =
     (let seq = seq_of (dg_n g) (int (member_index g)) (next_message_to_deliver g)
      in \<not> list_ex (\<lambda>i. delivered_num (rows (dg_sst g) ! i) < seq \<or>
              (dg_writer g \<noteq> None \<and> persisted_num (rows (dg_sst g) ! i) < seq)) [0..<dg_n g])"

definition sender_trig :: "'o dgroup \<Rightarrow> 'o dgroup" where
  "sender_trig g = (call Notify_sender g)\<lparr>next_message_to_deliver := next_message_to_deliver g + 1\<rparr>"

definition register_group_predicates :: "'o dgroup \<Rightarrow> 'o dgroup" where
  "register_group_predicates g = g\<lparr>dg_sst :=
     insert_pred Sender (insert_pred Delivery (insert_pred Stability (dg_sst g)))\<rparr>"

section \<open>The callback of the file writer\<close>

text \<open>
  The callback built by \<^verbatim>\<open>make_file_written_callback\<close>; \<open>given\<close> tells whether the application
  has given a \<^verbatim>\<open>local_persistence_callback\<close>, which is null by default and is called
  unconditionally. The sequence number is computed in 64 bits, unsigned, and converted to the
  signed key of the map.
\<close>

definition file_written_callback :: "bool \<Rightarrow> pmessage \<Rightarrow> 'o dgroup \<Rightarrow> 'o dgroup result" where
  "file_written_callback given m g =
     (if \<not> given then Inl (Throw ''bad_function_call'') else
      let r = index_of (dg_members g) (m_sender m);
          g = call (Persistence_callback (int r) (m_index m) (m_data m) (m_length m)) g;
          sequence_number = sint (m_index m * word_of_nat (dg_n g) + word_of_nat r)
      in case sm_find (non_persistent_messages g) sequence_number of
           None \<Rightarrow> Inl (Assert ''find_result != non_persistent_messages.end()'')
         | Some msg \<Rightarrow>
             Inr (sst_put (upd_my_row (\<lambda>row. row\<lparr>persisted_num := sequence_number\<rparr>)
               (g\<lparr>free_message_buffers := free_message_buffers g @
                    (case message_buffer msg of None \<Rightarrow> [] | Some b \<Rightarrow> [b]),
                  non_persistent_messages := sm_erase sequence_number (non_persistent_messages g)\<rparr>))))"

end
