(* ===== verification/Group_Order.thy ===== *)
theory Group_Order
  imports Derecho_Group
begin

text \<open>
  The order in which a node of the group receives and delivers. The global order is
  round-robin over the senders; a node publishes as \<^verbatim>\<open>seq_num\<close> the end of the part of
  that order it holds without a gap. This theory defines the steps a group takes, the
  invariant they keep, and the facts about delivery that follow from it.
\<close>

section \<open>The round-robin order\<close>

text \<open>Has message number \<open>k\<close> arrived, by the per-sender counts?\<close>

definition received :: "nat \<Rightarrow> int list \<Rightarrow> int \<Rightarrow> bool" where
  "received n R k \<longleftrightarrow> 0 \<le> k \<and> k div int n \<le> R ! nat (k mod int n)"

lemma seq_of_div: "0 \<le> r \<Longrightarrow> r < int n \<Longrightarrow> seq_of n r i div int n = i"
  by (simp add: seq_of_def)

lemma seq_of_mod: "0 \<le> r \<Longrightarrow> r < int n \<Longrightarrow> seq_of n r i mod int n = r"
  by (simp add: seq_of_def)

lemma seq_of_div_mod: "0 < n \<Longrightarrow> seq_of n (k mod int n) (k div int n) = k"
  by (simp add: seq_of_def)

lemma seq_of_inject:
  "0 \<le> r \<Longrightarrow> r < int n \<Longrightarrow> 0 \<le> r' \<Longrightarrow> r' < int n \<Longrightarrow> seq_of n r i = seq_of n r' i' \<longleftrightarrow> r = r' \<and> i = i'"
  using seq_of_div seq_of_mod by metis

lemma seq_of_nonneg: "0 \<le> r \<Longrightarrow> 0 \<le> i \<Longrightarrow> 0 \<le> seq_of n r i"
  by (simp add: seq_of_def)

lemma received_seq_of:
  assumes "q < n" "-1 \<le> R ! q"
  shows "received n R (seq_of n (int q) i) \<longleftrightarrow> 0 \<le> i \<and> i \<le> R ! q"
proof -
  have "0 \<le> seq_of n (int q) i \<longleftrightarrow> 0 \<le> i"
  proof
    assume "0 \<le> seq_of n (int q) i"
    then have "0 \<le> seq_of n (int q) i div int n" using assms by (simp add: pos_imp_zdiv_nonneg_iff)
    then show "0 \<le> i" using assms by (simp add: seq_of_div)
  qed (simp add: seq_of_nonneg)
  then show ?thesis using assms by (simp add: received_def seq_of_div seq_of_mod)
qed

definition counts_ok :: "nat \<Rightarrow> int list \<Rightarrow> bool" where
  "counts_ok n R \<longleftrightarrow> 0 < n \<and> n \<le> length R \<and> (\<forall>i < n. -1 \<le> R ! i)"

lemma min_index_facts:
  assumes "counts_ok n R"
  shows "min_pos (take n R) < n" and "i < n \<Longrightarrow> R ! min_pos (take n R) \<le> R ! i"
    and "i < min_pos (take n R) \<Longrightarrow> R ! min_pos (take n R) < R ! i"
    and "contiguous_seq n R = (R ! min_pos (take n R) + 1) * int n + int (min_pos (take n R)) - 1"
    and "-1 \<le> R ! min_pos (take n R)"
proof -
  let ?m = "min_pos (take n R)"
  have n: "0 < n" "n \<le> length R" using assms by (auto simp: counts_ok_def)
  then have "take n R \<noteq> []" by auto
  then show mn: "?m < n" using min_pos_less[of "take n R"] n by simp
  show "R ! ?m \<le> R ! i" if "i < n" using min_pos_le[of i "take n R"] that mn n by simp
  show "R ! ?m < R ! i" if "i < ?m" using min_pos_first[of i "take n R"] that mn n by simp
  show "contiguous_seq n R = (R ! ?m + 1) * int n + int ?m - 1"
    using mn by (simp add: contiguous_seq_def Let_def)
  show "-1 \<le> R ! ?m" using assms mn by (auto simp: counts_ok_def)
qed

lemma contiguous_prefix_received:
  assumes ok: "counts_ok n R" and "0 \<le> k" "k \<le> contiguous_seq n R"
  shows "received n R k"
proof -
  note mf = min_index_facts[OF ok]
  let ?m = "min_pos (take n R)" let ?q = "k div int n" let ?r = "nat (k mod int n)"
  have r: "?r < n" "int ?r = k mod int n"
    using ok by (simp_all add: nat_less_iff counts_ok_def)
  have k: "k = ?q * int n + int ?r" using r by simp
  have kc: "k < (R ! ?m + 1) * int n + int ?m" using assms(3) by (simp add: mf(4))
  have "?q \<le> R ! ?r"
  proof (cases "?q \<le> R ! ?m")
    case True
    with mf(2)[OF r(1)] show ?thesis by simp
  next
    case False
    have eq: "?q = R ! ?m + 1"
    proof (rule ccontr)
      assume "?q \<noteq> R ! ?m + 1"
      with False have "(R ! ?m + 2) * int n \<le> ?q * int n" by (intro mult_right_mono) auto
      moreover have "?q * int n \<le> k" using k by linarith
      moreover have "(R ! ?m + 2) * int n = (R ! ?m + 1) * int n + int n" by (simp add: algebra_simps)
      ultimately show False using kc mf(1) by linarith
    qed
    have "k = (R ! ?m + 1) * int n + int ?r" using k unfolding eq .
    with kc have "int ?r < int ?m" by linarith
    then have "?r < ?m" by linarith
    then have "R ! ?m < R ! ?r" by (rule mf(3))
    with eq show ?thesis by simp
  qed
  with assms(2) show ?thesis by (simp add: received_def)
qed

lemma contiguous_next_missing: "counts_ok n R \<Longrightarrow> \<not> received n R (contiguous_seq n R + 1)"
proof -
  assume ok: "counts_ok n R"
  let ?m = "min_pos (take n R)"
  have c: "contiguous_seq n R + 1 = seq_of n (int ?m) (R ! ?m + 1)"
    by (simp add: min_index_facts(4)[OF ok] seq_of_def)
  show ?thesis using min_index_facts(1,5)[OF ok] by (simp add: c received_seq_of)
qed

lemma contiguous_ge: "counts_ok n R \<Longrightarrow> -1 \<le> contiguous_seq n R"
proof -
  assume ok: "counts_ok n R"
  have "0 \<le> (R ! min_pos (take n R) + 1) * int n" using min_index_facts(5)[OF ok] by simp
  then show ?thesis by (simp add: min_index_facts(4)[OF ok])
qed

lemma contiguous_mono:
  assumes ok: "counts_ok n R" and len: "n \<le> length R'" and le: "\<forall>i < n. R ! i \<le> R' ! i"
  shows "contiguous_seq n R \<le> contiguous_seq n R'"
proof (rule ccontr)
  assume less: "\<not> contiguous_seq n R \<le> contiguous_seq n R'"
  have ok': "counts_ok n R'" using ok len le by (force simp: counts_ok_def)
  let ?k = "contiguous_seq n R' + 1"
  have "0 \<le> ?k" using contiguous_ge[OF ok'] by simp
  with less have "received n R ?k" using contiguous_prefix_received[OF ok] by simp
  moreover have "nat (?k mod int n) < n" using ok by (simp add: nat_less_iff counts_ok_def)
  ultimately have "received n R' ?k" using le by (force simp: received_def)
  with contiguous_next_missing[OF ok'] show False by simp
qed

lemma contiguous_unique:
  \<comment> \<open>the published number is the one end of the gap-free prefix\<close>
  assumes ok: "counts_ok n R" and "-1 \<le> c" and "\<forall>k. 0 \<le> k \<longrightarrow> k \<le> c \<longrightarrow> received n R k"
    and "\<not> received n R (c + 1)"
  shows "c = contiguous_seq n R"
proof (rule ccontr)
  assume "c \<noteq> contiguous_seq n R"
  then consider "c + 1 \<le> contiguous_seq n R" | "contiguous_seq n R + 1 \<le> c" by linarith
  then show False
  proof cases
    case 1
    with contiguous_prefix_received[OF ok] assms(2,4) show False by simp
  next
    case 2
    with contiguous_next_missing[OF ok] contiguous_ge[OF ok] assms(3) show False by simp
  qed
qed

section \<open>What a group holds and has delivered\<close>

text \<open>The node's own messages that are not yet received back, in sending order.\<close>

definition opt_list :: "'a option \<Rightarrow> 'a list" where
  "opt_list x = (case x of None \<Rightarrow> [] | Some y \<Rightarrow> [y])"

definition outgoing :: "'o dgroup \<Rightarrow> message list" where
  "outgoing g = opt_list (current_send g) @ pending_sends g @ opt_list (next_send g)"

text \<open>
  \<open>chained me i ms j\<close>: the messages \<open>ms\<close> are this sender's, the first has index \<open>i\<close>, each
  leaves room for the turns it pauses, and the next free index is \<open>j\<close>.
\<close>

fun chained :: "nat \<Rightarrow> int \<Rightarrow> message list \<Rightarrow> int \<Rightarrow> bool" where
  "chained me i [] j \<longleftrightarrow> i = j"
| "chained me i (m # ms) j \<longleftrightarrow> sender_rank m = int me \<and> index m = i \<and>
     (case message_buffer m of None \<Rightarrow> False
      | Some b \<Rightarrow> chained me (i + 1 + uint (h_pause_sending_turns b)) ms j)"

text \<open>An entry under the number of its sender and index, with memory if it has bytes.\<close>

definition placed :: "nat \<Rightarrow> int \<times> message \<Rightarrow> bool" where
  "placed n e \<longleftrightarrow> fst e = seq_of n (sender_rank (snd e)) (index (snd e)) \<and>
     0 \<le> sender_rank (snd e) \<and> sender_rank (snd e) < int n \<and>
     (0 < msize (snd e) \<longrightarrow> message_buffer (snd e) \<noteq> None)"

fun stability_seq :: "nat \<Rightarrow> group_call \<Rightarrow> int list" where
  "stability_seq n (Stability_callback r i b l) = [seq_of n r i]"
| "stability_seq n c = []"

definition callback_seqs :: "'o dgroup \<Rightarrow> int list" where
  "callback_seqs g = concat (map (stability_seq (dg_n g)) (dg_calls g))"

section \<open>The invariant\<close>

abbreviation my_counts :: "'o dgroup \<Rightarrow> int list" where
  "my_counts g \<equiv> nReceived (my_row g)"

definition rows_inv :: "'o dgroup \<Rightarrow> bool" where
  "rows_inv g \<longleftrightarrow> member_index g < dg_n g \<and> dg_n g \<le> num_rows (dg_sst g) \<and>
     local_index (dg_sst g) = member_index g \<and> counts_ok (dg_n g) (my_counts g)"

definition order_inv :: "'o dgroup \<Rightarrow> bool" where
  "order_inv g \<longleftrightarrow> -1 \<le> delivered_num (my_row g) \<and> delivered_num (my_row g) \<le> stable_num (my_row g) \<and>
     stable_num (my_row g) \<le> seq_num (my_row g) \<and>
     seq_num (my_row g) = contiguous_seq (dg_n g) (my_counts g)"

definition store_inv :: "'o dgroup \<Rightarrow> bool" where
  "store_inv g \<longleftrightarrow> sm_wf (locally_stable_messages g) \<and> sm_wf (current_receives g) \<and>
     (\<forall>k. k \<in> dom (sm_find (locally_stable_messages g)) \<longleftrightarrow>
          delivered_num (my_row g) < k \<and> received (dg_n g) (my_counts g) k) \<and>
     (\<forall>e \<in> set (locally_stable_messages g). placed (dg_n g) e) \<and>
     (\<forall>e \<in> set (current_receives g). placed (dg_n g) e)"

definition chain_inv :: "'o dgroup \<Rightarrow> bool" where
  "chain_inv g \<longleftrightarrow> chained (member_index g) (my_counts g ! member_index g + 1) (outgoing g)
     (future_message_index g)"

definition callback_inv :: "'o dgroup \<Rightarrow> bool" where
  "callback_inv g \<longleftrightarrow> sorted_wrt (<) (callback_seqs g) \<and>
     (\<forall>k \<in> set (callback_seqs g). 0 \<le> k \<and> k \<le> delivered_num (my_row g))"

definition group_inv :: "'o dgroup \<Rightarrow> bool" where
  "group_inv g \<longleftrightarrow> rows_inv g \<and> order_inv g \<and> store_inv g \<and> chain_inv g \<and> callback_inv g"

lemma group_invI:
  "rows_inv g \<Longrightarrow> order_inv g \<Longrightarrow> store_inv g \<Longrightarrow> chain_inv g \<Longrightarrow> callback_inv g \<Longrightarrow> group_inv g"
  by (simp add: group_inv_def)

lemma group_invD:
  "group_inv g \<Longrightarrow> rows_inv g" "group_inv g \<Longrightarrow> order_inv g" "group_inv g \<Longrightarrow> store_inv g"
  "group_inv g \<Longrightarrow> chain_inv g" "group_inv g \<Longrightarrow> callback_inv g"
  by (simp_all add: group_inv_def)

text \<open>
  The invariant reads only these fields; an operation that leaves them alone keeps it.
\<close>

definition same_core :: "'o dgroup \<Rightarrow> 'o dgroup \<Rightarrow> bool" where
  "same_core g g' \<longleftrightarrow> dg_members g' = dg_members g \<and> member_index g' = member_index g \<and>
     local_index (dg_sst g') = local_index (dg_sst g) \<and> num_rows (dg_sst g') = num_rows (dg_sst g) \<and>
     rows (dg_sst g') ! member_index g = my_row g \<and>
     locally_stable_messages g' = locally_stable_messages g \<and> current_receives g' = current_receives g \<and>
     outgoing g' = outgoing g \<and> future_message_index g' = future_message_index g \<and>
     callback_seqs g' = callback_seqs g"

lemma same_core_inv: "same_core g g' \<Longrightarrow> group_inv g \<Longrightarrow> group_inv g'"
  by (simp add: same_core_def group_inv_def rows_inv_def order_inv_def store_inv_def chain_inv_def
      callback_inv_def)

section \<open>Frame facts\<close>

named_theorems group_simps

lemma upd_my_row_fields [group_simps]:
  "dg_members (upd_my_row f g) = dg_members g" "member_index (upd_my_row f g) = member_index g"
  "locally_stable_messages (upd_my_row f g) = locally_stable_messages g"
  "current_receives (upd_my_row f g) = current_receives g" "current_send (upd_my_row f g) = current_send g"
  "pending_sends (upd_my_row f g) = pending_sends g" "next_send (upd_my_row f g) = next_send g"
  "future_message_index (upd_my_row f g) = future_message_index g" "dg_calls (upd_my_row f g) = dg_calls g"
  "local_index (dg_sst (upd_my_row f g)) = local_index (dg_sst g)"
  "num_rows (dg_sst (upd_my_row f g)) = num_rows (dg_sst g)"
  "free_message_buffers (upd_my_row f g) = free_message_buffers g"
  "non_persistent_messages (upd_my_row f g) = non_persistent_messages g"
  by (simp_all add: upd_my_row_def set_row_def)

lemma my_row_upd [group_simps]:
  "member_index g < num_rows (dg_sst g) \<Longrightarrow>
   rows (dg_sst (upd_my_row f g)) ! member_index g = f (my_row g)"
  by (simp add: upd_my_row_def set_row_def)

lemma sst_put_fields [group_simps]:
  "dg_members (sst_put g) = dg_members g" "member_index (sst_put g) = member_index g"
  "locally_stable_messages (sst_put g) = locally_stable_messages g"
  "current_receives (sst_put g) = current_receives g" "current_send (sst_put g) = current_send g"
  "pending_sends (sst_put g) = pending_sends g" "next_send (sst_put g) = next_send g"
  "future_message_index (sst_put g) = future_message_index g" "dg_calls (sst_put g) = dg_calls g"
  "rows (dg_sst (sst_put g)) = rows (dg_sst g)" "local_index (dg_sst (sst_put g)) = local_index (dg_sst g)"
  "free_message_buffers (sst_put g) = free_message_buffers g"
  "non_persistent_messages (sst_put g) = non_persistent_messages g"
  by (simp_all add: sst_put_def put_fields)

lemma call_fields [group_simps]:
  "dg_members (call c g) = dg_members g" "member_index (call c g) = member_index g"
  "locally_stable_messages (call c g) = locally_stable_messages g"
  "current_receives (call c g) = current_receives g" "current_send (call c g) = current_send g"
  "pending_sends (call c g) = pending_sends g" "next_send (call c g) = next_send g"
  "future_message_index (call c g) = future_message_index g" "dg_sst (call c g) = dg_sst g"
  "dg_calls (call c g) = dg_calls g @ [c]"
  "free_message_buffers (call c g) = free_message_buffers g"
  "non_persistent_messages (call c g) = non_persistent_messages g"
  by (simp_all add: call_def)

lemma callback_seqs_call [group_simps]:
  "callback_seqs (call c g) = callback_seqs g @ stability_seq (dg_n g) c"
  by (simp add: callback_seqs_def group_simps)

lemma callback_seqs_upd [group_simps]:
  "callback_seqs (upd_my_row f g) = callback_seqs g" "callback_seqs (sst_put g) = callback_seqs g"
  by (simp_all add: callback_seqs_def group_simps)

lemma outgoing_upd [group_simps]:
  "outgoing (upd_my_row f g) = outgoing g" "outgoing (sst_put g) = outgoing g" "outgoing (call c g) = outgoing g"
  by (simp_all add: outgoing_def group_simps)

section \<open>Delivery leaves the core alone\<close>

text \<open>The fields of a group that delivering one message does not touch.\<close>

definition delivery_frame :: "'o dgroup \<Rightarrow> 'o dgroup \<Rightarrow> bool" where
  "delivery_frame g g' \<longleftrightarrow> dg_members g' = dg_members g \<and> member_index g' = member_index g \<and>
     dg_sst g' = dg_sst g \<and> locally_stable_messages g' = locally_stable_messages g \<and>
     current_receives g' = current_receives g \<and> current_send g' = current_send g \<and>
     pending_sends g' = pending_sends g \<and> next_send g' = next_send g \<and>
     future_message_index g' = future_message_index g"

lemma delivery_frame_refl [simp]: "delivery_frame g g"
  by (simp add: delivery_frame_def)

lemma delivery_frame_outgoing: "delivery_frame g g' \<Longrightarrow> outgoing g' = outgoing g"
  by (simp add: delivery_frame_def outgoing_def)

lemma release_message_frame:
  "delivery_frame g (release_message msg b off g)" "dg_calls (release_message msg b off g) = dg_calls g"
  by (auto simp: release_message_def delivery_frame_def Let_def split: option.splits)

lemma delivery_frame_dispatchers [simp]:
  "delivery_frame g (g\<lparr>dispatchers := d\<rparr>)"
  "delivery_frame g (g\<lparr>dispatchers := d, fulfilledList := f, toFulfillQueue := t\<rparr>)"
  "callback_seqs (g\<lparr>dispatchers := d\<rparr>) = callback_seqs g"
  "callback_seqs (g\<lparr>dispatchers := d, fulfilledList := f, toFulfillQueue := t\<rparr>) = callback_seqs g"
  by (simp_all add: delivery_frame_def callback_seqs_def)

definition cooked_same :: "'o dgroup \<Rightarrow> 'o dgroup \<Rightarrow> bool" where
  "cooked_same g g' \<longleftrightarrow> delivery_frame g g' \<and> callback_seqs g' = callback_seqs g"

lemma cooked_sameI:
  "cooked_same g g" "cooked_same g (g\<lparr>dispatchers := d\<rparr>)"
  "cooked_same g (call (Tcp_write p reply) (g\<lparr>dispatchers := d\<rparr>))"
  "cooked_same g (g\<lparr>dispatchers := d, fulfilledList := f, toFulfillQueue := t\<rparr>)"
  by (simp_all add: cooked_same_def group_simps) (simp add: delivery_frame_def group_simps)

lemma deliver_cooked_frame:
  assumes "deliver_cooked msg b g = Inr (g', off)"
  shows "cooked_same g g'"
proof -
  let ?n = "unat (dec64 (drop (unat (h_header_size b)) b))"
  let ?in = "dg_members g ! member_index g \<in> set (dec32_list ?n (drop (unat (h_header_size b) + 8) b))"
  show ?thesis
  proof (cases "?in \<or> ?n = 0")
    case False
    with assms have "g' = g" by (auto simp: deliver_cooked_def Let_def split: if_splits)
    then show ?thesis by (simp add: cooked_sameI)
  next
    case True
    with assms show ?thesis
      by (cases "toFulfillQueue g") (auto simp: deliver_cooked_def Let_def cooked_sameI split: if_split_asm)
  qed
qed

definition raw_seqs :: "nat \<Rightarrow> message \<Rightarrow> int list" where
  "raw_seqs n msg = (if 0 < msize msg \<and> (case message_buffer msg of None \<Rightarrow> False | Some b \<Rightarrow> \<not> h_cooked_send b)
     then [seq_of n (sender_rank msg) (index msg)] else [])"

lemma deliver_message_frame:
  assumes "deliver_message msg g = Inr g'"
  shows "delivery_frame g g' \<and> callback_seqs g' = callback_seqs g @ raw_seqs (dg_n g) msg"
proof (cases "0 < msize msg")
  case False
  with assms show ?thesis by (simp add: deliver_message_def raw_seqs_def)
next
  case True
  with assms obtain b where b: "message_buffer msg = Some b"
    by (auto simp: deliver_message_def split: option.splits)
  show ?thesis
  proof (cases "h_cooked_send b")
    case True
    with assms b \<open>0 < msize msg\<close> obtain g1 off where "deliver_cooked msg b g = Inr (g1, off)"
      "g' = release_message msg b off g1"
      by (auto simp: deliver_message_def)
    with deliver_cooked_frame[of msg b g g1 off] release_message_frame[where g = g1 and msg = msg and b = b and off = off] True b show ?thesis
      by (auto simp: cooked_same_def delivery_frame_def callback_seqs_def raw_seqs_def)
  next
    case False
    let ?c = "Stability_callback (sender_rank msg) (index msg) (drop (unat (h_header_size b)) b) (msize msg)"
    from False assms b True have g': "g' = release_message msg b 0 (call ?c g)"
      by (simp add: deliver_message_def)
    have "delivery_frame (call ?c g) g'" "dg_calls g' = dg_calls (call ?c g)"
      using release_message_frame[where g = "call ?c g" and msg = msg and b = b and off = 0] by (simp_all add: g')
    with False b True show ?thesis
      by (auto simp: delivery_frame_def callback_seqs_def raw_seqs_def group_simps)
  qed
qed

section \<open>Receiving keeps the invariant\<close>

text \<open>The empty messages of skipped turns, and the whole loop in closed form.\<close>

fun skipped :: "nat \<Rightarrow> nat \<Rightarrow> nat \<Rightarrow> int \<Rightarrow> (int, message) smap \<Rightarrow> (int, message) smap" where
  "skipped q n 0 i m = m"
| "skipped q n (Suc k) i m = skipped q n k (i + 1)
     (sm_assign (seq_of n (int q) (i + 1))
        \<lparr>sender_rank = int q, index = i + 1, msize = 0, message_buffer = None\<rparr> m)"

lemma seq_of_Suc: "seq_of n r i + int n = seq_of n r (i + 1)"
  by (simp add: seq_of_def algebra_simps)

lemma upd_my_row_upd_my_row:
  "member_index g < num_rows (dg_sst g) \<Longrightarrow> upd_my_row f (upd_my_row h g) = upd_my_row (\<lambda>r. f (h r)) g"
  by (simp add: upd_my_row_def set_row_def)

lemma upd_my_row_id: "f (my_row g) = my_row g \<Longrightarrow> upd_my_row f g = g"
  by (simp add: upd_my_row_def set_row_def)

lemma upd_my_row_cong: "f (my_row g) = h (my_row g) \<Longrightarrow> upd_my_row f g = upd_my_row h g"
  by (simp add: upd_my_row_def)

lemma upd_my_row_stable:
  "upd_my_row f (g\<lparr>locally_stable_messages := m\<rparr>) = (upd_my_row f g)\<lparr>locally_stable_messages := m\<rparr>"
  by (simp add: upd_my_row_def)

lemma skip_turns_eq:
  assumes "member_index g < num_rows (dg_sst g)" "q < length (my_counts g)"
  shows "skip_turns q k i (seq_of (dg_n g) (int q) i) g =
    (upd_my_row (add_received q (int k)) g)
      \<lparr>locally_stable_messages := skipped q (dg_n g) k i (locally_stable_messages g)\<rparr>"
  using assms
proof (induction k arbitrary: i g)
  case 0
  then show ?case by (simp add: upd_my_row_id add_received_def)
next
  case (Suc k)
  let ?m = "sm_assign (seq_of (dg_n g) (int q) (i + 1))
        \<lparr>sender_rank = int q, index = i + 1, msize = 0, message_buffer = None\<rparr> (locally_stable_messages g)"
  let ?g = "(upd_my_row (add_received q 1) g)\<lparr>locally_stable_messages := ?m\<rparr>"
  have step: "skip_turns q (Suc k) i (seq_of (dg_n g) (int q) i) g =
      skip_turns q k (i + 1) (seq_of (dg_n g) (int q) (i + 1)) ?g"
    by (simp add: Let_def seq_of_Suc group_simps)
  have "member_index ?g < num_rows (dg_sst ?g)" "q < length (my_counts ?g)"
    using Suc.prems by (simp_all add: group_simps add_received_def)
  from Suc.IH[OF this, of "i + 1"]
  have "skip_turns q k (i + 1) (seq_of (dg_n g) (int q) (i + 1)) ?g =
      (upd_my_row (add_received q (int k)) ?g)
        \<lparr>locally_stable_messages := skipped q (dg_n g) k (i + 1) ?m\<rparr>"
    by (simp add: group_simps)
  also have "upd_my_row (add_received q (int k)) ?g =
      (upd_my_row (add_received q (int (Suc k))) g)\<lparr>locally_stable_messages := ?m\<rparr>"
    using Suc.prems
    by (simp add: upd_my_row_stable upd_my_row_upd_my_row)
       (rule arg_cong[where f = "\<lambda>g. g\<lparr>locally_stable_messages := ?m\<rparr>"], rule upd_my_row_cong,
        simp add: add_received_def add.assoc)
  finally show ?case using step by simp
qed

lemma skipped_wf: "sm_wf m \<Longrightarrow> sm_wf (skipped q n k i m)"
  by (induction q n k i m rule: skipped.induct) (auto simp: sm_wf_assign)

lemma dom_skipped:
  "sm_wf m \<Longrightarrow> dom (sm_find (skipped q n k i m)) =
     dom (sm_find m) \<union> seq_of n (int q) ` {i + 1..i + int k}"
proof (induction q n k i m rule: skipped.induct)
  case (2 q n k i m)
  have "{i + 1..i + int (Suc k)} = insert (i + 1) {i + 1 + 1..i + 1 + int k}" by auto
  with 2 show ?case by (simp add: sm_wf_assign std_map.dom_assign)
qed simp

lemma placed_skipped:
  "q < n \<Longrightarrow> \<forall>e \<in> set m. placed n e \<Longrightarrow> \<forall>e \<in> set (skipped q n k i m). placed n e"
proof (induction q n k i m rule: skipped.induct)
  case (2 q n k i m)
  let ?m = "sm_assign (seq_of n (int q) (i + 1))
        \<lparr>sender_rank = int q, index = i + 1, msize = 0, message_buffer = None\<rparr> m"
  have "\<forall>e \<in> set ?m. placed n e"
    using "2.prems" set_assign_subset[of "seq_of n (int q) (i + 1)" _ m]
    by (fastforce simp: placed_def)
  with "2.IH" "2.prems"(1) show ?case by simp
qed simp

lemma received_grow:
  assumes "counts_ok n R" "q < n" "0 \<le> d"
  shows "received n (R[q := R ! q + d]) k \<longleftrightarrow>
    received n R k \<or> k \<in> seq_of n (int q) ` {R ! q + 1..R ! q + d}"
proof -
  have n: "0 < n" "q < length R" "-1 \<le> R ! q" using assms by (auto simp: counts_ok_def)
  have k: "k = seq_of n (k mod int n) (k div int n)" using n(1) by (simp add: seq_of_div_mod)
  have m: "nat (k mod int n) = q \<longleftrightarrow> k mod int n = int q" using n(1) pos_mod_sign[of "int n" k] by (auto simp: nat_eq_iff)
  have img: "k \<in> seq_of n (int q) ` {R ! q + 1..R ! q + d} \<longleftrightarrow>
      k mod int n = int q \<and> R ! q + 1 \<le> k div int n \<and> k div int n \<le> R ! q + d"
    using assms(2) k by (auto simp: image_iff seq_of_div seq_of_mod)
  have pos: "0 \<le> k" if "0 \<le> k div int n" using that n(1) by (simp add: pos_imp_zdiv_nonneg_iff)
  show ?thesis
  proof (cases "k mod int n = int q")
    case True
    then show ?thesis using n pos img assms(3) by (auto simp: received_def)
  next
    case False
    then have "nat (k mod int n) \<noteq> q" using m by simp
    then show ?thesis using False img by (auto simp: received_def)
  qed
qed

lemma update_seq_num_row:
  assumes "member_index g < num_rows (dg_sst g)"
  shows "rows (dg_sst (update_seq_num g)) ! member_index g =
    (my_row g)\<lparr>seq_num := max (seq_num (my_row g)) (contiguous_seq (dg_n g) (my_counts g))\<rparr>"
  using assms by (simp add: update_seq_num_def Let_def group_simps max_def)

lemma update_seq_num_fields [group_simps]:
  "dg_members (update_seq_num g) = dg_members g" "member_index (update_seq_num g) = member_index g"
  "locally_stable_messages (update_seq_num g) = locally_stable_messages g"
  "current_receives (update_seq_num g) = current_receives g" "outgoing (update_seq_num g) = outgoing g"
  "current_send (update_seq_num g) = current_send g"
  "future_message_index (update_seq_num g) = future_message_index g"
  "callback_seqs (update_seq_num g) = callback_seqs g"
  "local_index (dg_sst (update_seq_num g)) = local_index (dg_sst g)"
  "num_rows (dg_sst (update_seq_num g)) = num_rows (dg_sst g)"
  by (simp_all add: update_seq_num_def Let_def group_simps)

text \<open>
  What any receive does: sender \<open>q\<close> gains \<open>d\<close> messages, their numbers become keys of the
  stable messages, and the published number moves to the end of the new prefix.
\<close>

lemma receive_keeps_inv:
  assumes inv: "group_inv g" and q: "q < dg_n g" and d: "0 < d"
    and same: "dg_members g' = dg_members g" "member_index g' = member_index g"
      "num_rows (dg_sst g') = num_rows (dg_sst g)" "local_index (dg_sst g') = local_index (dg_sst g)"
      "callback_seqs g' = callback_seqs g"
    and row: "rows (dg_sst g') ! member_index g = (my_row g)\<lparr>
        nReceived := (my_counts g)[q := my_counts g ! q + d],
        seq_num := max (seq_num (my_row g)) (contiguous_seq (dg_n g) ((my_counts g)[q := my_counts g ! q + d]))\<rparr>"
    and stable: "sm_wf (locally_stable_messages g')"
      "dom (sm_find (locally_stable_messages g')) = dom (sm_find (locally_stable_messages g)) \<union>
         seq_of (dg_n g) (int q) ` {my_counts g ! q + 1..my_counts g ! q + d}"
      "\<forall>e \<in> set (locally_stable_messages g'). placed (dg_n g) e"
    and recv: "sm_wf (current_receives g')" "set (current_receives g') \<subseteq> set (current_receives g)"
    and own: "chained (member_index g) ((my_counts g)[q := my_counts g ! q + d] ! member_index g + 1)
       (outgoing g') (future_message_index g')"
  shows "group_inv g'"
proof -
  let ?n = "dg_n g" and ?R = "my_counts g"
  let ?R' = "?R[q := ?R ! q + d]"
  note invs = group_invD[OF inv]
  have ok: "counts_ok ?n ?R" using invs(1) by (simp add: rows_inv_def)
  then have qlen: "q < length ?R" "-1 \<le> ?R ! q" using q by (auto simp: counts_ok_def)
  have le: "\<forall>i < ?n. ?R ! i \<le> ?R' ! i"
    using qlen d by (auto simp: nth_list_update)
  have ok': "counts_ok ?n ?R'" using ok le unfolding counts_ok_def by force
  have mono: "contiguous_seq ?n ?R \<le> contiguous_seq ?n ?R'"
    using ok le by (intro contiguous_mono) (auto simp: counts_ok_def)
  have seq: "seq_num (my_row g) = contiguous_seq ?n ?R" using invs(2) by (simp add: order_inv_def)
  have del: "delivered_num (my_row g) \<le> contiguous_seq ?n ?R" using invs(2) by (simp add: order_inv_def)
  have new: "delivered_num (my_row g) < k" if "k \<in> seq_of ?n (int q) ` {?R ! q + 1..?R ! q + d}" for k
  proof -
    from that obtain i where i: "k = seq_of ?n (int q) i" "?R ! q < i" by auto
    then have "\<not> received ?n ?R k" using q qlen(2) by (simp add: received_seq_of)
    moreover have "0 \<le> k" using i qlen(2) by (simp add: seq_of_nonneg)
    ultimately have "contiguous_seq ?n ?R < k" using contiguous_prefix_received[OF ok] by force
    with del show ?thesis by simp
  qed
  have "rows_inv g'" using invs(1) ok' by (simp add: rows_inv_def same row)
  moreover have "order_inv g'"
    using invs(2) mono seq by (auto simp: order_inv_def same row)
  moreover have "store_inv g'"
    using invs(3) stable recv new received_grow[OF ok q, of d] d
    by (auto simp: store_inv_def same row)
  moreover have "chain_inv g'" using own by (simp add: chain_inv_def same row)
  moreover have "callback_inv g'" using invs(5) by (simp add: callback_inv_def same row)
  ultimately show ?thesis by (rule group_invI)
qed

lemma outgoing_stable_only [group_simps]:
  "outgoing (g\<lparr>locally_stable_messages := m\<rparr>) = outgoing g"
  "callback_seqs (g\<lparr>locally_stable_messages := m\<rparr>) = callback_seqs g"
  "outgoing (g\<lparr>locally_stable_messages := m, current_receives := c\<rparr>) = outgoing g"
  "callback_seqs (g\<lparr>locally_stable_messages := m, current_receives := c\<rparr>) = callback_seqs g"
  "callback_seqs (g\<lparr>locally_stable_messages := m, current_send := s\<rparr>) = callback_seqs g"
  by (simp_all add: outgoing_def callback_seqs_def)

lemma add_received_compose:
  "q < length (nReceived r) \<Longrightarrow> add_received q a (add_received q b r) = add_received q (b + a) r"
  by (simp add: add_received_def add.assoc)

text \<open>The state after the message itself is taken, before the skipped turns.\<close>

lemma rdmc_receive_handler_cases:
  assumes inv: "group_inv g" and q: "q < dg_n g"
    and run: "rdmc_receive_handler q data g = Inr g'"
  defines "k \<equiv> unat (h_pause_sending_turns data)"
    and "i \<equiv> my_counts g ! q + 1"
  obtains m g2 where
    "q = member_index g \<Longrightarrow> current_send g = Some m \<and>
       g2 = g\<lparr>locally_stable_messages := sm_assign (seq_of (dg_n g) (int q) i) m (locally_stable_messages g),
              current_send := None\<rparr>"
    "q \<noteq> member_index g \<Longrightarrow> sm_find (current_receives g) (seq_of (dg_n g) (int q) i) = Some m \<and>
       g2 = g\<lparr>locally_stable_messages := sm_emplace (seq_of (dg_n g) (int q) i) m (locally_stable_messages g),
              current_receives := sm_erase (seq_of (dg_n g) (int q) i) (current_receives g)\<rparr>"
    "g' = update_seq_num ((upd_my_row (add_received q (int k + 1)) g2)
       \<lparr>locally_stable_messages := skipped q (dg_n g) k i (locally_stable_messages g2)\<rparr>)"
proof -
  note found = that
  let ?s = "seq_of (dg_n g) (int q) i"
  let ?g1 = "upd_my_row (add_received q 1) g"
  have rows: "member_index g < num_rows (dg_sst g)" "q < length (my_counts g)"
    using group_invD(1)[OF inv] q by (auto simp: rows_inv_def counts_ok_def)
  have idx: "nReceived (my_row ?g1) ! q = i"
    using rows by (simp add: group_simps add_received_def i_def)
  from run obtain g1' where taken: "take_received q ?s ?g1 = Inr g1'"
    and g': "g' = update_seq_num (skip_turns q k i ?s g1')"
    unfolding rdmc_receive_handler_def Let_def idx k_def by (auto simp: group_simps)
  have close: ?thesis
    if g1': "g1' = upd_my_row (add_received q 1) g2" and n2: "dg_n g2 = dg_n g"
      and s2: "dg_sst g2 = dg_sst g" "member_index g2 = member_index g"
      and own: "q = member_index g \<Longrightarrow> current_send g = Some m \<and>
       g2 = g\<lparr>locally_stable_messages := sm_assign ?s m (locally_stable_messages g), current_send := None\<rparr>"
      and other: "q \<noteq> member_index g \<Longrightarrow> sm_find (current_receives g) ?s = Some m \<and>
       g2 = g\<lparr>locally_stable_messages := sm_emplace ?s m (locally_stable_messages g),
              current_receives := sm_erase ?s (current_receives g)\<rparr>" for g2 m
  proof -
    have bounds: "member_index g2 < num_rows (dg_sst g2)" "q < length (my_counts g2)"
      using rows by (simp_all add: s2)
    have "member_index g1' < num_rows (dg_sst g1')"
      using bounds by (simp add: g1' group_simps)
    moreover have "q < length (my_counts g1')"
    proof -
      have "rows (dg_sst g1') ! member_index g1' = add_received q 1 (my_row g2)"
        unfolding g1' upd_my_row_fields by (rule my_row_upd[OF bounds(1)])
      with bounds(2) show ?thesis by (simp add: add_received_def)
    qed
    ultimately have pre: "member_index g1' < num_rows (dg_sst g1')" "q < length (my_counts g1')"
      by this
    from skip_turns_eq[OF pre, of k i]
    have "skip_turns q k i ?s g1' = (upd_my_row (add_received q (int k)) g1')
        \<lparr>locally_stable_messages := skipped q (dg_n g) k i (locally_stable_messages g1')\<rparr>"
      by (simp add: g1' n2 group_simps)
    also have "upd_my_row (add_received q (int k)) g1' = upd_my_row (add_received q (int k + 1)) g2"
    proof -
      have "upd_my_row (add_received q (int k)) g1' =
          upd_my_row (\<lambda>r. add_received q (int k) (add_received q 1 r)) g2"
        using rows by (simp add: g1' s2 upd_my_row_upd_my_row)
      also have "\<dots> = upd_my_row (add_received q (int k + 1)) g2"
        using rows by (intro upd_my_row_cong) (simp add: s2 add_received_compose add.commute)
      finally show ?thesis .
    qed
    finally have "g' = update_seq_num ((upd_my_row (add_received q (int k + 1)) g2)
       \<lparr>locally_stable_messages := skipped q (dg_n g) k i (locally_stable_messages g2)\<rparr>)"
      by (simp add: g' g1' group_simps)
    from found[OF _ _ this] own other show ?thesis by blast
  qed
  show ?thesis
  proof (cases "q = member_index g")
    case True
    with taken obtain m where m: "current_send g = Some m"
      and g1': "g1' = ?g1\<lparr>locally_stable_messages := sm_assign ?s m (locally_stable_messages g), current_send := None\<rparr>"
      by (auto simp: take_received_def group_simps split: option.splits)
    show ?thesis
      by (rule close[of "g\<lparr>locally_stable_messages := sm_assign ?s m (locally_stable_messages g), current_send := None\<rparr>" m])
         (use True m in \<open>auto simp: g1' upd_my_row_def set_row_def\<close>)
  next
    case False
    with taken obtain m where m: "sm_find (current_receives g) ?s = Some m"
      and g1': "g1' = ?g1\<lparr>locally_stable_messages := sm_emplace ?s m (locally_stable_messages g),
         current_receives := sm_erase ?s (current_receives g)\<rparr>"
      by (auto simp: take_received_def group_simps split: option.splits)
    show ?thesis
      by (rule close[of "g\<lparr>locally_stable_messages := sm_emplace ?s m (locally_stable_messages g),
         current_receives := sm_erase ?s (current_receives g)\<rparr>" m])
         (use False m in \<open>auto simp: g1' upd_my_row_def set_row_def\<close>)
  qed
qed

end
