(* ===== verification/Group_Steps.thy ===== *)
theory Group_Steps
  imports Group_Order
begin

text \<open>
  The steps of one group while its view is installed, as a relation: the application's
  calls, the send loop, the RDMC handlers, the SST triggers, the file writer's callback
  and the arrival of other nodes' rows. Every reachable state keeps \<^verbatim>\<open>group_inv\<close>.
\<close>

section \<open>Sending keeps the invariant\<close>

lemma chained_append:
  "chained me i (ms @ ms') j \<longleftrightarrow> (\<exists>k. chained me i ms k \<and> chained me k ms' j)"
  by (induction ms arbitrary: i) (auto split: option.splits)

lemma chained_le: "chained me i ms j \<Longrightarrow> i \<le> j"
proof (induction ms arbitrary: i)
  case (Cons m ms)
  then obtain b where "chained me (i + 1 + uint (h_pause_sending_turns b)) ms j"
    by (auto split: option.splits)
  from Cons.IH[OF this] show ?case using uint_ge_0[of "h_pause_sending_turns b"] by linarith
qed simp

lemma fill_header_reads:
  assumes "0 \<le> pause" "pause < 2 ^ 31"
  shows "uint (h_pause_sending_turns (fill_header b pause cooked)) = pause"
    and "h_cooked_send (fill_header b pause cooked) = cooked"
    and "h_header_size (fill_header b pause cooked) = 9"
proof -
  have "uint (word_of_int pause :: 32 word) = pause"
    using assms by (simp add: uint_word_of_int take_bit_int_eq_self)
  moreover have "drop 4 (enc32 x @ y) = y" "drop 8 (enc32 x @ z) = drop 4 z" for x y z
    using u32_codec.drop_enc[of x y] by (simp_all add: u32_codec.enc_length)
  moreover have "dec_bool (enc_bool c @ y) = c" for c y by (rule bool_codec.dec_enc)
  ultimately show "uint (h_pause_sending_turns (fill_header b pause cooked)) = pause"
    "h_cooked_send (fill_header b pause cooked) = cooked"
    "h_header_size (fill_header b pause cooked) = 9"
    unfolding h_pause_sending_turns_def h_cooked_send_def h_header_size_def fill_header_def
    by (simp_all only: u32_codec.dec_enc) (simp add: sizeof_header_def)
qed

lemma header_prefix_reads:
  assumes "take 9 b = take 9 c"
  shows "h_pause_sending_turns b = h_pause_sending_turns c"
    and "h_cooked_send b = h_cooked_send c" and "h_header_size b = h_header_size c"
proof -
  have 1: "take 4 b = take 4 c" "take 4 (drop 4 b) = take 4 (drop 4 c)"
    using arg_cong[OF assms, of "take 4"] arg_cong[OF assms, of "\<lambda>x. take 4 (drop 4 x)"]
    by (simp_all add: drop_take)
  have 2: "take 1 (drop 8 b) = take 1 (drop 8 c)"
    using arg_cong[OF assms, of "drop 8"] by (simp add: drop_take)
  have 3: "dec_bool x = dec_bool (take 1 x)" for x by (cases x) (simp_all add: dec_bool_def)
  show "h_pause_sending_turns b = h_pause_sending_turns c" "h_header_size b = h_header_size c"
    unfolding h_pause_sending_turns_def h_header_size_def dec32_def using 1 by simp_all
  show "h_cooked_send b = h_cooked_send c"
    unfolding h_cooked_send_def by (subst (1 2) 3) (simp only: 2)
qed

lemma get_position_cases:
  assumes "get_position g sz pause cooked = Inr (g', p)"
  obtains "g' = g" "p = None"
  | buf where "rdmc_groups_created g" "\<not> thread_shutdown g" "sizeof_header \<le> length buf"
      "free_message_buffers g = butlast (free_message_buffers g) @ [buf]" "p = Some sizeof_header"
      "\<forall>i < dg_n g. window_start g (future_message_index g) \<le> delivered_num (rows (dg_sst g) ! i)"
      "(if sz = 0 then max_msg_size g else sz + 9) \<le> max_msg_size g"
      "g' = g\<lparr>free_message_buffers := butlast (free_message_buffers g),
        next_send := Some \<lparr>sender_rank = int (member_index g), index = future_message_index g,
          msize = (if sz = 0 then max_msg_size g else sz + 9),
          message_buffer = Some (fill_header buf pause cooked)\<rparr>,
        future_message_index := future_message_index g + (pause + 1)\<rparr>"
proof (cases "p = None")
  case True
  with assms have "g' = g" by (auto simp: get_position_def Let_def split: if_split_asm)
  with True show thesis by (rule that(1)[rotated])
next
  case False
  with assms have F: "rdmc_groups_created g" "\<not> thread_shutdown g" "free_message_buffers g \<noteq> []"
    "(if sz = 0 then max_msg_size g else sz + 9) \<le> max_msg_size g"
    "sizeof_header \<le> length (last (free_message_buffers g))"
    "\<forall>i < dg_n g. window_start g (future_message_index g) \<le> delivered_num (rows (dg_sst g) ! i)"
    by (auto simp: get_position_def Let_def list_ex_iff sizeof_header_def not_less split: if_split_asm)
  have "free_message_buffers g = butlast (free_message_buffers g) @ [last (free_message_buffers g)]"
    using F(3) by simp
  moreover have "p = Some sizeof_header" "g' = g\<lparr>free_message_buffers := butlast (free_message_buffers g),
        next_send := Some \<lparr>sender_rank = int (member_index g), index = future_message_index g,
          msize = (if sz = 0 then max_msg_size g else sz + 9),
          message_buffer = Some (fill_header (last (free_message_buffers g)) pause cooked)\<rparr>,
        future_message_index := future_message_index g + (pause + 1)\<rparr>"
    using assms False by (auto simp: get_position_def Let_def sizeof_header_def split: if_split_asm)
  ultimately show thesis using F by (intro that(2)[of "last (free_message_buffers g)"])
qed

text \<open>An operation that only touches the outgoing queue and the free buffers.\<close>

lemma outgoing_change_inv:
  assumes "group_inv g"
    and "dg_members g' = dg_members g" "member_index g' = member_index g" "dg_sst g' = dg_sst g"
      "locally_stable_messages g' = locally_stable_messages g"
      "current_receives g' = current_receives g" "callback_seqs g' = callback_seqs g"
    and "chain_inv g'"
  shows "group_inv g'"
  using assms by (simp add: group_inv_def rows_inv_def order_inv_def store_inv_def callback_inv_def)

lemma get_position_inv:
  assumes inv: "group_inv g" and run: "get_position g sz pause cooked = Inr (g', p)"
    and free: "next_send g = None" and pause: "0 \<le> pause" "pause < 2 ^ 31"
  shows "group_inv g'"
  using run
proof (cases rule: get_position_cases)
  case 1
  with inv show ?thesis by simp
next
  case (2 buf)
  have "chain_inv g" using inv by (rule group_invD)
  then have "chain_inv g'"
    using free pause by (simp add: 2(8) chain_inv_def outgoing_def opt_list_def chained_append
        fill_header_reads add.assoc)
  then show ?thesis by (rule outgoing_change_inv[OF inv, rotated -1]) (simp_all add: 2(8) callback_seqs_def)
qed

text \<open>The application writes its payload behind the header.\<close>

definition fill_payload :: "bytes \<Rightarrow> 'o dgroup \<Rightarrow> 'o dgroup" where
  "fill_payload data g = (case next_send g of None \<Rightarrow> g
     | Some m \<Rightarrow> g\<lparr>next_send := Some (m\<lparr>message_buffer := Some data\<rparr>)\<rparr>)"

lemma fill_payload_inv:
  assumes inv: "group_inv g" and "next_send g = Some m" "message_buffer m = Some b"
    and "take 9 data = take 9 b"
  shows "group_inv (fill_payload data g)"
proof -
  have "chain_inv g" using inv by (rule group_invD)
  then have "chain_inv (fill_payload data g)"
    using assms(2,3) header_prefix_reads(1)[OF assms(4)]
    by (auto simp: fill_payload_def chain_inv_def outgoing_def opt_list_def chained_append)
  then show ?thesis
    by (rule outgoing_change_inv[OF inv, rotated -1]) (simp_all add: assms(2) fill_payload_def callback_seqs_def)
qed

lemma send_inv:
  assumes inv: "group_inv g" and "send g = Inr (g', ok)"
  shows "group_inv g'"
proof -
  have "same_core g g'"
    using assms(2) by (auto simp: send_def same_core_def call_def outgoing_def opt_list_def callback_seqs_def
        split: if_splits option.splits)
  then show ?thesis using inv by (rule same_core_inv)
qed

text \<open>
  The send loop starts a message only when the one before it is complete, so at most one
  own message is in flight.
\<close>

lemma single_in_flight:
  assumes inv: "group_inv g" and send: "should_send g"
  shows "current_send g = None"
proof (rule ccontr)
  assume "current_send g \<noteq> None"
  then obtain c where c: "current_send g = Some c" by auto
  from send obtain m ms where m: "pending_sends g = m # ms"
    and le: "index m - 1 \<le> my_counts g ! member_index g"
    by (auto simp: should_send_def split: if_splits list.splits)
  have "chain_inv g" using inv by (rule group_invD)
  then obtain b where "index m = my_counts g ! member_index g + 1 + 1 + uint (h_pause_sending_turns b)"
    by (auto simp: chain_inv_def outgoing_def opt_list_def c m split: option.splits)
  with le uint_ge_0[of "h_pause_sending_turns b"] show False by linarith
qed

lemma send_loop_inv:
  assumes inv: "group_inv g" and send: "should_send g" and "send_loop_turn True g = Inr g'"
  shows "group_inv g'"
proof -
  have "same_core g g'"
    using assms(3) single_in_flight[OF inv send]
    by (auto simp: send_loop_turn_def same_core_def call_def outgoing_def opt_list_def callback_seqs_def Let_def
        split: if_splits option.splits list.splits)
  then show ?thesis using inv by (rule same_core_inv)
qed

section \<open>Receiving and delivering keep the invariant\<close>

lemma received_row:
  assumes "member_index g < num_rows (dg_sst g)" "q < length (my_counts g)"
  shows "rows (dg_sst (update_seq_num ((upd_my_row (add_received q d) g)\<lparr>locally_stable_messages := m\<rparr>))) ! member_index g =
    (my_row g)\<lparr>nReceived := (my_counts g)[q := my_counts g ! q + d],
      seq_num := max (seq_num (my_row g)) (contiguous_seq (dg_n g) ((my_counts g)[q := my_counts g ! q + d]))\<rparr>"
proof -
  let ?g = "(upd_my_row (add_received q d) g)\<lparr>locally_stable_messages := m\<rparr>"
  have "my_row ?g = add_received q d (my_row g)" using assms(1) by (simp add: group_simps)
  moreover have "member_index ?g = member_index g" "dg_n ?g = dg_n g"
    "member_index ?g < num_rows (dg_sst ?g)" using assms(1) by (simp_all add: group_simps)
  ultimately show ?thesis
    using update_seq_num_row[of ?g] assms(2) by (simp add: add_received_def)
qed

text \<open>The part of a receive that is the same for the node's own messages and for the others'.\<close>

lemma taken_keeps_inv:
  fixes g g2 :: "'o dgroup"
  assumes inv: "group_inv g" and q: "q < dg_n g"
    and same: "dg_sst g2 = dg_sst g" "member_index g2 = member_index g" "dg_members g2 = dg_members g"
      "callback_seqs g2 = callback_seqs g"
    and wf: "sm_wf (locally_stable_messages g2)"
    and dom: "dom (sm_find (locally_stable_messages g2)) =
        insert (seq_of (dg_n g) (int q) (my_counts g ! q + 1)) (dom (sm_find (locally_stable_messages g)))"
    and pos: "\<forall>e \<in> set (locally_stable_messages g2). placed (dg_n g) e"
    and recv: "sm_wf (current_receives g2)" "set (current_receives g2) \<subseteq> set (current_receives g)"
    and own: "chained (member_index g) ((my_counts g)[q := my_counts g ! q + (int k + 1)] ! member_index g + 1)
       (outgoing g2) (future_message_index g2)"
    and g': "g' = update_seq_num ((upd_my_row (add_received q (int k + 1)) g2)
       \<lparr>locally_stable_messages := skipped q (dg_n g) k (my_counts g ! q + 1) (locally_stable_messages g2)\<rparr>)"
  shows "group_inv g'"
proof -
  have rows: "member_index g < num_rows (dg_sst g)" "q < length (my_counts g)"
    using group_invD(1)[OF inv] q by (auto simp: rows_inv_def counts_ok_def)
  have set: "{my_counts g ! q + 1..my_counts g ! q + (int k + 1)} =
      insert (my_counts g ! q + 1) {my_counts g ! q + 1 + 1..my_counts g ! q + 1 + int k}" by auto
  have out: "outgoing g' = outgoing g2" "future_message_index g' = future_message_index g2"
    "current_receives g' = current_receives g2" "callback_seqs g' = callback_seqs g2"
    by (simp_all add: g' group_simps outgoing_stable_only)
  have stable: "locally_stable_messages g' = skipped q (dg_n g) k (my_counts g ! q + 1) (locally_stable_messages g2)"
    by (simp add: g' group_simps)
  show ?thesis
  proof (rule receive_keeps_inv[OF inv q, of "int k + 1"])
    show "rows (dg_sst g') ! member_index g = my_row g\<lparr>
        nReceived := (my_counts g)[q := my_counts g ! q + (int k + 1)],
        seq_num := max (seq_num (my_row g)) (contiguous_seq (dg_n g) ((my_counts g)[q := my_counts g ! q + (int k + 1)]))\<rparr>"
      using received_row[where g = g2 and q = q and d = "int k + 1"] rows by (simp add: g' same)
    show "sm_wf (locally_stable_messages g')" by (simp add: stable skipped_wf wf)
    show "dom (sm_find (locally_stable_messages g')) = dom (sm_find (locally_stable_messages g)) \<union>
         seq_of (dg_n g) (int q) ` {my_counts g ! q + 1..my_counts g ! q + (int k + 1)}"
      unfolding stable set by (simp add: dom_skipped wf dom)
    show "\<forall>e \<in> set (locally_stable_messages g'). placed (dg_n g) e"
      unfolding stable by (rule placed_skipped[OF q pos])
  qed (use same recv own in \<open>simp_all add: out\<close>, simp_all add: g' group_simps same)
qed

lemma own_receive_inv:
  assumes inv: "group_inv g" and cur: "current_send g = Some m" "message_buffer m = Some b"
    and run: "rdmc_receive_handler (member_index g) b g = Inr g'"
  shows "group_inv g'"
proof -
  let ?q = "member_index g" and ?k = "unat (h_pause_sending_turns b)"
  note invs = group_invD[OF inv]
  have q: "?q < dg_n g" "?q < length (my_counts g)"
    using invs(1) by (auto simp: rows_inv_def counts_ok_def)
  have stores: "sm_wf (locally_stable_messages g)" "sm_wf (current_receives g)"
    "\<forall>e \<in> set (locally_stable_messages g). placed (dg_n g) e"
    using invs(3) by (auto simp: store_inv_def)
  let ?s = "seq_of (dg_n g) (int ?q) (my_counts g ! ?q + 1)"
  from rdmc_receive_handler_cases[OF inv q(1) run] obtain g2 where
    g2: "g2 = g\<lparr>locally_stable_messages := sm_assign ?s m (locally_stable_messages g), current_send := None\<rparr>"
    and g': "g' = update_seq_num ((upd_my_row (add_received ?q (int ?k + 1)) g2)
       \<lparr>locally_stable_messages := skipped ?q (dg_n g) ?k (my_counts g ! ?q + 1) (locally_stable_messages g2)\<rparr>)"
    using cur(1) by auto
  have pos: "sender_rank m = int ?q" "index m = my_counts g ! ?q + 1" "message_buffer m \<noteq> None"
    "chained ?q (my_counts g ! ?q + 1 + 1 + int ?k) (pending_sends g @ opt_list (next_send g)) (future_message_index g)"
    using invs(4) cur by (simp_all add: chain_inv_def outgoing_def opt_list_def)
  show ?thesis
  proof (rule taken_keeps_inv[OF inv q(1) _ _ _ _ _ _ _ _ _ _ g'])
    show "\<forall>e \<in> set (locally_stable_messages g2). placed (dg_n g) e"
      using set_assign_subset[of ?s m "locally_stable_messages g"] stores(3) pos q(1)
      by (fastforce simp: g2 placed_def)
    show "chained ?q ((my_counts g)[?q := my_counts g ! ?q + (int ?k + 1)] ! ?q + 1)
       (outgoing g2) (future_message_index g2)"
      using pos(4) q(2) by (simp add: g2 outgoing_def opt_list_def add_ac)
  qed (use stores in \<open>simp_all add: g2 sm_wf_assign std_map.dom_assign outgoing_stable_only\<close>)
qed

text \<open>The block transfer of another sender's message: RDMC writes the bytes into the buffer.\<close>

definition rdmc_deliver :: "nat \<Rightarrow> bytes \<Rightarrow> 'o dgroup \<Rightarrow> 'o dgroup" where
  "rdmc_deliver q data g =
     (let s = seq_of (dg_n g) (int q) (my_counts g ! q + 1)
      in case sm_find (current_receives g) s of None \<Rightarrow> g
         | Some m \<Rightarrow> g\<lparr>current_receives := sm_assign s (m\<lparr>message_buffer := Some data\<rparr>) (current_receives g)\<rparr>)"

lemma placed_assign:
  assumes "sm_find r s = Some m" "\<forall>e \<in> set r. placed n e"
  shows "\<forall>e \<in> set (sm_assign s (m\<lparr>message_buffer := Some d\<rparr>) r). placed n e"
proof -
  have "placed n (s, m)" using assms sm_find_in_set[of r s m] by blast
  then have "placed n (s, m\<lparr>message_buffer := Some d\<rparr>)" by (simp add: placed_def)
  with assms(2) set_assign_subset[of s "m\<lparr>message_buffer := Some d\<rparr>" r] show ?thesis by blast
qed

lemma rdmc_deliver_inv: "group_inv g \<Longrightarrow> group_inv (rdmc_deliver q data g)"
  by (auto simp: rdmc_deliver_def Let_def group_inv_def rows_inv_def order_inv_def store_inv_def chain_inv_def
      callback_inv_def callback_seqs_def outgoing_def sm_wf_assign placed_assign split: option.splits
      dest: bspec[OF placed_assign])

lemma other_receive_inv:
  assumes inv: "group_inv g" and q: "q < dg_n g" "q \<noteq> member_index g"
    and run: "rdmc_receive_handler q data g = Inr g'"
  shows "group_inv g'"
proof -
  let ?k = "unat (h_pause_sending_turns data)" and ?s = "seq_of (dg_n g) (int q) (my_counts g ! q + 1)"
  note invs = group_invD[OF inv]
  have stores: "sm_wf (locally_stable_messages g)" "sm_wf (current_receives g)"
    "\<forall>e \<in> set (locally_stable_messages g). placed (dg_n g) e"
    "\<forall>e \<in> set (current_receives g). placed (dg_n g) e"
    using invs(3) by (auto simp: store_inv_def)
  have "\<exists>m g2. sm_find (current_receives g) ?s = Some m \<and>
     g2 = g\<lparr>locally_stable_messages := sm_emplace ?s m (locally_stable_messages g),
         current_receives := sm_erase ?s (current_receives g)\<rparr> \<and>
     g' = update_seq_num ((upd_my_row (add_received q (int ?k + 1)) g2)
       \<lparr>locally_stable_messages := skipped q (dg_n g) ?k (my_counts g ! q + 1) (locally_stable_messages g2)\<rparr>)"
    by (rule rdmc_receive_handler_cases[OF inv q(1) run]) (use q(2) in blast)
  then obtain m g2 where
    m: "sm_find (current_receives g) ?s = Some m"
    and g2: "g2 = g\<lparr>locally_stable_messages := sm_emplace ?s m (locally_stable_messages g),
         current_receives := sm_erase ?s (current_receives g)\<rparr>"
    and g': "g' = update_seq_num ((upd_my_row (add_received q (int ?k + 1)) g2)
       \<lparr>locally_stable_messages := skipped q (dg_n g) ?k (my_counts g ! q + 1) (locally_stable_messages g2)\<rparr>)"
    by (elim exE conjE)
  have fresh: "placed (dg_n g) (?s, m)" using stores(4) sm_find_in_set[OF m] by blast
  show ?thesis
  proof (rule taken_keeps_inv[OF inv q(1) _ _ _ _ _ _ _ _ _ _ g'])
    show "\<forall>e \<in> set (locally_stable_messages g2). placed (dg_n g) e"
      using set_emplace_subset[of ?s m "locally_stable_messages g"] stores(3) fresh
      by (auto simp: g2)
    show "chained (member_index g) ((my_counts g)[q := my_counts g ! q + (int ?k + 1)] ! member_index g + 1)
       (outgoing g2) (future_message_index g2)"
      using invs(4) q(2) by (simp add: g2 chain_inv_def outgoing_stable_only)
    show "dom (sm_find (locally_stable_messages g2)) = insert ?s (dom (sm_find (locally_stable_messages g)))"
      by (simp add: g2 dom_sm_find keys_emplace)
  qed (use stores set_erase_subset[of ?s "current_receives g"] in
        \<open>simp_all add: g2 sm_wf_emplace sm_wf_erase outgoing_stable_only\<close>)
qed

lemma min_over_rows_le: "i < dg_n g \<Longrightarrow> min_over_rows f g \<le> f (rows (dg_sst g) ! i)"
  unfolding min_over_rows_def by (rule min_from_le_elem) simp

lemma min_over_rows_mine: "rows_inv g \<Longrightarrow> min_over_rows f g \<le> f (my_row g)"
  by (rule min_over_rows_le) (simp add: rows_inv_def)

lemma min_over_rows_ge:
  "0 < dg_n g \<Longrightarrow> (\<And>i. i < dg_n g \<Longrightarrow> z \<le> f (rows (dg_sst g) ! i)) \<Longrightarrow> z \<le> min_over_rows f g"
  unfolding min_over_rows_def by (rule min_from_greatest) auto

lemma stability_inv:
  assumes inv: "group_inv g"
  shows "group_inv (stability_trig g)"
proof -
  note invs = group_invD[OF inv]
  have "member_index g < num_rows (dg_sst g)" using invs(1) by (auto simp: rows_inv_def)
  with invs min_over_rows_mine[OF invs(1), of seq_num] show ?thesis
    by (auto simp: stability_trig_def Let_def group_inv_def rows_inv_def order_inv_def store_inv_def
        chain_inv_def callback_inv_def group_simps)
qed

text \<open>The next number to deliver, once it is stable everywhere, heads the stable messages.\<close>

lemma next_delivered_is_least:
  assumes inv: "group_inv g" and first: "sm_begin (locally_stable_messages g) = Some (k, msg)"
    and stable: "k \<le> min_over_rows stable_num g"
  shows "k = delivered_num (my_row g) + 1"
proof -
  note invs = group_invD[OF inv]
  have wf: "sm_wf (locally_stable_messages g)" using invs(3) by (simp add: store_inv_def)
  have keys: "j \<in> dom (sm_find (locally_stable_messages g)) \<longleftrightarrow>
      delivered_num (my_row g) < j \<and> received (dg_n g) (my_counts g) j" for j
    using invs(3) by (simp add: store_inv_def)
  have k: "delivered_num (my_row g) < k" using keys[of k] std_map.least_lookup[OF wf first] by auto
  have "k \<le> stable_num (my_row g)" using stable min_over_rows_mine[OF invs(1)] order_trans by blast
  then have "received (dg_n g) (my_counts g) (delivered_num (my_row g) + 1)"
    using invs(1,2) k by (intro contiguous_prefix_received) (auto simp: rows_inv_def order_inv_def)
  then have "delivered_num (my_row g) + 1 \<in> dom (sm_find (locally_stable_messages g))"
    by (subst keys) simp
  then show ?thesis
    by (rule std_map.least_of_interval[OF wf first]) (drule keys[THEN iffD1], simp)
qed

lemma stable_has_next:
  assumes inv: "group_inv g" and less: "delivered_num (my_row g) < min_over_rows stable_num g"
  obtains msg where "sm_begin (locally_stable_messages g) = Some (delivered_num (my_row g) + 1, msg)"
proof -
  note invs = group_invD[OF inv]
  have wf: "sm_wf (locally_stable_messages g)" using invs(3) by (simp add: store_inv_def)
  have "delivered_num (my_row g) + 1 \<le> seq_num (my_row g)"
    using less min_over_rows_mine[OF invs(1), of stable_num] invs(2) by (simp add: order_inv_def)
  then have "received (dg_n g) (my_counts g) (delivered_num (my_row g) + 1)"
    using invs(1,2) by (intro contiguous_prefix_received) (auto simp: rows_inv_def order_inv_def)
  then have in_dom: "delivered_num (my_row g) + 1 \<in> dom (sm_find (locally_stable_messages g))"
    using invs(3) by (simp add: store_inv_def)
  then obtain k msg where first: "sm_begin (locally_stable_messages g) = Some (k, msg)"
    using std_map.least_None[OF wf] by (cases "sm_begin (locally_stable_messages g)") auto
  have "k = delivered_num (my_row g) + 1"
    using invs(3) by (intro std_map.least_of_interval[OF wf first in_dom]) (auto simp: store_inv_def)
  with first that show thesis by simp
qed

lemma delivery_cases:
  assumes inv: "group_inv g" and run: "delivery_trig g = Inr g'"
  obtains "g' = g" "min_over_rows stable_num g \<le> delivered_num (my_row g)"
  | msg g1 where "sm_begin (locally_stable_messages g) = Some (delivered_num (my_row g) + 1, msg)"
      "delivered_num (my_row g) + 1 \<le> min_over_rows stable_num g"
      "deliver_message msg g = Inr g1" "delivery_frame g g1"
      "callback_seqs g1 = callback_seqs g @ raw_seqs (dg_n g) msg"
      "g' = (sst_put (upd_my_row (\<lambda>r. r\<lparr>delivered_num := delivered_num (my_row g) + 1\<rparr>) g1))
         \<lparr>locally_stable_messages := sm_erase (delivered_num (my_row g) + 1) (locally_stable_messages g)\<rparr>"
proof (cases "delivered_num (my_row g) < min_over_rows stable_num g")
  case True
  then obtain msg where first: "sm_begin (locally_stable_messages g) = Some (delivered_num (my_row g) + 1, msg)"
    by (rule stable_has_next[OF inv])
  with run True obtain g1 where g1: "deliver_message msg g = Inr g1"
    and g': "g' = (sst_put (upd_my_row (\<lambda>r. r\<lparr>delivered_num := delivered_num (my_row g) + 1\<rparr>) g1))
         \<lparr>locally_stable_messages := sm_erase (delivered_num (my_row g) + 1)
            (locally_stable_messages (sst_put (upd_my_row (\<lambda>r. r\<lparr>delivered_num := delivered_num (my_row g) + 1\<rparr>) g1)))\<rparr>"
    by (auto simp: delivery_trig_def Let_def)
  from deliver_message_frame[OF g1] have f: "delivery_frame g g1"
    "callback_seqs g1 = callback_seqs g @ raw_seqs (dg_n g) msg" by simp_all
  show thesis
    by (rule that(2)[OF first _ g1 f]) (use True f(1) g' in \<open>simp_all add: group_simps delivery_frame_def\<close>)
next
  case False
  have "g' = g"
  proof (cases "sm_begin (locally_stable_messages g)")
    case None
    with run show ?thesis by (simp add: delivery_trig_def Let_def)
  next
    case (Some e)
    then obtain k msg where e: "sm_begin (locally_stable_messages g) = Some (k, msg)" by (cases e) auto
    with next_delivered_is_least[OF inv e] False run show ?thesis
      by (auto simp: delivery_trig_def Let_def split: if_splits)
  qed
  with False show thesis by (intro that(1)) simp_all
qed

lemma delivery_inv:
  assumes inv: "group_inv g" and run: "delivery_trig g = Inr g'"
  shows "group_inv g'"
  using inv run
proof (cases rule: delivery_cases)
  case 1
  with inv show ?thesis by simp
next
  case (2 msg g1)
  note invs = group_invD[OF inv]
  let ?d = "delivered_num (my_row g) + 1"
  have wf: "sm_wf (locally_stable_messages g)" using invs(3) by (simp add: store_inv_def)
  have row: "rows (dg_sst g') ! member_index g = (my_row g)\<lparr>delivered_num := ?d\<rparr>"
    "num_rows (dg_sst g') = num_rows (dg_sst g)" "local_index (dg_sst g') = local_index (dg_sst g)"
    using invs(1) 2(4) by (auto simp: 2(6) delivery_frame_def rows_inv_def upd_my_row_def sst_put_def put_fields set_row_def)
  have fields: "dg_members g' = dg_members g" "member_index g' = member_index g"
    "current_receives g' = current_receives g" "outgoing g' = outgoing g"
    "future_message_index g' = future_message_index g"
    "locally_stable_messages g' = sm_erase ?d (locally_stable_messages g)"
    "callback_seqs g' = callback_seqs g @ raw_seqs (dg_n g) msg"
    using 2(4,5) delivery_frame_outgoing[OF 2(4)]
    by (simp_all add: 2(6) group_simps delivery_frame_def outgoing_stable_only)
  have "placed (dg_n g) (?d, msg)"
    using invs(3) sm_find_in_set[OF std_map.least_lookup[OF wf 2(1)]] by (auto simp: store_inv_def)
  then have raw: "set (raw_seqs (dg_n g) msg) \<subseteq> {?d}" "sorted_wrt (<) (raw_seqs (dg_n g) msg)"
    by (auto simp: raw_seqs_def placed_def)
  show ?thesis
  proof (rule group_invI)
    show "order_inv g'"
      using invs(1,2) 2(2) min_over_rows_mine[OF invs(1), of stable_num] by (auto simp: order_inv_def row fields)
    show "store_inv g'"
      using invs(3) set_erase_subset[of ?d "locally_stable_messages g"]
      by (auto simp: store_inv_def row fields sm_wf_erase std_map.dom_erase[OF wf])
    show "callback_inv g'"
      using invs(2,5) raw by (fastforce simp: callback_inv_def row fields sorted_wrt_append order_inv_def)
  qed (use invs in \<open>simp_all add: rows_inv_def chain_inv_def row fields\<close>)
qed

lemma sender_trig_inv: "group_inv g \<Longrightarrow> group_inv (sender_trig g)"
  by (rule same_core_inv[of g])
     (simp_all add: sender_trig_def same_core_def call_def outgoing_def callback_seqs_def)

lemma file_written_inv:
  assumes inv: "group_inv g" and run: "file_written_callback given m g = Inr g'"
  shows "group_inv g'"
proof -
  from run obtain s p r l f where g': "g' = sst_put (upd_my_row (\<lambda>row. row\<lparr>persisted_num := s\<rparr>)
      ((call (Persistence_callback (int r) (m_index m) p l) g)
         \<lparr>free_message_buffers := f, non_persistent_messages := sm_erase s (non_persistent_messages g)\<rparr>))"
    by (auto simp: file_written_callback_def Let_def group_simps split: option.splits if_splits)
  have "outgoing g' = outgoing g" "callback_seqs g' = callback_seqs g"
    by (simp_all add: g' group_simps) (simp_all add: outgoing_def callback_seqs_def group_simps)
  moreover have "rows (dg_sst g') ! member_index g = (my_row g)\<lparr>persisted_num := s\<rparr>"
    "num_rows (dg_sst g') = num_rows (dg_sst g)" "local_index (dg_sst g') = local_index (dg_sst g)"
    using group_invD(1)[OF inv]
    by (simp_all add: g' upd_my_row_def sst_put_def put_fields set_row_def call_def rows_inv_def)
  moreover have "dg_members g' = dg_members g" "member_index g' = member_index g"
    "locally_stable_messages g' = locally_stable_messages g" "current_receives g' = current_receives g"
    "future_message_index g' = future_message_index g"
    by (simp_all add: g' group_simps)
  ultimately show ?thesis using inv
    by (simp add: group_inv_def rows_inv_def order_inv_def store_inv_def chain_inv_def callback_inv_def)
qed

text \<open>The rows the other nodes have written to this node's copy of the table.\<close>

definition rows_arrive :: "derecho_row list \<Rightarrow> 'o dgroup \<Rightarrow> 'o dgroup" where
  "rows_arrive rs g = g\<lparr>dg_sst := (dg_sst g)\<lparr>rows := rs\<rparr>\<rparr>"

lemma rows_arrive_inv:
  "group_inv g \<Longrightarrow> length rs = num_rows (dg_sst g) \<Longrightarrow> rs ! member_index g = my_row g \<Longrightarrow>
   group_inv (rows_arrive rs g)"
  by (rule same_core_inv[of g])
     (simp_all add: rows_arrive_def same_core_def outgoing_def callback_seqs_def)

lemma receive_destination_inv:
  assumes inv: "group_inv g" and q: "q < dg_n g" and run: "receive_destination q sz g = Inr g'"
  shows "group_inv g'"
proof -
  let ?s = "seq_of (dg_n g) (int q) (my_counts g ! q + 1)"
  define m where "m = \<lparr>sender_rank = int q, index = my_counts g ! q + 1, msize = sz,
                   message_buffer = Some (last (free_message_buffers g))\<rparr>"
  have m: "placed (dg_n g) (?s, m)" using q by (simp add: m_def placed_def)
  from run have g': "g' = g\<lparr>free_message_buffers := butlast (free_message_buffers g),
                  current_receives := sm_assign ?s m (current_receives g)\<rparr>"
    by (auto simp: receive_destination_def Let_def m_def split: if_splits)
  have "outgoing g' = outgoing g" "callback_seqs g' = callback_seqs g"
    by (simp_all add: g' outgoing_def callback_seqs_def)
  then show ?thesis
    using inv set_assign_subset[of ?s m "current_receives g"] m
    by (auto simp: g' group_inv_def rows_inv_def order_inv_def store_inv_def chain_inv_def callback_inv_def
        sm_wf_assign)
qed

section \<open>The steps of a group\<close>

text \<open>
  A new group, before any message: the counters of its row are at -1 and nothing is
  buffered.
\<close>

definition fresh_group :: "'o dgroup \<Rightarrow> bool" where
  "fresh_group g \<longleftrightarrow> member_index g < dg_n g \<and> dg_n g \<le> num_rows (dg_sst g) \<and>
     local_index (dg_sst g) = member_index g \<and> dg_n g \<le> length (my_counts g) \<and>
     list_all (\<lambda>i. i = -1) (take (dg_n g) (my_counts g)) \<and> seq_num (my_row g) = -1 \<and> stable_num (my_row g) = -1 \<and>
     delivered_num (my_row g) = -1 \<and> locally_stable_messages g = [] \<and> current_receives g = [] \<and>
     outgoing g = [] \<and> future_message_index g = 0 \<and> callback_seqs g = []"

lemma fresh_group_inv:
  assumes "fresh_group g"
  shows "group_inv g"
proof -
  have R: "i < dg_n g \<Longrightarrow> my_counts g ! i = -1" for i
    using assms by (auto simp: fresh_group_def list_all_length)
  have n: "0 < dg_n g" "dg_n g \<le> length (my_counts g)" "member_index g < dg_n g"
    using assms by (auto simp: fresh_group_def)
  with R have ok: "counts_ok (dg_n g) (my_counts g)" by (auto simp: counts_ok_def)
  have none: "\<not> received (dg_n g) (my_counts g) k" for k
  proof
    assume "received (dg_n g) (my_counts g) k"
    moreover have "nat (k mod int (dg_n g)) < dg_n g" using n(1) by (simp add: nat_less_iff)
    ultimately have "0 \<le> k" "k div int (dg_n g) \<le> -1" using R by (auto simp: received_def)
    moreover from this have "0 \<le> k div int (dg_n g)" using n(1) by (simp add: pos_imp_zdiv_nonneg_iff)
    ultimately show False by simp
  qed
  have "-1 = contiguous_seq (dg_n g) (my_counts g)"
    by (rule contiguous_unique[OF ok]) (use none in auto)
  with assms ok none R[OF n(3)] show ?thesis
    by (auto simp: fresh_group_def group_inv_def rows_inv_def order_inv_def store_inv_def chain_inv_def callback_inv_def)
qed

text \<open>
  The application calls \<^verbatim>\<open>get_position\<close> only after it has sent the message it asked for
  before, and writes its payload behind the header.
\<close>

inductive g_step :: "'o dgroup \<Rightarrow> 'o dgroup \<Rightarrow> bool" where
  app_get: "next_send g = None \<Longrightarrow> 0 \<le> pause \<Longrightarrow> pause < 2 ^ 31 \<Longrightarrow>
    get_position g sz pause cooked = Inr (g', p) \<Longrightarrow> g_step g g'"
| app_fill: "next_send g = Some m \<Longrightarrow> message_buffer m = Some b \<Longrightarrow> take 9 data = take 9 b \<Longrightarrow>
    g_step g (fill_payload data g)"
| app_send: "send g = Inr (g', ok) \<Longrightarrow> g_step g g'"
| loop_send: "should_send g \<Longrightarrow> send_loop_turn True g = Inr g' \<Longrightarrow> g_step g g'"
| rdmc_start: "q < dg_n g \<Longrightarrow> receive_destination q sz g = Inr g' \<Longrightarrow> g_step g g'"
| rdmc_own: "current_send g = Some m \<Longrightarrow> message_buffer m = Some b \<Longrightarrow>
    receive_handler_plus_notify (member_index g) b g = Inr g' \<Longrightarrow> g_step g g'"
| rdmc_other: "q < dg_n g \<Longrightarrow> q \<noteq> member_index g \<Longrightarrow>
    rdmc_receive_handler q data (rdmc_deliver q data g) = Inr g' \<Longrightarrow> g_step g g'"
| stability: "g_step g (stability_trig g)"
| delivery: "delivery_trig g = Inr g' \<Longrightarrow> g_step g g'"
| sender: "sender_pred g \<Longrightarrow> g_step g (sender_trig g)"
| logged: "file_written_callback given m g = Inr g' \<Longrightarrow> g_step g g'"
| writer: "g_step g (g\<lparr>dg_writer := Some fw\<rparr>)"
| remote_rows: "length rs = num_rows (dg_sst g) \<Longrightarrow> rs ! member_index g = my_row g \<Longrightarrow>
    g_step g (rows_arrive rs g)"

lemma rdmc_deliver_fields [simp]:
  "dg_members (rdmc_deliver q data g) = dg_members g" "member_index (rdmc_deliver q data g) = member_index g"
  by (simp_all add: rdmc_deliver_def Let_def split: option.splits)

lemma rdmc_own_inv:
  assumes inv: "group_inv g" and m: "current_send g = Some m" "message_buffer m = Some b"
    and run: "receive_handler_plus_notify (member_index g) b g = Inr g'"
  shows "group_inv g'"
proof -
  from run obtain g1 where run: "rdmc_receive_handler (member_index g) b g = Inr g1" and g': "g' = call Notify_sender g1"
    by (auto simp: receive_handler_plus_notify_def)
  have "same_core g1 g'" by (simp add: g' same_core_def group_simps)
  then show ?thesis using own_receive_inv[OF inv m run] by (rule same_core_inv)
qed

lemma rdmc_other_inv:
  assumes inv: "group_inv g" and q: "q < dg_n g" "q \<noteq> member_index g"
    and run: "rdmc_receive_handler q data (rdmc_deliver q data g) = Inr g'"
  shows "group_inv g'"
  by (rule other_receive_inv[OF rdmc_deliver_inv[OF inv] _ _ run]) (use q in simp_all)

lemma writer_inv:
  assumes "group_inv g"
  shows "group_inv (g\<lparr>dg_writer := Some fw\<rparr>)"
proof -
  have "same_core g (g\<lparr>dg_writer := Some fw\<rparr>)"
    by (simp add: same_core_def outgoing_def callback_seqs_def)
  then show ?thesis using assms by (rule same_core_inv)
qed

lemma g_step_inv: "g_step g g' \<Longrightarrow> group_inv g \<Longrightarrow> group_inv g'"
proof (induction rule: g_step.induct)
  case app_get
  from app_get(5,4,1,2,3) show ?case by (rule get_position_inv)
next
  case app_fill
  from app_fill(4,1,2,3) show ?case by (rule fill_payload_inv)
next
  case app_send
  from app_send(2,1) show ?case by (rule send_inv)
next
  case loop_send
  from loop_send(3,1,2) show ?case by (rule send_loop_inv)
next
  case rdmc_start
  from rdmc_start(3,1,2) show ?case by (rule receive_destination_inv)
next
  case rdmc_own
  from rdmc_own(4,1,2,3) show ?case by (rule rdmc_own_inv)
next
  case rdmc_other
  from rdmc_other(4,1,2,3) show ?case by (rule rdmc_other_inv)
next
  case delivery
  from delivery(2,1) show ?case by (rule delivery_inv)
next
  case logged
  from logged(2,1) show ?case by (rule file_written_inv)
next
  case remote_rows
  from remote_rows(3,1,2) show ?case by (rule rows_arrive_inv)
qed (rule stability_inv sender_trig_inv writer_inv, assumption)+

interpretation group: state_machine fresh_group g_step group_inv
  by unfold_locales (auto simp: fresh_group_inv intro: g_step_inv)

abbreviation group_reachable :: "'o dgroup \<Rightarrow> bool" where
  "group_reachable \<equiv> reachable fresh_group g_step"

end
