(* ===== verification/Group_Delivery.thy ===== *)
theory Group_Delivery
  imports Group_Steps
begin

text \<open>
  What holds in every reachable state of a group: the published sequence number, the
  order in which messages are delivered, and the conditions under which a message is
  granted a buffer, sent and delivered. A group of one member carries the examples.
\<close>

section \<open>A group of one member\<close>

definition solo_row :: derecho_row where
  "solo_row = \<lparr>seq_num = -1, stable_num = -1, delivered_num = -1, persisted_num = -1, row_vid = 0,
     suspected = [False], changes = [0], joiner_ip = replicate 50 NUL, nChanges = 0, nCommitted = 0,
     nAcked = 0, nReceived = [-1], wedged = False, globalMin = [0], globalMinReady = False\<rparr>"

definition solo_group :: "unit dgroup" where
  "solo_group = \<lparr>dg_members = [7], member_index = 0, block_size = 16, max_msg_size = 16, window_size = 2,
     dispatchers = \<lparr>nid = 7, invs = [], objects = ()\<rparr>, toFulfillQueue = [], fulfilledList = [],
     rdmc_group_num_offset = 0, rdmc_groups_created = True, total_message_buffers = 1,
     free_message_buffers = [replicate 16 0], reply_buffer_size = 7, future_message_index = 0,
     next_send = None, pending_sends = [], current_send = None, current_receives = [],
     locally_stable_messages = [], non_persistent_messages = [], next_message_to_deliver = 0,
     sender_timeout = 1, thread_shutdown = False,
     dg_sst = \<lparr>rows = [solo_row], local_index = 0, preds = [], calls = []\<rparr>, dg_writer = None, dg_calls = []\<rparr>"

definition solo_message :: message where
  "solo_message = \<lparr>sender_rank = 0, index = 0, msize = 10, message_buffer = Some (fill_header (replicate 16 0) 1 False)\<rparr>"

text \<open>
  The group while it sends one message that pauses one turn: asked for, sent, handed to
  RDMC, received back, stable.
\<close>

definition solo_asked :: "unit dgroup" where
  "solo_asked = solo_group\<lparr>free_message_buffers := [], next_send := Some solo_message, future_message_index := 2\<rparr>"

definition solo_sent :: "unit dgroup" where
  "solo_sent = solo_asked\<lparr>pending_sends := [solo_message], next_send := None, dg_calls := [Notify_sender]\<rparr>"

definition solo_sending :: "unit dgroup" where
  "solo_sending = solo_sent\<lparr>pending_sends := [], current_send := Some solo_message,
     dg_calls := [Notify_sender, Rdmc_send 0 solo_message]\<rparr>"

definition solo_stable :: "unit dgroup" where
  "solo_stable = (case receive_handler_plus_notify 0 (the (message_buffer solo_message)) solo_sending of
     Inl _ \<Rightarrow> solo_sending | Inr g \<Rightarrow> stability_trig g)"

lemmas solo_defs = solo_stable_def solo_sending_def solo_sent_def solo_asked_def solo_group_def solo_row_def

lemma fresh_solo: "fresh_group solo_group"
  by code_simp

lemma solo_get: "get_position solo_group 1 1 False = Inr (solo_asked, Some 9)"
  by (simp add: get_position_def window_start_def solo_asked_def solo_group_def solo_row_def solo_message_def
      sizeof_header_def Let_def)

lemma solo_send: "send solo_asked = Inr (solo_sent, True)"
  by (simp add: send_def solo_sent_def solo_asked_def solo_group_def call_def)

lemma solo_should_send: "should_send solo_sent" "send_loop_turn True solo_sent = Inr solo_sending"
  by (simp_all add: should_send_def send_loop_turn_def window_start_def solo_sending_def solo_sent_def solo_asked_def
      solo_group_def solo_row_def solo_message_def call_def Let_def)

lemma solo_reachable: "group_reachable solo_group" "group_reachable solo_asked" "group_reachable solo_sent"
    "group_reachable solo_sending"
proof -
  show 0: "group_reachable solo_group" by (rule reachable_init) (rule fresh_solo)
  have "g_step solo_group solo_asked"
    by (rule app_get[OF _ _ _ solo_get]) (simp_all add: solo_group_def)
  with 0 show 1: "group_reachable solo_asked" by (rule reachable_step)
  have "g_step solo_asked solo_sent" by (rule app_send[OF solo_send])
  with 1 show 2: "group_reachable solo_sent" by (rule reachable_step)
  have "g_step solo_sent solo_sending" by (rule loop_send[OF solo_should_send])
  with 2 show "group_reachable solo_sending" by (rule reachable_step)
qed

lemma solo_stable_reachable: "group_reachable solo_stable"
proof (cases "receive_handler_plus_notify 0 (the (message_buffer solo_message)) solo_sending")
  case (Inl e)
  then show ?thesis using solo_reachable(4) by (simp add: solo_stable_def)
next
  case (Inr g)
  have "g_step solo_sending g"
    by (rule rdmc_own[of _ solo_message "the (message_buffer solo_message)"])
       (use Inr in \<open>simp_all add: solo_sending_def solo_message_def solo_sent_def solo_asked_def solo_group_def\<close>)
  with solo_reachable(4) have "group_reachable g" by (rule reachable_step)
  then have "group_reachable (stability_trig g)" using stability by (rule reachable_step)
  with Inr show ?thesis by (simp add: solo_stable_def)
qed

lemma solo_stable_facts:
  "delivered_num (rows (dg_sst solo_stable) ! 0) = -1" "min_over_rows stable_num solo_stable = 1"
  "sm_find (locally_stable_messages solo_stable) 0 = Some solo_message"
  "dg_members solo_stable = [7]" "member_index solo_stable = 0"
  "nReceived (rows (dg_sst solo_stable) ! 0) = [1]" "seq_num (rows (dg_sst solo_stable) ! 0) = 1"
  by code_simp+

section \<open>Properties of the order\<close>

text \<open>
  C21. In every reachable state the published \<^verbatim>\<open>seq_num\<close> is exact: every message numbered
  up to it has been received, and the next one has not. So the round-robin arithmetic of
  the receive handler publishes the longest gap-free prefix, also across skipped turns.
\<close>

theorem published_prefix_exact:
  assumes "group_reachable g"
  shows "(\<forall>k. 0 \<le> k \<and> k \<le> seq_num (my_row g) \<longrightarrow> received (dg_n g) (my_counts g) k) \<and>
    \<not> received (dg_n g) (my_counts g) (seq_num (my_row g) + 1)"
proof -
  have inv: "group_inv g" using assms by (rule group.inv_reachable)
  have ok: "counts_ok (dg_n g) (my_counts g)" using group_invD(1)[OF inv] by (simp add: rows_inv_def)
  have "seq_num (my_row g) = contiguous_seq (dg_n g) (my_counts g)"
    using group_invD(2)[OF inv] by (simp add: order_inv_def)
  with contiguous_prefix_received[OF ok] contiguous_next_missing[OF ok] show ?thesis by simp
qed

theorem published_prefix_exact_witness:
  "received (dg_n solo_stable) (my_counts solo_stable) 1 \<and> \<not> received (dg_n solo_stable) (my_counts solo_stable) 2"
  using published_prefix_exact[OF solo_stable_reachable] by (simp add: solo_stable_facts)

text \<open>
  One run of the delivery trigger in a reachable state: when every row reports a stable
  number beyond what this node has delivered, exactly the next message of the global order
  is delivered (its number is the old \<^verbatim>\<open>delivered_num\<close> plus one, it is removed from the
  stable messages and nothing else is); otherwise nothing changes at all. No message is
  skipped, repeated or delivered before it is stable everywhere.
\<close>

lemma delivery_is_gap_free:
  assumes "group_reachable g" and "delivery_trig g = Inr g'"
  shows "if delivered_num (my_row g) < min_over_rows stable_num g
    then \<exists>msg. sm_find (locally_stable_messages g) (delivered_num (my_row g) + 1) = Some msg \<and>
           delivered_num (my_row g) + 1 = seq_of (dg_n g) (sender_rank msg) (index msg) \<and>
           delivered_num (rows (dg_sst g') ! member_index g) = delivered_num (my_row g) + 1 \<and>
           callback_seqs g' = callback_seqs g @ raw_seqs (dg_n g) msg \<and>
           sm_find (locally_stable_messages g') = (sm_find (locally_stable_messages g))(delivered_num (my_row g) + 1 := None)
    else g' = g"
proof -
  have inv: "group_inv g" using assms(1) by (rule group.inv_reachable)
  note invs = group_invD[OF inv]
  have wf: "sm_wf (locally_stable_messages g)" using invs(3) by (simp add: store_inv_def)
  from inv assms(2) show ?thesis
  proof (cases rule: delivery_cases)
    case 1
    then show ?thesis by simp
  next
    case (2 msg g1)
    have found: "sm_find (locally_stable_messages g) (delivered_num (my_row g) + 1) = Some msg"
      by (rule std_map.least_lookup[OF wf 2(1)])
    then have "placed (dg_n g) (delivered_num (my_row g) + 1, msg)"
      using invs(3) sm_find_in_set by (fastforce simp: store_inv_def)
    moreover have "delivered_num (rows (dg_sst g') ! member_index g) = delivered_num (my_row g) + 1"
      using invs(1) 2(4) by (simp add: 2(6) delivery_frame_def rows_inv_def upd_my_row_def sst_put_def put_fields set_row_def)
    moreover have "callback_seqs g' = callback_seqs g @ raw_seqs (dg_n g) msg"
      using 2(5) by (simp add: 2(6) group_simps outgoing_stable_only)
    moreover have "sm_find (locally_stable_messages g') =
        (sm_find (locally_stable_messages g))(delivered_num (my_row g) + 1 := None)"
      by (simp add: 2(6) sm_find_erase wf)
    ultimately show ?thesis using 2(2) found by (simp add: placed_def)
  qed
qed

lemma solo_delivers: "\<exists>g'. delivery_trig solo_stable = Inr g'"
proof -
  have "(case delivery_trig solo_stable of Inl _ \<Rightarrow> False | Inr _ \<Rightarrow> True) = True"
    by code_simp
  then show ?thesis by (auto split: sum.splits)
qed

theorem delivery_is_gap_free_witness:
  "\<exists>g'. delivery_trig solo_stable = Inr g' \<and> delivered_num (rows (dg_sst g') ! 0) = 0 \<and>
     sm_find (locally_stable_messages g') 0 = None"
  using solo_delivers delivery_is_gap_free[OF solo_stable_reachable] by (fastforce simp: solo_stable_facts)

text \<open>
  The application sees each raw message once and in the global order: the numbers of
  the stability callbacks made so far are strictly increasing, none is beyond
  \<^verbatim>\<open>delivered_num\<close>, and everything delivered was received.
\<close>

lemma callbacks_once_in_order:
  assumes "group_reachable g"
  shows "sorted_wrt (<) (callback_seqs g) \<and>
    (\<forall>k \<in> set (callback_seqs g). 0 \<le> k \<and> k \<le> delivered_num (my_row g) \<and> received (dg_n g) (my_counts g) k)"
proof -
  have inv: "group_inv g" using assms by (rule group.inv_reachable)
  note invs = group_invD[OF inv]
  have "received (dg_n g) (my_counts g) k" if "0 \<le> k" "k \<le> delivered_num (my_row g)" for k
    using invs(1,2) that by (intro contiguous_prefix_received) (auto simp: rows_inv_def order_inv_def)
  with invs(5) show ?thesis by (auto simp: callback_inv_def)
qed

text \<open>
  C31. Progress: when the next message is stable at every member and it is a raw message or
  the empty message of a skipped turn, the delivery trigger does not fail and delivers it.
\<close>

theorem stable_message_is_delivered:
  assumes "group_reachable g" and "delivered_num (my_row g) < min_over_rows stable_num g"
    and "\<And>msg b. sm_find (locally_stable_messages g) (delivered_num (my_row g) + 1) = Some msg \<Longrightarrow>
       message_buffer msg = Some b \<Longrightarrow> \<not> h_cooked_send b"
  shows "\<exists>g'. delivery_trig g = Inr g' \<and>
    delivered_num (rows (dg_sst g') ! member_index g) = delivered_num (my_row g) + 1"
proof -
  have inv: "group_inv g" using assms(1) by (rule group.inv_reachable)
  note invs = group_invD[OF inv]
  have wf: "sm_wf (locally_stable_messages g)" using invs(3) by (simp add: store_inv_def)
  obtain msg where first: "sm_begin (locally_stable_messages g) = Some (delivered_num (my_row g) + 1, msg)"
    using assms(2) by (rule stable_has_next[OF inv])
  have found: "sm_find (locally_stable_messages g) (delivered_num (my_row g) + 1) = Some msg"
    by (rule std_map.least_lookup[OF wf first])
  then have "placed (dg_n g) (delivered_num (my_row g) + 1, msg)"
    using invs(3) sm_find_in_set by (fastforce simp: store_inv_def)
  then have "\<exists>g1. deliver_message msg g = Inr g1"
    using assms(3)[OF found] by (cases "message_buffer msg") (auto simp: deliver_message_def placed_def)
  then obtain g1 where "deliver_message msg g = Inr g1" by blast
  with first assms(2) obtain g' where run: "delivery_trig g = Inr g'"
    by (auto simp: delivery_trig_def Let_def)
  from inv run have "delivered_num (rows (dg_sst g') ! member_index g) = delivered_num (my_row g) + 1"
  proof (cases rule: delivery_cases)
    case 1
    with assms(2) show ?thesis by simp
  next
    case (2 msg g1)
    then show ?thesis
      using invs(1) by (simp add: 2(6) delivery_frame_def rows_inv_def upd_my_row_def sst_put_def put_fields set_row_def)
  qed
  with run show ?thesis by blast
qed

theorem stable_message_is_delivered_witness:
  "\<exists>g'. delivery_trig solo_stable = Inr g' \<and> delivered_num (rows (dg_sst g') ! 0) = 0"
proof -
  have "\<not> h_cooked_send (the (message_buffer solo_message))" by code_simp
  then have "message_buffer msg = Some b \<Longrightarrow> sm_find (locally_stable_messages solo_stable) 0 = Some msg \<Longrightarrow>
      \<not> h_cooked_send b" for msg b
    by (simp add: solo_stable_facts)
  with stable_message_is_delivered[OF solo_stable_reachable] show ?thesis by (simp add: solo_stable_facts)
qed

text \<open>
  At most one own message is in flight: in a reachable state, when the send loop's wait
  lets it start a message, no earlier message is still in \<^verbatim>\<open>current_send\<close>, so the
  assignment to \<^verbatim>\<open>current_send\<close> never drops one; and the message that starts is the next
  one of this sender, with the index the receivers will compute for it.
\<close>

lemma send_loop_keeps_current_send:
  assumes "group_reachable g" and "should_send g"
  shows "current_send g = None \<and>
    (\<exists>m ms. pending_sends g = m # ms \<and> index m = my_counts g ! member_index g + 1 \<and>
       sender_rank m = int (member_index g))"
proof -
  have inv: "group_inv g" using assms(1) by (rule group.inv_reachable)
  have none: "current_send g = None" by (rule single_in_flight[OF inv assms(2)])
  obtain m ms where m: "pending_sends g = m # ms"
    using assms(2) by (auto simp: should_send_def split: if_splits list.splits)
  with none group_invD(4)[OF inv] show ?thesis
    by (simp add: chain_inv_def outgoing_def opt_list_def)
qed

lemma send_loop_keeps_current_send_witness:
  "current_send solo_sent = None \<and> pending_sends solo_sent \<noteq> []"
  using send_loop_keeps_current_send[OF solo_reachable(3) solo_should_send(1)] by auto

text \<open>
  Order of the four counters of a row: delivered, stable and received numbers never
  overtake each other, in the direction the code keeps (delivered is at most stable).
\<close>

lemma row_counters_ordered:
  assumes "group_reachable g"
  shows "-1 \<le> delivered_num (my_row g) \<and> delivered_num (my_row g) \<le> stable_num (my_row g) \<and>
    stable_num (my_row g) \<le> seq_num (my_row g)"
  using group_invD(2)[OF group.inv_reachable[OF assms]] by (simp add: order_inv_def)

text \<open>
  Every branch of \<^verbatim>\<open>get_position\<close>: it grants a buffer exactly when the groups exist, the
  message fits, every member has delivered what the window requires, the group is not
  wedged and a buffer is free; a refusal changes nothing; a grant takes the last free
  buffer, writes a header the receivers read back, and reserves the skipped turns.
\<close>

lemma get_position_grants:
  fixes g :: "'o dgroup" and sz :: u64
  assumes "0 \<le> pause" "pause < 2 ^ 31" and "\<forall>b \<in> set (free_message_buffers g). sizeof_header \<le> length b"
  defines "sz' \<equiv> (if sz = 0 then max_msg_size g else sz + word_of_nat sizeof_header)"
  defines "granted \<equiv> rdmc_groups_created g \<and> sz' \<le> max_msg_size g \<and>
     (\<forall>i < dg_n g. window_start g (future_message_index g) \<le> delivered_num (rows (dg_sst g) ! i)) \<and>
     \<not> thread_shutdown g \<and> free_message_buffers g \<noteq> []"
  shows "if granted
    then \<exists>g' m b. get_position g sz pause cooked = Inr (g', Some sizeof_header) \<and> next_send g' = Some m \<and>
        free_message_buffers g = free_message_buffers g' @ [b] \<and>
        future_message_index g' = future_message_index g + pause + 1 \<and>
        index m = future_message_index g \<and> msize m = sz' \<and>
        message_buffer m = Some (fill_header b pause cooked) \<and>
        uint (h_pause_sending_turns (fill_header b pause cooked)) = pause \<and>
        h_cooked_send (fill_header b pause cooked) = cooked
    else get_position g sz pause cooked = Inr (g, None)"
proof (cases granted)
  case True
  then have len: "sizeof_header \<le> length (last (free_message_buffers g))"
    using assms(3) by (simp add: granted_def)
  have "free_message_buffers g = butlast (free_message_buffers g) @ [last (free_message_buffers g)]"
    using True by (simp add: granted_def)
  with True len show ?thesis
    using assms(1,2)
    by (auto simp: get_position_def Let_def granted_def sz'_def list_ex_iff fill_header_reads not_less
        intro!: exI[of _ "last (free_message_buffers g)"])
next
  case False
  then show ?thesis
    by (auto simp: get_position_def Let_def granted_def sz'_def list_ex_iff not_less)
qed

lemma get_position_grants_witness:
  "\<exists>g' m. get_position solo_group 1 1 False = Inr (g', Some sizeof_header) \<and> next_send g' = Some m \<and> msize m = 10"
  using get_position_grants[of 1 solo_group 1 False]
  by (simp add: solo_group_def solo_row_def window_start_def sizeof_header_def) blast

end
