(* ===== verification/Send_Log.thy ===== *)
theory Send_Log
  imports Group_Delivery
begin

text \<open>
  What each sender has handed to RDMC, as a log, and what a node of the group holds and
  has delivered in terms of the logs. A message on the wire is its size and its bytes;
  a message that pauses turns occupies that many further places of the sender's order,
  which every receiver fills with empty messages. This is the specification the receive
  and delivery code refines: the raw messages a node has delivered are a function of the
  logs and of its \<^verbatim>\<open>delivered_num\<close> alone.
\<close>

section \<open>Logs and places\<close>

type_synonym wire = "u64 \<times> bytes"

definition wire_of :: "message \<Rightarrow> wire" where
  "wire_of m = (msize m, case message_buffer m of None \<Rightarrow> [] | Some b \<Rightarrow> take (unat (msize m)) b)"

definition pauses :: "wire \<Rightarrow> int" where
  "pauses w = uint (h_pause_sending_turns (snd w))"

text \<open>Every message starts with a header that gives its own size as nine.\<close>

definition wire_ok :: "wire \<Rightarrow> bool" where
  "wire_ok w \<longleftrightarrow> 9 \<le> unat (fst w) \<and> h_header_size (snd w) = 9"

fun turns :: "wire list \<Rightarrow> int" where
  "turns [] = 0"
| "turns (w # ws) = 1 + pauses w + turns ws"

text \<open>What place \<open>i\<close> of a sender's order holds: a message, an empty one, or nothing yet.\<close>

fun slot :: "wire list \<Rightarrow> int \<Rightarrow> wire option" where
  "slot [] i = None"
| "slot (w # ws) i = (if i < 0 then None else if i = 0 then Some w
     else if i \<le> pauses w then Some (0, []) else slot ws (i - 1 - pauses w))"

definition slot_at :: "nat \<Rightarrow> (nat \<Rightarrow> wire list) \<Rightarrow> int \<Rightarrow> wire option" where
  "slot_at n S k = slot (S (nat (k mod int n))) (k div int n)"

lemma pauses_nonneg [simp]: "0 \<le> pauses w"
  by (simp add: pauses_def)

lemma turns_append [simp]: "turns (xs @ ys) = turns xs + turns ys"
  by (induction xs) simp_all

lemma turns_nonneg [simp]: "0 \<le> turns ws"
  by (induction ws) (simp_all add: add_nonneg_nonneg)

lemma slot_append: "slot (xs @ ys) i = (if i < turns xs then slot xs i else slot ys (i - turns xs))"
proof (induction xs arbitrary: i)
  case Nil
  then show ?case by (cases "i < 0"; cases ys) simp_all
next
  case (Cons w xs)
  have "i < 0 \<Longrightarrow> i < 1 + pauses w + turns xs" "i \<le> pauses w \<Longrightarrow> i < 1 + pauses w + turns xs"
    using turns_nonneg[of xs] pauses_nonneg[of w] by linarith+
  with Cons.IH[of "i - 1 - pauses w"] pauses_nonneg[of w] turns_nonneg[of xs] show ?case
    by (auto simp: algebra_simps)
qed

lemma slot_Some_iff: "slot ws i \<noteq> None \<longleftrightarrow> 0 \<le> i \<and> i < turns ws"
proof (induction ws arbitrary: i)
  case (Cons w ws)
  have IH: "slot ws (i - 1 - pauses w) \<noteq> None \<longleftrightarrow> 0 \<le> i - 1 - pauses w \<and> i - 1 - pauses w < turns ws"
    by (rule Cons.IH)
  have b: "pauses w < 1 + pauses w + turns ws" "0 < 1 + pauses w + turns ws"
    using turns_nonneg[of ws] pauses_nonneg[of w] by linarith+
  consider "i < 0" | "i = 0" | "0 < i" "i \<le> pauses w" | "0 < i" "pauses w < i" by linarith
  then show ?case
  proof cases
    case 4
    then show ?thesis using IH by auto
  qed (use b in auto)
qed simp

lemma slot_here: "slot (xs @ w # ys) (turns xs) = Some w"
  by (simp add: slot_append)

lemma slot_skipped: "0 < j \<Longrightarrow> j \<le> pauses w \<Longrightarrow> slot (xs @ w # ys) (turns xs + j) = Some (0, [])"
  by (simp add: slot_append)

lemma slot_prefix: "slot xs i = Some w \<Longrightarrow> slot (xs @ ys) i = Some w"
  using slot_Some_iff[of xs i] by (simp add: slot_append)

lemma slot_in: "slot ws i = Some w \<Longrightarrow> w = (0, []) \<or> w \<in> set ws"
  by (induction ws arbitrary: i) (auto split: if_splits)

text \<open>The places of a log's message \<open>j\<close>.\<close>

lemma turns_take_Suc: "j < length ws \<Longrightarrow> turns (take (Suc j) ws) = turns (take j ws) + 1 + pauses (ws ! j)"
  by (simp add: take_Suc_conv_app_nth)

lemma slot_nth:
  assumes "j < length ws"
  shows "slot ws (turns (take j ws)) = Some (ws ! j)"
    and "0 < i \<Longrightarrow> i \<le> pauses (ws ! j) \<Longrightarrow> slot ws (turns (take j ws) + i) = Some (0, [])"
proof -
  have ws: "ws = take j ws @ ws ! j # drop (Suc j) ws" using assms by (rule id_take_nth_drop)
  show "slot ws (turns (take j ws)) = Some (ws ! j)"
    by (subst (1) ws) (rule slot_here)
  show "slot ws (turns (take j ws) + i) = Some (0, [])" if "0 < i" "i \<le> pauses (ws ! j)"
    using that by (subst (1) ws) (rule slot_skipped)
qed

lemma turns_take_le: "turns (take j ws) \<le> turns ws"
  using turns_append[of "take j ws" "drop j ws"] turns_nonneg[of "drop j ws"] by (simp del: turns_append)

section \<open>Raw messages in the global order\<close>

type_synonym raw_message = "int \<times> int \<times> bytes"

definition raw_at :: "nat \<Rightarrow> (nat \<Rightarrow> wire list) \<Rightarrow> int \<Rightarrow> raw_message list" where
  "raw_at n S k = (case slot_at n S k of None \<Rightarrow> []
     | Some w \<Rightarrow> if 0 < fst w \<and> \<not> h_cooked_send (snd w)
         then [(k mod int n, k div int n, drop 9 (snd w))] else [])"

definition raw_upto :: "nat \<Rightarrow> (nat \<Rightarrow> wire list) \<Rightarrow> int \<Rightarrow> raw_message list" where
  "raw_upto n S d = concat (map (raw_at n S) [0..d])"

text \<open>
  What a node has delivered: sender, index and the bytes of each stability callback. The
  callback is told the size with the header, so the message's bytes are nine fewer.
\<close>

fun raw_call :: "group_call \<Rightarrow> raw_message list" where
  "raw_call (Stability_callback r i b l) = [(r, i, take (unat l - 9) b)]"
| "raw_call c = []"

definition delivered_raw :: "'o dgroup \<Rightarrow> raw_message list" where
  "delivered_raw g = concat (map raw_call (dg_calls g))"

lemma raw_upto_Suc: "-1 \<le> d \<Longrightarrow> raw_upto n S (d + 1) = raw_upto n S d @ raw_at n S (d + 1)"
proof -
  assume "-1 \<le> d"
  then have "[0..d + 1] = [0..d] @ [d + 1]" using upto_rec2[of 0 "d + 1"] by simp
  then show ?thesis by (simp add: raw_upto_def)
qed

lemma raw_upto_mono: "-1 \<le> d \<Longrightarrow> d \<le> e \<Longrightarrow> \<exists>ms. raw_upto n S e = raw_upto n S d @ ms"
proof -
  assume "-1 \<le> d" "d \<le> e"
  then have "[0..e] = [0..d] @ [d + 1..e]" using upto_split1[of 0 "d + 1" e] upto_split2[of 0 d e]
    by (cases "d = -1") auto
  then show ?thesis by (simp add: raw_upto_def)
qed

lemma raw_upto_empty [simp]: "raw_upto n S (-1) = []"
  by (simp add: raw_upto_def)

section \<open>A node and the logs\<close>

text \<open>
  \<open>G q\<close> is how many messages of sender \<open>q\<close> RDMC has handed to the node. The receive
  counter is at the end of their places, a message in transfer is the next of its sender's
  log, the own message in flight is the end of the own log, every stable message is what
  the logs have at its place, and what was delivered is what the logs have up to
  \<^verbatim>\<open>delivered_num\<close>.
\<close>

definition logs_ok :: "(nat \<Rightarrow> wire list) \<Rightarrow> bool" where
  "logs_ok S \<longleftrightarrow> (\<forall>q. \<forall>w \<in> set (S q). wire_ok w)"

definition counts_inv :: "nat \<Rightarrow> (nat \<Rightarrow> wire list) \<Rightarrow> (nat \<Rightarrow> nat) \<Rightarrow> 'o dgroup \<Rightarrow> bool" where
  "counts_inv n S G g \<longleftrightarrow> (\<forall>q < n. G q \<le> length (S q) \<and> my_counts g ! q + 1 = turns (take (G q) (S q)))"

definition transfer_inv :: "nat \<Rightarrow> (nat \<Rightarrow> wire list) \<Rightarrow> (nat \<Rightarrow> nat) \<Rightarrow> 'o dgroup \<Rightarrow> bool" where
  "transfer_inv n S G g \<longleftrightarrow> (\<forall>k m. sm_find (current_receives g) k = Some m \<longrightarrow>
     (\<exists>q < n. q \<noteq> member_index g \<and> k = seq_of n (int q) (my_counts g ! q + 1) \<and>
        G q < length (S q) \<and> msize m = fst (S q ! G q)))"

definition own_inv :: "(nat \<Rightarrow> wire list) \<Rightarrow> (nat \<Rightarrow> nat) \<Rightarrow> 'o dgroup \<Rightarrow> bool" where
  "own_inv S G g \<longleftrightarrow>
     map wire_of (opt_list (current_send g)) = drop (G (member_index g)) (S (member_index g)) \<and>
     (\<forall>m \<in> set (outgoing g). wire_ok (wire_of m)) \<and> 9 \<le> unat (max_msg_size g)"

definition stable_inv :: "nat \<Rightarrow> (nat \<Rightarrow> wire list) \<Rightarrow> 'o dgroup \<Rightarrow> bool" where
  "stable_inv n S g \<longleftrightarrow> (\<forall>k m. sm_find (locally_stable_messages g) k = Some m \<longrightarrow>
     slot_at n S k = Some (wire_of m))"

definition delivered_inv :: "nat \<Rightarrow> (nat \<Rightarrow> wire list) \<Rightarrow> 'o dgroup \<Rightarrow> bool" where
  "delivered_inv n S g \<longleftrightarrow> delivered_raw g = raw_upto n S (delivered_num (my_row g))"

definition node_inv :: "nat \<Rightarrow> (nat \<Rightarrow> wire list) \<Rightarrow> (nat \<Rightarrow> nat) \<Rightarrow> 'o dgroup \<Rightarrow> bool" where
  "node_inv n S G g \<longleftrightarrow> group_inv g \<and> dg_n g = n \<and> counts_inv n S G g \<and> transfer_inv n S G g \<and>
     own_inv S G g \<and> stable_inv n S g \<and> delivered_inv n S g"

lemma node_invI:
  "group_inv g \<Longrightarrow> dg_n g = n \<Longrightarrow> counts_inv n S G g \<Longrightarrow> transfer_inv n S G g \<Longrightarrow> own_inv S G g \<Longrightarrow>
   stable_inv n S g \<Longrightarrow> delivered_inv n S g \<Longrightarrow> node_inv n S G g"
  by (simp add: node_inv_def)

lemma node_invD:
  assumes "node_inv n S G g"
  shows "group_inv g" "dg_n g = n" "counts_inv n S G g" "transfer_inv n S G g" "own_inv S G g"
    "stable_inv n S g" "delivered_inv n S g"
  using assms by (simp_all add: node_inv_def)

lemma delivered_received:
  assumes inv: "node_inv n S G g" and "0 \<le> k" "k \<le> seq_num (my_row g)"
  shows "slot_at n S k \<noteq> None"
proof -
  note invs = group_invD[OF node_invD(1)[OF inv]]
  have "received n (my_counts g) k"
    using contiguous_prefix_received[of "dg_n g" "my_counts g" k] invs(1,2) node_invD(2)[OF inv] assms(2,3)
    by (auto simp: rows_inv_def order_inv_def)
  then have k: "0 \<le> k" "k div int n \<le> my_counts g ! nat (k mod int n)" by (auto simp: received_def)
  have n: "0 < n" using invs(1) node_invD(2)[OF inv] by (auto simp: rows_inv_def)
  let ?q = "nat (k mod int n)"
  have "?q < n" using n by (simp add: nat_less_iff)
  with node_invD(3)[OF inv] have "my_counts g ! ?q + 1 = turns (take (G ?q) (S ?q))" by (simp add: counts_inv_def)
  with k(2) turns_take_le[of "G ?q" "S ?q"] have "k div int n < turns (S ?q)" by linarith
  moreover have "0 \<le> k div int n" using k(1) n by (simp add: pos_imp_zdiv_nonneg_iff)
  ultimately show ?thesis using slot_Some_iff[of "S ?q" "k div int n"] unfolding slot_at_def by blast
qed

text \<open>The logs grow at the end; what they had at a place stays.\<close>

lemma slot_at_append:
  assumes "\<forall>q. \<exists>ws. S' q = S q @ ws" "slot_at n S k = Some w"
  shows "slot_at n S' k = Some w"
proof -
  obtain ws where "S' (nat (k mod int n)) = S (nat (k mod int n)) @ ws" using assms(1) by blast
  with assms(2) show ?thesis by (simp add: slot_at_def slot_prefix)
qed

lemma raw_upto_append:
  assumes "\<forall>q. \<exists>ws. S' q = S q @ ws" "\<forall>k \<in> {0..d}. slot_at n S k \<noteq> None"
  shows "raw_upto n S' d = raw_upto n S d"
proof -
  have "raw_at n S' k = raw_at n S k" if "k \<in> {0..d}" for k
  proof -
    obtain w where "slot_at n S k = Some w" using assms(2) \<open>k \<in> {0..d}\<close> by blast
    with slot_at_append[OF assms(1) this] show ?thesis by (simp add: raw_at_def)
  qed
  then show ?thesis unfolding raw_upto_def by (intro arg_cong[where f = concat] map_cong) auto
qed

text \<open>
  An operation that leaves the counters and the stores alone while the logs grow; and the
  two special cases where only the logs or only the node change.
\<close>

lemma node_inv_grow:
  assumes inv: "node_inv n S G g" and grow: "\<forall>q. \<exists>ws. S' q = S q @ ws" and "group_inv g'"
    and same: "dg_members g' = dg_members g" "member_index g' = member_index g" "my_counts g' = my_counts g"
      "delivered_num (my_row g') = delivered_num (my_row g)"
      "locally_stable_messages g' = locally_stable_messages g" "current_receives g' = current_receives g"
      "delivered_raw g' = delivered_raw g"
    and own: "own_inv S' G g'"
  shows "node_inv n S' G g'"
proof -
  have ord: "order_inv g" using node_invD(1)[OF inv] by (rule group_invD)
  have take: "G q \<le> length (S' q)" "take (G q) (S' q) = take (G q) (S q)"
    if "G q \<le> length (S q)" for q
    using grow[rule_format, of q] that by auto
  have nth: "G q < length (S' q) \<and> S' q ! G q = S q ! G q" if "G q < length (S q)" for q
    using grow[rule_format, of q] that by (auto simp: nth_append)
  have "\<forall>k \<in> {0..delivered_num (my_row g)}. slot_at n S k \<noteq> None"
    using delivered_received[OF inv] ord by (auto simp: order_inv_def)
  then have "delivered_inv n S' g'"
    using node_invD(7)[OF inv] raw_upto_append[OF grow] same by (simp add: delivered_inv_def)
  moreover have "counts_inv n S' G g'" using node_invD(3)[OF inv] take same by (simp add: counts_inv_def)
  moreover have "transfer_inv n S' G g'" using node_invD(4)[OF inv] nth same by (fastforce simp: transfer_inv_def)
  moreover have "stable_inv n S' g'" using node_invD(6)[OF inv] slot_at_append[OF grow] by (simp add: stable_inv_def same)
  moreover have "dg_n g' = n" using node_invD(2)[OF inv] by (simp add: same)
  ultimately show ?thesis using assms(3) own by (intro node_invI)
qed

lemma node_inv_append:
  assumes inv: "node_inv n S G g" and grow: "\<forall>q. \<exists>ws. S' q = S q @ ws"
    and "S' (member_index g) = S (member_index g)"
  shows "node_inv n S' G g"
  using node_invD(5)[OF inv] assms(3)
  by (intro node_inv_grow[OF inv grow node_invD(1)[OF inv]]) (simp_all add: own_inv_def)

lemma node_inv_frame:
  assumes inv: "node_inv n S G g" and "group_inv g'"
    and "dg_members g' = dg_members g" "member_index g' = member_index g"
      "my_counts g' = my_counts g" "delivered_num (my_row g') = delivered_num (my_row g)"
      "locally_stable_messages g' = locally_stable_messages g" "current_receives g' = current_receives g"
      "current_send g' = current_send g" "delivered_raw g' = delivered_raw g" "max_msg_size g' = max_msg_size g"
    and "\<forall>m \<in> set (outgoing g'). wire_ok (wire_of m)"
  shows "node_inv n S G g'"
  by (rule node_inv_grow[OF inv _ assms(2)])
     (use node_invD(5)[OF inv] assms(3-) in \<open>simp_all add: own_inv_def\<close>)

end
