(* ===== verification/Group_Life.thy ===== *)
theory Group_Life
  imports Group_Delivery
begin

text \<open>
  The life of a \<^verbatim>\<open>DerechoGroup\<close>: its two constructors, the creation of the RDMC groups,
  the hand-over of an old group's messages to the group of the next view, wedging, and the
  remote calls made through the group.
\<close>

section \<open>Construction\<close>

definition initialize_row :: "nat \<Rightarrow> derecho_row \<Rightarrow> derecho_row" where
  "initialize_row n r = r\<lparr>nReceived := replicate n (-1) @ drop n (nReceived r),
     seq_num := -1, stable_num := -1, delivered_num := -1, persisted_num := -1\<rparr>"

definition initialize_sst_row :: "'o dgroup \<Rightarrow> 'o dgroup" where
  "initialize_sst_row g =
     (let s = dg_sst g; n = dg_n g
      in g\<lparr>dg_sst := sync_with_members (put
           (s\<lparr>rows := map (initialize_row n) (take n (rows s)) @ drop n (rows s)\<rparr>))\<rparr>)"

definition rotated_members :: "node_id list \<Rightarrow> nat \<Rightarrow> node_id list" where
  "rotated_members ms groupnum =
     map (\<lambda>j. ms ! ((groupnum + j) mod length ms)) [0..<length ms]"

text \<open>\<open>rdmc_ok\<close> is what \<^verbatim>\<open>rdmc::create_group\<close> answers for a group number.\<close>

fun create_groups_from :: "(nat \<Rightarrow> bool) \<Rightarrow> nat list \<Rightarrow> 'o dgroup \<Rightarrow> 'o dgroup \<times> bool" where
  "create_groups_from rdmc_ok [] g = (g, True)"
| "create_groups_from rdmc_ok (k # ks) g =
     (let num = k + unat (rdmc_group_num_offset g);
          g = call (Rdmc_create num (rotated_members (dg_members g) k)) g
      in if rdmc_ok num then create_groups_from rdmc_ok ks g else (g, False))"

definition create_rdmc_groups :: "(nat \<Rightarrow> bool) \<Rightarrow> 'o dgroup \<Rightarrow> 'o dgroup \<times> bool" where
  "create_rdmc_groups rdmc_ok g = create_groups_from rdmc_ok [0..<dg_n g] g"

text \<open>The end of both constructors, from \<^verbatim>\<open>initialize_sst_row\<close> on.\<close>

definition start_dgroup :: "bool list \<Rightarrow> (nat \<Rightarrow> bool) \<Rightarrow> 'o dgroup \<Rightarrow> 'o dgroup result" where
  "start_dgroup already_failed rdmc_ok g =
     (let g = initialize_sst_row g
      in if already_failed \<noteq> [] \<and> length already_failed < dg_n g
         then Inl (Undefined ''already_failed read out of range'')
         else
           let no_member_failed = \<not> list_ex (\<lambda>i. already_failed ! i) [0..<dg_n g];
               (g, created) = (if already_failed = [] \<or> no_member_failed then create_rdmc_groups rdmc_ok g
                               else (g, False))
           in Inr (register_group_predicates (g\<lparr>rdmc_groups_created := created\<rparr>)))"

text \<open>\<^verbatim>\<open>while(free_message_buffers.size() < window_size * num_members)\<close>, in unsigned 32 bits.\<close>

definition buffers_wanted :: "u32 \<Rightarrow> nat \<Rightarrow> nat" where
  "buffers_wanted window n = unat (window * word_of_nat n)"

definition top_up :: "nat \<Rightarrow> u64 \<Rightarrow> bytes list \<Rightarrow> bytes list" where
  "top_up wanted sz bufs = bufs @ replicate (wanted - length bufs) (new_message_buffer sz)"

definition new_group ::
  "node_id list \<Rightarrow> node_id \<Rightarrow> sst \<Rightarrow> bytes list \<Rightarrow> 'o dispatcher \<Rightarrow> derecho_params \<Rightarrow>
   bytes \<times> bytes \<Rightarrow> bool list \<Rightarrow> (nat \<Rightarrow> bool) \<Rightarrow> 'o dgroup result" where
  "new_group ms me s bufs disp params files already_failed rdmc_ok =
     bindE (compute_max_msg_size (max_payload_size params) (dp_block_size params)) (\<lambda>max_msg.
     bindE (guardE (1 \<le> dp_window_size params) (Assert ''window_size >= 1'')) (\<lambda>_.
       let free = top_up (buffers_wanted (dp_window_size params) (length ms)) max_msg bufs
       in start_dgroup already_failed rdmc_ok
         \<lparr>dg_members = ms, member_index = index_of ms me, block_size = dp_block_size params,
          max_msg_size = max_msg, window_size = dp_window_size params, dispatchers = disp,
          toFulfillQueue = [], fulfilledList = [], rdmc_group_num_offset = 0, rdmc_groups_created = False,
          total_message_buffers = word_of_nat (length free), free_message_buffers = free,
          reply_buffer_size = max_payload_size params, future_message_index = 0, next_send = None,
          pending_sends = [], current_send = None, current_receives = [], locally_stable_messages = [],
          non_persistent_messages = [], next_message_to_deliver = 0, sender_timeout = timeout_ms params,
          thread_shutdown = False, dg_sst = s,
          dg_writer = (if filename params = '''' then None
                       else Some (new_file_writer 0 (fst files) (snd files))),
          dg_calls = []\<rparr>))"

definition group_wedge :: "'o dgroup \<Rightarrow> 'o dgroup" where
  "group_wedge g =
     (if thread_shutdown g then g
      else g\<lparr>thread_shutdown := True,
             dg_sst := remove_pred Sender (remove_pred Delivery (remove_pred Stability (dg_sst g))),
             dg_calls := dg_calls g @
               map (\<lambda>i. Rdmc_destroy (i + unat (rdmc_group_num_offset g))) [0..<dg_n g] @
               [Tcp_destroy, Notify_sender]\<rparr>)"

section \<open>The hand-over to the next view\<close>

definition convert_msg :: "message \<Rightarrow> 'o dgroup \<Rightarrow> ('o dgroup \<times> message) result" where
  "convert_msg msg g =
     (case message_buffer msg of
        None \<Rightarrow> Inl (Undefined ''header of a message without a buffer'')
      | Some b \<Rightarrow>
          Inr (g\<lparr>future_message_index := future_message_index g + 1 + uint (h_pause_sending_turns b)\<rparr>,
               msg\<lparr>sender_rank := int (member_index g), index := future_message_index g\<rparr>))"

definition requeue :: "message \<Rightarrow> 'o dgroup \<Rightarrow> 'o dgroup result" where
  "requeue msg g = bindE (convert_msg msg g) (\<lambda>(g, m). Inr (g\<lparr>pending_sends := pending_sends g @ [m]\<rparr>))"

fun requeue_all :: "message list \<Rightarrow> 'o dgroup \<Rightarrow> 'o dgroup result" where
  "requeue_all [] g = Inr g"
| "requeue_all (m # ms) g = bindE (requeue m g) (requeue_all ms)"

definition reclaim :: "bytes option \<Rightarrow> 'o dgroup \<Rightarrow> 'o dgroup" where
  "reclaim b g = g\<lparr>free_message_buffers := free_message_buffers g @ opt_list b\<rparr>"

text \<open>The loop over the old group's locally stable messages.\<close>

fun take_stable :: "nat \<Rightarrow> (int \<times> message) list \<Rightarrow> 'o dgroup \<Rightarrow> 'o dgroup result" where
  "take_stable old_rank [] g = Inr g"
| "take_stable old_rank ((k, m) # es) g =
     (if msize m = 0 then take_stable old_rank es g
      else if sender_rank m = int old_rank then bindE (requeue m g) (take_stable old_rank es)
      else take_stable old_rank es (reclaim (message_buffer m) g))"

fun take_non_persistent :: "(int \<times> message) list \<Rightarrow> 'o dgroup \<Rightarrow> 'o dgroup result" where
  "take_non_persistent [] g = Inr g"
| "take_non_persistent ((k, m) # es) g =
     bindE (convert_msg m g) (\<lambda>(g, m').
       take_non_persistent es (g\<lparr>non_persistent_messages := sm_emplace k m' (non_persistent_messages g)\<rparr>))"

definition take_next_send :: "message option \<Rightarrow> 'o dgroup \<Rightarrow> 'o dgroup result" where
  "take_next_send nm g = (case nm of None \<Rightarrow> Inr g
     | Some m \<Rightarrow> bindE (convert_msg m g) (\<lambda>(g, m'). Inr (g\<lparr>next_send := Some m'\<rparr>)))"

text \<open>
  The second constructor; \<open>u\<close> names the new group's callback, which replaces the one the
  file writer had.
\<close>

definition group_from_old ::
  "node_id list \<Rightarrow> node_id \<Rightarrow> sst \<Rightarrow> 'o dgroup \<Rightarrow> bool list \<Rightarrow> nat \<Rightarrow> (nat \<Rightarrow> bool) \<Rightarrow> 'o dgroup result" where
  "group_from_old ms me s old already_failed u rdmc_ok =
     bindE (guardE (uint (rdmc_group_num_offset old) \<le> 65535 - int (dg_n old) - int (length ms))
              (Assert ''rdmc_group_num_offset'')) (\<lambda>_.
       let wanted = buffers_wanted (window_size old) (length ms);
           total = unat (total_message_buffers old);
           g = \<lparr>dg_members = ms, member_index = index_of ms me, block_size = block_size old,
                max_msg_size = max_msg_size old, window_size = window_size old, dispatchers = dispatchers old,
                toFulfillQueue = toFulfillQueue old, fulfilledList = fulfilledList old,
                rdmc_group_num_offset = rdmc_group_num_offset old + word_of_nat (dg_n old),
                rdmc_groups_created = False,
                total_message_buffers = word_of_nat (max total wanted),
                free_message_buffers = free_message_buffers old @
                  replicate (wanted - total) (new_message_buffer (max_msg_size old)) @
                  concat (map (\<lambda>e. opt_list (message_buffer (snd e))) (current_receives old)),
                reply_buffer_size = reply_buffer_size old, future_message_index = 0, next_send = None,
                pending_sends = [], current_send = None, current_receives = [], locally_stable_messages = [],
                non_persistent_messages = [], next_message_to_deliver = 0, sender_timeout = sender_timeout old,
                thread_shutdown = False, dg_sst = s,
                dg_writer = None, dg_calls = []\<rparr>
       in bindE (take_stable (member_index old) (locally_stable_messages old) g) (\<lambda>g.
          bindE (requeue_all (opt_list (current_send old) @ pending_sends old) g) (\<lambda>g.
          bindE (take_next_send (next_send old) g) (\<lambda>g.
          let g = g\<lparr>dg_writer := map_option (set_message_written_upcall u) (dg_writer old)\<rparr>
          in bindE (take_non_persistent (non_persistent_messages old) g)
               (start_dgroup already_failed rdmc_ok)))))"

section \<open>Remote calls through the group\<close>

text \<open>\<^verbatim>\<open>while(!send()) { }\<close>: the loop may not end, so its result is optional.\<close>

partial_function (option) send_until :: "'o dgroup \<Rightarrow> ('o dgroup result) option" where
  "send_until g = (case send g of
      Inl e \<Rightarrow> Some (Inl e)
    | Inr (g', ok) \<Rightarrow> if ok then Some (Inr g') else send_until g')"

text \<open>
  \<^verbatim>\<open>derechoCallerSend\<close> into the buffer of \<^verbatim>\<open>next_send\<close> at the offset \<open>off\<close> that
  \<^verbatim>\<open>get_position\<close> returned: the destinations, then the invocation of the \<open>k\<close>-th remote
  function. \<open>inv_id\<close> is the random number the call draws.
\<close>

definition write_call :: "node_id list \<Rightarrow> nat \<Rightarrow> nat \<Rightarrow> u64 \<Rightarrow> bytes list \<Rightarrow> 'o dgroup \<Rightarrow> 'o dgroup result" where
  "write_call nodes off k inv_id args g =
     (case next_send g of
        None \<Rightarrow> Inl (Undefined ''no buffer to write to'')
      | Some m \<Rightarrow> (case message_buffer m of
          None \<Rightarrow> Inl (Undefined ''no buffer to write to'')
        | Some b \<Rightarrow>
            let dests = enc64 (word_of_nat (length nodes)) @ enc32_list nodes;
                max_payload = max_msg_size g - word_of_nat sizeof_header - 8 - word_of_nat (4 * length nodes)
            in bindE (dispatcher_send (dispatchers g) k inv_id args (\<lambda>size. size \<le> unat max_payload)) (\<lambda>(d, out).
                 let start = off + length dests
                 in if length b < start + length out then Inl (Undefined ''call written past the buffer'')
                    else Inr (g\<lparr>dispatchers := d,
                      next_send := Some (m\<lparr>message_buffer :=
                        Some (take off b @ dests @ out @ drop (start + length out) b)\<rparr>)\<rparr>))))"

definition record_pending :: "node_id list \<Rightarrow> pref \<Rightarrow> 'o dgroup \<Rightarrow> 'o dgroup result" where
  "record_pending nodes p g =
     (if nodes \<noteq> [] then
        bindE (pending_fulfill_map nodes p (dispatchers g)) (\<lambda>d.
          Inr (g\<lparr>dispatchers := d, fulfilledList := fulfilledList g @ [p]\<rparr>))
      else Inr (g\<lparr>toFulfillQueue := toFulfillQueue g @ [p]\<rparr>))"

definition derechoCallerSend ::
  "node_id list \<Rightarrow> nat \<Rightarrow> nat \<Rightarrow> u64 \<Rightarrow> bytes list \<Rightarrow> 'o dgroup \<Rightarrow> ('o dgroup result) option" where
  "derechoCallerSend nodes off k inv_id args g =
     (case write_call nodes off k inv_id args g of
        Inl e \<Rightarrow> Some (Inl e)
      | Inr g1 \<Rightarrow> (case send_until g1 of
          None \<Rightarrow> None
        | Some (Inl e) \<Rightarrow> Some (Inl e)
        | Some (Inr g2) \<Rightarrow> Some (record_pending nodes (k, inv_id) g2)))"

text \<open>\<^verbatim>\<open>tcpSend\<close>, which \<^verbatim>\<open>p2pSend\<close> and \<^verbatim>\<open>p2pQuery\<close> call.\<close>

definition tcpSend :: "node_id \<Rightarrow> nat \<Rightarrow> u64 \<Rightarrow> bytes list \<Rightarrow> 'o dgroup \<Rightarrow> 'o dgroup result" where
  "tcpSend dest_node k inv_id args g =
     bindE (guardE (dest_node \<noteq> dg_members g ! member_index g) (Assert ''dest_node != members[member_index]'')) (\<lambda>_.
       let max_payload = max_msg_size g - word_of_nat sizeof_header
       in bindE (dispatcher_send (dispatchers g) k inv_id args (\<lambda>size. size \<le> unat max_payload)) (\<lambda>(d, out).
            if unat (reply_buffer_size g) < length out then Inl (Undefined ''call written past p2pBuffer'')
            else
              let g = call (Tcp_write dest_node out) (g\<lparr>dispatchers := d\<rparr>)
              in bindE (pending_fulfill_map [dest_node] (k, inv_id) (dispatchers g)) (\<lambda>d.
                   Inr (g\<lparr>dispatchers := d, fulfilledList := fulfilledList g @ [(k, inv_id)]\<rparr>))))"

text \<open>
  One turn of \<^verbatim>\<open>rpc_process_loop\<close> on a message \<open>msg\<close> that \<^verbatim>\<open>probe_all\<close> found: header and
  payload as read from the socket.
\<close>

definition rpc_process_one :: "bytes \<Rightarrow> 'o dgroup \<Rightarrow> 'o dgroup result" where
  "rpc_process_one msg g =
     (let (payload_size, indx, received_from) = retrieve_header msg;
          max_payload = max_msg_size g - word_of_nat sizeof_header
      in if unat max_payload < header_space + unat payload_size
         then Inl (Undefined ''payload read past rpcBuffer'')
         else bindE (handle_receive (dispatchers g) indx received_from (drop header_space msg) payload_size
                       (\<lambda>size. size \<le> unat max_payload)) (\<lambda>(d, reply).
                let g = g\<lparr>dispatchers := d\<rparr>
                in Inr (if reply = [] then g else call (Tcp_write (ucast received_from) reply) g)))"

text \<open>\<^verbatim>\<open>set_exceptions_for_removed_nodes\<close>: every fulfilled pending result, every removed node.\<close>

fun set_exceptions_for :: "(pref \<times> node_id) list \<Rightarrow> 'o dispatcher \<Rightarrow> 'o dispatcher result" where
  "set_exceptions_for [] d = Inr d"
| "set_exceptions_for ((p, removed) # ps) d = bindE (pending_set_removed removed p d) (set_exceptions_for ps)"

definition set_exceptions_for_removed_nodes :: "node_id list \<Rightarrow> 'o dgroup \<Rightarrow> 'o dgroup result" where
  "set_exceptions_for_removed_nodes removed g =
     bindE (set_exceptions_for (List.product (fulfilledList g) removed) (dispatchers g)) (\<lambda>d.
       Inr (g\<lparr>dispatchers := d\<rparr>))"

section \<open>The hand-over keeps every own message\<close>

text \<open>
  The messages of the old group that the new one has to send: its own undelivered ones
  with contents, the one in flight, the queued ones and the one being filled.
\<close>

definition to_resend :: "'o dgroup \<Rightarrow> message list" where
  "to_resend g = map snd (filter (\<lambda>e. 0 < msize (snd e) \<and> sender_rank (snd e) = int (member_index g))
     (locally_stable_messages g)) @ outgoing g"

text \<open>The fields the hand-over changes, so that the rest is known to be kept.\<close>

definition hand_over :: "'o dgroup \<Rightarrow> 'o dgroup \<Rightarrow> bool" where
  "hand_over g g' \<longleftrightarrow> (\<exists>free pend nxt i. g' = g\<lparr>free_message_buffers := free, pending_sends := pend,
     next_send := nxt, future_message_index := i\<rparr>)"

lemma hand_over_refl: "hand_over g g"
  unfolding hand_over_def
  by (rule exI[of _ "free_message_buffers g"], rule exI[of _ "pending_sends g"], rule exI[of _ "next_send g"],
      rule exI[of _ "future_message_index g"]) simp

lemma hand_over_trans: "hand_over a b \<Longrightarrow> hand_over b c \<Longrightarrow> hand_over a c"
  unfolding hand_over_def by (elim exE) (simp, blast)

lemma hand_over_fields:
  assumes "hand_over g g'"
  shows "dg_members g' = dg_members g" "member_index g' = member_index g" "current_send g' = current_send g"
    "current_receives g' = current_receives g" "locally_stable_messages g' = locally_stable_messages g"
    "dg_sst g' = dg_sst g" "dg_calls g' = dg_calls g" "non_persistent_messages g' = non_persistent_messages g"
    "max_msg_size g' = max_msg_size g"
  using assms by (auto simp: hand_over_def)

text \<open>
  \<open>queued g ms g'\<close>: the pending messages grew by the contents of \<open>ms\<close>, renumbered.
\<close>

definition queued :: "'o dgroup \<Rightarrow> message list \<Rightarrow> 'o dgroup \<Rightarrow> bool" where
  "queued g ms g' \<longleftrightarrow> hand_over g g' \<and> next_send g' = next_send g \<and>
     (\<exists>new. pending_sends g' = pending_sends g @ new \<and>
        map (\<lambda>m. (msize m, message_buffer m)) new = map (\<lambda>m. (msize m, message_buffer m)) ms \<and>
        chained (member_index g) (future_message_index g) new (future_message_index g'))"

lemma chained_trans:
  "chained me i ms k \<Longrightarrow> chained me k ms' j \<Longrightarrow> chained me i (ms @ ms') j"
  by (induction ms arbitrary: i) (auto split: option.splits)

lemma queued_Nil: "queued g [] g"
  by (simp add: queued_def hand_over_refl)

lemma queued_append:
  assumes "queued g ms g1" "queued g1 ms' g2"
  shows "queued g (ms @ ms') g2"
proof -
  from assms obtain new new' where n: "pending_sends g1 = pending_sends g @ new" "pending_sends g2 = pending_sends g1 @ new'"
    "map (\<lambda>m. (msize m, message_buffer m)) new = map (\<lambda>m. (msize m, message_buffer m)) ms"
    "map (\<lambda>m. (msize m, message_buffer m)) new' = map (\<lambda>m. (msize m, message_buffer m)) ms'"
    "chained (member_index g) (future_message_index g) new (future_message_index g1)"
    "chained (member_index g1) (future_message_index g1) new' (future_message_index g2)"
    by (auto simp: queued_def)
  moreover have "member_index g1 = member_index g" using assms(1) by (simp add: queued_def hand_over_fields)
  ultimately have "pending_sends g2 = pending_sends g @ (new @ new')"
    "map (\<lambda>m. (msize m, message_buffer m)) (new @ new') = map (\<lambda>m. (msize m, message_buffer m)) (ms @ ms')"
    "chained (member_index g) (future_message_index g) (new @ new') (future_message_index g2)"
    by (simp_all add: chained_trans)
  with assms show ?thesis unfolding queued_def using hand_over_trans by fastforce
qed

lemma requeue_queued:
  assumes "message_buffer m = Some b"
  obtains g' where "requeue m g = Inr g'" "queued g [m] g'"
proof
  let ?m = "m\<lparr>sender_rank := int (member_index g), index := future_message_index g\<rparr>"
  let ?g = "g\<lparr>future_message_index := future_message_index g + 1 + uint (h_pause_sending_turns b),
    pending_sends := pending_sends g @ [?m]\<rparr>"
  show "requeue m g = Inr ?g" using assms by (simp add: requeue_def convert_msg_def)
  have "?g = g\<lparr>free_message_buffers := free_message_buffers g, pending_sends := pending_sends g @ [?m],
     next_send := next_send g, future_message_index := future_message_index g + 1 + uint (h_pause_sending_turns b)\<rparr>"
    by simp
  then have "hand_over g ?g" unfolding hand_over_def by blast
  then show "queued g [m] ?g" using assms by (simp add: queued_def)
qed

lemma requeue_all_queued:
  "\<forall>m \<in> set ms. message_buffer m \<noteq> None \<Longrightarrow> \<exists>g'. requeue_all ms g = Inr g' \<and> queued g ms g'"
proof (induction ms arbitrary: g)
  case Nil
  then show ?case by (simp add: queued_Nil)
next
  case (Cons m ms)
  then obtain b where "message_buffer m = Some b" by auto
  then obtain g1 where g1: "requeue m g = Inr g1" "queued g [m] g1" by (rule requeue_queued)
  from Cons.IH[of g1] Cons.prems obtain g2 where "requeue_all ms g1 = Inr g2" "queued g1 ms g2" by auto
  with g1 queued_append[OF g1(2)] show ?case by auto
qed

lemma take_stable_queued:
  "\<forall>e \<in> set es. 0 < msize (snd e) \<longrightarrow> message_buffer (snd e) \<noteq> None \<Longrightarrow>
   \<exists>g'. take_stable r es g = Inr g' \<and>
     queued g (map snd (filter (\<lambda>e. 0 < msize (snd e) \<and> sender_rank (snd e) = int r) es)) g'"
proof (induction r es g rule: take_stable.induct)
  case (1 r g)
  then show ?case by (simp add: queued_Nil)
next
  case (2 r k m es g)
  show ?case
  proof (cases "msize m = 0")
    case True
    with 2 show ?thesis by auto
  next
    case False
    then have pos: "0 < msize m" by (simp add: word_neq_0_conv)
    show ?thesis
    proof (cases "sender_rank m = int r")
      case True
      from 2(4) pos obtain b where "message_buffer m = Some b" by auto
      then obtain g1 where g1: "requeue m g = Inr g1" "queued g [m] g1" by (rule requeue_queued)
      from 2(2)[OF False True, of g1] 2(4) g1(1) obtain g2 where g2: "take_stable r es g1 = Inr g2"
        "queued g1 (map snd (filter (\<lambda>e. 0 < msize (snd e) \<and> sender_rank (snd e) = int r) es)) g2" by auto
      with g1 False True pos queued_append[OF g1(2) g2(2)] show ?thesis by auto
    next
      case other: False
      let ?g = "reclaim (message_buffer m) g"
      from 2(3)[OF False other] 2(4) obtain g2 where g2: "take_stable r es ?g = Inr g2"
        "queued ?g (map snd (filter (\<lambda>e. 0 < msize (snd e) \<and> sender_rank (snd e) = int r) es)) g2" by auto
      have "?g = g\<lparr>free_message_buffers := free_message_buffers g @ opt_list (message_buffer m),
         pending_sends := pending_sends g, next_send := next_send g, future_message_index := future_message_index g\<rparr>"
        by (simp add: reclaim_def)
      then have "hand_over g ?g" unfolding hand_over_def by blast
      then have "queued g [] ?g" by (simp add: queued_def reclaim_def)
      from queued_append[OF this g2(2)] g2(1) False other show ?thesis by simp
    qed
  qed
qed

lemma create_groups_fields:
  "\<exists>cs. fst (create_groups_from ok ks g) = g\<lparr>dg_calls := dg_calls g @ cs\<rparr> \<and> concat (map (stability_seq n) cs) = []"
proof (induction ks arbitrary: g)
  case Nil
  show ?case by (rule exI[of _ "[]"]) simp
next
  case (Cons k ks)
  let ?c = "Rdmc_create (k + unat (rdmc_group_num_offset g)) (rotated_members (dg_members g) k)"
  obtain cs where "fst (create_groups_from ok ks (call ?c g)) = (call ?c g)\<lparr>dg_calls := dg_calls (call ?c g) @ cs\<rparr>"
    "concat (map (stability_seq n) cs) = []" using Cons.IH by blast
  then show ?case
    by (cases "ok (k + unat (rdmc_group_num_offset g))")
       (rule exI[of _ "?c # cs"], simp add: Let_def call_def,
        rule exI[of _ "[?c]"], simp add: Let_def call_def)
qed

lemma start_dgroup_runs:
  assumes "af = [] \<or> dg_n g \<le> length af"
  obtains cs created where "concat (map (stability_seq (dg_n g)) cs) = []"
    "start_dgroup af ok g = Inr (register_group_predicates
       ((initialize_sst_row g)\<lparr>dg_calls := dg_calls g @ cs, rdmc_groups_created := created\<rparr>))"
proof -
  let ?g = "initialize_sst_row g"
  have n: "dg_n ?g = dg_n g" "dg_calls ?g = dg_calls g" by (simp_all add: initialize_sst_row_def Let_def)
  obtain cs where cs: "fst (create_rdmc_groups ok ?g) = ?g\<lparr>dg_calls := dg_calls ?g @ cs\<rparr>"
    "concat (map (stability_seq (dg_n g)) cs) = []"
    unfolding create_rdmc_groups_def using create_groups_fields by blast
  show thesis
  proof (cases "af = [] \<or> \<not> list_ex (\<lambda>i. af ! i) [0..<dg_n g]")
    case True
    with assms cs show thesis
      by (intro that[OF cs(2), of "snd (create_rdmc_groups ok ?g)"])
         (cases "create_rdmc_groups ok ?g", auto simp: start_dgroup_def Let_def n)
  next
    case False
    with assms show thesis
      by (intro that[of "[]" False]) (auto simp: start_dgroup_def Let_def n initialize_sst_row_def)
  qed
qed

text \<open>The rows after \<^verbatim>\<open>initialize_sst_row\<close> are those of a new group.\<close>

lemma initialized_row:
  assumes "i < dg_n g" "dg_n g \<le> num_rows (dg_sst g)"
  shows "rows (dg_sst (initialize_sst_row g)) ! i = initialize_row (dg_n g) (rows (dg_sst g) ! i)"
    and "num_rows (dg_sst (initialize_sst_row g)) = num_rows (dg_sst g)"
  using assms by (simp_all add: initialize_sst_row_def Let_def put_fields sync_fields nth_append)

definition sst_fits :: "nat \<Rightarrow> nat \<Rightarrow> sst \<Rightarrow> bool" where
  "sst_fits n i s \<longleftrightarrow> i < n \<and> n \<le> num_rows s \<and> local_index s = i \<and> n \<le> length (nReceived (rows s ! i))"

lemma initialized_inv:
  assumes fits: "sst_fits (dg_n g) (member_index g) (dg_sst g)"
    and empty: "locally_stable_messages g = []" "current_receives g = []" "callback_seqs g = []"
    and chain: "chained (member_index g) 0 (outgoing g) (future_message_index g)"
  shows "group_inv (initialize_sst_row g)"
proof -
  let ?g = "initialize_sst_row g" and ?n = "dg_n g"
  have fields: "dg_members ?g = dg_members g" "member_index ?g = member_index g"
    "locally_stable_messages ?g = []" "current_receives ?g = []" "outgoing ?g = outgoing g"
    "future_message_index ?g = future_message_index g" "callback_seqs ?g = []"
    "local_index (dg_sst ?g) = member_index g"
    using assms by (simp_all add: initialize_sst_row_def Let_def outgoing_def callback_seqs_def put_fields sync_fields sst_fits_def)
  have row: "rows (dg_sst ?g) ! member_index g = initialize_row ?n (my_row g)"
    "num_rows (dg_sst ?g) = num_rows (dg_sst g)"
    using fits by (auto simp: initialized_row sst_fits_def)
  have "fresh_group (?g\<lparr>current_send := None, pending_sends := [], next_send := None, future_message_index := 0\<rparr>)"
    using fits fields by (simp add: fresh_group_def row sst_fits_def initialize_row_def outgoing_def opt_list_def
        callback_seqs_def list_all_length)
  then have "group_inv (?g\<lparr>current_send := None, pending_sends := [], next_send := None, future_message_index := 0\<rparr>)"
    by (rule fresh_group_inv)
  moreover have "initialize_row ?n (my_row g) = initialize_row ?n (my_row g)\<lparr>nReceived := nReceived (initialize_row ?n (my_row g))\<rparr>"
    by simp
  moreover have "chain_inv ?g"
    using chain fits by (simp add: chain_inv_def fields row sst_fits_def initialize_row_def nth_append)
  ultimately show ?thesis
    by (simp add: group_inv_def rows_inv_def order_inv_def store_inv_def callback_inv_def callback_seqs_def)
qed

lemma start_dgroup_inv:
  assumes "af = [] \<or> dg_n g \<le> length af" "group_inv (initialize_sst_row g)"
  obtains g' where "start_dgroup af ok g = Inr g'" "group_inv g'" "outgoing g' = outgoing g"
proof -
  obtain cs created where cs: "concat (map (stability_seq (dg_n g)) cs) = []"
    and run: "start_dgroup af ok g = Inr (register_group_predicates
       ((initialize_sst_row g)\<lparr>dg_calls := dg_calls g @ cs, rdmc_groups_created := created\<rparr>))"
    using assms(1) by (rule start_dgroup_runs)
  let ?g = "register_group_predicates
       ((initialize_sst_row g)\<lparr>dg_calls := dg_calls g @ cs, rdmc_groups_created := created\<rparr>)"
  have "same_core (initialize_sst_row g) ?g"
    using cs by (simp add: same_core_def register_group_predicates_def pred_fields outgoing_def callback_seqs_def
        initialize_sst_row_def Let_def)
  from same_core_inv[OF this assms(2)] run show thesis
    by (intro that[of ?g]) (simp_all add: register_group_predicates_def outgoing_def initialize_sst_row_def Let_def)
qed

lemma chained_has_buffers: "chained me i ms j \<Longrightarrow> \<forall>m \<in> set ms. message_buffer m \<noteq> None"
  by (induction ms arbitrary: i) (auto split: option.splits)

lemma to_resend_has_buffers:
  assumes "group_inv g"
  shows "\<forall>m \<in> set (outgoing g). message_buffer m \<noteq> None"
    and "\<forall>e \<in> set (locally_stable_messages g). 0 < msize (snd e) \<longrightarrow> message_buffer (snd e) \<noteq> None"
  using group_invD(3,4)[OF assms] chained_has_buffers
  by (auto simp: chain_inv_def store_inv_def placed_def)

lemma take_next_queued:
  assumes "\<forall>m \<in> set (opt_list nm). message_buffer m \<noteq> None" "next_send g = None"
  shows "\<exists>g'. take_next_send nm g = Inr g' \<and> hand_over g g' \<and> pending_sends g' = pending_sends g \<and>
     map (\<lambda>m. (msize m, message_buffer m)) (opt_list (next_send g')) =
     map (\<lambda>m. (msize m, message_buffer m)) (opt_list nm) \<and>
     chained (member_index g) (future_message_index g) (opt_list (next_send g')) (future_message_index g')"
proof (cases nm)
  case None
  then show ?thesis using assms(2) by (simp add: take_next_send_def opt_list_def hand_over_refl)
next
  case (Some m)
  then obtain b where b: "message_buffer m = Some b" using assms(1) by (auto simp: opt_list_def)
  let ?g = "g\<lparr>future_message_index := future_message_index g + 1 + uint (h_pause_sending_turns b),
     next_send := Some (m\<lparr>sender_rank := int (member_index g), index := future_message_index g\<rparr>)\<rparr>"
  have "?g = g\<lparr>free_message_buffers := free_message_buffers g, pending_sends := pending_sends g,
     next_send := next_send ?g, future_message_index := future_message_index ?g\<rparr>" by simp
  then have "hand_over g ?g" unfolding hand_over_def by blast
  with Some b show ?thesis by (simp add: take_next_send_def convert_msg_def opt_list_def)
qed

text \<open>The second constructor up to the messages that wait to be logged.\<close>

lemma hand_over_queue:
  assumes bufs: "\<forall>m \<in> set (outgoing old). message_buffer m \<noteq> None"
      "\<forall>e \<in> set (locally_stable_messages old). 0 < msize (snd e) \<longrightarrow> message_buffer (snd e) \<noteq> None"
    and offset: "uint (rdmc_group_num_offset old) \<le> 65535 - int (dg_n old) - int (length ms)"
  obtains g where
    "group_from_old ms me s old af u ok =
       bindE (take_non_persistent (non_persistent_messages old) g) (start_dgroup af ok)"
    "dg_members g = ms" "member_index g = index_of ms me" "current_send g = None" "current_receives g = []"
    "locally_stable_messages g = []" "dg_sst g = s" "dg_calls g = []"
    "map (\<lambda>m. (msize m, message_buffer m)) (outgoing g) = map (\<lambda>m. (msize m, message_buffer m)) (to_resend old)"
    "chained (index_of ms me) 0 (outgoing g) (future_message_index g)" "max_msg_size g = max_msg_size old"
proof -
  let ?w = "buffers_wanted (window_size old) (length ms)" and ?t = "unat (total_message_buffers old)"
  let ?mb = "map (\<lambda>m. (msize m, message_buffer m))"
  define g where "g = \<lparr>dg_members = ms, member_index = index_of ms me, block_size = block_size old,
                max_msg_size = max_msg_size old, window_size = window_size old, dispatchers = dispatchers old,
                toFulfillQueue = toFulfillQueue old, fulfilledList = fulfilledList old,
                rdmc_group_num_offset = rdmc_group_num_offset old + word_of_nat (dg_n old),
                rdmc_groups_created = False, total_message_buffers = word_of_nat (max ?t ?w),
                free_message_buffers = free_message_buffers old @
                  replicate (?w - ?t) (new_message_buffer (max_msg_size old)) @
                  concat (map (\<lambda>e. opt_list (message_buffer (snd e))) (current_receives old)),
                reply_buffer_size = reply_buffer_size old, future_message_index = 0, next_send = None,
                pending_sends = [], current_send = None, current_receives = [], locally_stable_messages = [],
                non_persistent_messages = [], next_message_to_deliver = 0, sender_timeout = sender_timeout old,
                thread_shutdown = False, dg_sst = s, dg_writer = None, dg_calls = []\<rparr>"
  obtain g1 where g1: "take_stable (member_index old) (locally_stable_messages old) g = Inr g1"
    and q1: "queued g (map snd (filter (\<lambda>e. 0 < msize (snd e) \<and> sender_rank (snd e) = int (member_index old))
       (locally_stable_messages old))) g1"
    using take_stable_queued[OF bufs(2)] by blast
  obtain g2 where g2: "requeue_all (opt_list (current_send old) @ pending_sends old) g1 = Inr g2"
    and q2: "queued g1 (opt_list (current_send old) @ pending_sends old) g2"
    using requeue_all_queued[of "opt_list (current_send old) @ pending_sends old" g1] bufs(1)
    by (auto simp: outgoing_def)
  note q = queued_append[OF q1 q2]
  have h2: "hand_over g g2" "next_send g2 = None" using q by (auto simp: queued_def g_def)
  obtain g3 where g3: "take_next_send (next_send old) g2 = Inr g3" "hand_over g2 g3" "pending_sends g3 = pending_sends g2"
    "?mb (opt_list (next_send g3)) = ?mb (opt_list (next_send old))"
    "chained (member_index g2) (future_message_index g2) (opt_list (next_send g3)) (future_message_index g3)"
    using take_next_queued[OF _ h2(2), of "next_send old"] bufs(1) by (auto simp: outgoing_def)
  let ?g4 = "g3\<lparr>dg_writer := map_option (set_message_written_upcall u) (dg_writer old)\<rparr>"
  have f3: "dg_members g3 = ms" "member_index g3 = index_of ms me" "current_send g3 = None" "current_receives g3 = []"
    "locally_stable_messages g3 = []" "dg_sst g3 = s" "dg_calls g3 = []" "member_index g2 = index_of ms me"
    "max_msg_size g3 = max_msg_size old"
    using hand_over_fields[OF hand_over_trans[OF h2(1) g3(2)]] hand_over_fields[OF h2(1)] by (simp_all add: g_def)
  have out: "?mb (outgoing ?g4) = ?mb (to_resend old)"
    using q g3(3,4) f3(3) by (auto simp: outgoing_def opt_list_def to_resend_def queued_def g_def split: option.splits)
  have chain: "chained (index_of ms me) 0 (outgoing ?g4) (future_message_index ?g4)"
    using q g3(3,5) f3 chained_trans by (fastforce simp: outgoing_def opt_list_def queued_def g_def)
  have run: "group_from_old ms me s old af u ok =
       bindE (take_non_persistent (non_persistent_messages old) ?g4) (start_dgroup af ok)"
    using g1 g2 g3(1) offset unfolding group_from_old_def
    by (simp add: guardE_def Let_def g_def[symmetric] del: take_stable.simps)
  show thesis by (rule that[of ?g4]) (use run f3 out chain in simp_all)
qed

text \<open>
  A view change loses and reorders none of this node's own messages: when the old group
  is in a consistent state and nothing is waiting to be logged, the second constructor
  succeeds; the messages it has queued are exactly the node's undelivered own messages
  with contents, then the one in flight, the queued ones and the one being filled, in that
  order with their sizes and bytes; and the new group is again in a consistent state, so
  everything proved of reachable groups' invariant holds in the next view too.
\<close>

lemma view_change_resends_own_messages:
  assumes inv: "group_inv old" and logged: "non_persistent_messages old = []"
    and offset: "uint (rdmc_group_num_offset old) \<le> 65535 - int (dg_n old) - int (length ms)"
    and fits: "sst_fits (length ms) (index_of ms me) s"
    and failed: "af = [] \<or> length ms \<le> length af"
  shows "\<exists>g. group_from_old ms me s old af u ok = Inr g \<and> group_inv g \<and>
    map (\<lambda>m. (msize m, message_buffer m)) (outgoing g) =
    map (\<lambda>m. (msize m, message_buffer m)) (to_resend old)"
proof -
  obtain g where g: "group_from_old ms me s old af u ok =
       bindE (take_non_persistent (non_persistent_messages old) g) (start_dgroup af ok)"
    "dg_members g = ms" "member_index g = index_of ms me" "current_send g = None" "current_receives g = []"
    "locally_stable_messages g = []" "dg_sst g = s" "dg_calls g = []"
    "map (\<lambda>m. (msize m, message_buffer m)) (outgoing g) = map (\<lambda>m. (msize m, message_buffer m)) (to_resend old)"
    "chained (index_of ms me) 0 (outgoing g) (future_message_index g)"
    using to_resend_has_buffers[OF inv] offset by (rule hand_over_queue)
  have "group_inv (initialize_sst_row g)"
    by (rule initialized_inv) (use fits g in \<open>simp_all add: callback_seqs_def\<close>)
  then obtain g' where "start_dgroup af ok g = Inr g'" "group_inv g'" "outgoing g' = outgoing g"
    using start_dgroup_inv[of af g ok] failed by (auto simp: g)
  with g logged show ?thesis by simp
qed

definition duo_row :: derecho_row where
  "duo_row = solo_row\<lparr>nReceived := [0, 0], suspected := [False, False], changes := [0, 0], globalMin := [0, 0]\<rparr>"

definition duo_sst :: sst where
  "duo_sst = \<lparr>rows = [duo_row, duo_row], local_index = 0, preds = [], calls = []\<rparr>"

lemma duo_fits: "sst_fits (length [7, 8 :: node_id]) (index_of [7, 8 :: node_id] 7) duo_sst"
  by (simp add: sst_fits_def duo_sst_def duo_row_def)

text \<open>What the first constructor leaves, on a table without predicates.\<close>

lemma new_group_starts:
  assumes run: "new_group ms me s bufs disp params files af ok = Inr g"
    and fits: "sst_fits (length ms) (index_of ms me) s" and failed: "af = [] \<or> length ms \<le> length af"
  shows "fresh_group g" "1 \<le> window_size g"
    "buffers_wanted (window_size g) (length ms) \<le> length (free_message_buffers g)"
    "preds (dg_sst g) = preds s @ [Stability, Delivery, Sender]" "fulfilledList g = []"
proof -
  from run obtain g0 where run0: "start_dgroup af ok g0 = Inr g" and g0: "dg_members g0 = ms" "member_index g0 = index_of ms me"
    "dg_sst g0 = s" "dg_calls g0 = []" "locally_stable_messages g0 = []" "current_receives g0 = []"
    "outgoing g0 = []" "future_message_index g0 = 0" "window_size g0 = dp_window_size params"
    "free_message_buffers g0 = top_up (buffers_wanted (dp_window_size params) (length ms)) (max_msg_size g0) bufs"
    "1 \<le> dp_window_size params" "fulfilledList g0 = []"
    by (auto simp: new_group_def Let_def outgoing_def opt_list_def guardE_def split: if_splits)
  have "af = [] \<or> dg_n g0 \<le> length af" using failed g0 by simp
  then obtain cs created where cs: "concat (map (stability_seq (dg_n g0)) cs) = []"
    and g: "start_dgroup af ok g0 = Inr (register_group_predicates
       ((initialize_sst_row g0)\<lparr>dg_calls := dg_calls g0 @ cs, rdmc_groups_created := created\<rparr>))"
    by (rule start_dgroup_runs)
  have row: "rows (dg_sst (initialize_sst_row g0)) ! index_of ms me = initialize_row (length ms) (rows s ! index_of ms me)"
    "num_rows (dg_sst (initialize_sst_row g0)) = num_rows s"
    using fits initialized_row[of "index_of ms me" g0] by (auto simp: g0 sst_fits_def)
  show "fresh_group g"
    using run0 g fits g0 cs row
    by (auto simp: fresh_group_def register_group_predicates_def pred_fields sst_fits_def
        initialize_row_def outgoing_def callback_seqs_def list_all_length initialize_sst_row_def Let_def put_fields sync_fields
        nth_append)
  show "preds (dg_sst g) = preds s @ [Stability, Delivery, Sender]"
    using run0 g g0 by (auto simp: register_group_predicates_def insert_pred_def initialize_sst_row_def Let_def put_def
        sync_with_members_def)
  have "window_size g = dp_window_size params" "free_message_buffers g = free_message_buffers g0"
    using run0 g g0 by (auto simp: register_group_predicates_def initialize_sst_row_def Let_def)
  then show "1 \<le> window_size g" "buffers_wanted (window_size g) (length ms) \<le> length (free_message_buffers g)"
    using g0 by (auto simp: top_up_def)
  show "fulfilledList g = []"
    using run0 g g0 by (auto simp: register_group_predicates_def initialize_sst_row_def Let_def)
qed

text \<open>
  The first constructor, when it returns, leaves the group in the initial state the
  step relation starts from (counters at -1, nothing buffered or queued) and with a message
  buffer for every place in every sender's window.
\<close>

lemma new_group_is_fresh:
  assumes run: "new_group ms me s bufs disp params files af ok = Inr g"
    and fits: "sst_fits (length ms) (index_of ms me) s" and failed: "af = [] \<or> length ms \<le> length af"
  shows "fresh_group g \<and> group_inv g \<and> 1 \<le> window_size g \<and>
    buffers_wanted (window_size g) (length ms) \<le> length (free_message_buffers g)"
  using new_group_starts[OF assms] fresh_group_inv by blast

definition duo_params :: derecho_params where
  "duo_params = \<lparr>max_payload_size = 20, dp_block_size = 16, filename = [], dp_window_size = 3, timeout_ms = 1,
     rpc_port = 12487\<rparr>"

lemma duo_runs: "\<exists>g. new_group [7, 8] 7 duo_sst [] \<lparr>nid = 7, invs = [], objects = ()\<rparr> duo_params ([], []) [] (\<lambda>_. True) = Inr g"
proof -
  have "compute_max_msg_size 20 16 = Inr 32" by (simp add: compute_max_msg_size_def sizeof_header_def)
  moreover have "\<exists>g'. start_dgroup [] ok g = Inr g'" for ok and g :: "unit dgroup"
    by (rule start_dgroup_runs[of "[]" g ok]) auto
  ultimately show ?thesis by (simp add: new_group_def duo_params_def guardE_def Let_def)
qed

lemma new_group_is_fresh_witness:
  "\<exists>g. new_group [7, 8] 7 duo_sst [] \<lparr>nid = 7, invs = [], objects = ()\<rparr> duo_params ([], []) [] (\<lambda>_. True) = Inr g \<and>
     fresh_group g"
  using duo_runs new_group_is_fresh[OF _ duo_fits] by blast

text \<open>
  The RDMC group of each sender has the same members in the same cyclic order, with
  that sender first: the list built for group \<open>k\<close> is the member list rotated by \<open>k\<close>.
\<close>

lemma rdmc_group_starts_at_its_sender:
  "rotated_members ms k = rotate k ms"
proof (rule nth_equalityI)
  fix i
  assume "i < length (rotated_members ms k)"
  then have "i < length ms" by (simp add: rotated_members_def)
  then show "rotated_members ms k ! i = rotate k ms ! i"
    by (simp add: rotated_members_def nth_rotate)
qed (simp add: rotated_members_def)

section \<open>The busy wait of an ordered send\<close>

lemma send_until_step:
  assumes "send_until g = Some r"
  shows "next_send g \<noteq> None \<longrightarrow> \<not> thread_shutdown g \<and> rdmc_groups_created g"
  by (rule send_until.raw_induct[OF _ assms]) (auto simp: send_def split: if_split_asm option.splits)

text \<open>
  C40. \<^verbatim>\<open>while(!send()) {}\<close> ends after one call, with the message queued, when the group is
  running, and never ends when it is wedged or has no RDMC groups: the loop changes nothing
  it waits for. An ordered send that fills its message before the wedge and reaches the
  loop after it does not return.
\<close>

theorem ordered_send_returns_iff_running:
  assumes "next_send g = Some m"
  shows "if \<not> thread_shutdown g \<and> rdmc_groups_created g
    then \<exists>g'. send_until g = Some (Inr g') \<and> pending_sends g' = pending_sends g @ [m] \<and> next_send g' = None
    else send_until g = None"
proof -
  have run: "send_until g = Some (Inr (call Notify_sender (g\<lparr>pending_sends := pending_sends g @ [m], next_send := None\<rparr>)))"
    if "\<not> thread_shutdown g" "rdmc_groups_created g"
    using that assms by (subst send_until.simps) (simp add: send_def)
  have stop: "send_until g = None" if "thread_shutdown g \<or> \<not> rdmc_groups_created g"
    using that assms send_until_step[of g] by (cases "send_until g") auto
  show ?thesis using run stop by (auto simp: call_def)
qed

theorem ordered_send_returns_iff_running_witness:
  "send_until (solo_asked\<lparr>thread_shutdown := True\<rparr>) = None"
  using ordered_send_returns_iff_running[of "solo_asked\<lparr>thread_shutdown := True\<rparr>" solo_message]
  by (simp add: solo_asked_def)

section \<open>Messages that wait for the log at a view change\<close>

lemma take_non_persistent_fields:
  "take_non_persistent es g = Inr g' \<Longrightarrow> outgoing g' = outgoing g \<and> dg_members g' = dg_members g \<and>
     member_index g' = member_index g \<and> dg_sst g' = dg_sst g \<and> dg_calls g' = dg_calls g \<and>
     future_message_index g + int (length es) \<le> future_message_index g'"
proof (induction es g rule: take_non_persistent.induct)
  case (2 k m es g)
  from 2(2) obtain b where b: "message_buffer m = Some b"
    by (auto simp: convert_msg_def split: option.splits)
  let ?m = "m\<lparr>sender_rank := int (member_index g), index := future_message_index g\<rparr>"
  let ?g = "g\<lparr>future_message_index := future_message_index g + 1 + uint (h_pause_sending_turns b)\<rparr>"
  let ?g2 = "?g\<lparr>non_persistent_messages := sm_emplace k ?m (non_persistent_messages ?g)\<rparr>"
  have conv: "convert_msg m g = Inr (?g, ?m)" by (simp add: convert_msg_def b)
  with 2(2) have "take_non_persistent es ?g2 = Inr g'" by simp
  note step = 2(1)[OF conv refl this]
  have "future_message_index g + int (length ((k, m) # es)) \<le> future_message_index ?g2 + int (length es)"
    by simp
  with step have "future_message_index g + int (length ((k, m) # es)) \<le> future_message_index g'" by linarith
  with step show ?case by (simp add: outgoing_def)
qed simp

text \<open>
  With logging on, a message that is delivered but not yet written at the view change
  takes an index of the new group although it will never be sent in it. When nothing else
  is to be sent again, the next message of the application gets an index beyond the first,
  its predecessor never arrives, and the send loop's condition is false for it: after such
  a view change the node stays silent.
\<close>

lemma unlogged_messages_take_indices:
  assumes inv: "group_inv old" and unlogged: "non_persistent_messages old \<noteq> []"
    and none_left: "to_resend old = []"
    and offset: "uint (rdmc_group_num_offset old) \<le> 65535 - int (dg_n old) - int (length ms)"
    and fits: "sst_fits (length ms) (index_of ms me) s"
    and run: "group_from_old ms me s old af u ok = Inr g"
  shows "outgoing g = [] \<and> my_counts g ! member_index g = -1 \<and> 1 \<le> future_message_index g \<and>
    \<not> should_send (g\<lparr>pending_sends := [\<lparr>sender_rank = int (member_index g), index = future_message_index g,
       msize = sz, message_buffer = b\<rparr>]\<rparr>)"
proof -
  obtain g0 where g0: "group_from_old ms me s old af u ok =
       bindE (take_non_persistent (non_persistent_messages old) g0) (start_dgroup af ok)"
    "dg_members g0 = ms" "member_index g0 = index_of ms me" "current_send g0 = None" "current_receives g0 = []"
    "locally_stable_messages g0 = []" "dg_sst g0 = s" "dg_calls g0 = []"
    "map (\<lambda>m. (msize m, message_buffer m)) (outgoing g0) = map (\<lambda>m. (msize m, message_buffer m)) (to_resend old)"
    "chained (index_of ms me) 0 (outgoing g0) (future_message_index g0)"
    using to_resend_has_buffers[OF inv] offset by (rule hand_over_queue)
  have start: "outgoing g0 = []" using g0(9) unfolding none_left by simp
  then have zero: "future_message_index g0 = 0" using g0(10) by simp
  from run g0(1) obtain g1 where g1: "take_non_persistent (non_persistent_messages old) g0 = Inr g1"
    "start_dgroup af ok g1 = Inr g" by auto
  from take_non_persistent_fields[OF g1(1)] g0 start zero have f1: "outgoing g1 = []" "dg_members g1 = ms"
    "member_index g1 = index_of ms me" "dg_sst g1 = s" "0 < future_message_index g1"
    using unlogged by (auto simp: neq_Nil_conv)
  have "af = [] \<or> dg_n g1 \<le> length af" using g1(2) by (auto simp: start_dgroup_def Let_def initialize_sst_row_def split: if_splits)
  then obtain cs created where g: "start_dgroup af ok g1 = Inr (register_group_predicates
       ((initialize_sst_row g1)\<lparr>dg_calls := dg_calls g1 @ cs, rdmc_groups_created := created\<rparr>))"
    by (rule start_dgroup_runs)
  have "rows (dg_sst (initialize_sst_row g1)) ! index_of ms me = initialize_row (length ms) (rows s ! index_of ms me)"
    using fits initialized_row(1)[of "index_of ms me" g1] by (auto simp: f1 sst_fits_def)
  then have count: "my_counts g ! member_index g = -1"
    using g g1(2) fits by (auto simp: register_group_predicates_def pred_fields initialize_sst_row_def Let_def f1
        initialize_row_def nth_append sst_fits_def put_fields sync_fields)
  moreover have "future_message_index g = future_message_index g1" "outgoing g = []"
    using g g1(2) f1 by (auto simp: register_group_predicates_def initialize_sst_row_def Let_def outgoing_def)
  ultimately show ?thesis using f1 by (simp add: should_send_def)
qed

definition solo_logging :: "unit dgroup" where
  "solo_logging = solo_group\<lparr>non_persistent_messages := [(0, solo_message)]\<rparr>"

lemma solo_logging_facts:
  "non_persistent_messages solo_logging \<noteq> []" "to_resend solo_logging = []" "fresh_group solo_logging"
  "rdmc_group_num_offset solo_logging = 0" "dg_members solo_logging = [7]"
  by code_simp+

lemma solo_logging_runs: "\<exists>g. group_from_old [7, 8] 7 duo_sst solo_logging [] 1 (\<lambda>_. True) = Inr g"
proof -
  have "\<exists>g'. start_dgroup [] ok g = Inr g'" for ok and g :: "unit dgroup"
    by (rule start_dgroup_runs[of "[]" g ok]) auto
  then show ?thesis
    by (simp add: group_from_old_def solo_logging_def solo_group_def guardE_def Let_def opt_list_def take_next_send_def
        convert_msg_def solo_message_def)
qed

lemma unlogged_messages_take_indices_witness:
  "\<exists>g. group_from_old [7, 8] 7 duo_sst solo_logging [] 1 (\<lambda>_. True) = Inr g \<and> 1 \<le> future_message_index g"
  using solo_logging_runs unlogged_messages_take_indices[OF fresh_group_inv[OF solo_logging_facts(3)]
      solo_logging_facts(1,2) _ duo_fits, of "[]" 1 "\<lambda>_. True"]
  by (auto simp: solo_logging_facts)

section \<open>What moves to the next group\<close>

definition moved :: "'o dgroup \<Rightarrow> 'o dgroup \<Rightarrow> bool" where
  "moved g g' \<longleftrightarrow> dispatchers g' = dispatchers g \<and> fulfilledList g' = fulfilledList g \<and> dg_sst g' = dg_sst g \<and>
     dg_members g' = dg_members g"

lemma moved_refl: "moved g g"
  by (simp add: moved_def)

lemma moved_trans: "moved g h \<Longrightarrow> moved h k \<Longrightarrow> moved g k"
  by (simp add: moved_def)

lemma convert_msg_moved: "convert_msg m g = Inr (g', m') \<Longrightarrow> moved g g'"
  by (auto simp: convert_msg_def moved_def split: option.splits)

lemma requeue_moved: "requeue m g = Inr g' \<Longrightarrow> moved g g'"
  by (auto simp: requeue_def moved_def dest!: convert_msg_moved)

lemma requeue_all_moved: "requeue_all ms g = Inr g' \<Longrightarrow> moved g g'"
  by (induction ms g rule: requeue_all.induct) (auto intro: moved_refl moved_trans dest: requeue_moved)

lemma take_stable_moved: "take_stable r es g = Inr g' \<Longrightarrow> moved g g'"
proof (induction r es g rule: take_stable.induct)
  case (2 r k m es g)
  have "moved g (reclaim b g)" for b by (simp add: reclaim_def moved_def)
  with 2 show ?case by (auto intro: moved_trans dest: requeue_moved split: if_splits)
qed (simp add: moved_refl)

lemma take_non_persistent_moved: "take_non_persistent es g = Inr g' \<Longrightarrow> moved g g'"
proof (induction es g rule: take_non_persistent.induct)
  case (2 k m es g)
  then obtain h m' where h: "convert_msg m g = Inr (h, m')" by auto
  with 2 have "moved (h\<lparr>non_persistent_messages := sm_emplace k m' (non_persistent_messages h)\<rparr>) g'" by auto
  with convert_msg_moved[OF h] show ?case by (simp add: moved_def)
qed (simp add: moved_refl)

lemma take_next_send_moved: "take_next_send nm g = Inr g' \<Longrightarrow> moved g g'"
  by (auto simp: take_next_send_def moved_def dest!: convert_msg_moved split: option.splits)

lemma start_dgroup_keeps:
  assumes "start_dgroup af ok g = Inr g'"
  shows "dispatchers g' = dispatchers g \<and> fulfilledList g' = fulfilledList g \<and> dg_members g' = dg_members g \<and>
    rows (dg_sst g') = rows (dg_sst (initialize_sst_row g)) \<and> local_index (dg_sst g') = local_index (dg_sst g)"
proof -
  have "af = [] \<or> dg_n g \<le> length af"
    using assms by (auto simp: start_dgroup_def Let_def initialize_sst_row_def split: if_splits)
  then obtain cs created where "start_dgroup af ok g = Inr (register_group_predicates
       ((initialize_sst_row g)\<lparr>dg_calls := dg_calls g @ cs, rdmc_groups_created := created\<rparr>))"
    by (rule start_dgroup_runs)
  with assms show ?thesis
    by (auto simp: register_group_predicates_def initialize_sst_row_def Let_def pred_fields sync_fields put_fields)
qed

lemma constructor_dispatcher:
  "group_from_old ms me s old af u ok = Inr g' \<Longrightarrow> dispatchers g' = dispatchers old"
  "new_group ms me s bufs disp params files af ok = Inr g' \<Longrightarrow> dispatchers g' = disp"
  "group_from_old ms me s old af u ok = Inr g' \<Longrightarrow> fulfilledList g' = fulfilledList old"
  by (auto simp: group_from_old_def new_group_def Let_def moved_def dest!: take_stable_moved requeue_all_moved
      take_next_send_moved take_non_persistent_moved start_dgroup_keeps)

text \<open>The table a constructor is given, with its own columns of every member initialised.\<close>

lemma constructor_table:
  assumes "group_from_old ms me s old af u ok = Inr g'"
  shows "rows (dg_sst g') = map (initialize_row (length ms)) (take (length ms) (rows s)) @ drop (length ms) (rows s)"
    "local_index (dg_sst g') = local_index s"
proof -
  from assms obtain g where g: "start_dgroup af ok g = Inr g'" "dg_sst g = s" "dg_members g = ms"
    by (auto simp: group_from_old_def Let_def moved_def dest!: take_stable_moved requeue_all_moved
        take_next_send_moved take_non_persistent_moved)
  with start_dgroup_keeps[OF g(1)]
  show "rows (dg_sst g') = map (initialize_row (length ms)) (take (length ms) (rows s)) @ drop (length ms) (rows s)"
    "local_index (dg_sst g') = local_index s"
    by (simp_all add: initialize_sst_row_def Let_def put_fields sync_fields)
qed

end
