(* ===== verification/Node_Log.thy ===== *)
theory Node_Log
  imports Send_Log Group_Life
begin

text \<open>
  Every operation of a group keeps its node in step with the senders' logs: sending,
  the send loop (which extends the node's own log), the transfers RDMC completes, the
  triggers and the delivery of the next message.
\<close>

section \<open>Headers on the wire\<close>

lemma wire_header:
  assumes "9 \<le> unat (msize m)" "message_buffer m = Some b"
  shows "take 9 (snd (wire_of m)) = take 9 b"
  using assms by (simp add: wire_of_def)

lemma wire_ok_iff:
  assumes "9 \<le> unat (msize m)" "message_buffer m = Some b"
  shows "wire_ok (wire_of m) \<longleftrightarrow> h_header_size b = 9"
  using header_prefix_reads(3)[OF wire_header[OF assms]] assms by (simp add: wire_ok_def wire_of_def)

lemma max_msg_size_frame [group_simps]:
  "max_msg_size (upd_my_row f g) = max_msg_size g" "max_msg_size (sst_put g) = max_msg_size g"
  "max_msg_size (call c g) = max_msg_size g" "max_msg_size (update_seq_num g) = max_msg_size g"
  by (simp_all add: upd_my_row_def sst_put_def call_def update_seq_num_def Let_def)

lemma dg_calls_update [group_simps]: "dg_calls (update_seq_num g) = dg_calls g"
  by (simp add: update_seq_num_def Let_def group_simps)

lemma delivered_raw_call [group_simps]: "delivered_raw (call c g) = delivered_raw g @ raw_call c"
  by (simp add: delivered_raw_def group_simps)

section \<open>Sending\<close>

lemma get_position_node:
  assumes inv: "node_inv n S G g" and run: "get_position g sz pause cooked = Inr (g', p)"
    and free: "next_send g = None" and pause: "0 \<le> pause" "pause < 2 ^ 31" and size: "unat sz + 9 < 2 ^ 64"
  shows "node_inv n S G g'"
  using run
proof (cases rule: get_position_cases)
  case 1
  with inv show ?thesis by simp
next
  case (2 buf)
  let ?s = "if sz = 0 then max_msg_size g else sz + 9"
  let ?m = "\<lparr>sender_rank = int (member_index g), index = future_message_index g, msize = ?s,
     message_buffer = Some (fill_header buf pause cooked)\<rparr>"
  have own: "\<forall>m \<in> set (outgoing g). wire_ok (wire_of m)" "9 \<le> unat (max_msg_size g)"
    using node_invD(5)[OF inv] by (simp_all add: own_inv_def)
  have "unat (sz + 9) = unat sz + 9" using size by (simp add: unat_word_ariths)
  with own(2) have "9 \<le> unat (msize ?m)" by simp
  then have "wire_ok (wire_of ?m)" using wire_ok_iff[of ?m] pause by (simp add: fill_header_reads)
  moreover have "outgoing g' = outgoing g @ [?m]" using free by (simp add: 2(8) outgoing_def opt_list_def)
  ultimately have "\<forall>m \<in> set (outgoing g'). wire_ok (wire_of m)" using own(1) by simp
  then show ?thesis
    by (rule node_inv_frame[OF inv get_position_inv[OF node_invD(1)[OF inv] run free pause], rotated -1])
       (simp_all add: 2(8) delivered_raw_def)
qed

lemma fill_payload_node:
  assumes inv: "node_inv n S G g" and m: "next_send g = Some m" "message_buffer m = Some b"
    and same: "take 9 data = take 9 b"
  shows "node_inv n S G (fill_payload data g)"
proof -
  have own: "\<forall>m \<in> set (outgoing g). wire_ok (wire_of m)"
    using node_invD(5)[OF inv] by (simp add: own_inv_def)
  then have ok: "wire_ok (wire_of m)" using m(1) by (simp add: outgoing_def opt_list_def)
  then have "9 \<le> unat (msize m)" by (simp add: wire_ok_def wire_of_def)
  with ok have "wire_ok (wire_of (m\<lparr>message_buffer := Some data\<rparr>))"
    using wire_ok_iff[of m b] wire_ok_iff[of "m\<lparr>message_buffer := Some data\<rparr>" data] m(2)
      header_prefix_reads(3)[OF same] by simp
  with own have "\<forall>m \<in> set (outgoing (fill_payload data g)). wire_ok (wire_of m)"
    by (auto simp: fill_payload_def m(1) outgoing_def opt_list_def)
  then show ?thesis
    by (rule node_inv_frame[OF inv fill_payload_inv[OF node_invD(1)[OF inv] m same], rotated -1])
       (simp_all add: fill_payload_def m(1) delivered_raw_def)
qed

text \<open>The operations that touch neither the stores nor the messages to send.\<close>

lemma send_node:
  assumes inv: "node_inv n S G g" and run: "send g = Inr (g', ok)"
  shows "node_inv n S G g'"
proof -
  have "outgoing g' = outgoing g" "dg_members g' = dg_members g" "member_index g' = member_index g"
    "dg_sst g' = dg_sst g" "locally_stable_messages g' = locally_stable_messages g"
    "current_receives g' = current_receives g" "current_send g' = current_send g"
    "delivered_raw g' = delivered_raw g" "max_msg_size g' = max_msg_size g"
    using run by (auto simp: send_def call_def outgoing_def opt_list_def delivered_raw_def
        split: if_splits option.splits)
  then show ?thesis
    using node_invD(5)[OF inv]
    by (intro node_inv_frame[OF inv send_inv[OF node_invD(1)[OF inv] run]]) (simp_all add: own_inv_def)
qed

lemma stability_node:
  assumes inv: "node_inv n S G g"
  shows "node_inv n S G (stability_trig g)"
proof (rule node_inv_frame[OF inv stability_inv[OF node_invD(1)[OF inv]]])
  have "member_index g < num_rows (dg_sst g)"
    using group_invD(1)[OF node_invD(1)[OF inv]] by (auto simp: rows_inv_def)
  then show "my_counts (stability_trig g) = my_counts g"
    "delivered_num (my_row (stability_trig g)) = delivered_num (my_row g)"
    by (simp_all add: stability_trig_def Let_def group_simps)
  show "\<forall>m \<in> set (outgoing (stability_trig g)). wire_ok (wire_of m)"
    using node_invD(5)[OF inv] by (simp add: own_inv_def stability_trig_def Let_def group_simps)
qed (simp_all add: stability_trig_def Let_def group_simps delivered_raw_def)

lemma sender_trig_node: "node_inv n S G g \<Longrightarrow> node_inv n S G (sender_trig g)"
  by (rule node_inv_frame[OF _ sender_trig_inv])
     (simp_all add: node_inv_def own_inv_def sender_trig_def call_def outgoing_def delivered_raw_def)

lemma writer_node: "node_inv n S G g \<Longrightarrow> node_inv n S G (g\<lparr>dg_writer := Some fw\<rparr>)"
  by (rule node_inv_frame[OF _ writer_inv])
     (simp_all add: node_inv_def own_inv_def outgoing_def delivered_raw_def)

lemma group_wedge_frame [group_simps]:
  "rows (dg_sst (group_wedge g)) = rows (dg_sst g)" "local_index (dg_sst (group_wedge g)) = local_index (dg_sst g)"
  "calls (dg_sst (group_wedge g)) = calls (dg_sst g)" "dg_members (group_wedge g) = dg_members g"
  "member_index (group_wedge g) = member_index g" "locally_stable_messages (group_wedge g) = locally_stable_messages g"
  "current_receives (group_wedge g) = current_receives g" "current_send (group_wedge g) = current_send g"
  "outgoing (group_wedge g) = outgoing g" "future_message_index (group_wedge g) = future_message_index g"
  "max_msg_size (group_wedge g) = max_msg_size g" "delivered_raw (group_wedge g) = delivered_raw g"
  "callback_seqs (group_wedge g) = callback_seqs g"
  by (simp_all add: group_wedge_def pred_fields outgoing_def delivered_raw_def callback_seqs_def o_def)

lemma wedge_inv: "group_inv g \<Longrightarrow> group_inv (group_wedge g)"
  by (rule same_core_inv[of g]) (simp_all add: same_core_def group_simps)

lemma wedge_node: "node_inv n S G g \<Longrightarrow> node_inv n S G (group_wedge g)"
  by (rule node_inv_frame[OF _ wedge_inv]) (simp_all add: node_inv_def own_inv_def group_simps)

lemma rows_arrive_node:
  "node_inv n S G g \<Longrightarrow> length rs = num_rows (dg_sst g) \<Longrightarrow> rs ! member_index g = my_row g \<Longrightarrow>
   node_inv n S G (rows_arrive rs g)"
  by (rule node_inv_frame[OF _ rows_arrive_inv])
     (simp_all add: node_inv_def own_inv_def outgoing_def delivered_raw_def rows_arrive_def)

lemma file_written_node:
  assumes inv: "node_inv n S G g" and run: "file_written_callback given m g = Inr g'"
  shows "node_inv n S G g'"
proof -
  from run obtain s p r l f where g': "g' = sst_put (upd_my_row (\<lambda>row. row\<lparr>persisted_num := s\<rparr>)
      ((call (Persistence_callback (int r) (m_index m) p l) g)
         \<lparr>free_message_buffers := f, non_persistent_messages := sm_erase s (non_persistent_messages g)\<rparr>))"
    by (auto simp: file_written_callback_def Let_def group_simps split: option.splits if_splits)
  have row: "my_counts g' = my_counts g" "delivered_num (my_row g') = delivered_num (my_row g)"
    using group_invD(1)[OF node_invD(1)[OF inv]]
    by (auto simp: g' upd_my_row_def sst_put_def put_fields set_row_def call_def rows_inv_def)
  have out: "outgoing g' = outgoing g" by (simp add: g' group_simps) (simp add: outgoing_def group_simps)
  show ?thesis
    by (rule node_inv_frame[OF inv file_written_inv[OF node_invD(1)[OF inv] run]])
       (use row out node_invD(5)[OF inv] in \<open>simp_all add: own_inv_def\<close>,
        simp_all add: g' group_simps delivered_raw_def)
qed

text \<open>The send loop hands the head of the queue to RDMC: the node's own log grows by it.\<close>

lemma send_loop_node:
  assumes inv: "node_inv n S G g" and send: "should_send g" "\<not> thread_shutdown g"
    and run: "send_loop_turn True g = Inr g'" and m: "pending_sends g = m # ms"
  shows "node_inv n (S(member_index g := S (member_index g) @ [wire_of m])) G g'"
proof -
  let ?p = "member_index g" let ?S = "S(?p := S ?p @ [wire_of m])"
  have g': "g' = (call (Rdmc_send (?p + unat (rdmc_group_num_offset g)) m) (g\<lparr>current_send := Some m\<rparr>))\<lparr>pending_sends := ms\<rparr>"
    using run m send(2) by (simp add: send_loop_turn_def Let_def)
  have none: "current_send g = None" by (rule single_in_flight[OF node_invD(1)[OF inv] send(1)])
  have own: "own_inv S G g" by (rule node_invD(5)[OF inv])
  have "?p < n" using group_invD(1)[OF node_invD(1)[OF inv]] node_invD(2)[OF inv] by (simp add: rows_inv_def)
  then have "G ?p = length (S ?p)"
    using own none node_invD(3)[OF inv]
    by (auto simp: own_inv_def opt_list_def counts_inv_def intro: le_antisym)
  then have "own_inv ?S G g'"
    using own m none by (simp add: own_inv_def g' outgoing_def opt_list_def call_def)
  then show ?thesis
    by (intro node_inv_grow[OF inv _ send_loop_inv[OF node_invD(1)[OF inv] send(1) run]])
       (simp_all add: g' call_def delivered_raw_def)
qed

section \<open>Receiving\<close>

lemma receive_destination_node:
  assumes inv: "node_inv n S G g" and q: "q < n" "G q < length (S q)"
    and run: "receive_destination q (fst (S q ! G q)) g = Inr g'"
  shows "node_inv n S G g'"
proof -
  let ?s = "seq_of (dg_n g) (int q) (my_counts g ! q + 1)"
  let ?m = "\<lparr>sender_rank = int q, index = my_counts g ! q + 1, msize = fst (S q ! G q),
                   message_buffer = Some (last (free_message_buffers g))\<rparr>"
  have n: "dg_n g = n" by (rule node_invD(2)[OF inv])
  from run have g': "g' = g\<lparr>free_message_buffers := butlast (free_message_buffers g),
                  current_receives := sm_assign ?s ?m (current_receives g)\<rparr>"
    by (auto simp: receive_destination_def Let_def split: if_splits)
  have "q \<noteq> member_index g" using run by (auto simp: receive_destination_def)
  moreover have "sm_wf (current_receives g)" using group_invD(3)[OF node_invD(1)[OF inv]] by (simp add: store_inv_def)
  ultimately have "transfer_inv n S G g'"
    using node_invD(4)[OF inv] q by (auto simp: transfer_inv_def g' sm_find_assign n)
  moreover have "group_inv g'" by (rule receive_destination_inv[OF node_invD(1)[OF inv] _ run]) (simp add: n q)
  ultimately show ?thesis
    using inv by (simp add: node_inv_def g' counts_inv_def own_inv_def stable_inv_def delivered_inv_def
        delivered_raw_def outgoing_def)
qed

lemma skipped_find:
  "sm_wf m \<Longrightarrow> sm_find (skipped q n k i m) j = Some x \<Longrightarrow> sm_find m j = Some x \<or>
     (\<exists>t. 0 < t \<and> t \<le> int k \<and> j = seq_of n (int q) (i + t) \<and> wire_of x = (0, []))"
proof (induction q n k i m rule: skipped.induct)
  case (2 q n k i m)
  let ?x = "\<lparr>sender_rank = int q, index = i + 1, msize = 0, message_buffer = None\<rparr>"
  from "2.IH" "2.prems" consider "sm_find (sm_assign (seq_of n (int q) (i + 1)) ?x m) j = Some x"
    | t where "0 < t" "t \<le> int k" "j = seq_of n (int q) (i + 1 + t)" "wire_of x = (0, [])"
    by (auto simp: sm_wf_assign)
  then show ?case
  proof cases
    case 1
    show ?thesis
    proof (cases "j = seq_of n (int q) (i + 1)")
      case True
      with 1 "2.prems"(1) have "wire_of x = (0, [])" by (auto simp: sm_find_assign wire_of_def)
      with True show ?thesis by (intro disjI2 exI[of _ 1]) simp
    next
      case False
      with 1 "2.prems"(1) show ?thesis by (simp add: sm_find_assign)
    qed
  next
    case (2 t)
    then show ?thesis by (intro disjI2 exI[of _ "t + 1"]) (simp add: add_ac)
  qed
qed simp

lemma slot_at_seq_of: "q < n \<Longrightarrow> slot_at n S (seq_of n (int q) i) = slot (S q) i"
  by (simp add: slot_at_def seq_of_div seq_of_mod)

lemma taken_node:
  fixes g g2 :: "'o dgroup"
  assumes inv: "node_inv n S G g" and q: "q < n" "G q < length (S q)" and ginv: "group_inv g'"
    and same: "dg_sst g2 = dg_sst g" "member_index g2 = member_index g" "dg_members g2 = dg_members g"
      "dg_calls g2 = dg_calls g" "max_msg_size g2 = max_msg_size g"
    and k: "pauses (S q ! G q) = int k" and i: "i = my_counts g ! q + 1"
    and wf: "sm_wf (locally_stable_messages g2)"
    and stable: "\<And>j m. sm_find (locally_stable_messages g2) j = Some m \<Longrightarrow>
        sm_find (locally_stable_messages g) j = Some m \<or> j = seq_of n (int q) i \<and> wire_of m = S q ! G q"
    and recv: "\<And>j m. sm_find (current_receives g2) j = Some m \<Longrightarrow>
        sm_find (current_receives g) j = Some m \<and> j \<noteq> seq_of n (int q) i"
    and own: "own_inv S (G(q := Suc (G q))) g2"
    and g': "g' = update_seq_num ((upd_my_row (add_received q (int k + 1)) g2)
       \<lparr>locally_stable_messages := skipped q (dg_n g) k i (locally_stable_messages g2)\<rparr>)"
  shows "node_inv n S (G(q := Suc (G q))) g'"
proof -
  let ?G = "G(q := Suc (G q))"
  have n: "dg_n g = n" by (rule node_invD(2)[OF inv])
  have rows: "member_index g < num_rows (dg_sst g)" "q < length (my_counts g)"
    using group_invD(1)[OF node_invD(1)[OF inv]] q n by (auto simp: rows_inv_def counts_ok_def)
  have fields: "member_index g' = member_index g" "dg_n g' = n"
    "current_receives g' = current_receives g2" "delivered_raw g' = delivered_raw g"
    "locally_stable_messages g' = skipped q n k i (locally_stable_messages g2)"
    by (simp_all add: g' group_simps same n delivered_raw_def)
  have row: "rows (dg_sst g') ! member_index g' = (my_row g)\<lparr>nReceived := (my_counts g)[q := my_counts g ! q + (int k + 1)],
      seq_num := max (seq_num (my_row g)) (contiguous_seq (dg_n g) ((my_counts g)[q := my_counts g ! q + (int k + 1)]))\<rparr>"
    using received_row[where g = g2 and q = q and d = "int k + 1"] rows by (simp add: g' same group_simps)
  have start: "i = turns (take (G q) (S q))" using node_invD(3)[OF inv] q by (simp add: counts_inv_def i)
  have "counts_inv n S ?G g'"
    using node_invD(3)[OF inv] q rows(2) k turns_take_Suc[OF q(2)] by (auto simp: counts_inv_def row nth_list_update)
  moreover have "transfer_inv n S ?G g'"
    unfolding transfer_inv_def fields(1,3) row[unfolded fields(1)]
  proof (intro allI impI)
    fix j m assume "sm_find (current_receives g2) j = Some m"
    with recv have j: "sm_find (current_receives g) j = Some m" "j \<noteq> seq_of n (int q) i" by auto
    from node_invD(4)[OF inv] j(1) obtain q' where q': "q' < n" "q' \<noteq> member_index g" "j = seq_of n (int q') (my_counts g ! q' + 1)"
      "G q' < length (S q')" "msize m = fst (S q' ! G q')" by (auto simp: transfer_inv_def)
    with j(2) have "q' \<noteq> q" by (auto simp: i)
    with q' show "\<exists>q'<n. q' \<noteq> member_index g \<and> j = seq_of n (int q') (nReceived (my_row g\<lparr>nReceived := (my_counts g)[q := my_counts g ! q + (int k + 1)],
        seq_num := max (seq_num (my_row g)) (contiguous_seq (dg_n g) ((my_counts g)[q := my_counts g ! q + (int k + 1)]))\<rparr>) ! q' + 1) \<and>
        ?G q' < length (S q') \<and> msize m = fst (S q' ! ?G q')"
      by (intro exI[of _ q']) simp
  qed
  moreover have "stable_inv n S g'"
    unfolding stable_inv_def fields(5)
  proof (intro allI impI)
    fix j m assume "sm_find (skipped q n k i (locally_stable_messages g2)) j = Some m"
    from skipped_find[OF wf this] consider "sm_find (locally_stable_messages g2) j = Some m"
      | t where "0 < t" "t \<le> int k" "j = seq_of n (int q) (i + t)" "wire_of m = (0, [])" by auto
    then show "slot_at n S j = Some (wire_of m)"
    proof cases
      case 1
      with stable[OF 1] node_invD(6)[OF inv] q slot_nth(1)[OF q(2)] show ?thesis
        by (auto simp: stable_inv_def slot_at_seq_of start)
    next
      case (2 t)
      then show ?thesis using q slot_nth(2)[OF q(2), of t] k by (simp add: slot_at_seq_of start)
    qed
  qed
  moreover have "own_inv S ?G g'"
    using own by (simp add: own_inv_def g' group_simps outgoing_stable_only)
  moreover have "delivered_inv n S g'"
    using node_invD(7)[OF inv] unfolding delivered_inv_def fields(4) row by simp
  ultimately show ?thesis using ginv fields(2) by (intro node_invI)
qed

lemma own_receive_node:
  assumes inv: "node_inv n S G g" and cur: "current_send g = Some m" "message_buffer m = Some b"
    and run: "receive_handler_plus_notify (member_index g) b g = Inr g'"
  defines "p \<equiv> member_index g"
  shows "node_inv n S (G(p := Suc (G p))) g' \<and> G p < length (S p)"
proof -
  from run obtain g1 where run1: "rdmc_receive_handler p b g = Inr g1" and g': "g' = call Notify_sender g1"
    by (auto simp: receive_handler_plus_notify_def p_def)
  note ginv = node_invD(1)[OF inv]
  have n: "dg_n g = n" by (rule node_invD(2)[OF inv])
  have p: "p < n" using group_invD(1)[OF ginv] n by (simp add: rows_inv_def p_def)
  have own: "drop (G p) (S p) = [wire_of m]" "\<forall>m \<in> set (outgoing g). wire_ok (wire_of m)" "9 \<le> unat (max_msg_size g)"
    using node_invD(5)[OF inv] cur(1) by (simp_all add: own_inv_def p_def opt_list_def)
  then have len: "G p < length (S p)" by (metis drop_all list.distinct(1) not_le)
  then have w: "S p ! G p = wire_of m" "drop (Suc (G p)) (S p) = []"
    using own(1) Cons_nth_drop_Suc[OF len] by auto
  have "wire_ok (wire_of m)" using own(2) cur(1) by (simp add: outgoing_def opt_list_def)
  then have "9 \<le> unat (msize m)" by (simp add: wire_ok_def wire_of_def)
  then have k: "pauses (S p ! G p) = int (unat (h_pause_sending_turns b))"
    using header_prefix_reads(1)[OF wire_header[OF _ cur(2)]] by (simp add: w(1) pauses_def)
  have wf: "sm_wf (locally_stable_messages g)" using group_invD(3)[OF ginv] by (simp add: store_inv_def)
  from rdmc_receive_handler_cases[OF ginv _ run1] p n obtain g2 where
    g2: "g2 = g\<lparr>locally_stable_messages := sm_assign (seq_of (dg_n g) (int p) (my_counts g ! p + 1)) m
          (locally_stable_messages g), current_send := None\<rparr>"
    and g1: "g1 = update_seq_num ((upd_my_row (add_received p (int (unat (h_pause_sending_turns b)) + 1)) g2)
       \<lparr>locally_stable_messages := skipped p (dg_n g) (unat (h_pause_sending_turns b)) (my_counts g ! p + 1)
          (locally_stable_messages g2)\<rparr>)"
    using cur(1) by (auto simp: p_def)
  have "node_inv n S (G(p := Suc (G p))) g1"
  proof (rule taken_node[OF inv p len _ _ _ _ _ _ k refl _ _ _ _ g1])
    show "group_inv g1" using own_receive_inv[OF ginv cur] run1 by (simp add: p_def)
    show "own_inv S (G(p := Suc (G p))) g2"
      using own w(2) by (auto simp: own_inv_def g2 outgoing_def opt_list_def p_def)
    show "sm_find (current_receives g) j = Some m' \<and> j \<noteq> seq_of n (int p) (my_counts g ! p + 1)"
      if "sm_find (current_receives g2) j = Some m'" for j m'
      using node_invD(4)[OF inv] that p by (fastforce simp: transfer_inv_def g2 p_def seq_of_inject)
  qed (use wf n in \<open>auto simp: g2 sm_find_assign sm_wf_assign w(1) split: if_splits\<close>)
  then have "node_inv n S (G(p := Suc (G p))) g'"
    using rdmc_own_inv[OF ginv cur run]
    by (rule node_inv_frame) (use \<open>node_inv n S (G(p := Suc (G p))) g1\<close> in
      \<open>simp_all add: g' group_simps node_inv_def own_inv_def\<close>)
  with len show ?thesis by simp
qed

text \<open>RDMC completes the transfer of another sender's message.\<close>

lemma rdmc_deliver_node:
  assumes inv: "node_inv n S G g"
  shows "node_inv n S G (rdmc_deliver q data g)"
proof (cases "sm_find (current_receives g) (seq_of (dg_n g) (int q) (my_counts g ! q + 1))")
  case None
  with inv show ?thesis by (simp add: rdmc_deliver_def Let_def)
next
  case (Some m)
  then have g1: "rdmc_deliver q data g = g\<lparr>current_receives := sm_assign
      (seq_of (dg_n g) (int q) (my_counts g ! q + 1)) (m\<lparr>message_buffer := Some data\<rparr>) (current_receives g)\<rparr>"
    by (simp add: rdmc_deliver_def Let_def)
  have "sm_wf (current_receives g)" using group_invD(3)[OF node_invD(1)[OF inv]] by (simp add: store_inv_def)
  then have "transfer_inv n S G (rdmc_deliver q data g)"
    using node_invD(4)[OF inv] Some unfolding g1 by (force simp: transfer_inv_def sm_find_assign)
  moreover have "group_inv (rdmc_deliver q data g)" by (rule rdmc_deliver_inv[OF node_invD(1)[OF inv]])
  ultimately show ?thesis
    using inv by (simp add: node_inv_def g1 counts_inv_def own_inv_def stable_inv_def delivered_inv_def
        delivered_raw_def outgoing_def)
qed

lemma rdmc_deliver_buffer:
  assumes wf: "sm_wf (current_receives g)"
    and m: "sm_find (current_receives (rdmc_deliver q data g))
      (seq_of (dg_n (rdmc_deliver q data g)) (int q) (my_counts (rdmc_deliver q data g) ! q + 1)) = Some m"
  shows "message_buffer m = Some data"
proof (cases "sm_find (current_receives g) (seq_of (dg_n g) (int q) (my_counts g ! q + 1))")
  case None
  with m show ?thesis by (simp add: rdmc_deliver_def Let_def)
next
  case (Some m0)
  with m wf show ?thesis by (simp add: rdmc_deliver_def Let_def sm_find_assign) auto
qed

lemma other_receive_node:
  assumes inv: "node_inv n S G g" and q: "q < n" "q \<noteq> member_index g" "G q < length (S q)"
    and data: "take (unat (fst (S q ! G q))) data = snd (S q ! G q)" and ok: "wire_ok (S q ! G q)"
    and run: "rdmc_receive_handler q data (rdmc_deliver q data g) = Inr g'"
  shows "node_inv n S (G(q := Suc (G q))) g'"
proof -
  let ?g = "rdmc_deliver q data g"
  let ?s = "seq_of (dg_n ?g) (int q) (my_counts ?g ! q + 1)" and ?k = "unat (h_pause_sending_turns data)"
  have inv1: "node_inv n S G ?g" by (rule rdmc_deliver_node[OF inv])
  note ginv = node_invD(1)[OF inv1]
  have n: "dg_n ?g = n" by (rule node_invD(2)[OF inv1])
  have "9 \<le> unat (fst (S q ! G q))" using ok by (simp add: wire_ok_def)
  then have "take 9 data = take 9 (snd (S q ! G q))" by (subst data[symmetric]) (simp add: min_absorb1)
  from header_prefix_reads(1)[OF this] have k: "pauses (S q ! G q) = int ?k" by (simp add: pauses_def)
  have "\<exists>m g2. sm_find (current_receives ?g) ?s = Some m \<and>
     g2 = ?g\<lparr>locally_stable_messages := sm_emplace ?s m (locally_stable_messages ?g),
         current_receives := sm_erase ?s (current_receives ?g)\<rparr> \<and>
     g' = update_seq_num ((upd_my_row (add_received q (int ?k + 1)) g2)
       \<lparr>locally_stable_messages := skipped q (dg_n ?g) ?k (my_counts ?g ! q + 1) (locally_stable_messages g2)\<rparr>)"
    by (rule rdmc_receive_handler_cases[OF ginv _ run]) (use q n in simp_all)
  then obtain m g2 where m: "sm_find (current_receives ?g) ?s = Some m"
    and g2: "g2 = ?g\<lparr>locally_stable_messages := sm_emplace ?s m (locally_stable_messages ?g),
         current_receives := sm_erase ?s (current_receives ?g)\<rparr>"
    and g': "g' = update_seq_num ((upd_my_row (add_received q (int ?k + 1)) g2)
       \<lparr>locally_stable_messages := skipped q (dg_n ?g) ?k (my_counts ?g ! q + 1) (locally_stable_messages g2)\<rparr>)"
    by (elim exE conjE)
  have wf: "sm_wf (locally_stable_messages ?g)" "sm_wf (current_receives ?g)"
    using group_invD(3)[OF ginv] by (simp_all add: store_inv_def)
  have "message_buffer m = Some data"
    by (rule rdmc_deliver_buffer[OF _ m]) (use node_invD(1)[OF inv] in \<open>simp add: group_inv_def store_inv_def\<close>)
  moreover have "msize m = fst (S q ! G q)"
    using node_invD(4)[OF inv1] m q(1) n by (fastforce simp: transfer_inv_def seq_of_inject)
  ultimately have w: "wire_of m = S q ! G q" using data by (simp add: wire_of_def prod_eq_iff)
  show ?thesis
  proof (rule taken_node[OF inv1 q(1,3) _ _ _ _ _ _ k refl _ _ _ _ g'])
    show "group_inv g'" by (rule other_receive_inv[OF ginv _ _ run]) (use q n in simp_all)
    show "own_inv S (G(q := Suc (G q))) g2"
      using node_invD(5)[OF inv1] q(2) by (simp add: own_inv_def g2 outgoing_stable_only)
    show "sm_find (locally_stable_messages ?g) j = Some x \<or> j = seq_of n (int q) (my_counts ?g ! q + 1) \<and> wire_of x = S q ! G q"
      if "sm_find (locally_stable_messages g2) j = Some x" for j x
      using that wf(1) w n by (auto simp: g2 sm_find_emplace split: option.splits if_splits)
    show "sm_find (current_receives ?g) j = Some x \<and> j \<noteq> seq_of n (int q) (my_counts ?g ! q + 1)"
      if "sm_find (current_receives g2) j = Some x" for j x
      using that wf(2) n by (auto simp: g2 sm_find_erase split: if_splits)
  qed (use wf in \<open>simp_all add: g2 sm_wf_emplace\<close>)
qed

section \<open>Delivering\<close>

lemma deliver_cooked_raw:
  assumes "deliver_cooked msg b g = Inr (g', off)"
  shows "delivered_raw g' = delivered_raw g \<and> max_msg_size g' = max_msg_size g"
proof -
  let ?n = "unat (dec64 (drop (unat (h_header_size b)) b))"
  let ?in = "dg_members g ! member_index g \<in> set (dec32_list ?n (drop (unat (h_header_size b) + 8) b))"
  show ?thesis
  proof (cases "?in \<or> ?n = 0")
    case False
    with assms show ?thesis by (auto simp: deliver_cooked_def Let_def split: if_splits)
  next
    case True
    with assms show ?thesis
      by (cases "toFulfillQueue g") (auto simp: deliver_cooked_def Let_def delivered_raw_def call_def split: if_split_asm)
  qed
qed

lemma deliver_message_raw:
  assumes run: "deliver_message msg g = Inr g'" and ok: "wire_of msg = w" "fst w = 0 \<or> wire_ok w"
    and placed: "placed (dg_n g) (k, msg)"
  shows "delivered_raw g' = delivered_raw g @
      (if 0 < fst w \<and> \<not> h_cooked_send (snd w) then [(k mod int (dg_n g), k div int (dg_n g), drop 9 (snd w))] else []) \<and>
    max_msg_size g' = max_msg_size g"
proof (cases "fst w = 0")
  case True
  then have "msize msg = 0" using ok(1) by (auto simp: wire_of_def)
  with run True show ?thesis by (simp add: deliver_message_def)
next
  case False
  with ok have size: "9 \<le> unat (msize msg)" "0 < msize msg" "fst w = msize msg"
    by (auto simp: wire_ok_def wire_of_def word_gt_0)
  then obtain b where b: "message_buffer msg = Some b" using placed by (auto simp: placed_def)
  note same = header_prefix_reads[OF wire_header[OF size(1) b], unfolded ok(1)]
  have h: "h_header_size b = 9" using ok(2) False same(3) by (simp add: wire_ok_def)
  have release: "dg_calls (release_message msg b off g1) = dg_calls g1"
    "max_msg_size (release_message msg b off g1) = max_msg_size g1" for off and g1 :: "'a dgroup"
    by (simp_all add: release_message_def Let_def split: option.splits)
  show ?thesis
  proof (cases "h_cooked_send b")
    case True
    with run b size(2) obtain g1 off where "deliver_cooked msg b g = Inr (g1, off)" "g' = release_message msg b off g1"
      by (auto simp: deliver_message_def)
    with deliver_cooked_raw[of msg b g g1 off] True same(2) show ?thesis
      by (simp add: release delivered_raw_def)
  next
    case False
    with run b size(2) have g': "g' = release_message msg b 0
        (call (Stability_callback (sender_rank msg) (index msg) (drop (unat (h_header_size b)) b) (msize msg)) g)"
      by (simp add: deliver_message_def)
    have "sender_rank msg = k mod int (dg_n g)" "index msg = k div int (dg_n g)"
      using placed by (auto simp: placed_def seq_of_div seq_of_mod)
    moreover have "take (unat (msize msg) - 9) (drop 9 b) = drop 9 (snd w)"
      using b by (simp add: wire_of_def drop_take flip: ok(1))
    ultimately show ?thesis
      using False same(2) size(2,3) by (simp add: g' release delivered_raw_def call_def h)
  qed
qed

lemma delivery_node:
  assumes inv: "node_inv n S G g" and logs: "logs_ok S" and run: "delivery_trig g = Inr g'"
  shows "node_inv n S G g'"
  using node_invD(1)[OF inv] run
proof (cases rule: delivery_cases)
  case 1
  with inv show ?thesis by simp
next
  case (2 msg g1)
  note ginv = node_invD(1)[OF inv]
  let ?d = "delivered_num (my_row g) + 1"
  have n: "dg_n g = n" by (rule node_invD(2)[OF inv])
  have wf: "sm_wf (locally_stable_messages g)" using group_invD(3)[OF ginv] by (simp add: store_inv_def)
  have found: "sm_find (locally_stable_messages g) ?d = Some msg" by (rule std_map.least_lookup[OF wf 2(1)])
  then have slot: "slot_at n S ?d = Some (wire_of msg)" using node_invD(6)[OF inv] by (simp add: stable_inv_def)
  then have ok: "fst (wire_of msg) = 0 \<or> wire_ok (wire_of msg)"
    using slot_in logs by (fastforce simp: slot_at_def logs_ok_def)
  have "placed (dg_n g) (?d, msg)"
    using group_invD(3)[OF ginv] sm_find_in_set[OF found] by (auto simp: store_inv_def)
  from deliver_message_raw[OF 2(3) refl ok this] slot
  have raw: "delivered_raw g1 = delivered_raw g @ raw_at n S ?d" "max_msg_size g1 = max_msg_size g"
    by (simp_all add: raw_at_def n)
  have row: "rows (dg_sst g') ! member_index g' = (my_row g)\<lparr>delivered_num := ?d\<rparr>"
    using group_invD(1)[OF ginv] 2(4)
    by (auto simp: 2(6) delivery_frame_def rows_inv_def upd_my_row_def sst_put_def put_fields set_row_def)
  have frame: "delivery_frame g g1" by (rule 2(4))
  have fields: "dg_members g' = dg_members g" "member_index g' = member_index g"
    "current_receives g' = current_receives g" "current_send g' = current_send g" "outgoing g' = outgoing g"
    "max_msg_size g' = max_msg_size g" "delivered_raw g' = delivered_raw g @ raw_at n S ?d"
    "locally_stable_messages g' = sm_erase ?d (locally_stable_messages g)"
    using frame delivery_frame_outgoing[OF frame] raw
    by (simp_all add: 2(6) group_simps delivery_frame_def outgoing_stable_only delivered_raw_def)
  have "-1 \<le> delivered_num (my_row g)" using group_invD(2)[OF ginv] by (simp add: order_inv_def)
  then have "delivered_inv n S g'"
    using node_invD(7)[OF inv] unfolding delivered_inv_def row fields(7) by (simp add: raw_upto_Suc)
  moreover have "counts_inv n S G g'" using node_invD(3)[OF inv] unfolding counts_inv_def row by simp
  moreover have "transfer_inv n S G g'"
    using node_invD(4)[OF inv] unfolding transfer_inv_def row[unfolded fields(2)] fields(2,3) by simp
  moreover have "own_inv S G g'" using node_invD(5)[OF inv] by (simp add: own_inv_def fields)
  moreover have "stable_inv n S g'"
    using node_invD(6)[OF inv] by (simp add: stable_inv_def fields sm_find_erase wf)
  ultimately show ?thesis using delivery_inv[OF ginv run] by (intro node_invI) (simp_all add: fields n)
qed

end
