(* ===== verification/Cluster.thy ===== *)
theory Cluster
  imports Node_Log
begin

text \<open>
  All members of one view at once: each node runs its own \<^verbatim>\<open>DerechoGroup\<close>; RDMC carries
  the messages of each sender in order, and the shared state table carries rows. Nothing is
  assumed about the timing of either: a transfer starts and completes at each receiver at
  any time, and the copy a node has of another node's row may be any mixture of values its
  owner has published, in any order.
\<close>

section \<open>The nodes and the network\<close>

text \<open>
  \<open>sent q\<close> is what sender \<open>q\<close> has handed to RDMC, \<open>got p q\<close> how many of these messages
  have been delivered to node \<open>p\<close>.
\<close>

record 'o cluster =
  node :: "nat \<Rightarrow> 'o dgroup"
  sent :: "nat \<Rightarrow> wire list"
  got :: "nat \<Rightarrow> nat \<Rightarrow> nat"

definition set_node :: "nat \<Rightarrow> 'o dgroup \<Rightarrow> 'o cluster \<Rightarrow> 'o cluster" where
  "set_node p g C = C\<lparr>node := (node C)(p := g)\<rparr>"

definition log_sent :: "nat \<Rightarrow> wire \<Rightarrow> 'o cluster \<Rightarrow> 'o cluster" where
  "log_sent p w C = C\<lparr>sent := (sent C)(p := sent C p @ [w])\<rparr>"

definition count_got :: "nat \<Rightarrow> nat \<Rightarrow> 'o cluster \<Rightarrow> 'o cluster" where
  "count_got p q C = C\<lparr>got := (got C)(p := (got C p)(q := Suc (got C p q)))\<rparr>"

lemma cluster_simps [simp]:
  "node (set_node p g C) = (node C)(p := g)" "sent (set_node p g C) = sent C" "got (set_node p g C) = got C"
  "node (log_sent p w C) = node C" "sent (log_sent p w C) = (sent C)(p := sent C p @ [w])"
  "got (log_sent p w C) = got C" "node (count_got p q C) = node C" "sent (count_got p q C) = sent C"
  "got (count_got p q C) = (got C)(p := (got C p)(q := Suc (got C p q)))"
  by (simp_all add: set_node_def log_sent_def count_got_def)

text \<open>The rows a node has published, and the rows another node may see for them.\<close>

fun published_row :: "sst_call \<Rightarrow> derecho_row list" where
  "published_row (Put r) = [r]"
| "published_row c = []"

definition published :: "'o dgroup \<Rightarrow> derecho_row list" where
  "published g = concat (map published_row (calls (dg_sst g)))"

definition visible :: "'o dgroup \<Rightarrow> derecho_row \<Rightarrow> bool" where
  "visible g row \<longleftrightarrow> seq_num row \<in> set (map seq_num (published g)) \<and>
     stable_num row \<in> set (map stable_num (published g)) \<and>
     delivered_num row \<in> set (map delivered_num (published g)) \<and>
     persisted_num row \<in> set (map persisted_num (published g))"

text \<open>
  A node at the start of a view: its group is new, and it may hold messages to send that
  the group of the view before handed over.
\<close>

definition started :: "'o dgroup \<Rightarrow> bool" where
  "started g \<longleftrightarrow>
     fresh_group (g\<lparr>next_send := None, pending_sends := [], current_send := None, future_message_index := 0\<rparr>) \<and>
     chained (member_index g) 0 (outgoing g) (future_message_index g) \<and> current_send g = None \<and>
     list_all (\<lambda>m. wire_ok (wire_of m)) (outgoing g) \<and> 9 \<le> unat (max_msg_size g) \<and> delivered_raw g = []"

definition cluster_init :: "nat \<Rightarrow> 'o cluster \<Rightarrow> bool" where
  "cluster_init n C \<longleftrightarrow> (\<forall>q. sent C q = [] \<and> (\<forall>p. got C p q = 0)) \<and>
     (\<forall>p < n. started (node C p) \<and> dg_n (node C p) = n \<and> member_index (node C p) = p \<and>
        list_all (\<lambda>r. seq_num r = -1 \<and> stable_num r = -1 \<and> delivered_num r = -1)
          (take n (rows (dg_sst (node C p))) @ published (node C p)))"

text \<open>
  The application asks for sizes that fit a 64-bit word together with the header; the
  bytes RDMC writes fill the start of the receiver's buffer.
\<close>

text \<open>
  What remote calls change besides the multicast: the pending results, the queue and the
  list that refer to them, and what is written to the other nodes' sockets. The functions a
  dispatcher has registered stay, and only delivered calls change its objects.
\<close>

definition program :: "'o dispatcher \<Rightarrow> (u64 \<times> u64 \<times> bool \<times> ('o \<Rightarrow> bytes \<Rightarrow> 'o \<times> bytes option)) list" where
  "program d = map (\<lambda>h. (invoke_id h, reply_id h, is_void h, fn h)) (invs d)"

definition calls_made ::
  "'o dispatcher \<Rightarrow> pref list \<Rightarrow> pref list \<Rightarrow> (node_id \<times> bytes) list \<Rightarrow> 'o dgroup \<Rightarrow> 'o dgroup" where
  "calls_made d queue results writes g = g\<lparr>dispatchers := d, toFulfillQueue := queue, fulfilledList := results,
     dg_calls := dg_calls g @ map (\<lambda>(dest, msg). Tcp_write dest msg) writes\<rparr>"

lemma program_update:
  assumes "invoke_id h = invoke_id (invs d ! k)" "reply_id h = reply_id (invs d ! k)"
    "is_void h = is_void (invs d ! k)" "fn h = fn (invs d ! k)"
  shows "program (d\<lparr>invs := (invs d)[k := h]\<rparr>) = program d"
  using assms
  by (cases "k < length (invs d)") (auto simp: program_def list_eq_iff_nth_eq nth_list_update list_update_beyond)

lemma fulfill_map_keeps:
  assumes "pending_fulfill_map nodes p d = Inr d'"
  shows "program d' = program d" "objects d' = objects d"
proof -
  from assms obtain pr pr' where "d' = d\<lparr>invs := (invs d)[fst p := (invs d ! fst p)\<lparr>ret := sm_assign (snd p) pr' (ret (invs d ! fst p))\<rparr>]\<rparr>"
    by (auto simp: pending_fulfill_map_def update_pending_def pending_at_def Let_def split: option.splits if_splits)
  then show "program d' = program d" "objects d' = objects d" by (simp_all add: program_update)
qed

inductive c_step :: "nat \<Rightarrow> 'o cluster \<Rightarrow> 'o cluster \<Rightarrow> bool" for n where
  c_get: "p < n \<Longrightarrow> next_send (node C p) = None \<Longrightarrow> 0 \<le> pause \<Longrightarrow> pause < 2 ^ 31 \<Longrightarrow> unat sz + 9 < 2 ^ 64 \<Longrightarrow>
    get_position (node C p) sz pause cooked = Inr (g', pos) \<Longrightarrow> c_step n C (set_node p g' C)"
| c_fill: "p < n \<Longrightarrow> next_send (node C p) = Some m \<Longrightarrow> message_buffer m = Some b \<Longrightarrow> take 9 data = take 9 b \<Longrightarrow>
    c_step n C (set_node p (fill_payload data (node C p)) C)"
| c_send: "p < n \<Longrightarrow> send (node C p) = Inr (g', ok) \<Longrightarrow> c_step n C (set_node p g' C)"
| c_loop: "p < n \<Longrightarrow> should_send (node C p) \<Longrightarrow> \<not> thread_shutdown (node C p) \<Longrightarrow> pending_sends (node C p) = m # ms \<Longrightarrow>
    send_loop_turn True (node C p) = Inr g' \<Longrightarrow> c_step n C (log_sent p (wire_of m) (set_node p g' C))"
| c_start: "p < n \<Longrightarrow> q < n \<Longrightarrow> got C p q < length (sent C q) \<Longrightarrow>
    receive_destination q (fst (sent C q ! got C p q)) (node C p) = Inr g' \<Longrightarrow> c_step n C (set_node p g' C)"
| c_own: "p < n \<Longrightarrow> current_send (node C p) = Some m \<Longrightarrow> message_buffer m = Some b \<Longrightarrow>
    receive_handler_plus_notify p b (node C p) = Inr g' \<Longrightarrow> c_step n C (count_got p p (set_node p g' C))"
| c_other: "p < n \<Longrightarrow> q < n \<Longrightarrow> q \<noteq> p \<Longrightarrow> got C p q < length (sent C q) \<Longrightarrow>
    take (unat (fst (sent C q ! got C p q))) data = snd (sent C q ! got C p q) \<Longrightarrow>
    rdmc_receive_handler q data (rdmc_deliver q data (node C p)) = Inr g' \<Longrightarrow>
    c_step n C (count_got p q (set_node p g' C))"
| c_stability: "p < n \<Longrightarrow> c_step n C (set_node p (stability_trig (node C p)) C)"
| c_delivery: "p < n \<Longrightarrow> delivery_trig (node C p) = Inr g' \<Longrightarrow> c_step n C (set_node p g' C)"
| c_sender: "p < n \<Longrightarrow> sender_pred (node C p) \<Longrightarrow> c_step n C (set_node p (sender_trig (node C p)) C)"
| c_logged: "p < n \<Longrightarrow> file_written_callback given m (node C p) = Inr g' \<Longrightarrow> c_step n C (set_node p g' C)"
| c_writer: "p < n \<Longrightarrow> c_step n C (set_node p (node C p\<lparr>dg_writer := Some fw\<rparr>) C)"
| c_wedge: "p < n \<Longrightarrow> c_step n C (set_node p (group_wedge (node C p)) C)"
| c_calls: "p < n \<Longrightarrow> program d = program (dispatchers (node C p)) \<Longrightarrow> objects d = objects (dispatchers (node C p)) \<Longrightarrow>
    c_step n C (set_node p (calls_made d queue results writes (node C p)) C)"
| c_row: "p < n \<Longrightarrow> r < n \<Longrightarrow> r \<noteq> p \<Longrightarrow> visible (node C r) row \<Longrightarrow>
    c_step n C (set_node p (rows_arrive ((rows (dg_sst (node C p)))[r := row]) (node C p)) C)"

section \<open>The invariant of the cluster\<close>

definition behind :: "derecho_row \<Rightarrow> derecho_row \<Rightarrow> bool" where
  "behind a b \<longleftrightarrow> seq_num a \<le> seq_num b \<and> stable_num a \<le> stable_num b \<and> delivered_num a \<le> delivered_num b"

lemma behind_refl [simp]: "behind a a"
  by (simp add: behind_def)

lemma behind_trans: "behind a b \<Longrightarrow> behind b c \<Longrightarrow> behind a c"
  by (auto simp: behind_def)

definition nodes_inv :: "nat \<Rightarrow> 'o cluster \<Rightarrow> bool" where
  "nodes_inv n C \<longleftrightarrow> logs_ok (sent C) \<and>
     (\<forall>p < n. member_index (node C p) = p \<and> node_inv n (sent C) (got C p) (node C p))"

definition table_inv :: "nat \<Rightarrow> (nat \<Rightarrow> 'o dgroup) \<Rightarrow> bool" where
  "table_inv n N \<longleftrightarrow> (\<forall>r < n. (\<forall>p < n. behind (rows (dg_sst (N p)) ! r) (my_row (N r))) \<and>
     (\<forall>row \<in> set (published (N r)). behind row (my_row (N r))))"

text \<open>What is stable at one node is received at all; what is delivered at one is stable at all.\<close>

definition stable_everywhere :: "nat \<Rightarrow> (nat \<Rightarrow> 'o dgroup) \<Rightarrow> bool" where
  "stable_everywhere n N \<longleftrightarrow> (\<forall>p < n. \<forall>r < n. stable_num (my_row (N p)) \<le> seq_num (my_row (N r)) \<and>
     delivered_num (my_row (N p)) \<le> stable_num (my_row (N r)))"

definition cluster_inv :: "nat \<Rightarrow> 'o cluster \<Rightarrow> bool" where
  "cluster_inv n C \<longleftrightarrow> nodes_inv n C \<and> table_inv n (node C) \<and> stable_everywhere n (node C)"

text \<open>How one step moves a node's own row, and that it writes no other.\<close>

definition advances :: "'o dgroup \<Rightarrow> 'o dgroup \<Rightarrow> bool" where
  "advances g g' \<longleftrightarrow> member_index g' = member_index g \<and>
     behind (my_row g) (rows (dg_sst g') ! member_index g) \<and>
     (\<forall>r. r \<noteq> member_index g \<longrightarrow> rows (dg_sst g') ! r = rows (dg_sst g) ! r) \<and>
     set (published g') \<subseteq> insert (rows (dg_sst g') ! member_index g) (set (published g)) \<and>
     (stable_num (rows (dg_sst g') ! member_index g) = stable_num (my_row g) \<or>
      stable_num (rows (dg_sst g') ! member_index g) \<le> min_over_rows seq_num g) \<and>
     (delivered_num (rows (dg_sst g') ! member_index g) = delivered_num (my_row g) \<or>
      delivered_num (rows (dg_sst g') ! member_index g) \<le> min_over_rows stable_num g)"

lemma advances_same_table: "dg_sst g' = dg_sst g \<Longrightarrow> member_index g' = member_index g \<Longrightarrow> advances g g'"
  by (auto simp: advances_def published_def)

lemma advance_table:
  assumes inv: "table_inv n N" and p: "p < n" "member_index (N p) = p" and adv: "advances (N p) g'"
  shows "table_inv n (N(p := g'))"
proof -
  let ?N = "N(p := g')"
  have up: "behind (my_row (N r)) (my_row (?N r))" for r using adv by (auto simp: advances_def)
  have "behind (rows (dg_sst (?N q)) ! r) (my_row (?N r))" if "r < n" "q < n" for q r
  proof (cases "q = p \<and> r = p")
    case True
    then show ?thesis using adv p(2) by (simp add: advances_def)
  next
    case False
    then have copy: "rows (dg_sst (?N q)) ! r = rows (dg_sst (N q)) ! r" using adv p(2) by (auto simp: advances_def)
    have "behind (rows (dg_sst (N q)) ! r) (my_row (N r))" using inv that by (simp add: table_inv_def)
    then show ?thesis unfolding copy using up[of r] by (rule behind_trans)
  qed
  moreover have "behind row (my_row (?N r))" if "r < n" "row \<in> set (published (?N r))" for row r
  proof (cases "r = p \<and> row = my_row g'")
    case False
    then have "row \<in> set (published (N r))" using that(2) adv by (auto simp: advances_def split: if_splits)
    then have "behind row (my_row (N r))" using inv that(1) by (simp add: table_inv_def)
    then show ?thesis using up[of r] by (rule behind_trans)
  qed simp
  ultimately show ?thesis by (simp add: table_inv_def)
qed

lemma advance_stable:
  assumes inv: "stable_everywhere n N" "table_inv n N" and p: "p < n" "dg_n (N p) = n"
    and adv: "advances (N p) g'"
  shows "stable_everywhere n (N(p := g'))"
proof -
  have up: "behind (my_row (N r)) (my_row ((N(p := g')) r))" for r using adv by (auto simp: advances_def)
  have copy: "min_over_rows seq_num (N p) \<le> seq_num (my_row (N r))"
    "min_over_rows stable_num (N p) \<le> stable_num (my_row (N r))" if "r < n" for r
    using min_over_rows_le[of r "N p" seq_num] min_over_rows_le[of r "N p" stable_num] that p inv(2)
    by (auto simp: table_inv_def behind_def intro: order_trans)
  have old: "stable_num (my_row (N q)) \<le> seq_num (my_row (N r))" "delivered_num (my_row (N q)) \<le> stable_num (my_row (N r))"
    if "q < n" "r < n" for q r
    using inv(1) that by (simp_all add: stable_everywhere_def)
  have "stable_num (my_row ((N(p := g')) q)) \<le> seq_num (my_row (N r)) \<and>
      delivered_num (my_row ((N(p := g')) q)) \<le> stable_num (my_row (N r))" if "q < n" "r < n" for q r
    using old[OF that] copy[OF that(2)] adv p by (auto simp: advances_def)
  then show ?thesis using up unfolding stable_everywhere_def behind_def by (meson order_trans)
qed

lemma advance_cluster:
  assumes inv: "cluster_inv n C" and p: "p < n" and adv: "advances (node C p) g'"
    and "node C' = (node C)(p := g')" "nodes_inv n C'"
  shows "cluster_inv n C'"
proof -
  have "member_index (node C p) = p" "dg_n (node C p) = n"
    using inv p by (simp_all add: cluster_inv_def nodes_inv_def node_inv_def)
  with assms show ?thesis
    by (simp add: cluster_inv_def advance_table advance_stable)
qed

section \<open>Every step keeps it\<close>

lemma put_advances:
  assumes "rows_inv g" and "dg_sst g' = put (set_row (member_index g) row (dg_sst g))"
    and "member_index g' = member_index g" and "behind (my_row g) row"
    and "stable_num row = stable_num (my_row g) \<or> stable_num row \<le> min_over_rows seq_num g"
    and "delivered_num row = delivered_num (my_row g) \<or> delivered_num row \<le> min_over_rows stable_num g"
  shows "advances g g'"
  using assms by (auto simp: advances_def put_def set_row_def published_def rows_inv_def local_row_def)

lemma stability_advances:
  assumes "rows_inv g"
  shows "advances g (stability_trig g)"
proof (cases "min_over_rows seq_num g > stable_num (my_row g)")
  case True
  then show ?thesis
    by (intro put_advances[OF assms, of _ "my_row g\<lparr>stable_num := min_over_rows seq_num g\<rparr>"])
       (simp_all add: stability_trig_def Let_def sst_put_def upd_my_row_def behind_def)
qed (simp add: stability_trig_def advances_same_table)

lemma delivery_advances:
  assumes "group_inv g" and "delivery_trig g = Inr g'"
  shows "advances g g'"
  using assms
proof (cases rule: delivery_cases)
  case (2 msg g1)
  then show ?thesis
    using group_invD(1)[OF assms(1)]
    by (intro put_advances[of g _ "my_row g\<lparr>delivered_num := delivered_num (my_row g) + 1\<rparr>"])
       (simp_all add: sst_put_def upd_my_row_def behind_def delivery_frame_def)
qed (simp add: advances_same_table)

lemma file_written_advances:
  assumes "rows_inv g" and "file_written_callback given m g = Inr g'"
  shows "advances g g'"
proof -
  from assms(2) obtain s where "dg_sst g' = put (set_row (member_index g) (my_row g\<lparr>persisted_num := s\<rparr>) (dg_sst g))"
    "member_index g' = member_index g"
    by (auto simp: file_written_callback_def Let_def sst_put_def upd_my_row_def call_def split: option.splits if_splits)
  then show ?thesis by (rule put_advances[OF assms(1)]) (simp_all add: behind_def)
qed

lemma update_seq_num_advances:
  assumes inv: "rows_inv g" and same: "dg_sst g2 = dg_sst g" "member_index g2 = member_index g" "dg_n g2 = dg_n g"
    and q: "q < dg_n g"
  shows "advances g (update_seq_num ((upd_my_row (add_received q d) g2)\<lparr>locally_stable_messages := x\<rparr>))"
proof -
  let ?c = "(my_counts g)[q := my_counts g ! q + d]"
  let ?row = "my_row g\<lparr>nReceived := ?c, seq_num := max (seq_num (my_row g)) (contiguous_seq (dg_n g) ?c)\<rparr>"
  let ?g = "(upd_my_row (add_received q d) g2)\<lparr>locally_stable_messages := x\<rparr>"
  have b: "member_index g < num_rows (dg_sst g)" using inv by (simp add: rows_inv_def)
  have "dg_sst (update_seq_num ?g) = put (set_row (member_index g) ?row (dg_sst g))"
    using b by (auto simp: update_seq_num_def Let_def upd_my_row_def set_row_def sst_put_def add_received_def
        same max_def)
  then show ?thesis
    by (rule put_advances[OF inv]) (simp_all add: group_simps same behind_def)
qed

lemma receive_advances:
  assumes "group_inv g" "q < dg_n g" "rdmc_receive_handler q data g = Inr g'"
  shows "advances g g'"
  using assms
proof (rule rdmc_receive_handler_cases)
  fix m g2 assume
    own: "q = member_index g \<Longrightarrow> current_send g = Some m \<and>
       g2 = g\<lparr>locally_stable_messages := sm_assign (seq_of (dg_n g) (int q) (my_counts g ! q + 1)) m
          (locally_stable_messages g), current_send := None\<rparr>"
    and other: "q \<noteq> member_index g \<Longrightarrow>
       sm_find (current_receives g) (seq_of (dg_n g) (int q) (my_counts g ! q + 1)) = Some m \<and>
       g2 = g\<lparr>locally_stable_messages := sm_emplace (seq_of (dg_n g) (int q) (my_counts g ! q + 1)) m
          (locally_stable_messages g),
          current_receives := sm_erase (seq_of (dg_n g) (int q) (my_counts g ! q + 1)) (current_receives g)\<rparr>"
    and g': "g' = update_seq_num ((upd_my_row (add_received q (int (unat (h_pause_sending_turns data)) + 1)) g2)
       \<lparr>locally_stable_messages := skipped q (dg_n g) (unat (h_pause_sending_turns data)) (my_counts g ! q + 1)
          (locally_stable_messages g2)\<rparr>)"
  have "dg_sst g2 = dg_sst g \<and> member_index g2 = member_index g \<and> dg_n g2 = dg_n g"
    using own[THEN conjunct2] other[THEN conjunct2] by (cases "q = member_index g") (fastforce dest: sym)+
  then have "dg_sst g2 = dg_sst g" "member_index g2 = member_index g" "dg_n g2 = dg_n g" by simp_all
  then show "advances g g'"
    unfolding g' by (rule update_seq_num_advances[OF group_invD(1)[OF assms(1)] _ _ _ assms(2)])
qed

lemma row_arrives:
  assumes inv: "cluster_inv n C" and p: "p < n" "r < n" "r \<noteq> p" and row: "visible (node C r) row"
  shows "cluster_inv n (set_node p (rows_arrive ((rows (dg_sst (node C p)))[r := row]) (node C p)) C)"
proof -
  let ?g = "rows_arrive ((rows (dg_sst (node C p)))[r := row]) (node C p)"
  have nodes: "nodes_inv n C" "member_index (node C p) = p" "node_inv n (sent C) (got C p) (node C p)"
    using inv p by (auto simp: cluster_inv_def nodes_inv_def)
  have len: "n \<le> num_rows (dg_sst (node C p))"
    using node_invD(1,2)[OF nodes(3)] by (auto simp: group_inv_def rows_inv_def)
  have mine: "my_row ?g = my_row (node C p)" "member_index ?g = p" "published ?g = published (node C p)"
    using p(3) nodes(2) by (simp_all add: rows_arrive_def published_def)
  have T: "table_inv n (node C)" using inv by (simp add: cluster_inv_def)
  have "behind row (my_row (node C r))"
    using row T p(2) by (auto simp: visible_def table_inv_def behind_def)
  then have "behind (rows (dg_sst ?g) ! s) (my_row (node C s))" if "s < n" for s
    using T p that len by (cases "s = r") (auto simp: rows_arrive_def table_inv_def)
  then have "table_inv n ((node C)(p := ?g))"
    using T mine by (simp add: table_inv_def)
  moreover have "stable_everywhere n ((node C)(p := ?g))"
    using inv mine by (simp add: cluster_inv_def stable_everywhere_def)
  moreover have "node_inv n (sent C) (got C p) ?g"
    by (rule rows_arrive_node[OF nodes(3)]) (use p(3) nodes(2) in simp_all)
  ultimately show ?thesis
    using nodes(1) mine by (simp add: cluster_inv_def nodes_inv_def)
qed

lemma cluster_node:
  assumes "cluster_inv n C" "p < n"
  shows "node_inv n (sent C) (got C p) (node C p)" "member_index (node C p) = p" "logs_ok (sent C)"
    "group_inv (node C p)" "dg_n (node C p) = n" "rows_inv (node C p)"
  using assms by (simp_all add: cluster_inv_def nodes_inv_def node_inv_def group_inv_def)

lemma node_changes:
  assumes inv: "cluster_inv n C" and p: "p < n" and adv: "advances (node C p) g'"
    and "node_inv n (sent C) (got C p) g'"
  shows "cluster_inv n (set_node p g' C)"
  by (rule advance_cluster[OF inv p adv])
     (use assms(4) adv inv cluster_node(2)[OF inv p] in \<open>auto simp: cluster_inv_def nodes_inv_def advances_def\<close>)

lemma node_gets:
  assumes inv: "cluster_inv n C" and p: "p < n" and adv: "advances (node C p) g'"
    and "node_inv n (sent C) ((got C p)(q := Suc (got C p q))) g'"
  shows "cluster_inv n (count_got p q (set_node p g' C))"
  by (rule advance_cluster[OF inv p adv])
     (use assms(4) adv inv cluster_node(2)[OF inv p] in \<open>auto simp: cluster_inv_def nodes_inv_def advances_def\<close>)

lemma node_logs:
  assumes inv: "cluster_inv n C" and p: "p < n" and adv: "advances (node C p) g'" and w: "wire_ok w"
    and mine: "node_inv n ((sent C)(p := sent C p @ [w])) (got C p) g'"
  shows "cluster_inv n (log_sent p w (set_node p g' C))"
proof (rule advance_cluster[OF inv p adv])
  let ?S = "(sent C)(p := sent C p @ [w])"
  have "node_inv n ?S (got C r) (node C r)" if "r < n" "r \<noteq> p" for r
    by (rule node_inv_append[OF cluster_node(1)[OF inv that(1)]]) (use that cluster_node(2)[OF inv that(1)] in auto)
  moreover have "logs_ok ?S" using cluster_node(3)[OF inv p] w by (simp add: logs_ok_def)
  ultimately show "nodes_inv n (log_sent p w (set_node p g' C))"
    using mine adv inv cluster_node(2)[OF inv p] by (auto simp: cluster_inv_def nodes_inv_def advances_def)
qed simp

lemma advances_cong:
  "advances g g1 \<Longrightarrow> dg_sst g' = dg_sst g1 \<Longrightarrow> member_index g' = member_index g1 \<Longrightarrow> advances g g'"
  by (simp add: advances_def published_def)

lemma get_keeps:
  assumes inv: "cluster_inv n C" and p: "p < n" and run: "get_position (node C p) sz pause cooked = Inr (g', pos)"
    and ok: "next_send (node C p) = None" "0 \<le> pause" "pause < 2 ^ 31" "unat sz + 9 < 2 ^ 64"
  shows "cluster_inv n (set_node p g' C)"
proof -
  have "advances (node C p) g'"
    using run by (cases rule: get_position_cases) (simp_all add: advances_same_table)
  then show ?thesis
    by (rule node_changes[OF inv p]) (rule get_position_node[OF cluster_node(1)[OF inv p] run ok])
qed

lemma loop_keeps:
  assumes inv: "cluster_inv n C" and p: "p < n" and run: "send_loop_turn True (node C p) = Inr g'"
    and ok: "should_send (node C p)" "\<not> thread_shutdown (node C p)" "pending_sends (node C p) = m # ms"
  shows "cluster_inv n (log_sent p (wire_of m) (set_node p g' C))"
proof -
  note N = cluster_node[OF inv p]
  have "advances (node C p) g'"
    by (rule advances_same_table) (use ok(2,3) run in \<open>auto simp: send_loop_turn_def call_def Let_def\<close>)
  moreover have "wire_ok (wire_of m)"
    using node_invD(5)[OF N(1)] ok(3) by (simp add: own_inv_def outgoing_def)
  moreover have "node_inv n ((sent C)(p := sent C p @ [wire_of m])) (got C p) g'"
    using send_loop_node[OF N(1) ok(1,2) run ok(3)] by (simp add: N(2))
  ultimately show ?thesis by (rule node_logs[OF inv p])
qed

lemma own_keeps:
  assumes inv: "cluster_inv n C" and p: "p < n" and run: "receive_handler_plus_notify p b (node C p) = Inr g'"
    and cur: "current_send (node C p) = Some m" "message_buffer m = Some b"
  shows "cluster_inv n (count_got p p (set_node p g' C))"
proof -
  note N = cluster_node[OF inv p]
  have run': "receive_handler_plus_notify (member_index (node C p)) b (node C p) = Inr g'" by (simp add: N(2) run)
  from run obtain g1 where g1: "rdmc_receive_handler p b (node C p) = Inr g1" "g' = call Notify_sender g1"
    by (auto simp: receive_handler_plus_notify_def)
  have "advances (node C p) g1" by (rule receive_advances[OF N(4) _ g1(1)]) (simp add: N(5) p)
  then have "advances (node C p) g'" by (rule advances_cong) (simp_all add: g1(2) call_def)
  moreover have "node_inv n (sent C) ((got C p)(p := Suc (got C p p))) g'"
    using own_receive_node[OF N(1) cur run'] by (simp add: N(2))
  ultimately show ?thesis by (rule node_gets[OF inv p])
qed

lemma other_keeps:
  assumes inv: "cluster_inv n C" and p: "p < n" and q: "q < n" "q \<noteq> p" "got C p q < length (sent C q)"
    and data: "take (unat (fst (sent C q ! got C p q))) data = snd (sent C q ! got C p q)"
    and run: "rdmc_receive_handler q data (rdmc_deliver q data (node C p)) = Inr g'"
  shows "cluster_inv n (count_got p q (set_node p g' C))"
proof -
  note N = cluster_node[OF inv p]
  have "advances (rdmc_deliver q data (node C p)) g'"
    by (rule receive_advances[OF rdmc_deliver_inv[OF N(4)] _ run]) (simp add: N(5) q(1))
  moreover have "dg_sst (rdmc_deliver q data (node C p)) = dg_sst (node C p)"
    by (simp add: rdmc_deliver_def Let_def split: option.splits)
  ultimately have "advances (node C p) g'" by (simp add: advances_def published_def min_over_rows_def)
  moreover have "wire_ok (sent C q ! got C p q)"
    using N(3) nth_mem[OF q(3)] by (simp add: logs_ok_def)
  from other_receive_node[OF N(1) q(1) _ q(3) data this run]
  have "node_inv n (sent C) ((got C p)(q := Suc (got C p q))) g'" by (simp add: N(2) q(2))
  ultimately show ?thesis by (rule node_gets[OF inv p])
qed

lemma calls_made_frame [group_simps]:
  "dg_sst (calls_made d queue results writes g) = dg_sst g" "dg_members (calls_made d queue results writes g) = dg_members g"
  "member_index (calls_made d queue results writes g) = member_index g"
  "outgoing (calls_made d queue results writes g) = outgoing g"
  "delivered_raw (calls_made d queue results writes g) = delivered_raw g"
  "callback_seqs (calls_made d queue results writes g) = callback_seqs g"
proof -
  have "concat (map (raw_call \<circ> (\<lambda>(dest, msg). Tcp_write dest msg)) writes) = []"
    "concat (map (stability_seq (dg_n g) \<circ> (\<lambda>(dest, msg). Tcp_write dest msg)) writes) = []"
    by (auto simp: concat_eq_Nil_conv)
  then show "dg_sst (calls_made d queue results writes g) = dg_sst g" "dg_members (calls_made d queue results writes g) = dg_members g"
    "member_index (calls_made d queue results writes g) = member_index g"
    "outgoing (calls_made d queue results writes g) = outgoing g"
    "delivered_raw (calls_made d queue results writes g) = delivered_raw g"
    "callback_seqs (calls_made d queue results writes g) = callback_seqs g"
    by (simp_all add: calls_made_def outgoing_def delivered_raw_def callback_seqs_def)
qed

lemma calls_made_node:
  assumes "node_inv n S G g"
  shows "node_inv n S G (calls_made d queue results writes g)"
proof (rule node_inv_frame[OF assms])
  show "group_inv (calls_made d queue results writes g)"
    using node_invD(1)[OF assms]
    by (rule same_core_inv[rotated]) (simp add: same_core_def calls_made_frame, simp add: calls_made_def)
qed (use node_invD(5)[OF assms] in \<open>simp_all add: own_inv_def calls_made_frame, simp_all add: calls_made_def\<close>)

lemma cluster_step_inv: "c_step n C C' \<Longrightarrow> cluster_inv n C \<Longrightarrow> cluster_inv n C'"
proof (induction rule: c_step.induct)
  case (c_get p C pause sz cooked g' pos)
  from c_get(7,1,6,2-5) show ?case by (rule get_keeps)
next
  case (c_fill p C m b data)
  have "advances (node C p) (fill_payload data (node C p))"
    by (rule advances_same_table) (simp_all add: fill_payload_def split: option.splits)
  then show ?case
    by (rule node_changes[OF c_fill(5,1)]) (rule fill_payload_node[OF cluster_node(1)[OF c_fill(5,1)] c_fill(2-4)])
next
  case (c_send p C g' ok)
  have "advances (node C p) g'"
    by (rule advances_same_table) (use c_send(2) in \<open>auto simp: send_def call_def split: if_splits option.splits\<close>)
  then show ?case
    by (rule node_changes[OF c_send(3,1)]) (rule send_node[OF cluster_node(1)[OF c_send(3,1)] c_send(2)])
next
  case (c_loop p C m ms g')
  from c_loop(6,1,5,2-4) show ?case by (rule loop_keeps)
next
  case (c_start p q C g')
  have "advances (node C p) g'"
    by (rule advances_same_table) (use c_start(4) in \<open>auto simp: receive_destination_def Let_def split: if_splits\<close>)
  then show ?case
    by (rule node_changes[OF c_start(5,1)]) (rule receive_destination_node[OF cluster_node(1)[OF c_start(5,1)] c_start(2-4)])
next
  case (c_own p C m b g')
  from c_own(5,1,4,2,3) show ?case by (rule own_keeps)
next
  case (c_other p q C data g')
  from c_other(7,1-6) show ?case by (rule other_keeps)
next
  case (c_stability p C)
  note N = cluster_node[OF c_stability(2,1)]
  show ?case by (rule node_changes[OF c_stability(2,1) stability_advances[OF N(6)] stability_node[OF N(1)]])
next
  case (c_delivery p C g')
  note N = cluster_node[OF c_delivery(3,1)]
  show ?case
    by (rule node_changes[OF c_delivery(3,1) delivery_advances[OF N(4) c_delivery(2)] delivery_node[OF N(1,3) c_delivery(2)]])
next
  case (c_sender p C)
  show ?case
    by (rule node_changes[OF c_sender(3,1) advances_same_table sender_trig_node[OF cluster_node(1)[OF c_sender(3,1)]]])
       (simp_all add: sender_trig_def call_def)
next
  case (c_logged p m C g')
  note N = cluster_node[OF c_logged(3,1)]
  show ?case
    by (rule node_changes[OF c_logged(3,1) file_written_advances[OF N(6) c_logged(2)] file_written_node[OF N(1) c_logged(2)]])
next
  case (c_writer p C fw)
  show ?case
    by (rule node_changes[OF c_writer(2,1) advances_same_table writer_node[OF cluster_node(1)[OF c_writer(2,1)]]]) simp_all
next
  case (c_wedge p C)
  have "advances (node C p) (group_wedge (node C p))"
    by (auto simp: advances_def published_def group_simps)
  then show ?case
    by (rule node_changes[OF c_wedge(2,1)]) (rule wedge_node[OF cluster_node(1)[OF c_wedge(2,1)]])
next
  case (c_calls p d C queue results writes)
  show ?case
    by (rule node_changes[OF c_calls(4,1) advances_same_table calls_made_node[OF cluster_node(1)[OF c_calls(4,1)]]])
       (simp_all add: group_simps)
next
  case (c_row p r C row)
  from c_row(5,1-4) show ?case by (rule row_arrives)
qed

lemma started_inv:
  assumes "started g"
  shows "group_inv g"
proof -
  let ?f = "g\<lparr>next_send := None, pending_sends := [], current_send := None, future_message_index := 0\<rparr>"
  have fresh: "fresh_group ?f" using assms by (simp add: started_def)
  then have f: "group_inv ?f" by (rule fresh_group_inv)
  have "0 < dg_n g" "dg_n g \<le> length (my_counts g)" "member_index g < dg_n g"
    "list_all (\<lambda>i. i = -1) (take (dg_n g) (my_counts g))"
    using fresh by (auto simp: fresh_group_def)
  then have "my_counts g ! member_index g = -1" by (simp add: list_all_length)
  then have "chain_inv g" using assms by (simp add: chain_inv_def started_def)
  then show ?thesis
    by (rule outgoing_change_inv[OF f, rotated -1]) (simp_all add: callback_seqs_def)
qed

lemma cluster_init_inv:
  assumes init: "cluster_init n C"
  shows "cluster_inv n C"
proof -
  have sent: "sent C = (\<lambda>_. [])" "got C p = (\<lambda>_. 0)" for p using init by (auto simp: cluster_init_def)
  have start: "started (node C p)" "dg_n (node C p) = n" "member_index (node C p) = p" if "p < n" for p
    using init that by (simp_all add: cluster_init_def)
  have low: "seq_num row = -1 \<and> stable_num row = -1 \<and> delivered_num row = -1"
    if "p < n" "row \<in> set (take n (rows (dg_sst (node C p)))) \<union> set (published (node C p))" for p row
    using init that by (auto simp: cluster_init_def list_all_iff)
  have len: "n \<le> num_rows (dg_sst (node C p))" if "p < n" for p
    using start[OF that] by (auto simp: started_def fresh_group_def)
  have copy: "seq_num (rows (dg_sst (node C p)) ! r) = -1 \<and> stable_num (rows (dg_sst (node C p)) ! r) = -1 \<and>
      delivered_num (rows (dg_sst (node C p)) ! r) = -1" if "p < n" "r < n" for p r
  proof (rule low[OF that(1)])
    have "take n (rows (dg_sst (node C p))) ! r \<in> set (take n (rows (dg_sst (node C p))))"
      using that len[OF that(1)] by (intro nth_mem) simp
    then show "rows (dg_sst (node C p)) ! r \<in> set (take n (rows (dg_sst (node C p)))) \<union> set (published (node C p))"
      using that(2) by simp
  qed
  have "node_inv n (sent C) (got C p) (node C p)" if "p < n" for p
  proof (rule node_invI)
    show "group_inv (node C p)" by (rule started_inv) (rule start(1)[OF that])
    show "counts_inv n (sent C) (got C p) (node C p)"
      using start[OF that] by (auto simp: counts_inv_def sent started_def fresh_group_def list_all_length)
    show "own_inv (sent C) (got C p) (node C p)"
      using start[OF that] by (simp add: own_inv_def sent started_def opt_list_def list_all_iff)
  qed (use start[OF that] copy[OF that that] in \<open>simp_all add: transfer_inv_def stable_inv_def
        delivered_inv_def sent started_def fresh_group_def\<close>)
  with start have "nodes_inv n C" by (simp add: nodes_inv_def logs_ok_def sent)
  moreover have "table_inv n (node C)"
    using copy low start(3) by (fastforce simp: table_inv_def behind_def)
  moreover have "stable_everywhere n (node C)"
    using copy start(3) by (simp add: stable_everywhere_def)
  ultimately show ?thesis by (simp add: cluster_inv_def)
qed

interpretation cluster: state_machine "cluster_init n" "c_step n" "cluster_inv n"
  by unfold_locales (auto simp: cluster_init_inv intro: cluster_step_inv)

section \<open>Remote calls as steps\<close>

text \<open>
  What the calls of the application do to a node (\<^verbatim>\<open>derechoCallerSend\<close>'s writing of the
  call and its bookkeeping, \<^verbatim>\<open>tcpSend\<close>) are steps of the cluster.
\<close>

lemma dispatcher_send_keeps:
  assumes "dispatcher_send d k inv_id args alloc = Inr (d', out)"
  shows "program d' = program d" "objects d' = objects d"
proof -
  from assms obtain h' where "d' = d\<lparr>invs := (invs d)[k := h']\<rparr>"
    and "invoke_id h' = invoke_id (invs d ! k) \<and> reply_id h' = reply_id (invs d ! k) \<and>
      is_void h' = is_void (invs d ! k) \<and> fn h' = fn (invs d ! k)"
    by (auto simp: dispatcher_send_def invocable_send_def Let_def guardE_def split: if_splits option.splits)
  then show "program d' = program d" "objects d' = objects d" by (simp_all add: program_update)
qed

lemma set_node_twice [simp]: "set_node p h (set_node p g C) = set_node p h C"
  by (simp add: set_node_def)

lemma write_call_steps:
  assumes "p < n" and run: "write_call nodes 9 k inv_id args (node C p) = Inr g'"
  shows "\<exists>C1. c_step n C C1 \<and> c_step n C1 (set_node p g' C)"
proof -
  let ?g = "node C p"
  from run obtain m b d out data where m: "next_send ?g = Some m" "message_buffer m = Some b"
    and d: "dispatcher_send (dispatchers ?g) k inv_id args
        (\<lambda>size. size \<le> unat (max_msg_size ?g - word_of_nat sizeof_header - 8 - word_of_nat (4 * length nodes))) = Inr (d, out)"
    and data: "data = take 9 b @ (enc64 (word_of_nat (length nodes)) @ enc32_list nodes) @ out @
        drop (9 + length (enc64 (word_of_nat (length nodes)) @ enc32_list nodes) + length out) b"
      "9 \<le> length b"
    and g': "g' = ?g\<lparr>dispatchers := d, next_send := Some (m\<lparr>message_buffer := Some data\<rparr>)\<rparr>"
    by (auto simp: write_call_def Let_def split: option.splits if_splits)
  let ?f = "fill_payload data ?g" let ?C = "set_node p ?f C"
  have "c_step n C ?C" using assms(1) m by (rule c_fill) (simp add: data)
  moreover have "c_step n ?C (set_node p (calls_made d (toFulfillQueue ?g) (fulfilledList ?g) [] (node ?C p)) ?C)"
    using assms(1) by (rule c_calls) (use dispatcher_send_keeps[OF d] m in \<open>simp_all add: fill_payload_def\<close>)
  moreover have "calls_made d (toFulfillQueue ?g) (fulfilledList ?g) [] (node ?C p) = g'"
    using m by (simp add: calls_made_def fill_payload_def g')
  ultimately show ?thesis by auto
qed

lemma bookkeeping_step:
  assumes "p < n" and "g' = calls_made d queue results writes (node C p)"
    and "program d = program (dispatchers (node C p))" "objects d = objects (dispatchers (node C p))"
  shows "c_step n C (set_node p g' C)"
  using assms by (auto intro: c_calls)

lemma record_pending_step:
  assumes "p < n" and "record_pending nodes q (node C p) = Inr g'"
  shows "c_step n C (set_node p g' C)"
proof (cases "nodes = []")
  case True
  with assms(2) have "g' = calls_made (dispatchers (node C p)) (toFulfillQueue (node C p) @ [q]) (fulfilledList (node C p)) [] (node C p)"
    by (auto simp: record_pending_def calls_made_def)
  with assms(1) show ?thesis by (rule bookkeeping_step) simp_all
next
  case False
  with assms(2) obtain d where d: "pending_fulfill_map nodes q (dispatchers (node C p)) = Inr d"
    "g' = calls_made d (toFulfillQueue (node C p)) (fulfilledList (node C p) @ [q]) [] (node C p)"
    by (auto simp: record_pending_def calls_made_def)
  with assms(1) fulfill_map_keeps[OF d(1)] show ?thesis by (intro bookkeeping_step)
qed

lemma tcpSend_step:
  assumes "p < n" and "tcpSend dest k inv_id args (node C p) = Inr g'"
  shows "c_step n C (set_node p g' C)"
proof -
  from assms(2) obtain d out d' where d: "dispatcher_send (dispatchers (node C p)) k inv_id args
        (\<lambda>size. size \<le> unat (max_msg_size (node C p) - word_of_nat sizeof_header)) = Inr (d, out)"
      "pending_fulfill_map [dest] (k, inv_id) d = Inr d'"
    and g': "g' = calls_made d' (toFulfillQueue (node C p)) (fulfilledList (node C p) @ [(k, inv_id)]) [(dest, out)] (node C p)"
    by (auto simp: tcpSend_def Let_def guardE_def calls_made_def call_def split: if_splits)
  show ?thesis
    by (rule bookkeeping_step[OF assms(1) g']) (simp_all add: dispatcher_send_keeps[OF d(1)] fulfill_map_keeps[OF d(2)])
qed

abbreviation cluster_reachable :: "nat \<Rightarrow> 'o cluster \<Rightarrow> bool" where
  "cluster_reachable n \<equiv> reachable (cluster_init n) (c_step n)"

end
