(* ===== verification/Total_Order.thy ===== *)
theory Total_Order
  imports Cluster
begin

text \<open>
  What the members of a view can rely on together: a message delivered anywhere has been
  received everywhere, and all members deliver the same raw messages in the same order.
  The groups the constructor builds form such a cluster. A simulator for the steps of the
  cluster runs the examples.
\<close>

section \<open>A simulator\<close>

datatype move =
    Get nat u64 int bool | Fill nat bytes | Send nat | Loop nat | Own nat | Start nat nat | Recv nat nat
  | Row nat nat | Wedge nat | Stabilize nat | Deliver nat
  | Write nat "node_id list" nat u64 "bytes list" | Record nat "node_id list" nat u64

definition on_node :: "nat \<Rightarrow> 'o dgroup result \<Rightarrow> 'o cluster \<Rightarrow> 'o cluster option" where
  "on_node p r C = (case r of Inl _ \<Rightarrow> None | Inr g \<Rightarrow> Some (set_node p g C))"

fun mover :: "move \<Rightarrow> nat" where
  "mover (Get p sz pause cooked) = p" | "mover (Fill p data) = p" | "mover (Send p) = p" | "mover (Loop p) = p" | "mover (Own p) = p"
| "mover (Start p q) = p" | "mover (Recv p q) = p" | "mover (Row p r) = p" | "mover (Wedge p) = p"
| "mover (Stabilize p) = p"
| "mover (Deliver p) = p"
| "mover (Write p nodes k i args) = p" | "mover (Record p nodes k i) = p"

text \<open>The received message overwrites the start of the buffer the transfer was given.\<close>

definition transfer_buffer :: "nat \<Rightarrow> 'o dgroup \<Rightarrow> bytes" where
  "transfer_buffer q g = (case sm_find (current_receives g) (seq_of (dg_n g) (int q) (my_counts g ! q + 1)) of
     None \<Rightarrow> [] | Some m \<Rightarrow> (case message_buffer m of None \<Rightarrow> [] | Some b \<Rightarrow> b))"

definition arriving :: "wire \<Rightarrow> bytes \<Rightarrow> bytes" where
  "arriving w b = snd w @ drop (length (snd w)) b"

fun move_node :: "nat \<Rightarrow> move \<Rightarrow> 'o cluster \<Rightarrow> 'o cluster option" where
  "move_node n (Get p sz pause cooked) C =
     (if next_send (node C p) = None \<and> 0 \<le> pause \<and> pause < 2147483648 \<and> uint sz + 9 < 18446744073709551616
      then on_node p (bindE (get_position (node C p) sz pause cooked) (\<lambda>(g, _). Inr g)) C else None)"
| "move_node n (Fill p data) C = (case next_send (node C p) of None \<Rightarrow> None
     | Some m \<Rightarrow> (case message_buffer m of None \<Rightarrow> None
         | Some b \<Rightarrow> if 9 \<le> length b then Some (set_node p (fill_payload (take 9 b @ data) (node C p)) C) else None))"
| "move_node n (Send p) C = on_node p (bindE (send (node C p)) (\<lambda>(g, _). Inr g)) C"
| "move_node n (Loop p) C =
     (if should_send (node C p) \<and> \<not> thread_shutdown (node C p)
      then map_option (log_sent p (wire_of (hd (pending_sends (node C p)))))
             (on_node p (send_loop_turn True (node C p)) C) else None)"
| "move_node n (Own p) C = (case current_send (node C p) of None \<Rightarrow> None
     | Some m \<Rightarrow> (case message_buffer m of None \<Rightarrow> None
         | Some b \<Rightarrow> map_option (count_got p p) (on_node p (receive_handler_plus_notify p b (node C p)) C)))"
| "move_node n (Start p q) C =
     (if q < n \<and> got C p q < length (sent C q)
      then on_node p (receive_destination q (fst (sent C q ! got C p q)) (node C p)) C else None)"
| "move_node n (Recv p q) C =
     (let w = sent C q ! got C p q; data = arriving w (transfer_buffer q (node C p))
      in if q < n \<and> q \<noteq> p \<and> got C p q < length (sent C q) \<and> take (unat (fst w)) data = snd w
         then map_option (count_got p q)
                (on_node p (rdmc_receive_handler q data (rdmc_deliver q data (node C p))) C) else None)"
| "move_node n (Row p r) C =
     (if r < n \<and> r \<noteq> p \<and> visible (node C r) (my_row (node C r))
      then Some (set_node p (rows_arrive ((rows (dg_sst (node C p)))[r := my_row (node C r)]) (node C p)) C) else None)"
| "move_node n (Wedge p) C = Some (set_node p (group_wedge (node C p)) C)"
| "move_node n (Stabilize p) C = Some (set_node p (stability_trig (node C p)) C)"
| "move_node n (Deliver p) C = on_node p (delivery_trig (node C p)) C"
| "move_node n (Write p nodes k i args) C = on_node p (write_call nodes 9 k i args (node C p)) C"
| "move_node n (Record p nodes k i) C = on_node p (record_pending nodes (k, i) (node C p)) C"

fun simulate :: "nat \<Rightarrow> move list \<Rightarrow> 'o cluster \<Rightarrow> 'o cluster option" where
  "simulate n [] C = Some C"
| "simulate n (m # ms) C = (if mover m < n then Option.bind (move_node n m C) (simulate n ms) else None)"

lemma on_node_Some: "on_node p r C = Some C' \<longleftrightarrow> (\<exists>g. r = Inr g \<and> C' = set_node p g C)"
  by (auto simp: on_node_def split: sum.splits)

lemma move_is_steps: "move_node n m C = Some C' \<Longrightarrow> mover m < n \<Longrightarrow> (c_step n)\<^sup>*\<^sup>* C C'"
proof (induction n m C rule: move_node.induct)
  case (1 n p sz pause cooked C)
  have "unat sz + 9 < 2 ^ 64" if "uint sz + 9 < 18446744073709551616"
  proof -
    have "int (unat sz + 9) < int (2 ^ 64)" using that by simp
    then show ?thesis by (simp only: of_nat_less_iff)
  qed
  with 1 show ?case by (auto simp: on_node_Some split: if_splits intro!: r_into_rtranclp[where r = "c_step n"] c_get)
next
  case (2 n p data C)
  then show ?case by (auto split: option.splits if_splits intro!: r_into_rtranclp[where r = "c_step n"] c_fill)
next
  case (3 n p C)
  then show ?case by (auto simp: on_node_Some intro!: r_into_rtranclp[where r = "c_step n"] c_send)
next
  case (4 n p C)
  then have "should_send (node C p)" by (auto split: if_splits)
  then obtain m ms where "pending_sends (node C p) = m # ms"
    by (auto simp: should_send_def split: if_splits list.splits)
  with 4 show ?case by (auto simp: on_node_Some split: if_splits intro!: r_into_rtranclp[where r = "c_step n"] c_loop)
next
  case (5 n p C)
  then show ?case by (auto simp: on_node_Some split: option.splits intro!: r_into_rtranclp[where r = "c_step n"] c_own)
next
  case (6 n p q C)
  then show ?case by (auto simp: on_node_Some split: if_splits intro: r_into_rtranclp[where r = "c_step n"] c_start[of p n q])
next
  case (7 n p q C)
  then show ?case by (auto simp: on_node_Some Let_def split: if_splits intro!: r_into_rtranclp[where r = "c_step n"] c_other)
next
  case (8 n p r C)
  then show ?case by (auto split: if_splits intro!: r_into_rtranclp[where r = "c_step n"] c_row)
next
  case (9 n p C)
  then show ?case by (auto intro!: r_into_rtranclp[where r = "c_step n"] c_wedge)
next
  case (10 n p C)
  then show ?case by (auto intro!: r_into_rtranclp[where r = "c_step n"] c_stability)
next
  case (11 n p C)
  then show ?case by (auto simp: on_node_Some intro!: r_into_rtranclp[where r = "c_step n"] c_delivery)
next
  case (12 n p nodes k i args C)
  then obtain g where g: "write_call nodes 9 k i args (node C p) = Inr g" "C' = set_node p g C" by (auto simp: on_node_Some)
  from write_call_steps[OF _ g(1)] 12(2) obtain C1 where "c_step n C C1" "c_step n C1 C'" by (auto simp: g(2))
  then show ?case by (meson r_into_rtranclp rtranclp_trans)
next
  case (13 n p nodes k i C)
  then show ?case by (auto simp: on_node_Some intro!: r_into_rtranclp[where r = "c_step n"] record_pending_step)
qed

lemma simulate_steps: "simulate n ms C = Some C' \<Longrightarrow> (c_step n)\<^sup>*\<^sup>* C C'"
proof (induction ms arbitrary: C)
  case (Cons m ms)
  then obtain C1 where "mover m < n" "move_node n m C = Some C1" "simulate n ms C1 = Some C'"
    by (auto split: if_splits bind_splits)
  with Cons show ?case by (meson rtranclp_trans move_is_steps)
qed simp

lemma simulate_reachable:
  "simulate n ms C = Some C' \<Longrightarrow> cluster_reachable n C \<Longrightarrow> cluster_reachable n C'"
  by (rule reachable_steps[OF simulate_steps])

section \<open>What the members agree on\<close>

lemma reachable_node:
  assumes "cluster_reachable n C" "p < n"
  shows "node_inv n (sent C) (got C p) (node C p)" "member_index (node C p) = p" "group_inv (node C p)"
    "dg_n (node C p) = n" "-1 \<le> delivered_num (my_row (node C p))"
    "delivered_raw (node C p) = raw_upto n (sent C) (delivered_num (my_row (node C p)))"
  using cluster_node[OF cluster.inv_reachable[OF assms(1)] assms(2)]
  by (simp_all add: node_inv_def delivered_inv_def group_inv_def order_inv_def)

text \<open>
  C3. A message is delivered at one member only when every member has received it and all
  messages before it in the global order, and every member knows it to be stable. Rows
  travel at any speed and in any mixture of published values; the three-stage counters
  (received, stable, delivered) still keep deliveries behind what all have received.
\<close>

theorem delivered_only_if_received_by_all:
  assumes "cluster_reachable n C" and "p < n" and "r < n" and "0 \<le> k" and "k \<le> delivered_num (my_row (node C p))"
  shows "received n (my_counts (node C r)) k \<and> k \<le> stable_num (my_row (node C r))"
proof -
  have inv: "cluster_inv n C" using assms(1) by (rule cluster.inv_reachable)
  then have le: "delivered_num (my_row (node C p)) \<le> stable_num (my_row (node C r))"
    using assms(2,3) by (simp add: cluster_inv_def stable_everywhere_def)
  note N = cluster_node[OF inv assms(3)]
  have "received n (my_counts (node C r)) k"
    using contiguous_prefix_received[of n "my_counts (node C r)" k] N(4,5) assms(4,5) le
    by (auto simp: group_inv_def rows_inv_def order_inv_def)
  with le assms(5) show ?thesis by simp
qed

text \<open>
  C2. Refinement of the abstract broadcast: the raw messages a member has delivered, with
  sender, index and bytes, are exactly the messages its \<^verbatim>\<open>delivered_num\<close> covers of one
  sequence that depends only on what the senders handed to RDMC: the round-robin merge of
  the senders' logs, in which a pausing message takes up the turns it skips.
\<close>

theorem delivers_the_merged_logs:
  assumes "cluster_reachable n C" and "p < n"
  shows "delivered_raw (node C p) =
    concat (map (raw_at n (sent C)) [0..delivered_num (my_row (node C p))])"
  using reachable_node(6)[OF assms] by (simp add: raw_upto_def)

text \<open>
  C1. Total order: of any two members of a view, one has delivered a prefix of what the
  other has, with the same bytes in the same order.
\<close>

theorem total_order:
  assumes "cluster_reachable n C" and "p < n" and "r < n"
  shows "(\<exists>ms. delivered_raw (node C r) = delivered_raw (node C p) @ ms) \<or>
    (\<exists>ms. delivered_raw (node C p) = delivered_raw (node C r) @ ms)"
  using reachable_node(5,6)[OF assms(1,2)] reachable_node(5,6)[OF assms(1,3)]
    raw_upto_mono[of "delivered_num (my_row (node C p))" "delivered_num (my_row (node C r))" n "sent C"]
    raw_upto_mono[of "delivered_num (my_row (node C r))" "delivered_num (my_row (node C p))" n "sent C"]
  by (cases "delivered_num (my_row (node C p)) \<le> delivered_num (my_row (node C r))") simp_all

section \<open>The constructors start a cluster\<close>

lemma max_msg_size_holds_header:
  assumes run: "compute_max_msg_size pl block = Inr sz" and fits: "unat pl + 9 + unat block < 2 ^ 64"
  shows "9 \<le> unat sz"
proof -
  let ?x = "pl + 9"
  have x: "unat ?x = unat pl + 9" using fits by (simp add: unat_word_ariths)
  show ?thesis
  proof (cases "?x mod block = 0")
    case True
    with run x show ?thesis
      by (auto simp: compute_max_msg_size_def sizeof_header_def Let_def mod_eq_0_iff_dvd split: if_splits)
  next
    case False
    with run have sz: "sz = (?x div block + 1) * block" and b: "block \<noteq> 0"
      by (auto simp: compute_max_msg_size_def sizeof_header_def Let_def split: if_splits)
    let ?m = "(unat ?x div unat block + 1) * unat block"
    have b0: "0 < unat block" using b by (simp add: unat_gt_0)
    have "unat ?x = unat ?x div unat block * unat block + unat ?x mod unat block" by simp
    moreover have "?m = unat ?x div unat block * unat block + unat block" by simp
    ultimately have le: "unat ?x \<le> ?m" "?m \<le> unat ?x + unat block"
      using mod_less_divisor[OF b0, of "unat ?x"] by linarith+
    have q: "unat ?x div unat block \<le> unat ?x" by simp
    have "unat ?x div unat block < 2 ^ 64 - 1"
      by (rule le_less_trans[OF q]) (use fits x b0 in simp)
    then have "unat (?x div block) + unat (1 :: u64) < 2 ^ LENGTH(64)"
      unfolding unat_div by simp
    then have "unat (?x div block + 1) = unat (?x div block) + unat (1 :: u64)"
      by (rule unat_add_lem[THEN iffD1])
    then have "unat (?x div block + 1) = unat ?x div unat block + 1" by (simp add: unat_div)
    then have "unat sz = ?m mod 2 ^ 64" by (simp add: sz unat_word_ariths(2) del: unat_mult_lem)
    also have "\<dots> = ?m" by (rule mod_less) (use le(2) fits x in linarith)
    finally show ?thesis using le(1) x by linarith
  qed
qed

lemma no_raw_call: "stability_seq n c = [] \<Longrightarrow> raw_call c = []"
  by (cases c) auto

lemma index_of_nth: "distinct xs \<Longrightarrow> i < length xs \<Longrightarrow> index_of xs (xs ! i) = i"
  by (induction xs arbitrary: i) (auto simp: nth_Cons' split: nat.splits)

lemma initialized_published:
  assumes "local_index (dg_sst g) = member_index g" "member_index g < dg_n g" "dg_n g \<le> num_rows (dg_sst g)"
    "published g = []"
  shows "\<forall>r \<in> set (take (dg_n g) (rows (dg_sst (initialize_sst_row g)))) \<union> set (published (initialize_sst_row g)).
    seq_num r = -1 \<and> stable_num r = -1 \<and> delivered_num r = -1"
  using assms
  by (auto simp: initialize_sst_row_def Let_def published_def put_def sync_with_members_def local_row_def
      initialize_row_def nth_append)

definition rows_reset :: "'o dgroup \<Rightarrow> bool" where
  "rows_reset g \<longleftrightarrow> list_all (\<lambda>r. seq_num r = -1 \<and> stable_num r = -1 \<and> delivered_num r = -1)
     (take (dg_n g) (rows (dg_sst g)) @ published g)"

lemma start_dgroup_started:
  assumes run: "start_dgroup af ok g0 = Inr g" and failed: "af = [] \<or> dg_n g0 \<le> length af"
    and fits: "sst_fits (dg_n g0) (member_index g0) (dg_sst g0)" and quiet: "published g0 = []"
    and empty: "dg_calls g0 = []" "locally_stable_messages g0 = []" "current_receives g0 = []" "current_send g0 = None"
    and chain: "chained (member_index g0) 0 (outgoing g0) (future_message_index g0)"
    and wires: "\<forall>m \<in> set (outgoing g0). wire_ok (wire_of m)" "9 \<le> unat (max_msg_size g0)"
  shows "started g \<and> rows_reset g \<and> dg_members g = dg_members g0 \<and> member_index g = member_index g0 \<and>
    outgoing g = outgoing g0"
proof -
  obtain cs created where cs: "concat (map (stability_seq (dg_n g0)) cs) = []"
    and "start_dgroup af ok g0 = Inr (register_group_predicates
       ((initialize_sst_row g0)\<lparr>dg_calls := dg_calls g0 @ cs, rdmc_groups_created := created\<rparr>))"
    using failed by (rule start_dgroup_runs)
  then have g: "g = register_group_predicates
       ((initialize_sst_row g0)\<lparr>dg_calls := cs, rdmc_groups_created := created\<rparr>)" using run empty(1) by simp
  have row: "rows (dg_sst (initialize_sst_row g0)) ! member_index g0 = initialize_row (dg_n g0) (my_row g0)"
    "num_rows (dg_sst (initialize_sst_row g0)) = num_rows (dg_sst g0)"
    using fits initialized_row[of "member_index g0" g0] by (auto simp: sst_fits_def)
  have fields: "dg_members g = dg_members g0" "member_index g = member_index g0" "dg_calls g = cs"
    "outgoing g = outgoing g0" "future_message_index g = future_message_index g0" "max_msg_size g = max_msg_size g0"
    "current_send g = None" "locally_stable_messages g = []" "current_receives g = []"
    "rows (dg_sst g) = rows (dg_sst (initialize_sst_row g0))" "published g = published (initialize_sst_row g0)"
    "local_index (dg_sst g) = member_index g0"
    using empty fits by (simp_all add: g register_group_predicates_def initialize_sst_row_def Let_def published_def
        pred_fields outgoing_def sst_fits_def put_fields sync_fields)
  have "fresh_group (g\<lparr>next_send := None, pending_sends := [], current_send := None, future_message_index := 0\<rparr>)"
    using fits cs fields row
    by (simp add: fresh_group_def sst_fits_def initialize_row_def outgoing_def opt_list_def callback_seqs_def
        list_all_length)
  moreover have "raw_call c = []" if "c \<in> set cs" for c using cs that no_raw_call[of "dg_n g0" c] by simp
  ultimately have "started g"
    using chain wires fields by (simp add: started_def delivered_raw_def list_all_iff)
  moreover have "rows_reset g"
    using initialized_published[of g0] fits quiet unfolding rows_reset_def fields list_all_iff
    by (simp add: sst_fits_def)
  ultimately show ?thesis using fields by simp
qed

lemma new_group_started:
  assumes run: "new_group ms me s bufs disp params files af ok = Inr g"
    and fits: "sst_fits (length ms) (index_of ms me) s" and failed: "af = [] \<or> length ms \<le> length af"
    and quiet: "concat (map published_row (calls s)) = []"
    and size: "unat (max_payload_size params) + 9 + unat (dp_block_size params) < 2 ^ 64"
  shows "started g \<and> rows_reset g \<and> dg_members g = ms \<and> member_index g = index_of ms me"
proof -
  from run obtain g0 where run0: "start_dgroup af ok g0 = Inr g" and g0: "dg_members g0 = ms" "member_index g0 = index_of ms me"
    "dg_sst g0 = s" "dg_calls g0 = []" "locally_stable_messages g0 = []" "current_receives g0 = []" "current_send g0 = None"
    "outgoing g0 = []" "future_message_index g0 = 0"
    "compute_max_msg_size (max_payload_size params) (dp_block_size params) = Inr (max_msg_size g0)"
    by (auto simp: new_group_def Let_def outgoing_def opt_list_def guardE_def split: if_splits)
  from start_dgroup_started[OF run0] failed fits quiet max_msg_size_holds_header[OF g0(10) size] g0
  show ?thesis by (simp add: published_def)
qed

text \<open>Groups of one member list that all have started form a cluster.\<close>

lemma started_groups_cluster:
  assumes "\<And>p. p < length ms \<Longrightarrow> started (node C p) \<and> rows_reset (node C p) \<and> dg_members (node C p) = ms \<and>
      member_index (node C p) = p"
    and "\<And>p q. sent C q = [] \<and> got C p q = 0"
  shows "cluster_init (length ms) C"
  unfolding cluster_init_def
proof (intro conjI allI impI)
  fix p assume p: "p < length ms"
  from assms(1)[OF p] show "started (node C p)" "dg_n (node C p) = length ms" "member_index (node C p) = p"
    "list_all (\<lambda>r. seq_num r = -1 \<and> stable_num r = -1 \<and> delivered_num r = -1)
       (take (length ms) (rows (dg_sst (node C p))) @ published (node C p))"
    unfolding rows_reset_def by auto
qed (use assms(2) in auto)

lemma new_groups_cluster:
  assumes "distinct ms"
    and "\<And>p. p < length ms \<Longrightarrow> new_group ms (ms ! p) (s p) (bufs p) (disp p) params (files p) [] (ok p) = Inr (node C p)"
    and "\<And>p. p < length ms \<Longrightarrow> sst_fits (length ms) p (s p) \<and> concat (map published_row (calls (s p))) = []"
    and "unat (max_payload_size params) + 9 + unat (dp_block_size params) < 2 ^ 64"
    and "\<And>p q. sent C q = [] \<and> got C p q = 0"
  shows "cluster_init (length ms) C"
proof (rule started_groups_cluster[OF _ assms(5)])
  fix p assume p: "p < length ms"
  have i: "index_of ms (ms ! p) = p" by (rule index_of_nth[OF assms(1) p])
  have "sst_fits (length ms) (index_of ms (ms ! p)) (s p)" using assms(3)[OF p] by (simp add: i)
  from new_group_started[OF assms(2)[OF p] this _ _ assms(4)] assms(3)[OF p]
  show "started (node C p) \<and> rows_reset (node C p) \<and> dg_members (node C p) = ms \<and> member_index (node C p) = p"
    by (simp add: i)
qed

text \<open>
  C20. The constructors start such a cluster: when every member of a view has built its group
  with \<^verbatim>\<open>DerechoGroup\<close>'s constructor over the same member list, on a table to which nothing
  has been published, the groups together are a state the
  cluster can start from, and nobody has delivered anything.
\<close>

theorem constructors_start_a_cluster:
  assumes "distinct ms"
    and "\<And>p. p < length ms \<Longrightarrow> new_group ms (ms ! p) (s p) (bufs p) (disp p) params (files p) [] (ok p) = Inr (node C p)"
    and "\<And>p. p < length ms \<Longrightarrow> sst_fits (length ms) p (s p) \<and> concat (map published_row (calls (s p))) = []"
    and "unat (max_payload_size params) + 9 + unat (dp_block_size params) < 2 ^ 64"
    and "\<And>p q. sent C q = [] \<and> got C p q = 0"
  shows "cluster_reachable (length ms) C \<and> (\<forall>p < length ms. delivered_raw (node C p) = [])"
proof -
  have "cluster_init (length ms) C" by (rule new_groups_cluster[OF assms])
  then have "cluster_reachable (length ms) C" by (rule reachable_init)
  with \<open>cluster_init (length ms) C\<close> show ?thesis by (simp add: cluster_init_def started_def)
qed

section \<open>A cluster of two\<close>

definition pair_params :: derecho_params where
  "pair_params = \<lparr>max_payload_size = 7, dp_block_size = 16, filename = [], dp_window_size = 2, timeout_ms = 1,
     rpc_port = 12487\<rparr>"

definition pair_group :: "nat \<Rightarrow> unit dgroup result" where
  "pair_group p = new_group [7, 8] ([7, 8] ! p) (duo_sst\<lparr>local_index := p\<rparr>) []
     \<lparr>nid = [7, 8] ! p, invs = [], objects = ()\<rparr> pair_params ([], []) [] (\<lambda>_. True)"

definition pair :: "unit cluster" where
  "pair = \<lparr>node = (\<lambda>p. case pair_group p of Inl _ \<Rightarrow> solo_group | Inr g \<Rightarrow> g), sent = (\<lambda>_. []), got = (\<lambda>_ _. 0)\<rparr>"

lemma pair_groups: "p < 2 \<Longrightarrow> pair_group p = Inr (node pair p)"
proof -
  have "compute_max_msg_size 7 16 = Inr 16" by (simp add: compute_max_msg_size_def sizeof_header_def)
  moreover have "\<exists>g'. start_dgroup [] ok g = Inr g'" for ok and g :: "unit dgroup"
    by (rule start_dgroup_runs[of "[]" g ok]) auto
  ultimately have "\<exists>g. pair_group p = Inr g"
    by (simp add: pair_group_def new_group_def pair_params_def guardE_def Let_def)
  then show ?thesis by (auto simp: pair_def)
qed

lemma pair_starts:
  "distinct [7, 8 :: node_id]"
  "p < length [7, 8 :: node_id] \<Longrightarrow> new_group [7, 8] ([7, 8] ! p) (duo_sst\<lparr>local_index := p\<rparr>) []
     \<lparr>nid = [7, 8] ! p, invs = [], objects = ()\<rparr> pair_params ([], []) [] (\<lambda>_. True) = Inr (node pair p)"
  "p < length [7, 8 :: node_id] \<Longrightarrow> sst_fits (length [7, 8 :: node_id]) p (duo_sst\<lparr>local_index := p\<rparr>) \<and>
     concat (map published_row (calls (duo_sst\<lparr>local_index := p\<rparr>))) = []"
  "unat (max_payload_size pair_params) + 9 + unat (dp_block_size pair_params) < 2 ^ 64"
  "sent pair q = [] \<and> got pair p q = 0"
  using pair_groups[of p]
  by (auto simp: pair_group_def pair_params_def pair_def sst_fits_def duo_sst_def duo_row_def less_Suc_eq)

lemma pair_init: "cluster_init 2 pair"
  using new_groups_cluster[OF pair_starts] by (simp add: numeral_2_eq_2)

theorem constructors_start_a_cluster_witness: "cluster_reachable 2 pair \<and> delivered_raw (node pair 1) = []"
  using constructors_start_a_cluster[OF pair_starts] by (simp add: numeral_2_eq_2)

text \<open>Both members send a message; member 1 lets member 0's pass one turn.\<close>

definition pair_moves :: "move list" where
  "pair_moves = [Get 0 1 0 False, Fill 0 [65], Send 0, Loop 0, Own 0, Get 1 2 1 False, Fill 1 [66, 67], Send 1, Loop 1, Own 1,
     Start 1 0, Recv 1 0, Start 0 1, Recv 0 1, Row 0 1, Row 1 0, Stabilize 0, Stabilize 1, Row 0 1, Row 1 0,
     Deliver 0, Deliver 0, Deliver 1]"

definition pair_end :: "unit cluster" where
  "pair_end = (case simulate 2 pair_moves pair of None \<Rightarrow> pair | Some C \<Rightarrow> C)"



lemma pair_run:
  "map_option (\<lambda>C. (map (\<lambda>p. delivered_raw (node C p)) [0, 1],
      map (\<lambda>p. (delivered_num (my_row (node C p)), stable_num (my_row (node C p)), my_counts (node C p))) [0, 1],
      map fst (sent C 0 @ sent C 1)))
     (simulate 2 pair_moves pair) =
   Some ([[(0, 0, [65]), (1, 0, [66, 67])], [(0, 0, [65])]], [(1, 1, [0, 1]), (0, 1, [0, 1])], [10, 11])"
  by code_simp

lemma pair_end_facts:
  "delivered_raw (node pair_end 0) = [(0, 0, [65]), (1, 0, [66, 67])]" "delivered_raw (node pair_end 1) = [(0, 0, [65])]"
  "delivered_num (my_row (node pair_end 0)) = 1" "delivered_num (my_row (node pair_end 1)) = 0"
  "stable_num (my_row (node pair_end 1)) = 1" "my_counts (node pair_end 1) = [0, 1]"
  using pair_run by (auto simp: pair_end_def)

lemma pair_end_reachable: "cluster_reachable 2 pair_end"
proof -
  have "cluster_reachable 2 pair" by (rule reachable_init) (rule pair_init)
  moreover obtain C where "simulate 2 pair_moves pair = Some C" using pair_run by auto
  ultimately show ?thesis using simulate_reachable[of 2 pair_moves pair C] by (simp add: pair_end_def)
qed

theorem delivered_only_if_received_by_all_witness:
  "delivered_num (my_row (node pair_end 0)) = 1 \<and> received 2 (my_counts (node pair_end 1)) 1"
  using delivered_only_if_received_by_all[OF pair_end_reachable, of 0 1 1] by (simp add: pair_end_facts)

theorem delivers_the_merged_logs_witness:
  "concat (map (raw_at 2 (sent pair_end)) [0..1]) = [(0, 0, [65]), (1, 0, [66, 67])]"
  using delivers_the_merged_logs[OF pair_end_reachable, of 0] by (simp add: pair_end_facts)

theorem total_order_witness:
  "\<exists>ms. delivered_raw (node pair_end 0) = delivered_raw (node pair_end 1) @ ms"
  unfolding pair_end_facts using total_order[OF pair_end_reachable, of 0 1, unfolded pair_end_facts] by simp

end
