(* ===== verification/View.thy ===== *)
theory View
  imports Sst_Row
begin

text \<open>
  The membership view (\<^verbatim>\<open>view.h\<close>, \<^verbatim>\<open>view_impl.h\<close>): its data, the rank
  queries, leader election, and the merge of the proposed-changes lists that a new leader
  performs. The view's SST is shared with its \<^verbatim>\<open>DerechoGroup\<close>; the model keeps
  one copy of the table and passes it to the methods that use it.
\<close>

section \<open>Data\<close>

record view =
  vid :: int
  members :: "node_id list"
  member_ips :: "string list"
  failed :: "bool list"
  nFailed :: int
  who :: "node_id option"
  num_members :: int
  my_rank :: int
  IKnowIAmLeader :: bool

abbreviation size_of :: "view \<Rightarrow> nat" where
  "size_of v \<equiv> nat (num_members v)"

definition new_view :: "int \<Rightarrow> view" where
  "new_view n = \<lparr>vid = 0, members = replicate (nat n) 0, member_ips = replicate (nat n) [],
     failed = replicate (nat n) False, nFailed = 0, who = None, num_members = n, my_rank = 0,
     IKnowIAmLeader = False\<rparr>"

definition empty_view :: view where
  "empty_view = new_view 0"

text \<open>\<^verbatim>\<open>std::vector::resize\<close> and \<^verbatim>\<open>init_vectors\<close>.\<close>

definition resize :: "'a \<Rightarrow> nat \<Rightarrow> 'a list \<Rightarrow> 'a list" where
  "resize d n xs = take n xs @ replicate (n - length xs) d"

definition init_vectors :: "view \<Rightarrow> view" where
  "init_vectors v = v\<lparr>members := resize 0 (size_of v) (members v),
     member_ips := resize [] (size_of v) (member_ips v),
     failed := resize False (size_of v) (failed v)\<rparr>"

section \<open>Queries\<close>

definition rank_of_leader :: "view \<Rightarrow> int" where
  "rank_of_leader v = scan (\<lambda>r. \<not> failed v ! r) (size_of v)"

definition rank_of_ip :: "view \<Rightarrow> string \<Rightarrow> int" where
  "rank_of_ip v ip = scan (\<lambda>rank. member_ips v ! rank = ip) (size_of v)"

definition rank_of :: "view \<Rightarrow> node_id \<Rightarrow> int" where
  "rank_of v p = scan (\<lambda>rank. members v ! rank = p) (size_of v)"

definition IAmLeader :: "view \<Rightarrow> bool" where
  "IAmLeader v \<longleftrightarrow> rank_of_leader v = my_rank v"

definition Joined :: "view \<Rightarrow> node_id option" where
  "Joined v = (case who v of None \<Rightarrow> None
     | Some p \<Rightarrow> if scan (\<lambda>r. members v ! r = p) (size_of v) \<noteq> -1 then who v else None)"

definition Departed :: "view \<Rightarrow> node_id option" where
  "Departed v = (case who v of None \<Rightarrow> None
     | Some p \<Rightarrow> if scan (\<lambda>r. members v ! r = p) (size_of v) \<noteq> -1 then None else who v)"

text \<open>
  \<^verbatim>\<open>IAmTheNewLeader\<close>: both loops run to \<^verbatim>\<open>my_rank\<close>, and a true answer is
  remembered.
\<close>

definition IAmTheNewLeader :: "view \<Rightarrow> sst \<Rightarrow> bool \<times> view" where
  "IAmTheNewLeader v s =
     (if IKnowIAmLeader v then (False, v)
      else if list_ex (\<lambda>n. list_ex (\<lambda>row. \<not> failed v ! n \<and> \<not> suspected (rows s ! row) ! n)
             [0..<nat (my_rank v)]) [0..<nat (my_rank v)]
      then (False, v)
      else (True, v\<lparr>IKnowIAmLeader := True\<rparr>))"

section \<open>The list of proposed changes\<close>

text \<open>
  \<^verbatim>\<open>changes\<close> is a ring buffer: change number \<open>c\<close> sits at \<^verbatim>\<open>c % MAX_MEMBERS\<close>, and
  the changes that are proposed but not committed are numbers \<^verbatim>\<open>nCommitted\<close> to
  \<^verbatim>\<open>nChanges - 1\<close>.
\<close>

definition change_at :: "nat \<Rightarrow> derecho_row \<Rightarrow> int \<Rightarrow> node_id" where
  "change_at N r c = changes r ! (nat c mod N)"

definition propose_change :: "nat \<Rightarrow> node_id \<Rightarrow> derecho_row \<Rightarrow> derecho_row" where
  "propose_change N q r = r\<lparr>changes := (changes r)[nat (nChanges r) mod N := q],
     nChanges := increment (nChanges r)\<rparr>"

definition pending_changes :: "nat \<Rightarrow> derecho_row \<Rightarrow> node_id list" where
  "pending_changes N r = map (change_at N r) [nCommitted r..nChanges r - 1]"

section \<open>merge\_changes\<close>

definition merge_row :: "derecho_row \<Rightarrow> derecho_row \<Rightarrow> derecho_row" where
  "merge_row me other =
     (let me = (if nChanges me < nChanges other
                then me\<lparr>changes := changes other, nChanges := nChanges other\<rparr> else me)
      in if nCommitted me < nCommitted other then me\<lparr>nCommitted := nCommitted other\<rparr> else me)"

definition merge_step :: "sst \<Rightarrow> nat \<Rightarrow> sst" where
  "merge_step s n = upd_local (\<lambda>me. merge_row me (rows s ! n)) s"

text \<open>
  The second loop carries \<^verbatim>\<open>found\<close>, which is declared before the loop and never
  reset inside it.
\<close>

definition list_failed_step :: "nat \<Rightarrow> view \<Rightarrow> bool \<times> sst \<Rightarrow> nat \<Rightarrow> bool \<times> sst" where
  "list_failed_step N v fs n = (case fs of (found, s) \<Rightarrow>
     let found' = (if failed v ! n
                   then found \<or> members v ! n \<in> set (pending_changes N (local_row s))
                   else True)
     in if \<not> found' then (found', upd_local (propose_change N (members v ! n)) s)
        else (found', s))"

definition merge_changes :: "nat \<Rightarrow> view \<Rightarrow> sst \<Rightarrow> sst" where
  "merge_changes N v s =
     (let s1 = foldl merge_step s [0..<size_of v];
          (found, s2) = foldl (list_failed_step N v) (False, s1) [0..<size_of v]
      in put s2)"

section \<open>Well-formed views\<close>

definition view_wf :: "view \<Rightarrow> bool" where
  "view_wf v \<longleftrightarrow> 0 \<le> num_members v \<and> length (members v) = size_of v \<and>
     length (member_ips v) = size_of v \<and> length (failed v) = size_of v \<and>
     distinct (members v) \<and> nFailed v = int (count_list (failed v) True) \<and>
     0 \<le> my_rank v \<and> my_rank v < num_members v"

lemma view_wf_lengths:
  "view_wf v \<Longrightarrow> length (members v) = size_of v \<and> length (member_ips v) = size_of v \<and>
     length (failed v) = size_of v"
  by (simp add: view_wf_def)

lemma length_resize [simp]: "length (resize d n xs) = n"
  by (simp add: resize_def)

lemma view_wf_my_rank: "view_wf v \<Longrightarrow> nat (my_rank v) < size_of v"
  by (auto simp: view_wf_def)

section \<open>Rank queries\<close>

lemma rank_of_eq_iff: "view_wf v \<Longrightarrow> rank_of v p = int r \<longleftrightarrow> r < size_of v \<and> members v ! r = p"
proof -
  assume wf: "view_wf v"
  have "\<forall>j < r. members v ! j \<noteq> p" if "r < size_of v" "members v ! r = p"
    using that wf by (auto simp: view_wf_def distinct_conv_nth)
  then show ?thesis by (auto simp: rank_of_def scan_eq_int_iff)
qed

lemma rank_of_None_iff: "view_wf v \<Longrightarrow> rank_of v p = -1 \<longleftrightarrow> p \<notin> set (members v)"
  by (auto simp: rank_of_def scan_None_iff in_set_conv_nth view_wf_def)

lemma rank_of_member:
  assumes "view_wf v" "p \<in> set (members v)"
  obtains r where "rank_of v p = int r" "r < size_of v" "members v ! r = p"
  using assms rank_of_eq_iff[of v p] by (metis in_set_conv_nth view_wf_lengths)

lemma rank_of_leader_eq_iff:
  "rank_of_leader v = int r \<longleftrightarrow> r < size_of v \<and> \<not> failed v ! r \<and> (\<forall>j < r. failed v ! j)"
  by (auto simp: rank_of_leader_def scan_eq_int_iff)

lemma rank_of_leader_None_iff: "rank_of_leader v = -1 \<longleftrightarrow> (\<forall>j < size_of v. failed v ! j)"
  by (simp add: rank_of_leader_def scan_None_iff)

lemma leader_unique: "IAmLeader v \<Longrightarrow> IAmLeader (v\<lparr>my_rank := r\<rparr>) \<Longrightarrow> r = my_rank v"
  by (simp add: IAmLeader_def rank_of_leader_def)

section \<open>The ring buffer of changes is a queue\<close>

lemma mod_neq_in_window:
  fixes c k :: nat
  assumes "c < k" and "k - c < N"
  shows "c mod N \<noteq> k mod N"
proof
  assume "c mod N = k mod N"
  then have "N dvd k - c" using assms(1) mod_eq_dvd_iff_nat[of c k N] by simp
  with assms show False by (simp add: nat_dvd_not_less)
qed

lemma pending_propose_change:
  assumes wf: "length (changes r) = N" and pos: "0 \<le> nCommitted r" "nCommitted r \<le> nChanges r"
    and room: "nChanges r - nCommitted r < int N"
  shows "pending_changes N (propose_change N q r) = pending_changes N r @ [q]"
proof -
  have N: "0 < N" using pos room by linarith
  let ?r = "propose_change N q r"
  have keep: "change_at N ?r c = change_at N r c" if "c \<in> set [nCommitted r..nChanges r - 1]" for c
  proof -
    from that have "nat c < nat (nChanges r)" "nat (nChanges r) - nat c < N"
      using pos room by auto
    then have "nat c mod N \<noteq> nat (nChanges r) mod N" by (rule mod_neq_in_window)
    then show ?thesis by (simp add: change_at_def propose_change_def)
  qed
  have new: "change_at N ?r (nChanges r) = q"
    using N wf by (simp add: change_at_def propose_change_def)
  have "[nCommitted r..nChanges r] = [nCommitted r..nChanges r - 1] @ [nChanges r]"
    using pos by (simp add: upto_rec2)
  with keep new show ?thesis
    by (simp add: pending_changes_def) (simp add: propose_change_def increment_def)
qed

lemma propose_change_counters [simp]:
  "nChanges (propose_change N q r) = nChanges r + 1"
  "nCommitted (propose_change N q r) = nCommitted r" "nAcked (propose_change N q r) = nAcked r"
  by (simp_all add: propose_change_def increment_def)

lemma row_wf_propose_change: "row_wf N r \<Longrightarrow> row_wf N (propose_change N q r)"
  by (simp add: row_wf_def propose_change_def)

text \<open>
  The contract the membership code relies on: below capacity, proposing appends. It is
  stated for any bounded queue and interpreted on the ring buffer.
\<close>

locale bounded_queue =
  fixes contents :: "'q \<Rightarrow> 'a list"
    and add :: "'a \<Rightarrow> 'q \<Rightarrow> 'q"
    and wf :: "'q \<Rightarrow> bool"
    and capacity :: nat
  assumes contents_add: "wf q \<Longrightarrow> length (contents q) < capacity \<Longrightarrow> contents (add x q) = contents q @ [x]"
    and wf_add: "wf q \<Longrightarrow> wf (add x q)"
begin

lemma contents_foldl_add:
  "wf q \<Longrightarrow> length (contents q) + length xs \<le> capacity \<Longrightarrow>
   contents (foldl (\<lambda>q x. add x q) q xs) = contents q @ xs"
  by (induction xs arbitrary: q) (auto simp: contents_add wf_add)

lemma add_keeps: "wf q \<Longrightarrow> length (contents q) < capacity \<Longrightarrow> y \<in> set (contents q) \<Longrightarrow> y \<in> set (contents (add x q))"
  by (simp add: contents_add)

end

definition changes_wf :: "nat \<Rightarrow> derecho_row \<Rightarrow> bool" where
  "changes_wf N r \<longleftrightarrow> length (changes r) = N \<and> 0 \<le> nCommitted r \<and> nCommitted r \<le> nChanges r"

lemma length_pending_changes: "nCommitted r \<le> nChanges r \<Longrightarrow> int (length (pending_changes N r)) = nChanges r - nCommitted r"
  by (simp add: pending_changes_def)

interpretation change_queue: bounded_queue "pending_changes N" "propose_change N" "changes_wf N" N
  for N
proof
  fix r x
  assume wf: "changes_wf N r" and room: "length (pending_changes N r) < N"
  then have "nChanges r - nCommitted r < int N"
    using length_pending_changes[of r N] by (simp add: changes_wf_def)
  with wf show "pending_changes N (propose_change N x r) = pending_changes N r @ [x]"
    by (intro pending_propose_change) (auto simp: changes_wf_def)
qed (auto simp: changes_wf_def propose_change_def increment_def)

section \<open>Merging the change lists\<close>

lemma merge_row_nChanges [simp]: "nChanges (merge_row me other) = max (nChanges me) (nChanges other)"
  by (simp add: merge_row_def Let_def)

lemma merge_row_nCommitted [simp]:
  "nCommitted (merge_row me other) = max (nCommitted me) (nCommitted other)"
  by (simp add: merge_row_def Let_def)

lemma row_wf_merge_row: "row_wf N me \<Longrightarrow> row_wf N other \<Longrightarrow> row_wf N (merge_row me other)"
  by (simp add: row_wf_def merge_row_def Let_def)

lemma merge_row_self [simp]: "merge_row r r = r"
  by (simp add: merge_row_def)

lemma merge_step_row:
  "i < num_rows s \<Longrightarrow> local_index s < num_rows s \<Longrightarrow>
   rows (merge_step s n) ! i =
     (if i = local_index s then merge_row (local_row s) (rows s ! n) else rows s ! i)"
  by (auto simp: merge_step_def sst_simps local_row_def)

lemma merge_step_fields [simp]:
  "local_index (merge_step s n) = local_index s" "num_rows (merge_step s n) = num_rows s"
  "preds (merge_step s n) = preds s"
  by (simp_all add: merge_step_def sst_simps)

definition merged :: "sst \<Rightarrow> nat list \<Rightarrow> sst" where
  "merged s ns = foldl merge_step s ns"

lemma merged_fields [simp]:
  "local_index (merged s ns) = local_index s" "num_rows (merged s ns) = num_rows s"
  by (induction ns arbitrary: s) (auto simp: merged_def)

lemma merged_row_other:
  "i < num_rows s \<Longrightarrow> local_index s < num_rows s \<Longrightarrow> i \<noteq> local_index s \<Longrightarrow>
   rows (merged s ns) ! i = rows s ! i"
  by (induction ns arbitrary: s) (auto simp: merged_def merge_step_row)

lemma merged_upper:
  assumes "local_index s < num_rows s" "n \<in> set ns" "\<forall>n \<in> set ns. n < num_rows s"
  shows "nChanges (rows s ! n) \<le> nChanges (local_row (merged s ns)) \<and>
         nCommitted (rows s ! n) \<le> nCommitted (local_row (merged s ns))"
  using assms
proof (induction ns rule: rev_induct)
  case (snoc m ms)
  let ?t = "merged s ms"
  have step: "merged s (ms @ [m]) = merge_step ?t m" by (simp add: merged_def)
  have me: "local_row (merge_step ?t m) = merge_row (local_row ?t) (rows ?t ! m)"
    using snoc.prems by (simp add: merge_step_def sst_simps)
  have own: "nChanges (rows s ! local_index s) \<le> nChanges (local_row (merged s ks)) \<and>
     nCommitted (rows s ! local_index s) \<le> nCommitted (local_row (merged s ks))" for ks
    using snoc.prems(1)
  proof (induction ks rule: rev_induct)
    case (snoc k ks)
    then show ?case
      by (simp add: merged_def[of s "ks @ [k]"] merged_def[symmetric] merge_step_def
          sst_simps le_max_iff_disj)
  qed (simp add: merged_def local_row_def)
  show ?case
  proof (cases "n = m")
    case True
    have "rows ?t ! m = rows s ! m \<or> m = local_index s"
      using snoc.prems by (cases "m = local_index s") (auto simp: merged_row_other)
    with True own[of ms] show ?thesis
      by (auto simp: step me local_row_def[of ?t])
  next
    case False
    with snoc.prems have "n \<in> set ms" by simp
    with snoc show ?thesis by (auto simp: step me)
  qed
qed simp

lemma list_failed_step_grows:
  assumes "local_index s < num_rows s" "list_failed_step N v (f, s) n = (f', s')"
  shows "local_index s' = local_index s \<and> num_rows s' = num_rows s \<and>
    nChanges (local_row s) \<le> nChanges (local_row s') \<and> nCommitted (local_row s') = nCommitted (local_row s)"
  using assms by (auto simp: list_failed_step_def Let_def sst_simps split: if_splits)

lemma list_failed_fold_grows:
  assumes "local_index s < num_rows s" "foldl (list_failed_step N v) (f, s) ns = (f', s')"
  shows "local_index s' = local_index s \<and> num_rows s' = num_rows s \<and>
    nChanges (local_row s) \<le> nChanges (local_row s') \<and> nCommitted (local_row s') = nCommitted (local_row s)"
  using assms
proof (induction ns arbitrary: f s)
  case (Cons n ns)
  obtain g t where step: "list_failed_step N v (f, s) n = (g, t)" by fastforce
  note grow = list_failed_step_grows[OF Cons.prems(1) step]
  with Cons.prems step have "foldl (list_failed_step N v) (g, t) ns = (f', s')" by simp
  with Cons.IH[of t g] Cons.prems grow show ?case by auto
qed simp

lemma list_failed_found_absorbs:
  "foldl (list_failed_step N v) (True, s) ns = (True, s)"
  by (induction ns) (auto simp: list_failed_step_def Let_def)

end
