(* ===== verification/Managed_Group.thy ===== *)
theory Managed_Group
  imports View Group_Life
begin

text \<open>
  The group membership service (\<^verbatim>\<open>managed_group.h\<close>, \<^verbatim>\<open>managed_group_impl.h\<close>): its
  state, the predicates it evaluates on the shared table and their triggers, which
  together run the view-change protocol, and the calls of the application. The table is
  the one inside the current \<^verbatim>\<open>DerechoGroup\<close>; \<open>N\<close> is \<^verbatim>\<open>MAX_MEMBERS\<close>.
\<close>

section \<open>State\<close>

definition MAX_MEMBERS :: nat where
  "MAX_MEMBERS = 2"

text \<open>
  A client's connection: its address and the id it answers to \<^verbatim>\<open>exchange\<close>, if the
  exchange succeeds.
\<close>

record client =
  remote_ip :: string
  client_id :: "node_id option"

datatype 'o gms_call =
    Send_view client view derecho_params
  | Send_objects client 'o
  | Add_connection node_id string
  | Persist_view string view
  | View_upcall "node_id list" "node_id list"
  | Rdmc_sst_setup "(node_id, string) smap" node_id
  | Notify_view_change

record 'o managed =
  curr_view :: view
  curr_group :: "'o dgroup"
  next_view :: "view option"
  pending_joins :: "client list"
  joining_client :: "client option"
  last_suspected :: "bool list"
  mg_shutdown :: bool
  view_file_name :: string
  old_views :: "view list"
  mg_params :: derecho_params
  mg_calls :: "'o gms_call list"

abbreviation gms_sst :: "'o managed \<Rightarrow> sst" where
  "gms_sst g \<equiv> dg_sst (curr_group g)"

definition upd_sst :: "(sst \<Rightarrow> sst) \<Rightarrow> 'o managed \<Rightarrow> 'o managed" where
  "upd_sst f g = g\<lparr>curr_group := (curr_group g)\<lparr>dg_sst := f (gms_sst g)\<rparr>\<rparr>"

definition upd_group :: "('o dgroup \<Rightarrow> 'o dgroup) \<Rightarrow> 'o managed \<Rightarrow> 'o managed" where
  "upd_group f g = g\<lparr>curr_group := f (curr_group g)\<rparr>"

definition upd_view :: "(view \<Rightarrow> view) \<Rightarrow> 'o managed \<Rightarrow> 'o managed" where
  "upd_view f g = g\<lparr>curr_view := f (curr_view g)\<rparr>"

definition gms_call :: "'o gms_call \<Rightarrow> 'o managed \<Rightarrow> 'o managed" where
  "gms_call c g = g\<lparr>mg_calls := mg_calls g @ [c]\<rparr>"

text \<open>The leader's row; with every member failed the code would read row -1.\<close>

definition leader_row :: "view \<Rightarrow> sst \<Rightarrow> derecho_row result" where
  "leader_row v s = (if rank_of_leader v = -1 then Inl (Undefined ''row of no leader'')
     else Inr (rows s ! nat (rank_of_leader v)))"

text \<open>\<^verbatim>\<open>View::wedge\<close>.\<close>

definition view_wedge :: "'o managed \<Rightarrow> 'o managed" where
  "view_wedge g = upd_sst (\<lambda>s. put (set_row (nat (my_rank (curr_view g)))
     ((rows s ! nat (my_rank (curr_view g)))\<lparr>wedged := True\<rparr>) s)) (upd_group group_wedge g)"

section \<open>The helper methods\<close>

definition suspected_not_equal :: "nat \<Rightarrow> sst \<Rightarrow> bool list \<Rightarrow> bool" where
  "suspected_not_equal N s old =
     list_ex (\<lambda>r. list_ex (\<lambda>q. suspected (rows s ! r) ! q \<and> \<not> old ! q) [0..<N]) [0..<num_rows s]"

definition copy_suspected :: "sst \<Rightarrow> bool list \<Rightarrow> bool list" where
  "copy_suspected s old = foldl (\<lambda>old q. old[q := suspected (local_row s) ! q]) old [0..<num_rows s]"

definition changes_contains :: "nat \<Rightarrow> sst \<Rightarrow> node_id \<Rightarrow> bool" where
  "changes_contains N s q =
     (let myRow = local_row s
      in list_ex (\<lambda>n. let p_index = nat n mod N
                      in int p_index < nChanges myRow \<and> changes myRow ! p_index = q)
           [nCommitted myRow..nChanges myRow - 1])"

definition min_acked :: "sst \<Rightarrow> bool list \<Rightarrow> int" where
  "min_acked s fld = foldl (\<lambda>m n. if \<not> fld ! n \<and> nAcked (rows s ! n) < m then nAcked (rows s ! n) else m)
     (nAcked (local_row s)) [0..<length fld]"

section \<open>Suspicions\<close>

definition absorb_suspicions :: "nat \<Rightarrow> derecho_row \<Rightarrow> derecho_row \<Rightarrow> derecho_row" where
  "absorb_suspicions n me other = me\<lparr>suspected :=
     foldl (\<lambda>s q. s[q := s ! q \<or> suspected other ! q]) (suspected me) [0..<n]\<rparr>"

definition aggregate_suspicions :: "nat \<Rightarrow> sst \<Rightarrow> sst" where
  "aggregate_suspicions n s = foldl (\<lambda>s r. upd_local (\<lambda>me. absorb_suspicions n me (rows s ! r)) s) s [0..<n]"

definition majority_lost :: "view \<Rightarrow> bool" where
  "majority_lost v \<longleftrightarrow> nFailed v \<ge> (num_members v + 1) div 2"

text \<open>One member of the loop that turns suspicions into failures.\<close>

definition mark_failed :: "nat \<Rightarrow> nat \<Rightarrow> 'o managed \<Rightarrow> 'o managed result" where
  "mark_failed N q g =
     (if \<not> (suspected (local_row (gms_sst g)) ! q \<and> \<not> failed (curr_view g) ! q) then Inr g
      else if majority_lost (curr_view g)
      then Inl (Throw ''Majority of a Derecho group simultaneously failed ... shutting down'')
      else
        let g = upd_group group_wedge (upd_sst (freeze q) g);
            g = upd_sst (upd_local (\<lambda>r. r\<lparr>wedged := True\<rparr>)) g;
            g = upd_view (\<lambda>v. v\<lparr>failed := (failed v)[q := True], nFailed := nFailed v + 1\<rparr>) g
        in if majority_lost (curr_view g)
           then Inl (Throw ''Potential partitioning event: this node is no longer in the majority and must shut down!'')
           else
             let g = upd_sst put g; p = members (curr_view g) ! q
             in if IAmLeader (curr_view g) \<and> \<not> changes_contains N (gms_sst g) p then
                  (if nChanges (local_row (gms_sst g)) - nCommitted (local_row (gms_sst g)) = int N
                   then Inl (Throw ''Ran out of room in the pending changes list'')
                   else Inr (upd_sst (\<lambda>s. put (upd_local (propose_change N p) s)) g))
                else Inr g)"

fun mark_failed_all :: "nat \<Rightarrow> nat list \<Rightarrow> 'o managed \<Rightarrow> 'o managed result" where
  "mark_failed_all N [] g = Inr g"
| "mark_failed_all N (q # qs) g = bindE (mark_failed N q g) (mark_failed_all N qs)"

definition suspected_changed :: "nat \<Rightarrow> 'o managed \<Rightarrow> bool" where
  "suspected_changed N g = suspected_not_equal N (gms_sst g) (last_suspected g)"

definition suspected_changed_trig :: "nat \<Rightarrow> 'o managed \<Rightarrow> 'o managed result" where
  "suspected_changed_trig N g =
     bindE (guardE (int (local_index (gms_sst g)) = my_rank (curr_view g)) (Assert ''get_local_index() == my_rank'')) (\<lambda>_.
     bindE (mark_failed_all N [0..<size_of (curr_view g)]
              (upd_sst (aggregate_suspicions (size_of (curr_view g))) g)) (\<lambda>g.
       Inr (g\<lparr>last_suspected := copy_suspected (gms_sst g) (last_suspected g)\<rparr>)))"

section \<open>Joins\<close>

definition start_join_pred :: "'o managed \<Rightarrow> bool" where
  "start_join_pred g \<longleftrightarrow> IAmLeader (curr_view g) \<and> pending_joins g \<noteq> [] \<and> joining_client g = None"

text \<open>
  \<^verbatim>\<open>receive_join\<close>. The result of \<^verbatim>\<open>exchange\<close> is ignored, so a failed exchange
  leaves the initial id 0.
\<close>

definition receive_join :: "nat \<Rightarrow> client \<Rightarrow> 'o managed \<Rightarrow> 'o managed result" where
  "receive_join N c g =
     (let i = nat (my_rank (curr_view g)); s = gms_sst g; row = rows s ! i
      in if nChanges row - nCommitted row = int (N div 2)
         then Inl (Throw ''Too many changes to allow a Join right now'')
         else
           let joining_client_id = (case client_id c of None \<Rightarrow> 0 | Some p \<Rightarrow> p);
               next_change = nat (nChanges row) mod N;
               row = row\<lparr>changes := (changes row)[next_change := joining_client_id]\<rparr>
           in bindE (set_cstring (joiner_ip row) (remote_ip c)) (\<lambda>ip.
                let row = row\<lparr>joiner_ip := ip, nChanges := increment (nChanges row)\<rparr>
                in Inr (upd_sst put (view_wedge (upd_sst (set_row i row) g)))))"

definition start_join_trig :: "nat \<Rightarrow> 'o managed \<Rightarrow> 'o managed result" where
  "start_join_trig N g = (case pending_joins g of
      [] \<Rightarrow> Inl (Undefined ''front of an empty list'')
    | c # cs \<Rightarrow> receive_join N c (g\<lparr>joining_client := Some c, pending_joins := cs\<rparr>))"

section \<open>Agreement on the next change\<close>

definition change_commit_ready :: "'o managed \<Rightarrow> bool" where
  "change_commit_ready g \<longleftrightarrow> my_rank (curr_view g) = rank_of_leader (curr_view g) \<and>
     min_acked (gms_sst g) (failed (curr_view g)) > nCommitted (local_row (gms_sst g))"

definition commit_change :: "'o managed \<Rightarrow> 'o managed" where
  "commit_change g = upd_sst (\<lambda>s. put (upd_local (\<lambda>r. r\<lparr>nCommitted := min_acked s (failed (curr_view g))\<rparr>) s)) g"

definition leader_proposed_change :: "'o managed \<Rightarrow> bool result" where
  "leader_proposed_change g = bindE (leader_row (curr_view g) (gms_sst g)) (\<lambda>l.
     Inr (nChanges l > nAcked (local_row (gms_sst g))))"

definition echo_leader :: "derecho_row \<Rightarrow> derecho_row \<Rightarrow> derecho_row" where
  "echo_leader leader me = me\<lparr>changes := changes leader, joiner_ip := joiner_ip leader,
     nChanges := nChanges leader, nCommitted := nCommitted leader\<rparr>"

definition ack_proposed_change :: "'o managed \<Rightarrow> 'o managed result" where
  "ack_proposed_change g =
     bindE (guardE (int (local_index (gms_sst g)) = my_rank (curr_view g)) (Assert ''get_local_index() == my_rank'')) (\<lambda>_.
     bindE (leader_row (curr_view g) (gms_sst g)) (\<lambda>l.
       let leader = rank_of_leader (curr_view g);
           g = (if int (local_index (gms_sst g)) \<noteq> leader then upd_sst (upd_local (echo_leader l)) g else g);
           g = upd_sst (\<lambda>s. put (upd_local (\<lambda>r. r\<lparr>nAcked := nChanges (rows s ! nat leader)\<rparr>) s)) g
       in Inr (view_wedge g)))"

definition leader_committed_next_view :: "'o managed \<Rightarrow> bool result" where
  "leader_committed_next_view g = bindE (leader_row (curr_view g) (gms_sst g)) (\<lambda>l.
     Inr (nCommitted l > vid (curr_view g)))"

section \<open>The next view\<close>

text \<open>The loop that copies the members that stay, with its counter \<open>m\<close>.\<close>

fun copy_members :: "view \<Rightarrow> int \<Rightarrow> nat list \<Rightarrow> nat \<Rightarrow> view \<Rightarrow> view" where
  "copy_members Vc whoFailed [] m nv = nv"
| "copy_members Vc whoFailed (n # ns) m nv =
     (if int n \<noteq> whoFailed
      then copy_members Vc whoFailed ns (Suc m)
        (nv\<lparr>members := (members nv)[m := members Vc ! n],
            member_ips := (member_ips nv)[m := member_ips Vc ! n],
            failed := (failed nv)[m := failed Vc ! n]\<rparr>)
      else copy_members Vc whoFailed ns m nv)"

definition next_view_of :: "view \<Rightarrow> node_id \<Rightarrow> string \<Rightarrow> view result" where
  "next_view_of Vc currChangeID ip =
     (let nv = empty_view\<lparr>vid := vid Vc + 1, IKnowIAmLeader := IKnowIAmLeader Vc\<rparr>;
          myID = members Vc ! nat (my_rank Vc);
          whoFailed = rank_of Vc currChangeID;
          nv = (if whoFailed \<noteq> -1
            then init_vectors (nv\<lparr>nFailed := nFailed Vc - 1, num_members := num_members Vc - 1\<rparr>)
            else let new_member_rank = size_of Vc;
                     nv = init_vectors (nv\<lparr>nFailed := nFailed Vc, num_members := num_members Vc + 1\<rparr>)
                 in nv\<lparr>members := (members nv)[new_member_rank := currChangeID],
                       member_ips := (member_ips nv)[new_member_rank := c_str ip]\<rparr>);
          nv = copy_members Vc whoFailed [0..<size_of Vc] 0 nv;
          nv = nv\<lparr>who := Some currChangeID\<rparr>;
          nv = nv\<lparr>my_rank := rank_of nv myID\<rparr>
      in if my_rank nv = -1 then Inl (Throw ''Some other node reported that I failed.'') else Inr nv)"

definition start_view_change :: "nat \<Rightarrow> 'o managed \<Rightarrow> 'o managed result" where
  "start_view_change N g =
     (let g = upd_sst (\<lambda>s. remove_pred Leader_proposed (remove_pred Change_commit_ready (remove_pred Start_join s))) g
      in bindE (guardE (int (local_index (gms_sst g)) = my_rank (curr_view g)) (Assert ''get_local_index() == my_rank'')) (\<lambda>_.
         let g = view_wedge g;
             Vc = curr_view g;
             myRow = rows (gms_sst g) ! nat (my_rank Vc);
             currChangeID = changes myRow ! (nat (vid Vc) mod N);
             whoFailed = rank_of Vc currChangeID
         in bindE (next_view_of Vc currChangeID (joiner_ip myRow)) (\<lambda>nv.
              Inr (upd_sst (insert_pred (Meta_wedged (whoFailed \<noteq> -1) whoFailed))
                (g\<lparr>next_view := Some nv\<rparr>)))))"

definition is_meta_wedged :: "'o managed \<Rightarrow> bool" where
  "is_meta_wedged g \<longleftrightarrow>
     list_all (\<lambda>n. failed (curr_view g) ! n \<or> wedged (rows (gms_sst g) ! n)) [0..<num_rows (gms_sst g)]"

section \<open>The ragged edge\<close>

text \<open>\<^verbatim>\<open>int\<close> from \<^verbatim>\<open>long long\<close>.\<close>

definition to_int32 :: "int \<Rightarrow> int" where
  "to_int32 x = sint (word_of_int x :: 32 word)"

definition deliver_in_order :: "nat \<Rightarrow> 'o managed \<Rightarrow> 'o managed result" where
  "deliver_in_order Leader g =
     (let max_received_indices = map (\<lambda>n. globalMin (rows (gms_sst g) ! Leader) ! n) [0..<size_of (curr_view g)]
      in bindE (deliver_messages_upto max_received_indices (curr_group g)) (\<lambda>dg. Inr (g\<lparr>curr_group := dg\<rparr>)))"

text \<open>The smallest count any row reports for sender \<open>n\<close>, failed rows included.\<close>

definition min_received :: "sst \<Rightarrow> nat \<Rightarrow> nat \<Rightarrow> nat \<Rightarrow> int" where
  "min_received s myRank num n =
     foldl (\<lambda>m r. if m > nReceived (rows s ! r) ! n then to_int32 (nReceived (rows s ! r) ! n) else m)
       (to_int32 (nReceived (rows s ! myRank) ! n)) [0..<num]"

definition compute_globalMin :: "nat \<Rightarrow> nat \<Rightarrow> sst \<Rightarrow> sst" where
  "compute_globalMin myRank num s = foldl (\<lambda>s n. set_row myRank ((rows s ! myRank)\<lparr>
       globalMin := (globalMin (rows s ! myRank))[n := min_received s myRank num n]\<rparr>) s) s [0..<num]"

definition globalMin_done :: "nat \<Rightarrow> sst \<Rightarrow> sst" where
  "globalMin_done myRank s = put (set_row myRank ((rows s ! myRank)\<lparr>globalMinReady := True\<rparr>) s)"

definition copy_globalMin :: "nat \<Rightarrow> nat \<Rightarrow> nat \<Rightarrow> sst \<Rightarrow> sst" where
  "copy_globalMin myRank from_row num s = set_row myRank ((rows s ! myRank)\<lparr>
     globalMin := set_array_prefix (globalMin (rows s ! myRank)) (globalMin (rows s ! from_row)) num\<rparr>) s"

definition leader_ragged_edge_cleanup :: "'o managed \<Rightarrow> 'o managed result" where
  "leader_ragged_edge_cleanup g =
     (let Vc = curr_view g; myRank = nat (my_rank Vc); Leader = nat (rank_of_leader Vc);
          found = scan (\<lambda>n. globalMinReady (rows (gms_sst g) ! n)) (size_of Vc);
          g = upd_sst (\<lambda>s. if found \<noteq> -1 then copy_globalMin myRank (nat found) (size_of Vc) s
                           else compute_globalMin myRank (size_of Vc) s) g
      in deliver_in_order Leader (upd_sst (globalMin_done myRank) g))"

definition follower_ragged_edge_cleanup :: "'o managed \<Rightarrow> 'o managed result" where
  "follower_ragged_edge_cleanup g =
     bindE (leader_row (curr_view g) (gms_sst g)) (\<lambda>_.
       let Vc = curr_view g; myRank = nat (my_rank Vc); Leader = nat (rank_of_leader Vc);
           g = upd_sst (copy_globalMin myRank Leader (size_of Vc)) g
       in deliver_in_order Leader (upd_sst (globalMin_done myRank) g))"

definition ragged_edge_cleanup :: "'o managed \<Rightarrow> 'o managed result" where
  "ragged_edge_cleanup g = (if IAmLeader (curr_view g) then leader_ragged_edge_cleanup g
     else follower_ragged_edge_cleanup g)"

section \<open>Installing the next view\<close>

fun get_member_ips_from :: "node_id list \<Rightarrow> string list \<Rightarrow> bool list \<Rightarrow> (node_id, string) smap \<Rightarrow> (node_id, string) smap" where
  "get_member_ips_from (p # ps) (ip # ips) (f # fs) m =
     get_member_ips_from ps ips fs (if \<not> f then sm_assign p ip m else m)"
| "get_member_ips_from _ _ _ m = m"

definition get_member_ips_map :: "node_id list \<Rightarrow> string list \<Rightarrow> bool list \<Rightarrow> (node_id, string) smap" where
  "get_member_ips_map ps ips fs = get_member_ips_from ps ips fs []"

text \<open>
  The table constructor is a library's: \<open>new_rows\<close> are the rows it starts with and
  \<open>rdmc_ok\<close> is RDMC's answer to the creation of each group; \<open>u\<close> names the new group's
  logging callback.
\<close>

definition transition_sst_and_rdmc ::
  "nat \<Rightarrow> derecho_row list \<Rightarrow> (nat \<Rightarrow> bool) \<Rightarrow> nat \<Rightarrow> view \<Rightarrow> 'o managed \<Rightarrow> 'o dgroup result" where
  "transition_sst_and_rdmc N new_rows rdmc_ok u nv g =
     (let s = \<lparr>rows = new_rows, local_index = nat (my_rank nv), preds = [], calls = []\<rparr>
      in bindE (group_from_old (members nv) (members nv ! nat (my_rank nv)) s (curr_group g) (failed nv) u rdmc_ok) (\<lambda>dg.
         let i = nat (my_rank nv);
             r = init_from_existing N (rows (dg_sst dg) ! i) (rows (gms_sst g) ! nat (my_rank (curr_view g)))
         in Inr (dg\<lparr>dg_sst := set_row i (r\<lparr>row_vid := vid nv\<rparr>) (dg_sst dg)\<rparr>)))"

definition register_predicates :: "'o managed \<Rightarrow> 'o managed" where
  "register_predicates g = upd_sst (\<lambda>s. insert_pred Leader_committed (insert_pred Leader_proposed
     (insert_pred Change_commit_ready (insert_pred Start_join (insert_pred Suspected_changed s))))) g"

definition removed_members :: "node_id list \<Rightarrow> node_id list \<Rightarrow> node_id list" where
  "removed_members new_members old_members = set_difference old_members new_members"

text \<open>The application's upcalls and the one the constructors append.\<close>

definition run_view_upcalls :: "node_id list \<Rightarrow> 'o managed \<Rightarrow> 'o managed result" where
  "run_view_upcalls old_members g =
     (let g = gms_call (View_upcall (members (curr_view g)) old_members) g
      in bindE (set_exceptions_for_removed_nodes (removed_members (members (curr_view g)) old_members) (curr_group g))
           (\<lambda>dg. Inr (g\<lparr>curr_group := dg\<rparr>)))"

definition commit_join :: "view \<Rightarrow> 'o managed \<Rightarrow> 'o managed result" where
  "commit_join nv g = (case joining_client g of
      None \<Rightarrow> Inl (Undefined ''no joining client'')
    | Some c \<Rightarrow> Inr (gms_call (Send_objects c (objects (dispatchers (curr_group g)))) (gms_call (Send_view c nv (mg_params g)) g)\<lparr>joining_client := None\<rparr>))"

definition install_view :: "view \<Rightarrow> 'o dgroup \<Rightarrow> 'o managed \<Rightarrow> 'o managed" where
  "install_view nv dg g = g\<lparr>old_views := old_views g @ [curr_view g], curr_view := nv, next_view := None,
     curr_group := dg\<rparr>"

definition first_task :: "nat \<Rightarrow> 'o managed \<Rightarrow> 'o managed" where
  "first_task N g =
     (let (am_new_leader, v) = IAmTheNewLeader (curr_view g) (gms_sst g); g = g\<lparr>curr_view := v\<rparr>
      in if am_new_leader then upd_sst (merge_changes N v) g else g)"

definition globalMin_ready_continuation ::
  "nat \<Rightarrow> derecho_row list \<Rightarrow> (nat \<Rightarrow> bool) \<Rightarrow> nat \<Rightarrow> bool \<Rightarrow> 'o managed \<Rightarrow> 'o managed result" where
  "globalMin_ready_continuation N new_rows rdmc_ok u was_failure g =
     (case next_view g of
        None \<Rightarrow> Inl (Assert ''next_view'')
      | Some nv \<Rightarrow>
          bindE (ragged_edge_cleanup g) (\<lambda>g.
          bindE (if IAmLeader (curr_view g) \<and> \<not> was_failure then commit_join nv g else Inr g) (\<lambda>g.
          let g = upd_sst (\<lambda>s. remove_pred Suspected_changed (remove_pred Leader_committed s)) g;
              g = (if length (members (curr_view g)) < length (members nv)
                   then gms_call (Add_connection (last (members nv)) (last (member_ips nv))) g else g)
          in bindE (transition_sst_and_rdmc N new_rows rdmc_ok u nv g) (\<lambda>dg.
             let old_members = members (curr_view g);
                 dg = dg\<lparr>dg_sst := sync_with_members (put (dg_sst dg))\<rparr>;
                 g = install_view nv dg g;
                 g = (if view_file_name g \<noteq> [] then gms_call (Persist_view (view_file_name g) nv) g else g);
                 g = upd_sst start_predicate_evaluation (register_predicates g);
                 g = first_task N g
             in bindE (run_view_upcalls old_members g) (\<lambda>g. Inr (gms_call Notify_view_change g))))))"

definition meta_wedged_continuation ::
  "nat \<Rightarrow> derecho_row list \<Rightarrow> (nat \<Rightarrow> bool) \<Rightarrow> nat \<Rightarrow> bool \<Rightarrow> int \<Rightarrow> 'o managed \<Rightarrow> 'o managed result" where
  "meta_wedged_continuation N new_rows rdmc_ok u was_failure whoFailed g =
     bindE (guardE (next_view g \<noteq> None) (Assert ''next_view'')) (\<lambda>_.
       if IAmLeader (curr_view g) then globalMin_ready_continuation N new_rows rdmc_ok u was_failure g
       else Inr (upd_sst (insert_pred (GlobalMin_ready was_failure whoFailed)) g))"

definition leader_globalMin_is_ready :: "'o managed \<Rightarrow> bool result" where
  "leader_globalMin_is_ready g = bindE (leader_row (curr_view g) (gms_sst g)) (\<lambda>l. Inr (globalMinReady l))"

section \<open>Calls of the application and the failure detector\<close>

definition report_failure :: "nat \<Rightarrow> node_id \<Rightarrow> 'o managed \<Rightarrow> 'o managed result" where
  "report_failure N p g =
     (let r = rank_of (curr_view g) p; i = nat (my_rank (curr_view g))
      in if r = -1 then Inl (Undefined ''suspected[-1]'')
         else
           let row = (rows (gms_sst g) ! i)\<lparr>suspected := (suspected (rows (gms_sst g) ! i))[nat r := True]\<rparr>;
               cnt = count_list (take N (suspected row)) True
           in if int cnt \<ge> (num_members (curr_view g) + 1) div 2
              then Inl (Throw ''Potential partitioning event: this node is no longer in the majority and must shut down!'')
              else Inr (upd_sst (\<lambda>s. put (set_row i row s)) g))"

definition leave :: "'o managed \<Rightarrow> 'o managed" where
  "leave g =
     (let g = upd_sst delete_all_predicates (upd_group group_wedge g); i = nat (my_rank (curr_view g))
      in (upd_sst (\<lambda>s. put (set_row i ((rows s ! i)\<lparr>suspected := (suspected (rows s ! i))[i := True]\<rparr>) s)) g)
           \<lparr>mg_shutdown := True\<rparr>)"

definition get_sendbuffer_ptr :: "u64 \<Rightarrow> int \<Rightarrow> bool \<Rightarrow> 'o managed \<Rightarrow> ('o managed \<times> nat option) result" where
  "get_sendbuffer_ptr sz pause cooked g = bindE (get_position (curr_group g) sz pause cooked) (\<lambda>(dg, p).
     Inr (g\<lparr>curr_group := dg\<rparr>, p))"

text \<open>One turn of \<^verbatim>\<open>ManagedGroup::send\<close>: false means it waits for the next view.\<close>

definition managed_send :: "'o managed \<Rightarrow> ('o managed \<times> bool) result" where
  "managed_send g = bindE (send (curr_group g)) (\<lambda>(dg, ok). Inr (g\<lparr>curr_group := dg\<rparr>, ok))"

text \<open>
  \<^verbatim>\<open>orderedSend\<close> and \<^verbatim>\<open>orderedQuery\<close>: the wait for a buffer is a loop that leaves the
  lock between turns, so one turn is a function, and then the call is made.
\<close>

definition ordered_send_turn ::
  "node_id list \<Rightarrow> nat \<Rightarrow> u64 \<Rightarrow> bytes list \<Rightarrow> 'o managed \<Rightarrow> (('o managed \<times> bool) result) option" where
  "ordered_send_turn nodes k inv_id args g =
     (case get_sendbuffer_ptr 0 0 True g of
        Inl e \<Rightarrow> Some (Inl e)
      | Inr (g1, None) \<Rightarrow> Some (Inr (g1, False))
      | Inr (g1, Some off) \<Rightarrow>
          (case derechoCallerSend nodes off k inv_id args (curr_group g1) of
             None \<Rightarrow> None
           | Some (Inl e) \<Rightarrow> Some (Inl e)
           | Some (Inr dg) \<Rightarrow> Some (Inr (g1\<lparr>curr_group := dg\<rparr>, True))))"

definition p2pSend :: "node_id \<Rightarrow> nat \<Rightarrow> u64 \<Rightarrow> bytes list \<Rightarrow> 'o managed \<Rightarrow> 'o managed result" where
  "p2pSend dest_node k inv_id args g =
     bindE (tcpSend dest_node k inv_id args (curr_group g)) (\<lambda>dg. Inr (g\<lparr>curr_group := dg\<rparr>))"

definition barrier_sync :: "'o managed \<Rightarrow> 'o managed" where
  "barrier_sync g = upd_sst sync_with_members g"

definition get_members :: "'o managed \<Rightarrow> node_id list" where
  "get_members g = members (curr_view g)"

end
