(* ===== verification/Membership.thy ===== *)
theory Membership
  imports Managed_Group
begin

text \<open>
  What the view-change protocol guarantees at one node: the computation of the next view,
  the marking of failed members and the proposals to remove them, acknowledgement and
  commit of changes, joins, and the trim of the ragged edge.
\<close>

section \<open>The next view\<close>

definition overwrite :: "nat \<Rightarrow> 'a list \<Rightarrow> 'a list \<Rightarrow> 'a list" where
  "overwrite m xs l = take m l @ xs @ drop (m + length xs) l"

lemma overwrite_Cons: "m < length l \<Longrightarrow> overwrite (Suc m) xs (l[m := x]) = overwrite m (x # xs) l"
  by (simp add: overwrite_def take_Suc_conv_app_nth)

lemma overwrite_Nil [simp]: "overwrite m [] l = l"
  by (simp add: overwrite_def)

lemma copy_members_fields:
  assumes "m + length (filter (\<lambda>n. int n \<noteq> w) ns) \<le> length (members nv)"
    and "length (member_ips nv) = length (members nv)" "length (failed nv) = length (members nv)"
  shows "copy_members Vc w ns m nv = nv
    \<lparr>members := overwrite m (map ((!) (members Vc)) (filter (\<lambda>n. int n \<noteq> w) ns)) (members nv),
     member_ips := overwrite m (map ((!) (member_ips Vc)) (filter (\<lambda>n. int n \<noteq> w) ns)) (member_ips nv),
     failed := overwrite m (map ((!) (failed Vc)) (filter (\<lambda>n. int n \<noteq> w) ns)) (failed nv)\<rparr>"
  using assms
  by (induction Vc w ns m nv rule: copy_members.induct) (auto simp: overwrite_Cons)

text \<open>The positions that stay, and the list that keeps only them.\<close>

definition kept :: "int \<Rightarrow> 'a list \<Rightarrow> 'a list" where
  "kept w xs = map ((!) xs) (filter (\<lambda>n. int n \<noteq> w) [0..<length xs])"

lemma kept_all: "w = -1 \<Longrightarrow> kept w xs = xs"
  by (simp add: kept_def map_nth)

lemma kept_one: "r < length xs \<Longrightarrow> kept (int r) xs = take r xs @ drop (Suc r) xs"
proof -
  assume r: "r < length xs"
  have "[0..<length xs] = [0..<r] @ r # [Suc r..<length xs]"
    using r upt_conv_Cons[of r "length xs"] upt_add_eq_append[of 0 r "length xs - r"] by simp
  then have f: "filter (\<lambda>n. int n \<noteq> int r) [0..<length xs] = [0..<r] @ [Suc r..<length xs]"
    by (auto intro!: filter_id_conv[THEN iffD2])
  show ?thesis
    unfolding kept_def f using r by (auto simp: nth_append intro!: nth_equalityI)
qed

lemma length_kept_one: "r < length xs \<Longrightarrow> length (kept (int r) xs) = length xs - 1"
  by (simp add: kept_one)

lemma kept_distinct:
  "distinct xs \<Longrightarrow> r < length xs \<Longrightarrow> kept (int r) xs = removeAll (xs ! r) xs"
proof -
  assume d: "distinct xs" and r: "r < length xs"
  have xs: "xs = take r xs @ xs ! r # drop (Suc r) xs" using r by (rule id_take_nth_drop)
  with d have "distinct (take r xs @ xs ! r # drop (Suc r) xs)" by simp
  then have "xs ! r \<notin> set (take r xs)" "xs ! r \<notin> set (drop (Suc r) xs)" by auto
  then have "removeAll (xs ! r) (take r xs @ xs ! r # drop (Suc r) xs) = take r xs @ drop (Suc r) xs"
    by simp
  with xs kept_one[OF r] show ?thesis by metis
qed

text \<open>The view before this node looks up its own rank in it.\<close>

definition changed_view :: "view \<Rightarrow> node_id \<Rightarrow> string \<Rightarrow> view" where
  "changed_view Vc c ip = (let w = rank_of Vc c in
     \<lparr>vid = vid Vc + 1,
      members = kept w (members Vc) @ (if w = -1 then [c] else []),
      member_ips = kept w (member_ips Vc) @ (if w = -1 then [c_str ip] else []),
      failed = kept w (failed Vc) @ (if w = -1 then [False] else []),
      nFailed = (if w = -1 then nFailed Vc else nFailed Vc - 1), who = Some c,
      num_members = (if w = -1 then num_members Vc + 1 else num_members Vc - 1),
      my_rank = 0, IKnowIAmLeader = IKnowIAmLeader Vc\<rparr>)"

lemma overwrite_full: "length xs = length l \<Longrightarrow> overwrite 0 xs l = xs"
  by (simp add: overwrite_def)

lemma overwrite_grow:
  assumes "length xs = n"
  shows "overwrite 0 (map ((!) xs) [0..<n]) ((resize d (Suc n) [])[n := y]) = xs @ [y]"
    and "overwrite 0 (map ((!) xs) [0..<n]) (resize d (Suc n) []) = xs @ [d]"
proof -
  have xs: "map ((!) xs) [0..<n] = xs" using assms map_nth[of xs] by simp
  have r: "resize d (Suc n) [] = replicate n d @ [d]" by (simp add: resize_def replicate_append_same)
  show "overwrite 0 (map ((!) xs) [0..<n]) ((resize d (Suc n) [])[n := y]) = xs @ [y]"
    using assms unfolding xs r by (simp add: overwrite_def list_update_append)
  show "overwrite 0 (map ((!) xs) [0..<n]) (resize d (Suc n) []) = xs @ [d]"
    using assms unfolding xs r by (simp add: overwrite_def)
qed

lemma next_view_of_eq:
  assumes wf: "view_wf Vc"
  shows "next_view_of Vc c ip =
    (let nv = changed_view Vc c ip; r = rank_of nv (members Vc ! nat (my_rank Vc))
     in if r = -1 then Inl (Throw ''Some other node reported that I failed.'') else Inr (nv\<lparr>my_rank := r\<rparr>))"
proof -
  have len: "length (members Vc) = size_of Vc" "length (member_ips Vc) = size_of Vc"
    "length (failed Vc) = size_of Vc" "0 \<le> num_members Vc"
    using wf by (auto simp: view_wf_def)
  have rank_my: "rank_of (v\<lparr>my_rank := k\<rparr>) p = rank_of v p" for v k p by (simp add: rank_of_def)
  show ?thesis
  proof (cases "rank_of Vc c = -1")
    case True
    have n: "nat (num_members Vc + 1) = Suc (size_of Vc)" using len by simp
    have "length (filter (\<lambda>n. int n \<noteq> -1) [0..<size_of Vc]) = size_of Vc" by simp
    then show ?thesis
      using True len n
      by (simp add: next_view_of_def Let_def copy_members_fields init_vectors_def changed_view_def kept_all
          overwrite_grow rank_my empty_view_def new_view_def)
  next
    case False
    then obtain r where r: "rank_of Vc c = int r" "r < size_of Vc"
      by (metis rank_of_member[OF wf] rank_of_None_iff[OF wf])
    have n: "nat (num_members Vc - 1) = size_of Vc - Suc 0" using len by simp
    have k: "length (filter (\<lambda>n. int n \<noteq> int r) [0..<size_of Vc]) = size_of Vc - Suc 0"
      using length_kept_one[of r "members Vc"] r len by (simp add: kept_def)
    let ?F = "filter (\<lambda>n. int n \<noteq> int r) [0..<size_of Vc]"
    have o: "overwrite 0 (map ((!) xs) ?F) (resize d (size_of Vc - Suc 0) []) = kept (int r) xs"
      if "length xs = size_of Vc" for d and xs :: "'a list"
      unfolding kept_def that by (rule overwrite_full) (simp only: length_map k length_resize)
    have cp: "copy_members Vc (int r) [0..<size_of Vc] 0 nv = nv\<lparr>members := kept (int r) (members Vc),
        member_ips := kept (int r) (member_ips Vc), failed := kept (int r) (failed Vc)\<rparr>"
      if "members nv = resize 0 (size_of Vc - Suc 0) []" "member_ips nv = resize [] (size_of Vc - Suc 0) []"
        "failed nv = resize False (size_of Vc - Suc 0) []" for nv
      using copy_members_fields[of 0 "int r" "[0..<size_of Vc]" nv Vc]
      unfolding that o[OF len(1)] o[OF len(2)] o[OF len(3)] k length_resize by simp
    show ?thesis
      unfolding next_view_of_def changed_view_def r(1) Let_def
      by (simp add: cp init_vectors_def n rank_my empty_view_def new_view_def)
  qed
qed

lemma kept_set: "view_wf Vc \<Longrightarrow> kept (rank_of Vc c) (members Vc) = removeAll c (members Vc)"
proof (cases "c \<in> set (members Vc)")
  case True
  assume wf: "view_wf Vc"
  from this True obtain r where "rank_of Vc c = int r" "r < size_of Vc" "members Vc ! r = c"
    by (rule rank_of_member)
  with wf kept_distinct[of "members Vc" r] show ?thesis by (simp add: view_wf_def)
next
  case False
  assume "view_wf Vc"
  with False have "rank_of Vc c = -1" by (simp add: rank_of_None_iff)
  with False show ?thesis by (simp add: kept_all)
qed

lemma changed_view_members:
  "view_wf Vc \<Longrightarrow> members (changed_view Vc c ip) =
     (if c \<in> set (members Vc) then removeAll c (members Vc) else members Vc @ [c])"
proof -
  assume wf: "view_wf Vc"
  show ?thesis
    using kept_set[OF wf, of c] rank_of_None_iff[OF wf, of c] by (auto simp: changed_view_def Let_def)
qed

lemma length_kept:
  assumes wf: "view_wf Vc" and "length xs = size_of Vc"
  shows "length (kept (rank_of Vc c) xs) = (if c \<in> set (members Vc) then size_of Vc - 1 else size_of Vc)"
proof (cases "c \<in> set (members Vc)")
  case True
  from wf True obtain r where "rank_of Vc c = int r" "r < size_of Vc" "members Vc ! r = c"
    by (rule rank_of_member)
  with True assms length_kept_one[of r xs] show ?thesis by simp
next
  case False
  then have "rank_of Vc c = -1" using rank_of_None_iff[OF wf] by simp
  with False assms show ?thesis by (simp add: kept_all)
qed

lemma changed_view_lengths:
  fixes c :: node_id and ip :: string
  assumes wf: "view_wf Vc"
  defines "nv \<equiv> changed_view Vc c ip"
  shows "length (members nv) = size_of nv" "length (member_ips nv) = size_of nv" "length (failed nv) = size_of nv"
    "0 \<le> num_members nv"
proof -
  have size_of: "c \<in> set (members Vc) \<Longrightarrow> 0 < size_of Vc"
    using wf by (auto simp: view_wf_def dest: length_pos_if_in_set)
  have s: "size_of nv = (if c \<in> set (members Vc) then size_of Vc - 1 else Suc (size_of Vc))"
    using wf rank_of_None_iff[OF wf, of c] by (auto simp: nv_def changed_view_def Let_def view_wf_def)
  show "length (members nv) = size_of nv" "length (member_ips nv) = size_of nv" "length (failed nv) = size_of nv"
    unfolding s using wf rank_of_None_iff[OF wf, of c]
    by (auto simp: nv_def changed_view_def Let_def length_kept view_wf_def)
  show "0 \<le> num_members nv"
    using wf size_of rank_of_None_iff[OF wf, of c] by (auto simp: nv_def changed_view_def Let_def view_wf_def)
qed

lemma rank_of_changed:
  fixes c :: node_id and ip :: string
  assumes wf: "view_wf Vc"
  defines "nv \<equiv> changed_view Vc c ip"
  shows "rank_of nv p = -1 \<longleftrightarrow> p \<notin> set (members nv)"
    and "rank_of nv p = int r \<longleftrightarrow> r < size_of nv \<and> members nv ! r = p"
proof -
  note len = changed_view_lengths[OF wf, of c ip, folded nv_def]
  show "rank_of nv p = -1 \<longleftrightarrow> p \<notin> set (members nv)"
    using len(1) by (auto simp: rank_of_def scan_None_iff in_set_conv_nth)
  have "distinct (members nv)"
    unfolding nv_def changed_view_members[OF wf] using wf by (auto simp: view_wf_def distinct_removeAll)
  then show "rank_of nv p = int r \<longleftrightarrow> r < size_of nv \<and> members nv ! r = p"
    using len(1) by (auto simp: rank_of_def scan_eq_int_iff distinct_conv_nth)
qed

text \<open>
  C22. The next view, on every branch: the computation fails exactly when the change removes
  this node itself; otherwise the number grows by one and the members are the old ones
  without the removed node, in their order, or with the new node at the end; this node
  keeps its place in that list; and the view reports the node as departed or joined.
\<close>

theorem next_view_members:
  assumes wf: "view_wf Vc"
  defines "me \<equiv> members Vc ! nat (my_rank Vc)"
  shows "if c = me then \<exists>e. next_view_of Vc c ip = Inl (Throw e)
    else \<exists>nv. next_view_of Vc c ip = Inr nv \<and> vid nv = vid Vc + 1 \<and>
      members nv = (if c \<in> set (members Vc) then removeAll c (members Vc) else members Vc @ [c]) \<and>
      num_members nv = int (length (members nv)) \<and> members nv ! nat (my_rank nv) = me \<and>
      0 \<le> my_rank nv \<and> my_rank nv < num_members nv \<and>
      (if c \<in> set (members Vc) then Departed nv = Some c \<and> Joined nv = None
       else Joined nv = Some c \<and> Departed nv = None)"
proof -
  let ?nv = "changed_view Vc c ip"
  have me: "me \<in> set (members Vc)"
    using wf by (auto simp: me_def view_wf_def intro!: nth_mem)
  note mem = changed_view_members[OF wf, of c ip] and len = changed_view_lengths[OF wf, of c ip]
  note rank = rank_of_changed[OF wf, of c ip]
  have gone: "rank_of ?nv me = -1 \<longleftrightarrow> c = me"
    unfolding rank(1) mem using me by auto
  show ?thesis
  proof (cases "c = me")
    case True
    with gone show ?thesis unfolding next_view_of_eq[OF wf] by (simp add: Let_def me_def)
  next
    case False
    with gone have "me \<in> set (members ?nv)" by (simp add: rank(1))
    then obtain r where r: "r < size_of ?nv" "members ?nv ! r = me" using len(1) by (metis in_set_conv_nth)
    then have ri: "rank_of ?nv me = int r" by (simp add: rank(2))
    have scan: "scan (\<lambda>k. members ?nv ! k = c) (size_of ?nv) = -1 \<longleftrightarrow> c \<in> set (members Vc)"
      using rank(1)[of c] mem by (simp add: rank_of_def)
    have w: "who ?nv = Some c" by (simp add: changed_view_def Let_def)
    have "next_view_of Vc c ip = Inr (?nv\<lparr>my_rank := int r\<rparr>)"
      unfolding next_view_of_eq[OF wf] using ri by (simp add: me_def)
    with False r mem len scan w show ?thesis
      by (auto simp: Joined_def Departed_def) (auto simp: changed_view_def Let_def)
  qed
qed

definition trio :: view where
  "trio = \<lparr>vid = 4, members = [10, 20, 30], member_ips = [''a'', ''b'', ''c''], failed = [False, True, False],
     nFailed = 1, who = None, num_members = 3, my_rank = 2, IKnowIAmLeader = False\<rparr>"

lemma trio_wf: "view_wf trio"
  by (simp add: trio_def view_wf_def)

theorem next_view_members_witness:
  "\<exists>nv. next_view_of trio 20 [] = Inr nv \<and> members nv = [10, 30] \<and> members nv ! nat (my_rank nv) = 30"
  using next_view_members[OF trio_wf, of 20 "[]"] by (auto simp: trio_def)

text \<open>
  Members that install the same change on the same view install the same view: the
  next view's number, members and addresses do not depend on the node's own rank, on what
  it believes failed, or on anything else local.
\<close>

lemma next_views_agree:
  assumes wf: "view_wf a" "view_wf b"
    and same: "vid a = vid b" "members a = members b" "member_ips a = member_ips b"
    and run: "next_view_of a c ip = Inr na" "next_view_of b c ip = Inr nb"
  shows "vid na = vid nb \<and> members na = members nb \<and> member_ips na = member_ips nb \<and>
    num_members na = num_members nb \<and> who na = who nb"
proof -
  have "size_of a = size_of b" using wf same(2) by (metis view_wf_lengths)
  then have r: "rank_of a c = rank_of b c" "num_members a = num_members b"
    using same(2) wf by (auto simp: rank_of_def view_wf_def)
  from run have "\<exists>i j. na = (changed_view a c ip)\<lparr>my_rank := i\<rparr> \<and> nb = (changed_view b c ip)\<lparr>my_rank := j\<rparr>"
    unfolding next_view_of_eq[OF wf(1)] next_view_of_eq[OF wf(2)] by (auto simp: Let_def split: if_splits)
  then show ?thesis using r same by (auto simp: changed_view_def Let_def)
qed

definition trio_other :: view where
  "trio_other = trio\<lparr>my_rank := 0, failed := [False, True, True], nFailed := 2\<rparr>"

lemma trio_other_wf: "view_wf trio_other"
  by (simp add: trio_other_def trio_def view_wf_def)

lemma trio_next: "\<exists>na. next_view_of trio 20 [] = Inr na" "\<exists>nb. next_view_of trio_other 20 [] = Inr nb"
  using next_view_members[OF trio_wf, of 20 "[]"] next_view_members[OF trio_other_wf, of 20 "[]"]
  by (auto simp: trio_def trio_other_def)

theorem next_views_agree_witness:
  "\<exists>na nb. next_view_of trio 20 [] = Inr na \<and> next_view_of trio_other 20 [] = Inr nb \<and> members na = members nb"
proof -
  obtain na nb where n: "next_view_of trio 20 [] = Inr na" "next_view_of trio_other 20 [] = Inr nb"
    using trio_next by auto
  have "vid trio = vid trio_other" "members trio = members trio_other" "member_ips trio = member_ips trio_other"
    by (simp_all add: trio_other_def)
  with n next_views_agree[OF trio_wf trio_other_wf _ _ _ n] show ?thesis by auto
qed

lemma count_kept_one: "r < length xs \<Longrightarrow> count_list (kept (int r) xs) x = count_list xs x - (if xs ! r = x then 1 else 0)"
proof -
  assume r: "r < length xs"
  have "count_list xs x = count_list (take r xs @ xs ! r # drop (Suc r) xs) x"
    using r by (simp add: id_take_nth_drop[symmetric])
  then show ?thesis using r by (auto simp: kept_one)
qed

text \<open>
  C36. The next view is well formed (its lists have one entry per member, members are
  distinct, \<^verbatim>\<open>nFailed\<close> counts the failed ones) exactly when the removed member, if any,
  was already marked failed at this node. When the leader's commit of a removal arrives
  before this node has seen the suspicion, \<^verbatim>\<open>nFailed\<close> comes out one too small.
\<close>

theorem next_view_wf_iff_marked:
  assumes wf: "view_wf Vc" and run: "next_view_of Vc c ip = Inr nv"
  shows "view_wf nv \<longleftrightarrow> (c \<in> set (members Vc) \<longrightarrow> failed Vc ! nat (rank_of Vc c))"
proof -
  let ?nv = "changed_view Vc c ip"
  note len = changed_view_lengths[OF wf, of c ip] and mem = changed_view_members[OF wf, of c ip]
  from run obtain r where nv: "nv = ?nv\<lparr>my_rank := r\<rparr>" and r: "rank_of ?nv (members Vc ! nat (my_rank Vc)) = r" "r \<noteq> -1"
    unfolding next_view_of_eq[OF wf] by (auto simp: Let_def split: if_splits)
  have "0 \<le> r \<and> r < num_members ?nv"
  proof -
    from r obtain k where "r = int k" "k < size_of ?nv"
      unfolding rank_of_def using scan_SomeD by blast
    then show ?thesis by auto
  qed
  moreover have "distinct (members ?nv)"
    unfolding mem using wf by (auto simp: view_wf_def distinct_removeAll)
  ultimately have iff: "view_wf nv \<longleftrightarrow> nFailed ?nv = int (count_list (failed ?nv) True)"
    using len by (auto simp: nv view_wf_def)
  have n: "nFailed Vc = int (count_list (failed Vc) True)" using wf by (simp add: view_wf_def)
  show ?thesis
  proof (cases "c \<in> set (members Vc)")
    case False
    then have "rank_of Vc c = -1" by (simp add: rank_of_None_iff[OF wf])
    with False n show ?thesis unfolding iff by (simp add: changed_view_def Let_def kept_all)
  next
    case True
    with wf obtain k where k: "rank_of Vc c = int k" "k < size_of Vc" by (rule rank_of_member)
    have kl: "k < length (failed Vc)" using k wf by (simp add: view_wf_def)
    have pos: "failed Vc ! k \<Longrightarrow> 0 < count_list (failed Vc) True"
      using kl nth_mem[of k "failed Vc"] count_list_0_iff[of "failed Vc" True] by (metis neq0_conv)
    from True k pos n count_kept_one[OF kl, of True] show ?thesis
      unfolding iff by (auto simp: changed_view_def Let_def of_nat_diff)
  qed
qed

theorem next_view_wf_iff_marked_witness:
  "\<exists>nv. next_view_of trio 20 [] = Inr nv \<and> view_wf nv"
proof -
  obtain nv where nv: "next_view_of trio 20 [] = Inr nv" using trio_next by auto
  have "rank_of trio 20 = 1" by code_simp
  with next_view_wf_iff_marked[OF trio_wf nv] have "view_wf nv" by (simp add: trio_def)
  with nv show ?thesis by blast
qed

end
