(* ===== verification/Suspicion.thy ===== *)
theory Suspicion
  imports Membership
begin

text \<open>
  The trigger of \<^verbatim>\<open>suspected_changed\<close>: which members it marks failed, when it gives up,
  and that the leader ends with a proposal for every member it marks.
\<close>

section \<open>Suspicions gathered from the rows\<close>

lemma length_foldl_or: "length (foldl (\<lambda>s q. s[q := s ! q \<or> o' ! q]) l ns) = length l"
  by (induction ns arbitrary: l) auto

lemma foldl_or_nth:
  "q < length l \<Longrightarrow> foldl (\<lambda>s q. s[q := s ! q \<or> o' ! q]) l [0..<n] ! q = (l ! q \<or> (q < n \<and> o' ! q))"
proof (induction n)
  case (Suc n)
  then show ?case
    by (cases "q = n") (simp_all add: length_foldl_or less_Suc_eq)
qed simp

lemma absorbed_nth:
  "q < length (suspected me) \<Longrightarrow>
   suspected (absorb_suspicions n me r) ! q = (suspected me ! q \<or> (q < n \<and> suspected r ! q))"
  "length (suspected (absorb_suspicions n me r)) = length (suspected me)"
  by (simp_all add: absorb_suspicions_def foldl_or_nth length_foldl_or)

lemma absorb_changes [simp]:
  "nChanges (absorb_suspicions n me r) = nChanges me" "nCommitted (absorb_suspicions n me r) = nCommitted me"
  "changes (absorb_suspicions n me r) = changes me"
  by (simp_all add: absorb_suspicions_def)

definition gathered :: "nat \<Rightarrow> nat list \<Rightarrow> sst \<Rightarrow> sst" where
  "gathered n rs s = foldl (\<lambda>s r. upd_local (\<lambda>me. absorb_suspicions n me (rows s ! r)) s) s rs"

lemma gathered_fields:
  "local_index (gathered n rs s) = local_index s \<and> num_rows (gathered n rs s) = num_rows s \<and>
   (\<forall>i. i \<noteq> local_index s \<longrightarrow> rows (gathered n rs s) ! i = rows s ! i)"
  by (induction rs rule: rev_induct) (auto simp: gathered_def sst_simps)

lemma gathered_row:
  assumes "local_index s < num_rows s" "n \<le> length (suspected (local_row s))"
  shows "changes (local_row (gathered n rs s)) = changes (local_row s) \<and>
    nChanges (local_row (gathered n rs s)) = nChanges (local_row s) \<and>
    nCommitted (local_row (gathered n rs s)) = nCommitted (local_row s) \<and>
    length (suspected (local_row (gathered n rs s))) = length (suspected (local_row s)) \<and>
    (\<forall>q < n. suspected (local_row (gathered n rs s)) ! q =
      (suspected (local_row s) ! q \<or> (\<exists>r \<in> set rs. suspected (rows s ! r) ! q)))"
proof (induction rs rule: rev_induct)
  case (snoc r rs)
  let ?t = "gathered n rs s"
  have step: "gathered n (rs @ [r]) s = upd_local (\<lambda>me. absorb_suspicions n me (rows ?t ! r)) ?t"
    by (simp add: gathered_def)
  have f: "local_index ?t = local_index s" "num_rows ?t = num_rows s"
    "r \<noteq> local_index s \<Longrightarrow> rows ?t ! r = rows s ! r"
    using gathered_fields[of n rs s] by auto
  have me: "local_row (gathered n (rs @ [r]) s) = absorb_suspicions n (local_row ?t) (rows ?t ! r)"
    unfolding step using assms f by (simp add: local_row_upd_local)
  have same: "r = local_index s \<Longrightarrow> rows ?t ! r = local_row ?t" using f by (simp add: local_row_def)
  have "suspected (absorb_suspicions n (local_row ?t) (rows ?t ! r)) ! q =
      (suspected (local_row s) ! q \<or> (\<exists>r \<in> set (rs @ [r]). suspected (rows s ! r) ! q))" if "q < n" for q
    using snoc that assms f(3) same absorbed_nth(1)[of q "local_row ?t" n "rows ?t ! r"]
    by (cases "r = local_index s") (auto simp: local_row_def[of s])
  with snoc assms show ?case by (simp add: me absorbed_nth(2))
qed (simp add: gathered_def)

section \<open>One member marked\<close>

lemma group_wedge_fields [simp]:
  "rows (dg_sst (group_wedge g)) = rows (dg_sst g)" "local_index (dg_sst (group_wedge g)) = local_index (dg_sst g)"
  "thread_shutdown (group_wedge g)" "local_row (dg_sst (group_wedge g)) = local_row (dg_sst g)"
  by (simp_all add: group_wedge_def pred_fields)

lemma upd_fields [simp]:
  "curr_view (upd_sst f g) = curr_view g" "curr_view (upd_group h g) = curr_view g"
  "curr_view (upd_view k g) = k (curr_view g)"
  "gms_sst (upd_sst f g) = f (gms_sst g)" "curr_group (upd_group h g) = h (curr_group g)"
  "curr_group (upd_view k g) = curr_group g"
  "thread_shutdown (curr_group (upd_sst f g)) = thread_shutdown (curr_group g)"
  "last_suspected (upd_sst f g) = last_suspected g" "last_suspected (upd_group h g) = last_suspected g"
  "last_suspected (upd_view k g) = last_suspected g"
  by (simp_all add: upd_sst_def upd_group_def upd_view_def)

lemma changes_contains_iff:
  assumes "0 \<le> nCommitted (local_row s)"
  shows "changes_contains N s q \<longleftrightarrow> q \<in> set (pending_changes N (local_row s))"
proof -
  have "int (nat n mod N) < nChanges (local_row s)" if "n \<in> {nCommitted (local_row s)..nChanges (local_row s) - 1}" for n
  proof -
    from that assms have n: "0 \<le> n" "n < nChanges (local_row s)" by auto
    have "nat n mod N \<le> nat n" by (rule mod_less_eq_dividend)
    with n show ?thesis by linarith
  qed
  then show ?thesis
    by (auto simp: changes_contains_def Let_def list_ex_iff pending_changes_def change_at_def)
qed

text \<open>What a step of the loop keeps, and the queue of proposals it only appends to.\<close>

definition marked :: "nat \<Rightarrow> 'o managed \<Rightarrow> 'o managed \<Rightarrow> bool" where
  "marked N g g' \<longleftrightarrow>
     local_index (gms_sst g') = local_index (gms_sst g) \<and> num_rows (gms_sst g') = num_rows (gms_sst g) \<and>
     suspected (local_row (gms_sst g')) = suspected (local_row (gms_sst g)) \<and>
     last_suspected g' = last_suspected g \<and>
     changes_wf N (local_row (gms_sst g')) \<and>
     nChanges (local_row (gms_sst g')) - nCommitted (local_row (gms_sst g')) \<le> int N \<and>
     set (pending_changes N (local_row (gms_sst g))) \<subseteq> set (pending_changes N (local_row (gms_sst g'))) \<and>
     (curr_view g')\<lparr>failed := failed (curr_view g), nFailed := nFailed (curr_view g)\<rparr> = curr_view g"

lemma mark_failed_step:
  assumes loc: "local_index (gms_sst g) < num_rows (gms_sst g)"
    and ring: "changes_wf N (local_row (gms_sst g))"
      "nChanges (local_row (gms_sst g)) - nCommitted (local_row (gms_sst g)) \<le> int N"
    and run: "mark_failed N q g = Inr g'"
  shows "marked N g g' \<and>
    (if suspected (local_row (gms_sst g)) ! q \<and> \<not> failed (curr_view g) ! q
     then failed (curr_view g') = (failed (curr_view g))[q := True] \<and>
       nFailed (curr_view g') = nFailed (curr_view g) + 1 \<and> \<not> majority_lost (curr_view g') \<and>
       thread_shutdown (curr_group g') \<and> wedged (local_row (gms_sst g')) \<and>
       (IAmLeader (curr_view g') \<longrightarrow> members (curr_view g) ! q \<in> set (pending_changes N (local_row (gms_sst g'))))
     else g' = g)"
proof (cases "suspected (local_row (gms_sst g)) ! q \<and> \<not> failed (curr_view g) ! q")
  case False
  with run ring show ?thesis unfolding marked_def by (auto simp: mark_failed_def)
next
  case True
  define g1 where "g1 = upd_view (\<lambda>v. v\<lparr>failed := (failed v)[q := True], nFailed := nFailed v + 1\<rparr>)
    (upd_sst (upd_local (\<lambda>r. r\<lparr>wedged := True\<rparr>)) (upd_group group_wedge (upd_sst (freeze q) g)))"
  define g2 where "g2 = upd_sst put g1"
  let ?p = "members (curr_view g2) ! q"
  have v: "curr_view g2 = (curr_view g)\<lparr>failed := (failed (curr_view g))[q := True], nFailed := nFailed (curr_view g) + 1\<rparr>"
    by (simp add: g2_def g1_def)
  have loc2: "local_index (gms_sst g2) = local_index (gms_sst g)" "num_rows (gms_sst g2) = num_rows (gms_sst g)"
    by (simp_all add: g2_def g1_def sst_simps)
  have row2: "local_row (gms_sst g2) = (local_row (gms_sst g))\<lparr>wedged := True\<rparr>"
    using loc by (simp add: g2_def g1_def sst_simps)
  have down: "thread_shutdown (curr_group g2)" "last_suspected g2 = last_suspected g"
    by (simp_all add: g2_def g1_def)
  have pend: "pending_changes N (local_row (gms_sst g2)) = pending_changes N (local_row (gms_sst g))"
    by (simp add: row2 pending_changes_def change_at_def)
  have ring2: "changes_wf N (local_row (gms_sst g2))"
    "nChanges (local_row (gms_sst g2)) - nCommitted (local_row (gms_sst g2)) \<le> int N"
    using ring by (simp_all add: row2 changes_wf_def)
  from run True have lost: "\<not> majority_lost (curr_view g2)"
    and run2: "(if IAmLeader (curr_view g2) \<and> \<not> changes_contains N (gms_sst g2) ?p
       then if nChanges (local_row (gms_sst g2)) - nCommitted (local_row (gms_sst g2)) = int N
         then Inl (Throw ''Ran out of room in the pending changes list'')
         else Inr (upd_sst (\<lambda>s. put (upd_local (propose_change N ?p) s)) g2)
       else Inr g2) = Inr g'"
    unfolding mark_failed_def Let_def g1_def[symmetric] g2_def[symmetric]
    by (auto simp: g2_def split: if_split_asm)
  show ?thesis
  proof (cases "IAmLeader (curr_view g2) \<and> \<not> changes_contains N (gms_sst g2) ?p")
    case False
    with run2 have "g' = g2" by (auto split: if_split_asm)
    moreover have "IAmLeader (curr_view g2) \<Longrightarrow> ?p \<in> set (pending_changes N (local_row (gms_sst g2)))"
      using False ring2(1) changes_contains_iff[of "gms_sst g2" N ?p] by (auto simp: changes_wf_def)
    ultimately show ?thesis
      using True lost v loc2 row2 down ring2 pend unfolding marked_def by auto
  next
    case unlisted: True
    with run2 have room: "nChanges (local_row (gms_sst g2)) - nCommitted (local_row (gms_sst g2)) \<noteq> int N"
      and g': "g' = upd_sst (\<lambda>s. put (upd_local (propose_change N ?p) s)) g2" by (auto split: if_split_asm)
    have row': "local_row (gms_sst g') = propose_change N ?p (local_row (gms_sst g2))"
      using loc loc2 by (simp add: g' sst_simps)
    have len: "length (pending_changes N (local_row (gms_sst g2))) < N"
      using room ring2 length_pending_changes[of "local_row (gms_sst g2)" N] by (auto simp: changes_wf_def)
    have pend': "pending_changes N (local_row (gms_sst g')) = pending_changes N (local_row (gms_sst g2)) @ [?p]"
      unfolding row' by (rule change_queue.contents_add[OF ring2(1) len])
    have "suspected (local_row (gms_sst g')) = suspected (local_row (gms_sst g))" "wedged (local_row (gms_sst g'))"
      by (simp_all add: row' row2 propose_change_def)
    moreover have "changes_wf N (local_row (gms_sst g'))"
      "nChanges (local_row (gms_sst g')) - nCommitted (local_row (gms_sst g')) \<le> int N"
      using change_queue.wf_add[OF ring2(1), of ?p] room ring2(2) by (simp_all add: row')
    moreover have "local_index (gms_sst g') = local_index (gms_sst g)" "num_rows (gms_sst g') = num_rows (gms_sst g)"
      "curr_view g' = curr_view g2" "last_suspected g' = last_suspected g" "thread_shutdown (curr_group g')"
      by (simp_all add: g' sst_simps loc2 down)
    ultimately show ?thesis
      using True lost v pend pend' unfolding marked_def by auto
  qed
qed

section \<open>The whole loop\<close>

lemma marked_refl:
  "changes_wf N (local_row (gms_sst g)) \<Longrightarrow>
   nChanges (local_row (gms_sst g)) - nCommitted (local_row (gms_sst g)) \<le> int N \<Longrightarrow> marked N g g"
  by (simp add: marked_def)

lemma marked_trans:
  assumes "marked N a b" "marked N b c"
  shows "marked N a c"
proof -
  have v: "(curr_view b)\<lparr>failed := failed (curr_view a), nFailed := nFailed (curr_view a)\<rparr> = curr_view a"
    "(curr_view c)\<lparr>failed := failed (curr_view b), nFailed := nFailed (curr_view b)\<rparr> = curr_view b"
    using assms by (simp_all add: marked_def)
  have "(curr_view c)\<lparr>failed := failed (curr_view a), nFailed := nFailed (curr_view a)\<rparr> = curr_view a"
    by (subst v(1)[symmetric], subst v(2)[symmetric]) simp
  with assms show ?thesis by (auto simp: marked_def)
qed

lemma marked_view:
  assumes "marked N g g'"
  shows "members (curr_view g') = members (curr_view g)" "my_rank (curr_view g') = my_rank (curr_view g)"
    "num_members (curr_view g') = num_members (curr_view g)" "member_ips (curr_view g') = member_ips (curr_view g)"
    "vid (curr_view g') = vid (curr_view g)"
proof -
  have "(curr_view g')\<lparr>failed := failed (curr_view g), nFailed := nFailed (curr_view g)\<rparr> = curr_view g"
    using assms by (simp add: marked_def)
  then have "\<And>f. (\<And>v fs k. f (v\<lparr>failed := fs, nFailed := k\<rparr>) = f v) \<Longrightarrow> f (curr_view g') = f (curr_view g)"
    by metis
  from this[of members] this[of my_rank] this[of num_members] this[of member_ips] this[of vid]
  show "members (curr_view g') = members (curr_view g)" "my_rank (curr_view g') = my_rank (curr_view g)"
    "num_members (curr_view g') = num_members (curr_view g)" "member_ips (curr_view g') = member_ips (curr_view g)"
    "vid (curr_view g') = vid (curr_view g)" by simp_all
qed

definition newly_failed :: "'o managed \<Rightarrow> 'o managed \<Rightarrow> nat \<Rightarrow> bool" where
  "newly_failed g g' q \<longleftrightarrow> q < length (failed (curr_view g)) \<and> failed (curr_view g') ! q \<and> \<not> failed (curr_view g) ! q"

definition wedged_here :: "'o managed \<Rightarrow> bool" where
  "wedged_here g \<longleftrightarrow> thread_shutdown (curr_group g) \<and> wedged (local_row (gms_sst g)) \<and> \<not> majority_lost (curr_view g)"

lemma IAmLeader_iff:
  "0 \<le> my_rank v \<Longrightarrow> my_rank v < num_members v \<Longrightarrow>
   IAmLeader v \<longleftrightarrow> \<not> failed v ! nat (my_rank v) \<and> (\<forall>j < nat (my_rank v). failed v ! j)"
  using rank_of_leader_eq_iff[of v "nat (my_rank v)"] by (simp add: IAmLeader_def zless_nat_eq_int_zless)

lemma mark_failed_loop:
  assumes run: "mark_failed_all N qs g = Inr g'"
    and loc: "local_index (gms_sst g) < num_rows (gms_sst g)"
    and ring: "changes_wf N (local_row (gms_sst g))"
      "nChanges (local_row (gms_sst g)) - nCommitted (local_row (gms_sst g)) \<le> int N"
    and wf: "view_wf (curr_view g)" and qs: "\<forall>q \<in> set qs. q < size_of (curr_view g)"
  shows "marked N g g' \<and> view_wf (curr_view g') \<and>
    (\<forall>q < size_of (curr_view g). failed (curr_view g') ! q =
       (failed (curr_view g) ! q \<or> (q \<in> set qs \<and> suspected (local_row (gms_sst g)) ! q))) \<and>
    ((g' = g) \<or> wedged_here g') \<and>
    (IAmLeader (curr_view g) \<and> IAmLeader (curr_view g') \<longrightarrow>
      (\<forall>q. newly_failed g g' q \<longrightarrow> members (curr_view g) ! q \<in> set (pending_changes N (local_row (gms_sst g')))))"
  using assms
proof (induction qs arbitrary: g)
  case Nil
  then show ?case by (simp add: marked_refl newly_failed_def)
next
  case (Cons q qs)
  from Cons.prems(1) obtain g1 where g1: "mark_failed N q g = Inr g1" "mark_failed_all N qs g1 = Inr g'" by auto
  note step = mark_failed_step[OF Cons.prems(2,3,4) g1(1)]
  have m1: "marked N g g1" using step by simp
  note v1 = marked_view[OF m1]
  have q: "q < length (failed (curr_view g))" using Cons.prems(5,6) by (simp add: view_wf_def)
  have wf1: "view_wf (curr_view g1)"
    using step Cons.prems(5) v1 q by (auto simp: view_wf_def count_list_update_True split: if_splits)
  have s1: "suspected (local_row (gms_sst g1)) = suspected (local_row (gms_sst g))"
    "local_index (gms_sst g1) < num_rows (gms_sst g1)" "changes_wf N (local_row (gms_sst g1))"
    "nChanges (local_row (gms_sst g1)) - nCommitted (local_row (gms_sst g1)) \<le> int N"
    using m1 Cons.prems(2) by (simp_all add: marked_def)
  have "\<forall>q \<in> set qs. q < size_of (curr_view g1)" using Cons.prems(6) v1(3) by simp
  note ih = Cons.IH[OF g1(2) s1(2,3,4) wf1 this]
  have m2: "marked N g1 g'" and wf': "view_wf (curr_view g')" using ih by auto
  have m: "marked N g g'" by (rule marked_trans[OF m1 m2])
  have f1: "failed (curr_view g1) ! j = (failed (curr_view g) ! j \<or> (j = q \<and> suspected (local_row (gms_sst g)) ! q))"
    if "j < size_of (curr_view g)" for j
    using step q that by (auto simp: nth_list_update split: if_splits)
  have f': "failed (curr_view g') ! j = (failed (curr_view g1) ! j \<or> (j \<in> set qs \<and> suspected (local_row (gms_sst g)) ! j))"
    if "j < size_of (curr_view g)" for j
    using ih that s1(1) v1(3) by simp
  have len: "length (failed (curr_view g)) = size_of (curr_view g)" "length (failed (curr_view g1)) = size_of (curr_view g)"
    using Cons.prems(5) wf1 v1(3) by (simp_all add: view_wf_def)
  have lead: "members (curr_view g) ! j \<in> set (pending_changes N (local_row (gms_sst g')))"
    if l: "IAmLeader (curr_view g)" "IAmLeader (curr_view g')" and new: "newly_failed g g' j" for j
  proof -
    have r: "0 \<le> my_rank (curr_view g)" "my_rank (curr_view g) < num_members (curr_view g)"
      using Cons.prems(5) by (auto simp: view_wf_def)
    have l1: "IAmLeader (curr_view g1)"
      using l r f1 f' by (auto simp: IAmLeader_iff v1 marked_view[OF m])
    show ?thesis
    proof (cases "failed (curr_view g1) ! j")
      case True
      with new f1[of j] len have "j = q" "suspected (local_row (gms_sst g)) ! q" "\<not> failed (curr_view g) ! q"
        by (auto simp: newly_failed_def)
      with step l1 m2 show ?thesis by (auto simp: marked_def)
    next
      case False
      with new len have "newly_failed g1 g' j" by (simp add: newly_failed_def)
      with ih l1 l(2) v1(1) show ?thesis by auto
    qed
  qed
  have "g' = g \<or> wedged_here g'"
    using ih step by (auto simp: wedged_here_def split: if_splits)
  with m wf' f1 f' lead show ?case by auto
qed

lemma upd_sst_gathered:
  "aggregate_suspicions n s = gathered n [0..<n] s"
  by (simp add: aggregate_suspicions_def gathered_def)

text \<open>
  C29. When the trigger for new suspicions returns normally, the members marked failed are
  exactly those marked before and those some row suspects; the view stays well formed
  (\<^verbatim>\<open>nFailed\<close> counts them); if anyone is newly marked, this node has wedged the group and
  its row and still sees fewer than half the members failed; and a node that was and is the
  leader has every newly failed member among its pending proposals. In every other case
  the trigger throws.
\<close>

theorem suspicions_mark_members_failed:
  assumes run: "suspected_changed_trig N g = Inr g'"
    and wf: "view_wf (curr_view g)" "size_of (curr_view g) \<le> num_rows (gms_sst g)"
      "size_of (curr_view g) \<le> length (suspected (local_row (gms_sst g)))"
    and ring: "changes_wf N (local_row (gms_sst g))"
      "nChanges (local_row (gms_sst g)) - nCommitted (local_row (gms_sst g)) \<le> int N"
  shows "view_wf (curr_view g') \<and> members (curr_view g') = members (curr_view g) \<and>
    (\<forall>q < size_of (curr_view g). failed (curr_view g') ! q =
       (failed (curr_view g) ! q \<or> (\<exists>r < size_of (curr_view g). suspected (rows (gms_sst g) ! r) ! q))) \<and>
    (failed (curr_view g') \<noteq> failed (curr_view g) \<longrightarrow>
       thread_shutdown (curr_group g') \<and> wedged (local_row (gms_sst g')) \<and>
       nFailed (curr_view g') < (num_members (curr_view g') + 1) div 2) \<and>
    (IAmLeader (curr_view g) \<and> IAmLeader (curr_view g') \<longrightarrow>
      (\<forall>q. newly_failed g g' q \<longrightarrow> members (curr_view g) ! q \<in> set (pending_changes N (local_row (gms_sst g')))))"
proof -
  let ?n = "size_of (curr_view g)"
  let ?g = "upd_sst (aggregate_suspicions ?n) g"
  from run obtain g1 where me: "int (local_index (gms_sst g)) = my_rank (curr_view g)"
    and loop: "mark_failed_all N [0..<?n] ?g = Inr g1"
    and g': "g' = g1\<lparr>last_suspected := copy_suspected (gms_sst g1) (last_suspected g1)\<rparr>"
    unfolding suspected_changed_trig_def by auto
  have loc: "local_index (gms_sst g) < ?n" using me wf(1) by (auto simp: view_wf_def)
  then have loc_rows: "local_index (gms_sst g) < num_rows (gms_sst g)" using wf(2) by simp
  note row = gathered_row[OF loc_rows wf(3), of "[0..<?n]", folded upd_sst_gathered]
  note fld = gathered_fields[of ?n "[0..<?n]" "gms_sst g", folded upd_sst_gathered]
  have ring': "changes_wf N (local_row (gms_sst ?g))"
    "nChanges (local_row (gms_sst ?g)) - nCommitted (local_row (gms_sst ?g)) \<le> int N"
    using ring row by (simp_all add: changes_wf_def)
  have "local_index (gms_sst ?g) < num_rows (gms_sst ?g)" using loc_rows fld by simp
  note all = mark_failed_loop[OF loop this ring', simplified upd_fields, OF wf(1)]
  have sus: "suspected (local_row (aggregate_suspicions ?n (gms_sst g))) ! q =
      (\<exists>r < ?n. suspected (rows (gms_sst g) ! r) ! q)" if "q < ?n" for q
    using row that loc by (auto simp: local_row_def)
  have "marked N ?g g1" and w: "g1 = ?g \<or> wedged_here g1" using all by auto
  note v = marked_view[OF this(1), simplified upd_fields]
  have "failed (curr_view g1) \<noteq> failed (curr_view g) \<Longrightarrow> wedged_here g1" using w by auto
  moreover have "newly_failed g g' q = newly_failed ?g g1 q" for q by (simp add: newly_failed_def g')
  ultimately show ?thesis
    using all sus v by (auto simp: g' wedged_here_def majority_lost_def)
qed

definition trio_row :: derecho_row where
  "trio_row = solo_row\<lparr>nReceived := [-1, -1, -1], suspected := [False, False, False], changes := [0, 0, 0],
     globalMin := [0, 0, 0]\<rparr>"

text \<open>A group of three whose leader, this node, hears that row 1 suspects member 2.\<close>

definition trio_managed :: "unit managed" where
  "trio_managed = \<lparr>
     curr_view = \<lparr>vid = 0, members = [10, 20, 30], member_ips = [''a'', ''b'', ''c''], failed = [False, False, False],
       nFailed = 0, who = None, num_members = 3, my_rank = 0, IKnowIAmLeader = True\<rparr>,
     curr_group = solo_group\<lparr>dg_members := [10, 20, 30], dg_sst := \<lparr>
       rows = [trio_row, trio_row\<lparr>suspected := [False, False, True]\<rparr>, trio_row], local_index = 0, preds = [], calls = []\<rparr>\<rparr>,
     next_view = None, pending_joins = [], joining_client = None, last_suspected = [False, False, False],
     mg_shutdown = False, view_file_name = [], old_views = [],
     mg_params = \<lparr>max_payload_size = 7, dp_block_size = 16, filename = [], dp_window_size = 2, timeout_ms = 1, rpc_port = 1\<rparr>,
     mg_calls = []\<rparr>"

lemma trio_managed_facts:
  "view_wf (curr_view trio_managed)" "size_of (curr_view trio_managed) = 3" "num_rows (gms_sst trio_managed) = 3"
  "length (suspected (local_row (gms_sst trio_managed))) = 3" "changes_wf 3 (local_row (gms_sst trio_managed))"
  "nChanges (local_row (gms_sst trio_managed)) - nCommitted (local_row (gms_sst trio_managed)) = 0"
  "suspected (rows (gms_sst trio_managed) ! 1) ! 2"
  by (simp add: view_wf_def trio_managed_def) (code_simp+)

lemma trio_managed_runs: "\<exists>g'. suspected_changed_trig 3 trio_managed = Inr g'"
proof -
  have "(case suspected_changed_trig 3 trio_managed of Inl _ \<Rightarrow> False | Inr _ \<Rightarrow> True) = True" by code_simp
  then show ?thesis by (auto split: sum.splits)
qed

theorem suspicions_mark_members_failed_witness:
  "\<exists>g'. suspected_changed_trig 3 trio_managed = Inr g' \<and> failed (curr_view g') ! 2"
proof -
  obtain g' where g': "suspected_changed_trig 3 trio_managed = Inr g'" using trio_managed_runs by auto
  have "failed (curr_view g') ! 2 = (failed (curr_view trio_managed) ! 2 \<or>
      (\<exists>r < size_of (curr_view trio_managed). suspected (rows (gms_sst trio_managed) ! r) ! 2))"
    using suspicions_mark_members_failed[OF g'] trio_managed_facts by simp
  moreover have "\<exists>r < size_of (curr_view trio_managed). suspected (rows (gms_sst trio_managed) ! r) ! 2"
    using trio_managed_facts(2,7) by (intro exI[of _ 1]) simp
  ultimately show ?thesis using g' by simp
qed

end
