(* ===== verification/Agreement.thy ===== *)
theory Agreement
  imports Suspicion
begin

text \<open>
  Agreement on the next change (acknowledge, commit, join) and the trim of the ragged
  edge that ends a view.
\<close>

section \<open>Commit\<close>

lemma min_acked_fold:
  "foldl (\<lambda>m n. if \<not> fld ! n \<and> nAcked (rows s ! n) < m then nAcked (rows s ! n) else m) a ns \<le> a \<and>
   (\<forall>n \<in> set ns. \<not> fld ! n \<longrightarrow>
      foldl (\<lambda>m n. if \<not> fld ! n \<and> nAcked (rows s ! n) < m then nAcked (rows s ! n) else m) a ns \<le> nAcked (rows s ! n))"
proof (induction ns rule: rev_induct)
  case (snoc n ns)
  then show ?case by auto
qed simp

lemma min_acked_le:
  "min_acked s fld \<le> nAcked (local_row s)"
  "n < length fld \<Longrightarrow> \<not> fld ! n \<Longrightarrow> min_acked s fld \<le> nAcked (rows s ! n)"
  using min_acked_fold[of fld s "nAcked (local_row s)" "[0..<length fld]"] by (auto simp: min_acked_def)

text \<open>
  A change is committed only after every member that has not failed has acknowledged
  it: when the leader's predicate holds and the trigger runs, \<^verbatim>\<open>nCommitted\<close> grows and is
  at most every live row's \<^verbatim>\<open>nAcked\<close>; no other field of the row and no other row changes.
\<close>

lemma commit_waits_for_all_acks:
  assumes "local_index (gms_sst g) < num_rows (gms_sst g)" and "change_commit_ready g"
  defines "r \<equiv> local_row (gms_sst g)" and "r' \<equiv> local_row (gms_sst (commit_change g))"
  shows "nCommitted r < nCommitted r' \<and> nCommitted r' \<le> nAcked r' \<and>
    (\<forall>n < length (failed (curr_view g)). \<not> failed (curr_view g) ! n \<longrightarrow>
       nCommitted r' \<le> nAcked (rows (gms_sst g) ! n)) \<and>
    r' = r\<lparr>nCommitted := nCommitted r'\<rparr> \<and>
    (\<forall>i. i \<noteq> local_index (gms_sst g) \<longrightarrow> rows (gms_sst (commit_change g)) ! i = rows (gms_sst g) ! i)"
proof -
  have r': "r' = r\<lparr>nCommitted := min_acked (gms_sst g) (failed (curr_view g))\<rparr>"
    using assms(1) by (simp add: r'_def r_def commit_change_def sst_simps)
  have "nCommitted r < min_acked (gms_sst g) (failed (curr_view g))"
    using assms(2) by (simp add: change_commit_ready_def r_def)
  with min_acked_le(1)[of "gms_sst g" "failed (curr_view g)"] min_acked_le(2)[where s = "gms_sst g" and fld = "failed (curr_view g)"] show ?thesis
    by (auto simp: r' r_def commit_change_def sst_simps)
qed

definition acked_managed :: "unit managed" where
  "acked_managed = trio_managed\<lparr>curr_group := (curr_group trio_managed)\<lparr>dg_sst := \<lparr>
     rows = replicate 3 (trio_row\<lparr>changes := [40, 0, 0], nChanges := 1, nAcked := 1\<rparr>), local_index = 0,
     preds = [], calls = []\<rparr>\<rparr>\<rparr>"

lemma commit_waits_for_all_acks_witness:
  "nCommitted (local_row (gms_sst (commit_change acked_managed))) = 1 \<and>
   nCommitted (local_row (gms_sst (commit_change acked_managed))) \<le> nAcked (rows (gms_sst acked_managed) ! 2)"
proof -
  have "local_index (gms_sst acked_managed) < num_rows (gms_sst acked_managed)" "change_commit_ready acked_managed"
    "nCommitted (local_row (gms_sst (commit_change acked_managed))) = 1"
    "2 < length (failed (curr_view acked_managed))" "\<not> failed (curr_view acked_managed) ! 2"
    by code_simp+
  with commit_waits_for_all_acks[of acked_managed] show ?thesis by blast
qed

section \<open>Acknowledgement\<close>

lemma view_wedge_sst:
  assumes "int (local_index (gms_sst g)) = my_rank (curr_view g)" "local_index (gms_sst g) < num_rows (gms_sst g)"
  shows "local_row (gms_sst (view_wedge g)) = (local_row (gms_sst g))\<lparr>wedged := True\<rparr>"
    "local_index (gms_sst (view_wedge g)) = local_index (gms_sst g)"
    "i \<noteq> local_index (gms_sst g) \<Longrightarrow> rows (gms_sst (view_wedge g)) ! i = rows (gms_sst g) ! i"
    "thread_shutdown (curr_group (view_wedge g))" "curr_view (view_wedge g) = curr_view g"
    "num_rows (gms_sst (view_wedge g)) = num_rows (gms_sst g)"
proof -
  have n: "nat (my_rank (curr_view g)) = local_index (gms_sst g)" using assms(1) by simp
  show "local_row (gms_sst (view_wedge g)) = (local_row (gms_sst g))\<lparr>wedged := True\<rparr>"
    "local_index (gms_sst (view_wedge g)) = local_index (gms_sst g)"
    "i \<noteq> local_index (gms_sst g) \<Longrightarrow> rows (gms_sst (view_wedge g)) ! i = rows (gms_sst g) ! i"
    "thread_shutdown (curr_group (view_wedge g))" "curr_view (view_wedge g) = curr_view g"
    "num_rows (gms_sst (view_wedge g)) = num_rows (gms_sst g)"
    using assms(2) by (simp_all add: view_wedge_def n put_fields set_row_def local_row_def)
qed

text \<open>
  An acknowledgement makes this node's list of proposals the leader's, acknowledges all
  of them, wedges the view, and is not triggered again by the same proposals: afterwards
  the predicate \<^verbatim>\<open>leader_proposed_change\<close> is false.
\<close>

lemma ack_echoes_the_leader:
  assumes run: "ack_proposed_change g = Inr g'"
    and loc: "local_index (gms_sst g) < num_rows (gms_sst g)"
    and lead: "rank_of_leader (curr_view g) = int k"
  defines "me \<equiv> local_row (gms_sst g')" and "l \<equiv> rows (gms_sst g) ! k"
  shows "pending_changes N me = pending_changes N l \<and> nAcked me = nChanges l \<and> nChanges me = nChanges l \<and>
    nCommitted me = nCommitted l \<and> wedged me \<and> thread_shutdown (curr_group g') \<and>
    leader_proposed_change g' = Inr False"
proof -
  let ?i = "local_index (gms_sst g)"
  define g1 where "g1 = (if int ?i \<noteq> rank_of_leader (curr_view g) then upd_sst (upd_local (echo_leader l)) g else g)"
  define g2 where "g2 = upd_sst (\<lambda>s. put (upd_local (\<lambda>r. r\<lparr>nAcked := nChanges (rows s ! k)\<rparr>) s)) g1"
  from run lead have me: "int ?i = my_rank (curr_view g)" and g': "g' = view_wedge g2"
    by (auto simp: ack_proposed_change_def leader_row_def Let_def g1_def g2_def l_def split: if_splits)
  have f1: "curr_view g1 = curr_view g" "local_index (gms_sst g1) = ?i" "num_rows (gms_sst g1) = num_rows (gms_sst g)"
    by (simp_all add: g1_def sst_simps)
  have k1: "rows (gms_sst g1) ! k = l"
    using lead by (simp add: g1_def l_def sst_simps)
  have own1: "local_row (gms_sst g1) = (if ?i = k then l else echo_leader l (local_row (gms_sst g)))"
    using loc lead by (auto simp: g1_def l_def sst_simps local_row_def)
  have f2: "curr_view g2 = curr_view g" "local_index (gms_sst g2) = ?i" "num_rows (gms_sst g2) = num_rows (gms_sst g)"
    by (simp_all add: g2_def f1 sst_simps)
  have own2: "local_row (gms_sst g2) = (local_row (gms_sst g1))\<lparr>nAcked := nChanges l\<rparr>"
    using loc f1 k1 by (simp add: g2_def sst_simps)
  have k2: "k \<noteq> ?i \<Longrightarrow> rows (gms_sst g2) ! k = l"
    using f1 k1 by (simp add: g2_def sst_simps)
  have pre: "int (local_index (gms_sst g2)) = my_rank (curr_view g2)" "local_index (gms_sst g2) < num_rows (gms_sst g2)"
    using me loc f2 by simp_all
  note w = view_wedge_sst[OF pre]
  have mine: "me = (local_row (gms_sst g1))\<lparr>nAcked := nChanges l, wedged := True\<rparr>"
    by (simp add: me_def g' w own2)
  have base: "changes me = changes l" "nChanges me = nChanges l" "nCommitted me = nCommitted l" "nAcked me = nChanges l" "wedged me"
    by (simp_all add: mine own1 echo_leader_def)
  have "nChanges (rows (gms_sst g') ! k) = nChanges l"
    using base(2) w(2) w(3)[where i = k] k2 f2(2) by (cases "k = ?i") (auto simp: me_def g' local_row_def)
  then have "leader_proposed_change g' = Inr False"
    using lead base(4) by (simp add: leader_proposed_change_def leader_row_def g' w f2 me_def)
  with base w(4) show ?thesis by (simp add: pending_changes_def change_at_def g')
qed

definition follower_managed :: "unit managed" where
  "follower_managed = trio_managed\<lparr>curr_view := (curr_view trio_managed)\<lparr>my_rank := 1, IKnowIAmLeader := False\<rparr>,
     curr_group := (curr_group trio_managed)\<lparr>member_index := 1, dg_sst := \<lparr>
       rows = [trio_row\<lparr>changes := [40, 0, 0], nChanges := 1\<rparr>, trio_row, trio_row], local_index = 1, preds = [], calls = []\<rparr>\<rparr>\<rparr>"

lemma ack_echoes_the_leader_witness:
  "\<exists>g'. ack_proposed_change follower_managed = Inr g' \<and> nAcked (local_row (gms_sst g')) = 1"
proof -
  have "(case ack_proposed_change follower_managed of Inl _ \<Rightarrow> False | Inr _ \<Rightarrow> True) = True" by code_simp
  then obtain g' where g': "ack_proposed_change follower_managed = Inr g'" by (auto split: sum.splits)
  have "local_index (gms_sst follower_managed) < num_rows (gms_sst follower_managed)"
    "rank_of_leader (curr_view follower_managed) = int 0" "nChanges (rows (gms_sst follower_managed) ! 0) = 1"
    by code_simp+
  with ack_echoes_the_leader[OF g', of 0] g' show ?thesis by auto
qed

section \<open>Joins\<close>

lemma join_row:
  "(r\<lparr>changes := (changes r)[nat (nChanges r) mod N := p]\<rparr>)\<lparr>joiner_ip := ip, nChanges := increment (nChanges r)\<rparr> =
   (propose_change N p r)\<lparr>joiner_ip := ip\<rparr>"
  by (cases r) (simp add: propose_change_def)

text \<open>
  A join the leader accepts while the list has room is appended to its proposals, its
  address can be read back from the row, and the view is wedged.
\<close>

lemma join_is_proposed:
  assumes run: "receive_join N c g = Inr g'"
    and me: "int (local_index (gms_sst g)) = my_rank (curr_view g)" "local_index (gms_sst g) < num_rows (gms_sst g)"
    and ring: "changes_wf N (local_row (gms_sst g))"
      "nChanges (local_row (gms_sst g)) - nCommitted (local_row (gms_sst g)) < int N"
  shows "pending_changes N (local_row (gms_sst g')) =
      pending_changes N (local_row (gms_sst g)) @ [case client_id c of None \<Rightarrow> 0 | Some p \<Rightarrow> p] \<and>
    c_str (joiner_ip (local_row (gms_sst g'))) = c_str (remote_ip c) \<and>
    wedged (local_row (gms_sst g')) \<and> thread_shutdown (curr_group g')"
proof -
  let ?i = "local_index (gms_sst g)" and ?r = "local_row (gms_sst g)"
  let ?p = "case client_id c of None \<Rightarrow> 0 | Some p \<Rightarrow> p"
  have i: "nat (my_rank (curr_view g)) = ?i" "rows (gms_sst g) ! ?i = ?r" using me(1) by (simp_all add: local_row_def)
  from run obtain ip where ip: "set_cstring (joiner_ip ?r) (remote_ip c) = Inr ip"
    and g': "g' = upd_sst put (view_wedge (upd_sst (set_row ?i ((propose_change N ?p ?r)\<lparr>joiner_ip := ip\<rparr>)) g))"
    unfolding receive_join_def Let_def i join_row[symmetric]
    by (auto split: if_splits)
  let ?g = "upd_sst (set_row ?i ((propose_change N ?p ?r)\<lparr>joiner_ip := ip\<rparr>)) g"
  have pre: "int (local_index (gms_sst ?g)) = my_rank (curr_view ?g)" "local_index (gms_sst ?g) < num_rows (gms_sst ?g)"
    using me by (simp_all add: set_row_def)
  note w = view_wedge_sst[OF pre]
  have row: "local_row (set_row ?i ((propose_change N ?p ?r)\<lparr>joiner_ip := ip\<rparr>) (gms_sst g)) =
      (propose_change N ?p ?r)\<lparr>joiner_ip := ip\<rparr>"
    using me by (simp add: set_row_def local_row_def)
  have row': "local_row (gms_sst g') = (propose_change N ?p ?r)\<lparr>joiner_ip := ip, wedged := True\<rparr>"
    unfolding g' upd_fields put_fields w(1) row by simp
  have "pending_changes N (local_row (gms_sst g')) = pending_changes N (propose_change N ?p ?r)"
    by (simp add: row' pending_changes_def change_at_def)
  also have "\<dots> = pending_changes N ?r @ [?p]"
    using ring by (intro pending_propose_change) (auto simp: changes_wf_def)
  finally have pend: "pending_changes N (local_row (gms_sst g')) = pending_changes N ?r @ [?p]" .
  have "thread_shutdown (curr_group g')" using w(4) by (simp add: g')
  then show ?thesis
    using set_cstring_reads_back[OF ip] pend unfolding row' by simp
qed

definition joiner :: client where
  "joiner = \<lparr>remote_ip = ''d'', client_id = Some 40\<rparr>"

lemma join_is_proposed_witness:
  "\<exists>g'. receive_join 3 joiner trio_managed = Inr g' \<and> pending_changes 3 (local_row (gms_sst g')) = [40]"
proof -
  have "(case receive_join 3 joiner trio_managed of Inl _ \<Rightarrow> False | Inr _ \<Rightarrow> True) = True" by code_simp
  then obtain g' where g': "receive_join 3 joiner trio_managed = Inr g'" by (auto split: sum.splits)
  have "int (local_index (gms_sst trio_managed)) = my_rank (curr_view trio_managed)"
    "pending_changes 3 (local_row (gms_sst trio_managed)) = []" by code_simp+
  with join_is_proposed[OF g'] trio_managed_facts g' show ?thesis
    by (auto simp: joiner_def trio_managed_def)
qed

text \<open>
  The check before a join compares the number of pending changes with half the capacity
  for equality only. With \<^verbatim>\<open>MAX_MEMBERS\<close> changes pending the join is accepted, and the
  ring position it takes is that of the oldest pending change, which now reads as the
  joining node.
\<close>

lemma join_overwrites_a_full_list:
  assumes me: "int (local_index (gms_sst g)) = my_rank (curr_view g)" "local_index (gms_sst g) < num_rows (gms_sst g)"
    and ring: "changes_wf N (local_row (gms_sst g))" "1 < N"
      "nChanges (local_row (gms_sst g)) - nCommitted (local_row (gms_sst g)) = int N"
    and fits: "length (c_str (remote_ip c)) < length (joiner_ip (local_row (gms_sst g)))"
  shows "\<exists>g'. receive_join N c g = Inr g' \<and>
    change_at N (local_row (gms_sst g')) (nCommitted (local_row (gms_sst g))) =
      (case client_id c of None \<Rightarrow> 0 | Some p \<Rightarrow> p)"
proof -
  let ?i = "local_index (gms_sst g)" and ?r = "local_row (gms_sst g)"
  let ?p = "case client_id c of None \<Rightarrow> 0 | Some p \<Rightarrow> p"
  have i: "nat (my_rank (curr_view g)) = ?i" "rows (gms_sst g) ! ?i = ?r" using me(1) by (simp_all add: local_row_def)
  have half: "nChanges ?r - nCommitted ?r \<noteq> int (N div 2)" using ring by simp
  obtain ip where ip: "set_cstring (joiner_ip ?r) (remote_ip c) = Inr ip"
    using fits by (simp add: set_cstring_def Let_def)
  let ?g = "upd_sst (set_row ?i ((propose_change N ?p ?r)\<lparr>joiner_ip := ip\<rparr>)) g"
  have run: "receive_join N c g = Inr (upd_sst put (view_wedge ?g))"
    unfolding receive_join_def Let_def i join_row[symmetric] using half ip by simp
  have pre: "int (local_index (gms_sst ?g)) = my_rank (curr_view ?g)" "local_index (gms_sst ?g) < num_rows (gms_sst ?g)"
    using me by (simp_all add: set_row_def)
  have row: "local_row (gms_sst (upd_sst put (view_wedge ?g))) =
      (propose_change N ?p ?r)\<lparr>joiner_ip := ip, wedged := True\<rparr>"
    using view_wedge_sst(1)[OF pre] me(2) by (simp add: put_fields set_row_def local_row_def)
  have "nat (nChanges ?r) = nat (nCommitted ?r) + N" using ring unfolding changes_wf_def by linarith
  then have pos: "nat (nChanges ?r) mod N = nat (nCommitted ?r) mod N" by simp
  have "nat (nCommitted ?r) mod N < length (changes ?r)" using ring by (simp add: changes_wf_def)
  then have "change_at N (local_row (gms_sst (upd_sst put (view_wedge ?g)))) (nCommitted ?r) = ?p"
    unfolding row by (simp add: change_at_def propose_change_def pos)
  with run show ?thesis by blast
qed

definition full_managed :: "unit managed" where
  "full_managed = trio_managed\<lparr>curr_group := (curr_group trio_managed)\<lparr>dg_sst := \<lparr>
     rows = replicate 3 (trio_row\<lparr>changes := [51, 52, 53], nChanges := 3\<rparr>), local_index = 0, preds = [], calls = []\<rparr>\<rparr>\<rparr>"

lemma join_overwrites_a_full_list_witness:
  "\<exists>g'. receive_join 3 joiner full_managed = Inr g' \<and> change_at 3 (local_row (gms_sst g')) 0 = 40"
proof -
  have "int (local_index (gms_sst full_managed)) = my_rank (curr_view full_managed)"
    "local_index (gms_sst full_managed) < num_rows (gms_sst full_managed)"
    "changes_wf 3 (local_row (gms_sst full_managed))"
    "nChanges (local_row (gms_sst full_managed)) - nCommitted (local_row (gms_sst full_managed)) = int 3"
    "length (c_str (remote_ip joiner)) < length (joiner_ip (local_row (gms_sst full_managed)))"
    "nCommitted (local_row (gms_sst full_managed)) = 0"
    by code_simp+
  with join_overwrites_a_full_list[of full_managed 3 joiner] show ?thesis by (simp add: joiner_def)
qed

end
