(* ===== verification/Ragged_Edge.thy ===== *)
theory Ragged_Edge
  imports Agreement
begin

text \<open>
  The trim that ends a view: the leader's minimum over the rows, its copy at the other
  members, and what the final delivery then delivers.
\<close>

section \<open>The final delivery\<close>

definition message_at :: "'o dgroup \<Rightarrow> int \<Rightarrow> message option" where
  "message_at g k = sm_find (locally_stable_messages g) k"

definition callbacks_at :: "'o dgroup \<Rightarrow> int \<Rightarrow> int list" where
  "callbacks_at g k = (case message_at g k of None \<Rightarrow> [] | Some m \<Rightarrow> raw_seqs (dg_n g) m)"

lemma deliver_range_spec:
  assumes "deliver_range ks g = Inr g'" "sm_wf (locally_stable_messages g)" "distinct ks"
  shows "sm_wf (locally_stable_messages g') \<and> dg_members g' = dg_members g \<and>
    (\<forall>k. message_at g' k = (if k \<in> set ks then None else message_at g k)) \<and>
    callback_seqs g' = callback_seqs g @ concat (map (callbacks_at g) ks)"
  using assms
proof (induction ks arbitrary: g)
  case (Cons k ks)
  show ?case
  proof (cases "sm_find (locally_stable_messages g) k")
    case None
    with Cons.IH[of g] Cons.prems show ?thesis by (auto simp: message_at_def callbacks_at_def)
  next
    case (Some m)
    with Cons.prems obtain g1 where g1: "deliver_message m g = Inr g1" by auto
    let ?g = "g1\<lparr>locally_stable_messages := sm_erase k (locally_stable_messages g1)\<rparr>"
    from deliver_message_frame[OF g1] have f: "locally_stable_messages g1 = locally_stable_messages g"
      "dg_members g1 = dg_members g" "callback_seqs g1 = callback_seqs g @ raw_seqs (dg_n g) m"
      by (auto simp: delivery_frame_def)
    have at: "message_at ?g j = (if j = k then None else message_at g j)" for j
      using Cons.prems(2) by (simp add: message_at_def f sm_find_erase)
    have cb: "callback_seqs ?g = callback_seqs g @ raw_seqs (dg_n g) m"
      by (simp add: outgoing_stable_only f)
    have run: "deliver_range ks ?g = Inr g'" using Cons.prems(1) Some g1 by simp
    have wf: "sm_wf (locally_stable_messages ?g)" using Cons.prems(2) by (simp add: f sm_wf_erase)
    have d: "k \<notin> set ks" "distinct ks" using Cons.prems(3) by auto
    have "map (callbacks_at ?g) ks = map (callbacks_at g) ks"
      using d(1) at by (auto simp: callbacks_at_def f split: option.splits)
    have k: "callbacks_at g k = raw_seqs (dg_n g) m" using Some by (simp add: callbacks_at_def message_at_def)
    from Cons.IH[OF run wf d(2)] have ih: "sm_wf (locally_stable_messages g')" "dg_members g' = dg_members g"
      "\<forall>j. message_at g' j = (if j \<in> set ks then None else message_at ?g j)"
      "callback_seqs g' = callback_seqs ?g @ concat (map (callbacks_at ?g) ks)" by (simp_all add: f(2))
    have "callback_seqs g' = callback_seqs g @ concat (map (callbacks_at g) (k # ks))"
      unfolding ih(4) cb \<open>map (callbacks_at ?g) ks = map (callbacks_at g) ks\<close> by (simp add: k)
    with ih(1-3) at show ?thesis by simp
  qed
qed simp

definition last_of_edge :: "nat \<Rightarrow> int list \<Rightarrow> int \<Rightarrow> int" where
  "last_of_edge n maxs d = foldl (\<lambda>m sender. max m (seq_of n (int sender) (maxs ! sender))) d [0..<length maxs]"

text \<open>
  The final delivery of a view, given one index per sender: it goes through the global
  order from the last delivered number to the largest of the senders' numbers and delivers,
  in that order, every message held there; those leave the stable messages and later ones
  stay.
\<close>

lemma final_delivery_is_a_range:
  assumes run: "deliver_messages_upto maxs g = Inr g'" and wf: "sm_wf (locally_stable_messages g)"
  defines "d \<equiv> delivered_num (my_row g)" and "m \<equiv> last_of_edge (dg_n g) maxs (delivered_num (my_row g))"
  shows "length maxs = dg_n g \<and>
    callback_seqs g' = callback_seqs g @ concat (map (callbacks_at g) [d..m]) \<and>
    (\<forall>k. message_at g' k = (if d \<le> k \<and> k \<le> m then None else message_at g k))"
proof -
  from run have n: "length maxs = dg_n g" and r: "deliver_range [d..m] g = Inr g'"
    by (auto simp: deliver_messages_upto_def Let_def d_def m_def last_of_edge_def)
  with deliver_range_spec[OF r wf] show ?thesis by auto
qed

text \<open>Two rows that differ in what they have received of sender 1.\<close>

definition edge_row :: "int list \<Rightarrow> int \<Rightarrow> derecho_row" where
  "edge_row counts s = duo_row\<lparr>nReceived := counts, seq_num := s\<rparr>"

definition edge_sst :: sst where
  "edge_sst = \<lparr>rows = [edge_row [1, 0] 2, edge_row [1, -1] 0], local_index = 0, preds = [], calls = []\<rparr>"

section \<open>The leader's minimum\<close>

lemma to_int32_id: "-(2 ^ 31) \<le> x \<Longrightarrow> x < 2 ^ 31 \<Longrightarrow> to_int32 x = x"
  unfolding to_int32_def by (subst signed_of_int) (simp add: signed_take_bit_int_eq_self)

lemma min_received_fold:
  assumes "\<forall>r \<in> set rs. to_int32 (c r) = c r"
  shows "foldl (\<lambda>m r. if m > c r then to_int32 (c r) else m) a rs = Min (insert a (c ` set rs))"
  using assms
proof (induction rs arbitrary: a)
  case (Cons r rs)
  have "foldl (\<lambda>m r. if m > c r then to_int32 (c r) else m) a (r # rs) = Min (insert (min a (c r)) (c ` set rs))"
    using Cons by (simp add: min_def)
  also have "\<dots> = Min (insert a (c ` set (r # rs)))"
    by (cases "set rs = {}") (simp_all add: min.assoc insert_commute)
  finally show ?case .
qed simp

lemma min_received_cong:
  "\<forall>r. nReceived (rows t ! r) = nReceived (rows s ! r) \<Longrightarrow> min_received t i num n = min_received s i num n"
  by (simp add: min_received_def cong: if_cong)

lemma globalMin_fold:
  fixes num :: nat
  assumes "myRank < num_rows s" "\<forall>n \<in> set ns. n < length (globalMin (rows s ! myRank))" "distinct ns"
  defines "t \<equiv> foldl (\<lambda>s n. set_row myRank ((rows s ! myRank)\<lparr>
       globalMin := (globalMin (rows s ! myRank))[n := min_received s myRank num n]\<rparr>) s) s ns"
  shows "num_rows t = num_rows s \<and> length (globalMin (rows t ! myRank)) = length (globalMin (rows s ! myRank)) \<and>
    (\<forall>r. nReceived (rows t ! r) = nReceived (rows s ! r)) \<and>
    (\<forall>n \<in> set ns. globalMin (rows t ! myRank) ! n = min_received s myRank num n)"
  using assms(2,3) unfolding t_def
proof (induction ns rule: rev_induct)
  case (snoc n ns)
  let ?t = "foldl (\<lambda>s n. set_row myRank ((rows s ! myRank)\<lparr>
       globalMin := (globalMin (rows s ! myRank))[n := min_received s myRank num n]\<rparr>) s) s ns"
  have ih: "num_rows ?t = num_rows s" "length (globalMin (rows ?t ! myRank)) = length (globalMin (rows s ! myRank))"
    "\<forall>r. nReceived (rows ?t ! r) = nReceived (rows s ! r)"
    "\<forall>n \<in> set ns. globalMin (rows ?t ! myRank) ! n = min_received s myRank num n"
    using snoc by auto
  have same: "min_received ?t myRank num n = min_received s myRank num n"
    by (rule min_received_cong) (rule ih(3))
  have "n \<notin> set ns" "n < length (globalMin (rows ?t ! myRank))" using snoc.prems ih(2) by auto
  with ih same assms(1) show ?case
    by (auto simp: set_row_def nth_list_update)
qed simp

text \<open>
  What the leader publishes as \<^verbatim>\<open>globalMin\<close> when no other row has decided: for every
  sender the smallest count any row of the view reports, provided the counts fit an
  \<^verbatim>\<open>int\<close>. So every member has received at least that many of the sender's messages.
\<close>

lemma leader_takes_the_minimum:
  assumes rows: "myRank < num" "num \<le> num_rows s" "num \<le> length (globalMin (rows s ! myRank))"
    and fit: "\<forall>r < num. \<forall>n < num. -(2 ^ 31) \<le> nReceived (rows s ! r) ! n \<and> nReceived (rows s ! r) ! n < 2 ^ 31"
    and n: "n < num"
  shows "globalMin (rows (compute_globalMin myRank num s) ! myRank) ! n =
      Min ((\<lambda>r. nReceived (rows s ! r) ! n) ` {..<num}) \<and>
    (\<forall>r < num. globalMin (rows (compute_globalMin myRank num s) ! myRank) ! n \<le> nReceived (rows s ! r) ! n)"
proof -
  have fixed: "to_int32 (nReceived (rows s ! r) ! n) = nReceived (rows s ! r) ! n" if "r < num" for r
    using fit n that by (intro to_int32_id) auto
  have "globalMin (rows (compute_globalMin myRank num s) ! myRank) ! n = min_received s myRank num n"
    using globalMin_fold[of myRank s "[0..<num]" num] rows n by (simp add: compute_globalMin_def)
  also have "\<dots> = Min (insert (nReceived (rows s ! myRank) ! n) ((\<lambda>r. nReceived (rows s ! r) ! n) ` {..<num}))"
    unfolding min_received_def using fixed rows(1)
    by (subst min_received_fold) (auto simp: lessThan_atLeast0)
  also have "insert (nReceived (rows s ! myRank) ! n) ((\<lambda>r. nReceived (rows s ! r) ! n) ` {..<num}) =
      (\<lambda>r. nReceived (rows s ! r) ! n) ` {..<num}" using rows(1) by auto
  finally have min: "globalMin (rows (compute_globalMin myRank num s) ! myRank) ! n =
      Min ((\<lambda>r. nReceived (rows s ! r) ! n) ` {..<num})" .
  then show ?thesis using Min_le[of "(\<lambda>r. nReceived (rows s ! r) ! n) ` {..<num}"] by auto
qed

lemma leader_takes_the_minimum_witness:
  "globalMin (rows (compute_globalMin 0 2 edge_sst) ! 0) ! 1 \<le> nReceived (rows edge_sst ! 1) ! 1"
proof -
  have "num_rows edge_sst = 2" "length (globalMin (rows edge_sst ! 0)) = 2" by code_simp+
  moreover have "\<forall>r < 2. \<forall>n < 2. -(2 ^ 31) \<le> nReceived (rows edge_sst ! r) ! n \<and>
      nReceived (rows edge_sst ! r) ! n < 2 ^ 31"
    by (auto simp: edge_sst_def edge_row_def less_2_cases_iff)
  ultimately show ?thesis using leader_takes_the_minimum[of 0 2 edge_sst 1] by auto
qed

end
