(* ===== verification/View_Change.thy ===== *)
theory View_Change
  imports Total_Order Ragged_Edge
begin

text \<open>
  The end of a view and the start of the next, for all members at once: what the final
  delivery adds to what each member has delivered, when the members leave the view with
  the same messages delivered, what becomes of a member's own messages, and that the
  groups the second constructor builds are again a cluster.
\<close>

section \<open>The final delivery at one node\<close>

definition held_raw :: "'o dgroup \<Rightarrow> int \<Rightarrow> raw_message list" where
  "held_raw g k = (case message_at g k of None \<Rightarrow> []
     | Some m \<Rightarrow> if 0 < msize m \<and> \<not> h_cooked_send (snd (wire_of m))
         then [(k mod int (dg_n g), k div int (dg_n g), drop 9 (snd (wire_of m)))] else [])"

definition held_ok :: "'o dgroup \<Rightarrow> bool" where
  "held_ok g \<longleftrightarrow> sm_wf (locally_stable_messages g) \<and>
     (\<forall>k m. message_at g k = Some m \<longrightarrow> placed (dg_n g) (k, m) \<and> (msize m = 0 \<or> wire_ok (wire_of m)))"

lemma deliver_range_raw:
  assumes "deliver_range ks g = Inr g'" "held_ok g" "distinct ks"
  shows "delivered_raw g' = delivered_raw g @ concat (map (held_raw g) ks) \<and> outgoing g' = outgoing g \<and>
    member_index g' = member_index g \<and> max_msg_size g' = max_msg_size g"
  using assms
proof (induction ks arbitrary: g)
  case (Cons k ks)
  show ?case
  proof (cases "sm_find (locally_stable_messages g) k")
    case None
    with Cons.IH[of g] Cons.prems show ?thesis by (auto simp: message_at_def held_raw_def)
  next
    case (Some m)
    with Cons.prems obtain g1 where g1: "deliver_message m g = Inr g1" by auto
    let ?g = "g1\<lparr>locally_stable_messages := sm_erase k (locally_stable_messages g1)\<rparr>"
    have m: "placed (dg_n g) (k, m)" "fst (wire_of m) = 0 \<or> wire_ok (wire_of m)" "sm_wf (locally_stable_messages g)"
      using Cons.prems(2) Some by (auto simp: held_ok_def message_at_def wire_of_def)
    have raw: "delivered_raw g1 = delivered_raw g @ held_raw g k" "max_msg_size g1 = max_msg_size g"
      using deliver_message_raw[OF g1 refl m(2,1)] Some by (simp_all add: held_raw_def message_at_def wire_of_def)
    have f: "delivery_frame g g1" using deliver_message_frame[OF g1] by simp
    have at: "message_at ?g j = (if j = k then None else message_at g j)" "dg_n ?g = dg_n g" for j
      using f m(3) by (simp_all add: message_at_def delivery_frame_def sm_find_erase)
    have same: "delivered_raw ?g = delivered_raw g1" "outgoing ?g = outgoing g" "member_index ?g = member_index g"
      "max_msg_size ?g = max_msg_size g"
      using delivery_frame_outgoing[OF f] f raw(2)
      by (simp_all add: delivered_raw_def outgoing_stable_only delivery_frame_def)
    have "held_ok ?g" using Cons.prems(2) f at by (auto simp: held_ok_def delivery_frame_def sm_wf_erase)
    from Cons.IH[OF _ this] Cons.prems(1,3) Some g1 same
    have ih: "delivered_raw g' = delivered_raw g1 @ concat (map (held_raw ?g) ks)" "outgoing g' = outgoing g"
      "member_index g' = member_index g" "max_msg_size g' = max_msg_size g" by auto
    have "map (held_raw ?g) ks = map (held_raw g) ks"
      using Cons.prems(3) at by (auto simp: held_raw_def split: option.splits)
    with ih raw show ?thesis by simp
  qed
qed simp

text \<open>A node in step with the logs holds the received messages it has not delivered.\<close>

lemma node_holds:
  assumes inv: "node_inv n S G g" and logs: "logs_ok S"
  shows "held_ok g" and "message_at g k \<noteq> None \<longleftrightarrow> delivered_num (my_row g) < k \<and> received n (my_counts g) k"
    and "held_raw g k = (if delivered_num (my_row g) < k \<and> received n (my_counts g) k then raw_at n S k else [])"
proof -
  note store = group_invD(3)[OF node_invD(1)[OF inv], unfolded store_inv_def] and n = node_invD(2)[OF inv]
  have slot: "slot_at n S j = Some (wire_of m)" if "message_at g j = Some m" for j m
    using node_invD(6)[OF inv] that by (simp add: stable_inv_def message_at_def)
  show ok: "held_ok g"
    unfolding held_ok_def
  proof (intro conjI allI impI)
    show "sm_wf (locally_stable_messages g)" using store by simp
    fix j m assume m: "message_at g j = Some m"
    then have "(j, m) \<in> set (locally_stable_messages g)" by (simp add: message_at_def sm_find_in_set)
    with store show "placed (dg_n g) (j, m)" by blast
    from slot[OF m] have "wire_of m = (0, []) \<or> wire_of m \<in> set (S (nat (j mod int n)))"
      unfolding slot_at_def by (rule slot_in)
    with logs show "msize m = 0 \<or> wire_ok (wire_of m)" by (auto simp: logs_ok_def wire_of_def)
  qed
  show held: "message_at g k \<noteq> None \<longleftrightarrow> delivered_num (my_row g) < k \<and> received n (my_counts g) k" for k
    using store n by (auto simp: message_at_def dom_def)
  show "held_raw g k = (if delivered_num (my_row g) < k \<and> received n (my_counts g) k then raw_at n S k else [])"
  proof (cases "message_at g k")
    case None
    with held[of k] show ?thesis by (auto simp: held_raw_def)
  next
    case (Some m)
    with held[of k] slot[OF Some] show ?thesis by (auto simp: held_raw_def raw_at_def n wire_of_def)
  qed
qed

lemma last_of_edge_eq:
  "last_of_edge n maxs d = Max (insert d ((\<lambda>q. seq_of n (int q) (maxs ! q)) ` {..<length maxs}))"
proof -
  have "foldl (\<lambda>m x. max m (f x)) a xs = Max (insert a (f ` set xs))" for f :: "nat \<Rightarrow> int" and a xs
  proof (induction xs arbitrary: a)
    case (Cons x xs)
    show ?case by (cases "xs = []") (simp_all add: Cons max.assoc)
  qed simp
  then show ?thesis by (simp add: last_of_edge_def lessThan_atLeast0)
qed

section \<open>The final delivery of all members\<close>

lemma final_delivery_raw:
  assumes inv: "node_inv n S G g" and logs: "logs_ok S" and run: "deliver_messages_upto maxs g = Inr g'"
  shows "delivered_raw g' =
      concat (map (\<lambda>k. if received n (my_counts g) k then raw_at n S k else [])
        [0..last_of_edge n maxs (delivered_num (my_row g))])"
    and "length maxs = n" and "outgoing g' = outgoing g" and "member_index g' = member_index g"
    and "max_msg_size g' = max_msg_size g"
    and "\<forall>k. message_at g' k = (if delivered_num (my_row g) \<le> k \<and> k \<le> last_of_edge n maxs (delivered_num (my_row g))
        then None else message_at g k)"
    and "sm_wf (locally_stable_messages g')"
proof -
  let ?d = "delivered_num (my_row g)" let ?m = "last_of_edge n maxs ?d"
  let ?h = "\<lambda>k. if received n (my_counts g) k then raw_at n S k else []"
  note N = node_invD[OF inv]
  have d: "-1 \<le> ?d" "?d \<le> seq_num (my_row g)" "seq_num (my_row g) = contiguous_seq n (my_counts g)" "counts_ok n (my_counts g)"
    using group_invD(1,2)[OF N(1)] N(2) by (auto simp: order_inv_def rows_inv_def)
  have n: "length maxs = n" "deliver_range [?d..?m] g = Inr g'"
    using run N(2) by (auto simp: deliver_messages_upto_def Let_def last_of_edge_def)
  have le: "?d \<le> ?m" by (simp add: last_of_edge_eq)
  note range = deliver_range_raw[OF n(2) node_holds(1)[OF inv logs]]
  have none: "held_raw g ?d = []" by (simp add: node_holds(3)[OF inv logs])
  have "concat (map (held_raw g) [?d..?m]) = held_raw g ?d @ concat (map (held_raw g) [?d + 1..?m])"
    using le by (simp add: upto_rec1)
  also have "map (held_raw g) [?d + 1..?m] = map ?h [?d + 1..?m]"
    by (rule map_cong) (auto simp: node_holds(3)[OF inv logs])
  finally have new: "concat (map (held_raw g) [?d..?m]) = concat (map ?h [?d + 1..?m])"
    by (simp only: none append_Nil)
  have "raw_upto n S ?d = concat (map ?h [0..?d])"
    unfolding raw_upto_def
    by (intro arg_cong[where f = concat] map_cong refl) (use contiguous_prefix_received[OF d(4)] d(2,3) in auto)
  then have old: "delivered_raw g = concat (map ?h [0..?d])" using N(7) by (simp add: delivered_inv_def)
  have split: "[0..?m] = [0..?d] @ [?d + 1..?m]"
    using upto_split1[of 0 "?d + 1" ?m] upto_split2[of 0 ?d ?m] le d(1) by (cases "?d = -1") auto
  from range have "delivered_raw g' = delivered_raw g @ concat (map (held_raw g) [?d..?m])" by simp
  also have "\<dots> = concat (map ?h [0..?m])" unfolding new old split by simp
  finally show "delivered_raw g' = concat (map ?h [0..?m])" .
  show "length maxs = n" "outgoing g' = outgoing g" "member_index g' = member_index g" "max_msg_size g' = max_msg_size g"
    using range n(1) by simp_all
  have wf: "sm_wf (locally_stable_messages g)" using node_holds(1)[OF inv logs] by (simp add: held_ok_def)
  from deliver_range_spec[OF n(2) wf] show "\<forall>k. message_at g' k = (if ?d \<le> k \<and> k \<le> ?m then None else message_at g k)"
    "sm_wf (locally_stable_messages g')" by auto
qed

lemma smallest_counts_cover_delivered:
  assumes C: "cluster_reachable n C" and p: "p < n"
    and maxs: "length maxs = n" "\<forall>q < n. maxs ! q = Min ((\<lambda>s. my_counts (node C s) ! q) ` {..<n})"
  shows "last_of_edge n maxs (delivered_num (my_row (node C p))) = last_of_edge n maxs (-1)"
proof (cases "delivered_num (my_row (node C p)) = -1")
  case False
  let ?d = "delivered_num (my_row (node C p))" let ?q = "nat (?d mod int n)"
  have d: "0 \<le> ?d" using reachable_node(5)[OF C p] False by simp
  have inv: "cluster_inv n C" using C by (rule cluster.inv_reachable)
  have q: "?q < n" "int ?q = ?d mod int n" using p by (simp_all add: nat_less_iff)
  have "?d div int n \<le> my_counts (node C s) ! ?q" if "s < n" for s
  proof -
    have "?d \<le> seq_num (my_row (node C s))"
      using inv p that group_invD(2)[OF cluster_node(4)[OF inv that]]
      unfolding cluster_inv_def stable_everywhere_def order_inv_def by force
    then have "received n (my_counts (node C s)) ?d"
      using contiguous_prefix_received[of n "my_counts (node C s)" ?d] cluster_node(4,5)[OF inv that] d
      by (auto simp: group_inv_def rows_inv_def order_inv_def)
    then show ?thesis by (simp add: received_def)
  qed
  then have "?d div int n \<le> Min ((\<lambda>s. my_counts (node C s) ! ?q) ` {..<n})"
    by (intro Min.boundedI) (use p in auto)
  then have "?d div int n \<le> maxs ! ?q" using maxs(2) q(1) by simp
  then have "seq_of n (int ?q) (?d div int n) \<le> seq_of n (int ?q) (maxs ! ?q)"
    by (simp add: seq_of_def mult_right_mono)
  moreover have "seq_of n (int ?q) (?d div int n) = ?d" using p by (simp add: q(2) seq_of_div_mod)
  moreover have "seq_of n (int ?q) (maxs ! ?q) \<in> (\<lambda>q. seq_of n (int q) (maxs ! q)) ` {..<length maxs}"
    by (rule imageI) (use q(1) maxs(1) in simp)
  then have "seq_of n (int ?q) (maxs ! ?q) \<le> Max ((\<lambda>q. seq_of n (int q) (maxs ! q)) ` {..<length maxs})"
    by (intro Max_ge) auto
  ultimately have "?d \<le> Max ((\<lambda>q. seq_of n (int q) (maxs ! q)) ` {..<length maxs})" by simp
  moreover have "(\<lambda>q. seq_of n (int q) (maxs ! q)) ` {..<length maxs} \<noteq> {}" using q(1) maxs(1) by auto
  ultimately show ?thesis using d by (simp add: last_of_edge_eq max_def)
qed simp

text \<open>A raw delivery names its place.\<close>

lemma raw_at_place: "x \<in> set (raw_at n S k) \<Longrightarrow> x \<in> set (raw_at n S k') \<Longrightarrow> 0 < n \<Longrightarrow> k = k'"
  by (auto simp: raw_at_def split: option.splits if_splits) (metis mult_div_mod_eq)

text \<open>A place up to the last one, if received, is in what the final delivery leaves delivered.\<close>

lemma delivered_piece:
  assumes "ms = concat (map (\<lambda>k. if P k then f k else []) [0..m])" and "0 \<le> k" "k \<le> m" "P k"
  shows "\<exists>xs ys. ms = xs @ f k @ ys"
proof -
  have "[0..m] = [0..k - 1] @ k # [k + 1..m]" using assms(2,3) by (simp add: upto_split3)
  with assms(1,4) show ?thesis by simp blast
qed

text \<open>
  C18. The final delivery delivers everything it accepts: when the members leave the view with
  one accepted index per sender, every raw message of a sender up to its index, if the
  member has received that many, is among what the member has delivered at the end.
\<close>

theorem accepted_messages_are_delivered:
  assumes "cluster_reachable n C" and "p < n" and "deliver_messages_upto maxs (node C p) = Inr g'"
    and "q < n" and "0 \<le> i" and "i \<le> maxs ! q" and "maxs ! q \<le> my_counts (node C p) ! q"
  shows "\<exists>xs ys. delivered_raw g' = xs @ raw_at n (sent C) (seq_of n (int q) i) @ ys"
proof -
  have inv: "cluster_inv n C" using assms(1) by (rule cluster.inv_reachable)
  note N = cluster_node[OF inv assms(2)]
  note final = final_delivery_raw[OF N(1,3) assms(3)]
  let ?k = "seq_of n (int q) i" let ?m = "last_of_edge n maxs (delivered_num (my_row (node C p)))"
  let ?h = "\<lambda>k. if received n (my_counts (node C p)) k then raw_at n (sent C) k else []"
  have "?k \<le> seq_of n (int q) (maxs ! q)" using assms(6) by (simp add: seq_of_def mult_right_mono)
  also have "\<dots> \<le> ?m"
    unfolding last_of_edge_eq by (rule Max_ge) (use assms(4) final(2) in auto)
  finally have k: "0 \<le> ?k" "?k \<le> ?m" using assms(5) by (simp_all add: seq_of_nonneg)
  have "-1 \<le> my_counts (node C p) ! q" using N(5,6) assms(4) by (simp add: rows_inv_def counts_ok_def)
  then have "received n (my_counts (node C p)) ?k"
    using assms(4-7) by (simp add: received_seq_of)
  with final(1) k show ?thesis by (intro delivered_piece)
qed


text \<open>
  C19. The trim does not make the members agree. With the smallest counts of all members as the
  accepted indices, two members leave the view with the same raw messages delivered exactly
  if the raw messages they have received, up to the last accepted place of the global order,
  are the same; and a raw message below that place that one of them has received and the
  other has not is delivered by the one and not by the other. Nothing in the code ensures
  that the members have received the same: what is below the last accepted place need not
  have been accepted, as in the run of the witness.
\<close>

theorem trim_splits_members:
  assumes "cluster_reachable n C" and "p < n" and "r < n"
    and "\<forall>q < n. maxs ! q = Min ((\<lambda>s. my_counts (node C s) ! q) ` {..<n})"
    and "deliver_messages_upto maxs (node C p) = Inr gp" and "deliver_messages_upto maxs (node C r) = Inr gr"
  shows "(delivered_raw gp = delivered_raw gr \<longleftrightarrow>
      (\<forall>k. 0 \<le> k \<and> k \<le> last_of_edge n maxs (-1) \<and> raw_at n (sent C) k \<noteq> [] \<longrightarrow>
        received n (my_counts (node C p)) k = received n (my_counts (node C r)) k)) \<and>
    (\<forall>k. 0 \<le> k \<and> k \<le> last_of_edge n maxs (-1) \<and> received n (my_counts (node C p)) k \<and>
        \<not> received n (my_counts (node C r)) k \<longrightarrow>
      set (raw_at n (sent C) k) \<subseteq> set (delivered_raw gp) \<and> set (raw_at n (sent C) k) \<inter> set (delivered_raw gr) = {})"
proof -
  let ?R = "\<lambda>p. received n (my_counts (node C p))" and ?m = "last_of_edge n maxs (-1)" and ?f = "raw_at n (sent C)"
  have n: "0 < n" using assms(2) by simp
  have inv: "cluster_inv n C" using assms(1) by (rule cluster.inv_reachable)
  note P = cluster_node[OF inv assms(2)] and R = cluster_node[OF inv assms(3)]
  note fp = final_delivery_raw[OF P(1,3) assms(5)] and fr = final_delivery_raw[OF R(1,3) assms(6)]
  note top = smallest_counts_cover_delivered[OF assms(1) _ fp(2) assms(4)]
  have dp: "delivered_raw gp = concat (map (\<lambda>k. if ?R p k then ?f k else []) [0..?m])"
    and dr: "delivered_raw gr = concat (map (\<lambda>k. if ?R r k then ?f k else []) [0..?m])"
    using fp(1) fr(1) unfolding top[OF assms(2)] top[OF assms(3)] by simp_all
  have mem: "x \<in> set (concat (map (\<lambda>k. if ?R s k then ?f k else []) [0..?m])) \<longleftrightarrow> ?R s k"
    if "x \<in> set (?f k)" "0 \<le> k" "k \<le> ?m" for x k s
  proof -
    have "x \<in> set (concat (map (\<lambda>k. if ?R s k then ?f k else []) [0..?m])) \<longleftrightarrow>
        (\<exists>j. 0 \<le> j \<and> j \<le> ?m \<and> ?R s j \<and> x \<in> set (?f j))"
      by (force simp: if_distrib[where f = set] split: if_splits)
    with that raw_at_place[OF that(1) _ n] show ?thesis by blast
  qed
  have "delivered_raw gp = delivered_raw gr \<longleftrightarrow> (\<forall>k. 0 \<le> k \<and> k \<le> ?m \<and> ?f k \<noteq> [] \<longrightarrow> ?R p k = ?R r k)"
  proof
    assume same: "delivered_raw gp = delivered_raw gr"
    show "\<forall>k. 0 \<le> k \<and> k \<le> ?m \<and> ?f k \<noteq> [] \<longrightarrow> ?R p k = ?R r k"
    proof (intro allI impI)
      fix k assume k: "0 \<le> k \<and> k \<le> ?m \<and> ?f k \<noteq> []"
      then have h: "hd (?f k) \<in> set (?f k)" by simp
      have "hd (?f k) \<in> set (delivered_raw gp) \<longleftrightarrow> ?R p k" "hd (?f k) \<in> set (delivered_raw gr) \<longleftrightarrow> ?R r k"
        unfolding dp dr using mem[OF h] k by blast+
      then show "?R p k = ?R r k" by (simp add: same)
    qed
  next
    assume "\<forall>k. 0 \<le> k \<and> k \<le> ?m \<and> ?f k \<noteq> [] \<longrightarrow> ?R p k = ?R r k"
    then show "delivered_raw gp = delivered_raw gr"
      unfolding dp dr by (intro arg_cong[where f = concat] map_cong refl) auto
  qed
  moreover have "set (?f k) \<subseteq> set (delivered_raw gp) \<and> set (?f k) \<inter> set (delivered_raw gr) = {}"
    if "0 \<le> k \<and> k \<le> ?m \<and> ?R p k \<and> \<not> ?R r k" for k
    using that mem[of _ k] unfolding dp dr by blast
  ultimately show ?thesis by blast
qed

section \<open>A member's own messages\<close>

lemma slot_start:
  "slot ws i = Some w \<Longrightarrow> 0 < fst w \<Longrightarrow> \<exists>j < length ws. i = turns (take j ws) \<and> w = ws ! j"
proof (induction ws arbitrary: i)
  case (Cons v ws)
  show ?case
  proof (cases "i = 0")
    case True
    with Cons.prems show ?thesis by (intro exI[of _ 0]) simp
  next
    case False
    with Cons.prems have "slot ws (i - 1 - pauses v) = Some w" by (auto split: if_splits)
    with Cons.IH Cons.prems(2) obtain j where "j < length ws" "i - 1 - pauses v = turns (take j ws)" "w = ws ! j" by blast
    then show ?thesis by (intro exI[of _ "Suc j"]) simp
  qed
qed simp

text \<open>The number of the \<open>i\<close>-th message of sender \<open>p\<close>.\<close>

definition place :: "nat \<Rightarrow> nat \<Rightarrow> wire list \<Rightarrow> nat \<Rightarrow> int" where
  "place n p ws i = seq_of n (int p) (turns (take i ws))"

lemma turns_take_less: "i < j \<Longrightarrow> j \<le> length ws \<Longrightarrow> turns (take i ws) < turns (take j ws)"
proof (induction j)
  case (Suc j)
  then have "turns (take j ws) < turns (take (Suc j) ws)"
    using pauses_nonneg[of "ws ! j"] turns_take_Suc[of j ws] by linarith
  with Suc show ?case by (cases "i = j") auto
qed simp

lemma place_less: "0 < n \<Longrightarrow> i < j \<Longrightarrow> j \<le> length ws \<Longrightarrow> place n p ws i < place n p ws j"
  by (simp add: place_def seq_of_def turns_take_less)

lemma places_split:
  assumes "0 < n" "G \<le> length ws"
  obtains j where "j \<le> G" "\<forall>i < j. place n p ws i \<le> m" "\<forall>i. j \<le> i \<and> i < G \<longrightarrow> m < place n p ws i"
  using assms(2)
proof (induction G arbitrary: thesis)
  case (Suc G)
  then obtain j where j: "j \<le> G" "\<forall>i < j. place n p ws i \<le> m" "\<forall>i. j \<le> i \<and> i < G \<longrightarrow> m < place n p ws i" by auto
  show ?case
  proof (cases "place n p ws G \<le> m")
    case True
    have "place n p ws i \<le> m" if "i < G" for i
      using place_less[OF assms(1) that, of ws p] Suc.prems(2) True by simp
    with True show ?thesis by (intro Suc.prems(1)[of "Suc G"]) (auto simp: less_Suc_eq)
  next
    case False
    with j show ?thesis by (intro Suc.prems(1)[of j]) (auto simp: less_Suc_eq)
  qed
qed auto

definition own_stable :: "'o dgroup \<Rightarrow> (int \<times> message) list" where
  "own_stable g = filter (\<lambda>e. 0 < msize (snd e) \<and> sender_rank (snd e) = int (member_index g)) (locally_stable_messages g)"

lemma own_stable_iff:
  "sm_wf (locally_stable_messages g) \<Longrightarrow> e \<in> set (own_stable g) \<longleftrightarrow>
     message_at g (fst e) = Some (snd e) \<and> 0 < msize (snd e) \<and> sender_rank (snd e) = int (member_index g)"
  by (cases e) (auto simp: own_stable_def message_at_def sm_find_iff_in_set)

lemma own_message_at:
  assumes inv: "node_inv n S G g" and logs: "logs_ok S" and p: "p = member_index g" and m: "message_at g k = Some msg"
  shows "0 < msize msg \<and> sender_rank msg = int p \<longleftrightarrow> (\<exists>i < G p. k = place n p (S p) i)"
    and "i < G p \<Longrightarrow> k = place n p (S p) i \<Longrightarrow> wire_of msg = S p ! i"
proof -
  note N = node_invD[OF inv]
  have pn: "p < n" using group_invD(1)[OF N(1)] N(2) by (simp add: rows_inv_def p)
  have counts: "G p \<le> length (S p)" "my_counts g ! p + 1 = turns (take (G p) (S p))"
    using N(3) pn by (simp_all add: counts_inv_def)
  have slot: "slot_at n S k = Some (wire_of msg)" using N(6) m by (simp add: stable_inv_def message_at_def)
  have pl: "placed n (k, msg)" using node_holds(1)[OF inv logs] m N(2) by (auto simp: held_ok_def)
  have rec: "received n (my_counts g) k" using node_holds(2)[OF inv logs, of k] m by simp
  have wire: "wire_of msg = S p ! i" "0 < msize msg" "sender_rank msg = int p"
    if i: "i < G p" and k: "k = place n p (S p) i" for i
  proof -
    have "slot_at n S k = Some (S p ! i)"
      using i counts(1) pn by (simp add: k place_def slot_at_seq_of slot_nth)
    with slot show w: "wire_of msg = S p ! i" by simp
    have "S p ! i \<in> set (S p)" by (rule nth_mem) (use i counts(1) in simp)
    with logs have "wire_ok (S p ! i)" by (simp add: logs_ok_def)
    then show "0 < msize msg" by (auto simp: wire_ok_def word_gt_0 wire_of_def simp flip: w)
    show "sender_rank msg = int p"
      using pl pn seq_of_inject[of "int p" n "sender_rank msg"] by (auto simp: placed_def k place_def)
  qed
  show "i < G p \<Longrightarrow> k = place n p (S p) i \<Longrightarrow> wire_of msg = S p ! i" by (rule wire(1))
  show "0 < msize msg \<and> sender_rank msg = int p \<longleftrightarrow> (\<exists>i < G p. k = place n p (S p) i)"
  proof
    assume own: "0 < msize msg \<and> sender_rank msg = int p"
    then have k: "k = seq_of n (int p) (index msg)" using pl by (simp add: placed_def)
    with slot pn have "slot (S p) (index msg) = Some (wire_of msg)" by (simp add: slot_at_seq_of)
    from slot_start[OF this] own obtain i where i: "i < length (S p)" "index msg = turns (take i (S p))"
      by (auto simp: wire_of_def)
    have "-1 \<le> my_counts g ! p" using group_invD(1)[OF N(1)] N(2) pn by (simp add: rows_inv_def counts_ok_def)
    then have "index msg \<le> my_counts g ! p" using rec pn by (simp add: k received_seq_of)
    then have "turns (take i (S p)) < turns (take (G p) (S p))" using i(2) counts(2) by simp
    then have "i < G p"
      using turns_take_less[of "G p" i "S p"] i(1) by (cases "i = G p"; cases "G p < i") auto
    with i k show "\<exists>i < G p. k = place n p (S p) i" by (auto simp: place_def)
  qed (use wire in blast)
qed

lemma own_place_received:
  assumes inv: "node_inv n S G g" and p: "member_index g = p" and i: "i < G p"
  shows "received n (my_counts g) (place n p (S p) i)" and "0 \<le> place n p (S p) i"
proof -
  note N = node_invD[OF inv]
  have pn: "p < n" using group_invD(1)[OF N(1)] N(2) p by (simp add: rows_inv_def)
  have counts: "G p \<le> length (S p)" "my_counts g ! p + 1 = turns (take (G p) (S p))"
    using N(3) pn by (simp_all add: counts_inv_def)
  have "turns (take i (S p)) \<le> my_counts g ! p" using turns_take_less[OF i counts(1)] counts(2) by simp
  moreover have "-1 \<le> my_counts g ! p" using group_invD(1)[OF N(1)] N(2) pn by (simp add: rows_inv_def counts_ok_def)
  ultimately show "received n (my_counts g) (place n p (S p) i)" using pn by (simp add: place_def received_seq_of)
  show "0 \<le> place n p (S p) i" by (simp add: place_def seq_of_nonneg)
qed

text \<open>The messages to resend, in terms of the node's own log.\<close>

definition resent_from :: "nat \<Rightarrow> (nat \<Rightarrow> wire list) \<Rightarrow> (nat \<Rightarrow> nat) \<Rightarrow> 'o dgroup \<Rightarrow> int \<Rightarrow> nat \<Rightarrow> bool" where
  "resent_from n S G g m j \<longleftrightarrow> j \<le> G (member_index g) \<and>
     (\<forall>i < j. place n (member_index g) (S (member_index g)) i \<le> m) \<and>
     (\<forall>i. j \<le> i \<and> i < G (member_index g) \<longrightarrow> m < place n (member_index g) (S (member_index g)) i)"

lemma own_after_final_delivery:
  assumes inv: "node_inv n S G g" and logs: "logs_ok S" and p: "p = member_index g" "member_index old = p"
    and wf: "sm_wf (locally_stable_messages old)"
    and at: "\<forall>k. message_at old k = (if d \<le> k \<and> k \<le> m then None else message_at g k)"
    and d: "d = delivered_num (my_row g)" "d \<le> m"
  obtains j where "resent_from n S G g m j"
    "map (wire_of \<circ> snd) (own_stable old) = drop j (take (G p) (S p))"
proof -
  note N = node_invD[OF inv]
  have pn: "p < n" using group_invD(1)[OF N(1)] N(2) by (simp add: rows_inv_def p)
  have counts: "G p \<le> length (S p)" "my_counts g ! p + 1 = turns (take (G p) (S p))"
    using N(3) pn by (simp_all add: counts_inv_def)
  let ?f = "place n p (S p)"
  obtain j where j: "j \<le> G p" "\<forall>i < j. ?f i \<le> m" "\<forall>i. j \<le> i \<and> i < G p \<longrightarrow> m < ?f i"
    using places_split[of n "G p" "S p" p m] pn counts(1) by auto
  have old: "message_at old k = (if m < k then message_at g k else None)" for k
    using at d node_holds(2)[OF inv logs, of k] by auto
  have held: "message_at g (?f i) \<noteq> None" if "j \<le> i" "i < G p" for i
  proof -
    have "received n (my_counts g) (?f i)" using own_place_received(1)[OF inv p(1)[symmetric] that(2)] .
    moreover have "d < ?f i" using j(3) that d(2) by force
    ultimately show ?thesis using node_holds(2)[OF inv logs] d(1) by blast
  qed
  have keys: "k \<in> fst ` set (own_stable old) \<longleftrightarrow> k \<in> ?f ` {j..<G p}" for k
  proof -
    have "k \<in> fst ` set (own_stable old) \<longleftrightarrow>
        (\<exists>msg. message_at old k = Some msg \<and> 0 < msize msg \<and> sender_rank msg = int p)"
      using own_stable_iff[OF wf] p(2) by (force simp: image_iff)
    also have "\<dots> \<longleftrightarrow> m < k \<and> message_at g k \<noteq> None \<and> (\<exists>i < G p. k = ?f i)"
      using own_message_at(1)[OF inv logs p(1)] by (auto simp: old)
    also have "\<dots> \<longleftrightarrow> k \<in> ?f ` {j..<G p}"
    proof
      assume "m < k \<and> message_at g k \<noteq> None \<and> (\<exists>i < G p. k = ?f i)"
      then obtain i where "m < k" "i < G p" "k = ?f i" by blast
      moreover from this j(2) have "\<not> i < j" by (metis not_le)
      ultimately show "k \<in> ?f ` {j..<G p}" by auto
    next
      assume "k \<in> ?f ` {j..<G p}"
      then obtain i where "j \<le> i" "i < G p" "k = ?f i" by auto
      with j(3) held show "m < k \<and> message_at g k \<noteq> None \<and> (\<exists>i < G p. k = ?f i)" by blast
    qed
    finally show ?thesis .
  qed
  have sorted: "sorted_wrt (<) (map fst (own_stable old))"
    using wf by (simp add: own_stable_def sm_wf_def sorted_wrt_map sorted_wrt_filter)
  have "sorted_wrt (<) (map ?f [j..<G p])"
    using place_less[of n _ _ "S p" p] pn counts(1) by (auto simp: sorted_wrt_iff_nth_less)
  with sorted keys have same: "map fst (own_stable old) = map ?f [j..<G p]"
    by (intro strict_sorted_equal) auto
  have wire: "wire_of (snd e) = the (slot_at n S (fst e))" if "e \<in> set (own_stable old)" for e
  proof -
    have "message_at old (fst e) = Some (snd e)" using that own_stable_iff[OF wf] by blast
    then have "message_at g (fst e) = Some (snd e)" using old[of "fst e"] by (metis option.distinct(1))
    then show ?thesis using N(6) by (simp add: stable_inv_def message_at_def)
  qed
  have "map (wire_of \<circ> snd) (own_stable old) = map (\<lambda>k. the (slot_at n S k)) (map fst (own_stable old))"
    using wire by simp
  also have "\<dots> = map (\<lambda>i. S p ! i) [j..<G p]"
    unfolding same using pn counts(1) by (simp add: place_def slot_at_seq_of slot_nth)
  also have "\<dots> = drop j (take (G p) (S p))"
    using counts(1) j(1) by (intro nth_equalityI) auto
  finally have "map (wire_of \<circ> snd) (own_stable old) = drop j (take (G p) (S p))" .
  moreover have "resent_from n S G g m j" using j by (simp add: resent_from_def p(1))
  ultimately show thesis by (rule that[rotated])
qed

section \<open>The next view\<close>

lemma map_wire_of:
  "map (\<lambda>m. (msize m, message_buffer m)) xs = map (\<lambda>m. (msize m, message_buffer m)) ys \<Longrightarrow>
   map wire_of xs = map wire_of ys"
proof -
  assume eq: "map (\<lambda>m. (msize m, message_buffer m)) xs = map (\<lambda>m. (msize m, message_buffer m)) ys"
  define f :: "u64 \<times> bytes option \<Rightarrow> wire" where
    "f = (\<lambda>e. (fst e, case snd e of None \<Rightarrow> [] | Some b \<Rightarrow> take (unat (fst e)) b))"
  have "map wire_of zs = map f (map (\<lambda>m. (msize m, message_buffer m)) zs)" for zs
    by (simp add: wire_of_def f_def split: option.splits)
  then show ?thesis by (simp only: eq)
qed

lemma left_buffers:
  assumes inv: "node_inv n S G g" and logs: "logs_ok S" and run: "deliver_messages_upto maxs g = Inr old"
  shows "\<forall>m \<in> set (outgoing old). message_buffer m \<noteq> None"
    and "\<forall>e \<in> set (locally_stable_messages old). 0 < msize (snd e) \<longrightarrow> message_buffer (snd e) \<noteq> None"
proof -
  note final = final_delivery_raw[OF inv logs run] and bufs = to_resend_has_buffers[OF node_invD(1)[OF inv]]
  show "\<forall>m \<in> set (outgoing old). message_buffer m \<noteq> None" using bufs(1) by (simp add: final(3))
  have "message_buffer (snd e) \<noteq> None" if e: "e \<in> set (locally_stable_messages old)" "0 < msize (snd e)" for e
  proof -
    have "message_at old (fst e) = Some (snd e)"
      using e(1) sm_find_iff_in_set[OF final(7), of "fst e" "snd e"] by (simp add: message_at_def)
    then have "message_at g (fst e) = Some (snd e)" using final(6) by (metis option.distinct(1))
    then have "e \<in> set (locally_stable_messages g)" using sm_find_in_set by (fastforce simp: message_at_def)
    then show ?thesis using bufs(2) e(2) by blast
  qed
  then show "\<forall>e \<in> set (locally_stable_messages old). 0 < msize (snd e) \<longrightarrow> message_buffer (snd e) \<noteq> None" by blast
qed

lemma resent_wires:
  assumes inv: "node_inv n S G g" and logs: "logs_ok S" and run: "deliver_messages_upto maxs g = Inr old"
  obtains j where "resent_from n S G g (last_of_edge n maxs (delivered_num (my_row g))) j"
    "map wire_of (to_resend old) =
       drop j (S (member_index g)) @ map wire_of (pending_sends g @ opt_list (next_send g))"
proof -
  let ?p = "member_index g" and ?m = "last_of_edge n maxs (delivered_num (my_row g))"
  note N = node_invD[OF inv] and final = final_delivery_raw[OF inv logs run]
  have le: "delivered_num (my_row g) \<le> ?m" by (simp add: last_of_edge_eq)
  obtain j where j: "resent_from n S G g ?m j" "map (wire_of \<circ> snd) (own_stable old) = drop j (take (G ?p) (S ?p))"
    using inv logs refl final(4,7,6) refl le by (rule own_after_final_delivery)
  have own: "map wire_of (opt_list (current_send g)) = drop (G ?p) (S ?p)"
    using N(5) by (simp add: own_inv_def)
  have len: "G ?p \<le> length (S ?p)"
    using N(3) group_invD(1)[OF N(1)] N(2) by (simp add: counts_inv_def rows_inv_def)
  have "drop j (S ?p) = drop j (take (G ?p) (S ?p) @ drop (G ?p) (S ?p))" by (simp only: append_take_drop_id)
  also have "\<dots> = drop j (take (G ?p) (S ?p)) @ drop (G ?p) (S ?p)"
    using j(1) len by (subst drop_append) (simp add: resent_from_def)
  finally have split: "drop j (S ?p) = drop j (take (G ?p) (S ?p)) @ drop (G ?p) (S ?p)" .
  have "map wire_of (map snd (own_stable old) @ outgoing g) =
      map (wire_of \<circ> snd) (own_stable old) @ map wire_of (opt_list (current_send g)) @
      map wire_of (pending_sends g @ opt_list (next_send g))"
    by (simp add: outgoing_def)
  also have "\<dots> = drop j (S ?p) @ map wire_of (pending_sends g @ opt_list (next_send g))"
    unfolding j(2) own split by simp
  finally have "map wire_of (map snd (own_stable old) @ outgoing g) =
      drop j (S ?p) @ map wire_of (pending_sends g @ opt_list (next_send g))" .
  then show thesis using j(1) final(3,4) by (intro that[of j]) (simp_all add: to_resend_def own_stable_def)
qed

text \<open>What the second constructor makes of the group a node leaves a view with.\<close>

lemma hand_over_started:
  assumes inv: "node_inv n S G g" and logs: "logs_ok S" and run: "deliver_messages_upto maxs g = Inr old"
    and logged: "non_persistent_messages old = []"
    and offset: "uint (rdmc_group_num_offset old) \<le> 65535 - int (dg_n old) - int (length ms)"
    and fits: "sst_fits (length ms) (index_of ms me) s" and quiet: "concat (map published_row (calls s)) = []"
    and failed: "af = [] \<or> length ms \<le> length af"
  obtains g' j where "group_from_old ms me s old af u ok = Inr g'"
    "started g' \<and> rows_reset g' \<and> dg_members g' = ms \<and> member_index g' = index_of ms me"
    "resent_from n S G g (last_of_edge n maxs (delivered_num (my_row g))) j"
    "map wire_of (outgoing g') = drop j (S (member_index g)) @ map wire_of (pending_sends g @ opt_list (next_send g))"
proof -
  note N = node_invD[OF inv] and final = final_delivery_raw[OF inv logs run]
  obtain g0 where g0: "group_from_old ms me s old af u ok =
       bindE (take_non_persistent (non_persistent_messages old) g0) (start_dgroup af ok)"
    "dg_members g0 = ms" "member_index g0 = index_of ms me" "current_send g0 = None" "current_receives g0 = []"
    "locally_stable_messages g0 = []" "dg_sst g0 = s" "dg_calls g0 = []"
    "map (\<lambda>m. (msize m, message_buffer m)) (outgoing g0) = map (\<lambda>m. (msize m, message_buffer m)) (to_resend old)"
    "chained (index_of ms me) 0 (outgoing g0) (future_message_index g0)" "max_msg_size g0 = max_msg_size old"
    using left_buffers[OF inv logs run] offset by (rule hand_over_queue)
  obtain j where j: "resent_from n S G g (last_of_edge n maxs (delivered_num (my_row g))) j"
    "map wire_of (to_resend old) =
       drop j (S (member_index g)) @ map wire_of (pending_sends g @ opt_list (next_send g))"
    using inv logs run by (rule resent_wires)
  have out: "map wire_of (outgoing g0) = map wire_of (to_resend old)" using g0(9) by (rule map_wire_of)
  have own: "\<forall>m \<in> set (outgoing g). wire_ok (wire_of m)" "9 \<le> unat (max_msg_size g)"
    using N(5) by (simp_all add: own_inv_def)
  have "\<forall>w \<in> set (map wire_of (outgoing g0)). wire_ok w"
    unfolding out j(2) using logs own(1) set_drop_subset[of j "S (member_index g)"]
    by (auto simp: logs_ok_def outgoing_def)
  then have wires: "\<forall>m \<in> set (outgoing g0). wire_ok (wire_of m)" by simp
  have "af = [] \<or> dg_n g0 \<le> length af" using failed g0(2) by simp
  then obtain g' where run': "start_dgroup af ok g0 = Inr g'" by (rule start_dgroup_runs)
  have "started g' \<and> rows_reset g' \<and> dg_members g' = dg_members g0 \<and> member_index g' = member_index g0 \<and>
      outgoing g' = outgoing g0"
    by (rule start_dgroup_started[OF run']) (use failed fits quiet g0 wires own(2) final(5) in \<open>simp_all add: published_def\<close>)
  moreover have "group_from_old ms me s old af u ok = Inr g'" using run' g0(1) logged by simp
  ultimately show thesis using j out g0(2,3) by (intro that[of g' j]) simp_all
qed

text \<open>
  C16. What becomes of a member's own messages at a view change. When no message of the old
  group waits for its log record and the group numbers of the next one do not wrap around,
  the second constructor succeeds after the final delivery, and there is a point in the
  node's own log that splits it. Every message before it was delivered earlier or was held
  when the final delivery began, lies no higher than the last place the final delivery goes
  through, and is held no more; if it is raw, its payload is among the node's deliveries.
  The new group has exactly the messages from the point on to send, with sizes and bytes,
  followed by those still queued and the one being filled, in order; those of them that had
  been received back lie above that last place. Whether the other members have delivered the
  messages before the point is not said here.
\<close>

theorem own_messages_delivered_or_resent:
  assumes "cluster_reachable n C" and "p < n" and "deliver_messages_upto maxs (node C p) = Inr old"
    and "non_persistent_messages old = []"
    and "uint (rdmc_group_num_offset old) \<le> 65535 - int (dg_n old) - int (length ms)"
    and "sst_fits (length ms) (index_of ms me) s" and "concat (map published_row (calls s)) = []"
    and "af = [] \<or> length ms \<le> length af"
  shows "\<exists>g' j. group_from_old ms me s old af u ok = Inr g' \<and> j \<le> got C p p \<and>
    map wire_of (outgoing g') = drop j (sent C p) @ map wire_of (pending_sends (node C p) @ opt_list (next_send (node C p))) \<and>
    (\<forall>i < j. let k = place n p (sent C p) i in
       (k \<le> delivered_num (my_row (node C p)) \<or> message_at (node C p) k \<noteq> None) \<and>
       k \<le> last_of_edge n maxs (delivered_num (my_row (node C p))) \<and> message_at old k = None \<and>
       (\<exists>xs ys. delivered_raw old = xs @ raw_at n (sent C) k @ ys)) \<and>
    (\<forall>i. j \<le> i \<and> i < got C p p \<longrightarrow> last_of_edge n maxs (delivered_num (my_row (node C p))) < place n p (sent C p) i)"
proof -
  have inv: "cluster_inv n C" using assms(1) by (rule cluster.inv_reachable)
  note N = cluster_node[OF inv assms(2)]
  let ?m = "last_of_edge n maxs (delivered_num (my_row (node C p)))"
  note final = final_delivery_raw[OF N(1,3) assms(3)]
  obtain g' j where g': "group_from_old ms me s old af u ok = Inr g'"
    and j: "resent_from n (sent C) (got C p) (node C p) ?m j"
    and out: "map wire_of (outgoing g') = drop j (sent C p) @ map wire_of (pending_sends (node C p) @ opt_list (next_send (node C p)))"
    using hand_over_started[OF N(1,3) assms(3-8), of u ok] unfolding N(2) by blast
  have pos: "j \<le> got C p p" "\<forall>i. j \<le> i \<and> i < got C p p \<longrightarrow> ?m < place n p (sent C p) i"
    and before: "\<forall>i < j. place n p (sent C p) i \<le> ?m" using j unfolding resent_from_def N(2) by blast+
  have "let k = place n p (sent C p) i in
      (k \<le> delivered_num (my_row (node C p)) \<or> message_at (node C p) k \<noteq> None) \<and> k \<le> ?m \<and> message_at old k = None \<and>
      (\<exists>xs ys. delivered_raw old = xs @ raw_at n (sent C) k @ ys)" if i: "i < j" for i
  proof -
    let ?k = "place n p (sent C p) i"
    have le: "?k \<le> ?m" using before i by blast
    have rec: "received n (my_counts (node C p)) ?k" "0 \<le> ?k"
      using own_place_received[OF N(1) N(2), of i] i pos(1) by auto
    note held = node_holds(2)[OF N(1,3), of ?k]
    have "message_at old ?k = None" using final(6) held le by (simp del: not_None_eq) linarith
    moreover have "?k \<le> delivered_num (my_row (node C p)) \<or> message_at (node C p) ?k \<noteq> None" using held rec(1) by linarith
    moreover have "\<exists>xs ys. delivered_raw old = xs @ raw_at n (sent C) ?k @ ys"
      by (rule delivered_piece[OF final(1) rec(2) le rec(1)])
    ultimately show ?thesis using le unfolding Let_def by blast
  qed
  with g' out pos show ?thesis by blast
qed

text \<open>The members of the next view, each with a group of one constructor or the other.\<close>

lemma next_groups_cluster:
  assumes "cluster_reachable n C" and "distinct ms"
    and "\<And>p. p < length ms \<Longrightarrow> sst_fits (length ms) p (s p) \<and> concat (map published_row (calls (s p))) = [] \<and>
      (af p = [] \<or> length ms \<le> length (af p))"
    and "\<And>p. p < length ms \<Longrightarrow>
      (\<exists>r maxs old u. r < n \<and> deliver_messages_upto maxs (node C r) = Inr old \<and> non_persistent_messages old = [] \<and>
         uint (rdmc_group_num_offset old) \<le> 65535 - int (dg_n old) - int (length ms) \<and>
         group_from_old ms (ms ! p) (s p) old (af p) u (ok p) = Inr (node C' p)) \<or>
      (\<exists>bufs disp params files.
         unat (max_payload_size params) + 9 + unat (dp_block_size params) < 2 ^ 64 \<and>
         new_group ms (ms ! p) (s p) bufs disp params files (af p) (ok p) = Inr (node C' p))"
    and "\<And>p q. sent C' q = [] \<and> got C' p q = 0"
  shows "cluster_init (length ms) C'"
proof (rule started_groups_cluster[OF _ assms(5)])
  fix p assume p: "p < length ms"
  have i: "index_of ms (ms ! p) = p" by (rule index_of_nth[OF assms(2) p])
  have s: "sst_fits (length ms) (index_of ms (ms ! p)) (s p)" "concat (map published_row (calls (s p))) = []"
    and af: "af p = [] \<or> length ms \<le> length (af p)"
    using assms(3)[OF p] by (simp_all add: i)
  from assms(4)[OF p] show "started (node C' p) \<and> rows_reset (node C' p) \<and> dg_members (node C' p) = ms \<and>
      member_index (node C' p) = p"
  proof (elim disjE exE conjE)
    fix r maxs old u
    assume r: "r < n" "deliver_messages_upto maxs (node C r) = Inr old" "non_persistent_messages old = []"
      "uint (rdmc_group_num_offset old) \<le> 65535 - int (dg_n old) - int (length ms)"
      "group_from_old ms (ms ! p) (s p) old (af p) u (ok p) = Inr (node C' p)"
    note N = cluster_node[OF cluster.inv_reachable[OF assms(1)] r(1)]
    obtain g' j where "group_from_old ms (ms ! p) (s p) old (af p) u (ok p) = Inr g'"
      "started g' \<and> rows_reset g' \<and> dg_members g' = ms \<and> member_index g' = index_of ms (ms ! p)"
      by (rule hand_over_started[OF N(1,3) r(2-4) s af, of u "ok p"]) auto
    with r(5) show ?thesis by (simp add: i)
  next
    fix bufs disp params files
    assume "unat (max_payload_size params) + 9 + unat (dp_block_size params) < 2 ^ 64"
      "new_group ms (ms ! p) (s p) bufs disp params files (af p) (ok p) = Inr (node C' p)"
    with new_group_started[OF _ s(1) af s(2)] show ?thesis by (fastforce simp: i)
  qed
qed

text \<open>
  C17. Views compose: when every member of the next view either has left a reachable cluster
  with the final delivery and built its group from the old one, with no message of that group
  waiting for its log record and group numbers that do not wrap around, or is new and built
  it with the first constructor, the new groups are again a state the cluster can start from,
  whichever members of the next view are marked failed already. So everything shown of a
  cluster holds in every view, with the messages handed over.
\<close>

theorem next_view_is_a_cluster:
  assumes "cluster_reachable n C" and "distinct ms"
    and "\<And>p. p < length ms \<Longrightarrow> sst_fits (length ms) p (s p) \<and> concat (map published_row (calls (s p))) = [] \<and>
      (af p = [] \<or> length ms \<le> length (af p))"
    and "\<And>p. p < length ms \<Longrightarrow>
      (\<exists>r maxs old u. r < n \<and> deliver_messages_upto maxs (node C r) = Inr old \<and> non_persistent_messages old = [] \<and>
         uint (rdmc_group_num_offset old) \<le> 65535 - int (dg_n old) - int (length ms) \<and>
         group_from_old ms (ms ! p) (s p) old (af p) u (ok p) = Inr (node C' p)) \<or>
      (\<exists>bufs disp params files.
         unat (max_payload_size params) + 9 + unat (dp_block_size params) < 2 ^ 64 \<and>
         new_group ms (ms ! p) (s p) bufs disp params files (af p) (ok p) = Inr (node C' p))"
    and "\<And>p q. sent C' q = [] \<and> got C' p q = 0"
  shows "cluster_reachable (length ms) C'"
  by (rule reachable_init, rule next_groups_cluster[OF assms])

section \<open>Two members at the edge of a view\<close>

text \<open>
  Member 0 sends two messages that both members receive; member 1 sends one that member 0
  has received and member 1 itself has not yet received back when the view ends. The rows
  are exchanged, nothing is delivered yet.
\<close>

definition edge_moves :: "move list" where
  "edge_moves = [Get 0 1 0 False, Fill 0 [65], Send 0, Loop 0, Own 0, Start 1 0, Recv 1 0,
     Get 0 1 0 False, Fill 0 [66], Send 0, Loop 0, Own 0, Start 1 0, Recv 1 0,
     Get 1 1 0 False, Fill 1 [67], Send 1, Loop 1, Start 0 1, Recv 0 1, Wedge 0, Wedge 1, Row 0 1, Row 1 0]"

definition edge :: "unit cluster" where
  "edge = (case simulate 2 edge_moves pair of None \<Rightarrow> pair | Some C \<Rightarrow> C)"

definition left_with :: "int list \<Rightarrow> unit dgroup \<Rightarrow> unit dgroup" where
  "left_with maxs g = (case deliver_messages_upto maxs g of Inl _ \<Rightarrow> g | Inr g' \<Rightarrow> g')"

lemma case_Inr_Some:
  "(case r of Inl e \<Rightarrow> None | Inr g \<Rightarrow> Some (f g)) = Some x \<longleftrightarrow> (\<exists>g. r = Inr g \<and> f g = x)"
  by (auto split: sum.splits)

lemma edge_run:
  "map_option (\<lambda>C. (map (\<lambda>p. my_counts (node C p)) [0, 1], map (min_received (dg_sst (node C 0)) 0 2) [0, 1],
      map (\<lambda>p. case deliver_messages_upto [1, -1] (node C p) of Inl e \<Rightarrow> None
        | Inr g \<Rightarrow> Some (delivered_raw g, map wire_of (to_resend g), non_persistent_messages g,
            uint (rdmc_group_num_offset g), dg_n g)) [0, 1],
      (raw_at 2 (sent C) 2, length (sent C 1), got C 0 1, got C 1 1, raw_at 2 (sent C) 1)))
     (simulate 2 edge_moves pair) =
   Some ([[1, 0], [1, -1]], [1, -1],
     [Some ([(0, 0, [65]), (1, 0, [67]), (0, 1, [66])], [], [], 0, 2),
      Some ([(0, 0, [65]), (0, 1, [66])], [(10, [9, 0, 0, 0, 0, 0, 0, 0, 0, 67])], [], 0, 2)],
     ([(0, 1, [66])], 1, 1, 0, [(1, 0, [67])]))"
  by code_simp



lemma edge_reachable: "cluster_reachable 2 edge"
proof -
  have "cluster_reachable 2 pair" by (rule reachable_init) (rule pair_init)
  moreover obtain C where "simulate 2 edge_moves pair = Some C" using edge_run by auto
  ultimately show ?thesis using simulate_reachable[of 2 edge_moves pair C] by (simp add: edge_def)
qed

lemma edge_facts:
  "my_counts (node edge 0) = [1, 0]" "my_counts (node edge 1) = [1, -1]"
  "map (min_received (dg_sst (node edge 0)) 0 2) [0, 1] = [1, -1]"
  "raw_at 2 (sent edge) 2 = [(0, 1, [66])]" "length (sent edge 1) = 1" "got edge 0 1 = 1" "got edge 1 1 = 0"
  "raw_at 2 (sent edge) 1 = [(1, 0, [67])]"
  using edge_run by (auto simp: edge_def)

lemma edge_leaves:
  "\<exists>g. deliver_messages_upto [1, -1] (node edge 0) = Inr g \<and> delivered_raw g = [(0, 0, [65]), (1, 0, [67]), (0, 1, [66])] \<and>
     map wire_of (to_resend g) = [] \<and> non_persistent_messages g = [] \<and> uint (rdmc_group_num_offset g) = 0 \<and> dg_n g = 2"
  "\<exists>g. deliver_messages_upto [1, -1] (node edge 1) = Inr g \<and> delivered_raw g = [(0, 0, [65]), (0, 1, [66])] \<and>
     map wire_of (to_resend g) = [(10, [9, 0, 0, 0, 0, 0, 0, 0, 0, 67])] \<and> non_persistent_messages g = [] \<and>
     uint (rdmc_group_num_offset g) = 0 \<and> dg_n g = 2"
  using edge_run by (auto simp: edge_def case_Inr_Some simp del: One_nat_def)

theorem accepted_messages_are_delivered_witness:
  "\<exists>g xs ys. deliver_messages_upto [1, -1] (node edge 1) = Inr g \<and> delivered_raw g = xs @ [(0, 1, [66])] @ ys"
proof -
  obtain g where g: "deliver_messages_upto [1, -1] (node edge 1) = Inr g" using edge_leaves(2) by blast
  from accepted_messages_are_delivered[OF edge_reachable _ this, of 0 1] show ?thesis
    using g by (simp add: edge_facts seq_of_def del: One_nat_def)
qed

text \<open>
  In this run the leader's minimum over the rows accepts messages 0 and 1 of sender 0 and none
  of sender 1. Member 0 delivers sender 1's first message nevertheless, because its number is
  below the largest accepted number; member 1 does not, and hands it over to be sent again.
\<close>

theorem trim_splits_members_witness:
  "\<exists>g0 g1. deliver_messages_upto (map (min_received (dg_sst (node edge 0)) 0 2) [0, 1]) (node edge 0) = Inr g0 \<and>
     deliver_messages_upto (map (min_received (dg_sst (node edge 0)) 0 2) [0, 1]) (node edge 1) = Inr g1 \<and>
     delivered_raw g0 \<noteq> delivered_raw g1 \<and> (1, 0, [67]) \<in> set (delivered_raw g0) \<and> (1, 0, [67]) \<notin> set (delivered_raw g1)"
proof -
  obtain g0 g1 where g: "deliver_messages_upto [1, -1] (node edge 0) = Inr g0" "deliver_messages_upto [1, -1] (node edge 1) = Inr g1"
    using edge_leaves by blast
  have mins: "\<forall>q < 2. [1, -1] ! q = Min ((\<lambda>s. my_counts (node edge s) ! q) ` {..<2})"
  proof -
    have "{..<2 :: nat} = {0, 1}" by auto
    then show ?thesis by (auto simp: less_2_cases_iff edge_facts(1,2) simp del: One_nat_def)
  qed
  have last: "last_of_edge 2 [1, -1] (-1) = 2" by code_simp
  have "received 2 (my_counts (node edge 0)) 1" "\<not> received 2 (my_counts (node edge 1)) 1"
    using edge_facts(1,2) by (simp_all add: received_def del: One_nat_def)
  with trim_splits_members[OF edge_reachable _ _ mins g] edge_facts(8) last
  have "delivered_raw g0 \<noteq> delivered_raw g1 \<and> (1, 0, [67]) \<in> set (delivered_raw g0) \<and> (1, 0, [67]) \<notin> set (delivered_raw g1)"
    by (auto dest!: spec[of _ 1])
  with g show ?thesis unfolding edge_facts(3) by blast
qed


text \<open>Both members go on to a next view of the same members.\<close>

definition edge_next_group :: "nat \<Rightarrow> unit dgroup result" where
  "edge_next_group p = group_from_old [7, 8] ([7, 8] ! p) (duo_sst\<lparr>local_index := p\<rparr>)
     (left_with [1, -1] (node edge p)) [False, False] 1 (\<lambda>_. True)"

definition edge_next :: "unit cluster" where
  "edge_next = \<lparr>node = (\<lambda>p. case edge_next_group p of Inl _ \<Rightarrow> solo_group | Inr g \<Rightarrow> g), sent = (\<lambda>_. []), got = (\<lambda>_ _. 0)\<rparr>"

lemma edge_leaves_with:
  "deliver_messages_upto [1, -1] (node edge p) = Inr (left_with [1, -1] (node edge p)) \<and>
   non_persistent_messages (left_with [1, -1] (node edge p)) = [] \<and>
   uint (rdmc_group_num_offset (left_with [1, -1] (node edge p))) = 0 \<and> dg_n (left_with [1, -1] (node edge p)) = 2"
  if "p < 2"
  using edge_leaves that by (auto simp: less_2_cases_iff left_with_def)

lemma edge_next_fits:
  "p < length [7, 8 :: node_id] \<Longrightarrow> sst_fits (length [7, 8 :: node_id]) p (duo_sst\<lparr>local_index := p\<rparr>) \<and>
     concat (map published_row (calls (duo_sst\<lparr>local_index := p\<rparr>))) = [] \<and>
     ([False, False] = [] \<or> length [7, 8 :: node_id] \<le> length [False, False])"
  by (auto simp: sst_fits_def duo_sst_def duo_row_def less_Suc_eq)

lemma edge_next_runs:
  assumes "p < 2"
  shows "group_from_old [7, 8] ([7, 8] ! p) (duo_sst\<lparr>local_index := p\<rparr>) (left_with [1, -1] (node edge p)) [False, False] 1
     (\<lambda>_. True) = Inr (node edge_next p)"
proof -
  have i: "index_of [7, 8 :: node_id] ([7, 8] ! p) = p" using assms by (auto simp: less_2_cases_iff)
  note N = cluster_node[OF cluster.inv_reachable[OF edge_reachable] assms]
  obtain g' where "group_from_old [7, 8] ([7, 8] ! p) (duo_sst\<lparr>local_index := p\<rparr>) (left_with [1, -1] (node edge p)) [False, False] 1
     (\<lambda>_. True) = Inr g'"
    by (rule hand_over_started[OF N(1,3), of "[1, -1]" "left_with [1, -1] (node edge p)" "[7, 8]" "[7, 8] ! p"
        "duo_sst\<lparr>local_index := p\<rparr>" "[False, False]"])
       (use assms edge_leaves_with[OF assms] edge_next_fits[of p] i in auto)
  then show ?thesis by (simp add: edge_next_def edge_next_group_def)
qed

theorem next_view_is_a_cluster_witness: "cluster_reachable 2 edge_next"
proof -
  have "cluster_reachable (length [7, 8 :: node_id]) edge_next"
  proof (rule next_view_is_a_cluster[OF edge_reachable _ edge_next_fits])
    fix p assume "p < length [7, 8 :: node_id]"
    then have p: "p < 2" by simp
    show "(\<exists>r maxs old u. r < 2 \<and> deliver_messages_upto maxs (node edge r) = Inr old \<and> non_persistent_messages old = [] \<and>
         uint (rdmc_group_num_offset old) \<le> 65535 - int (dg_n old) - int (length [7, 8 :: node_id]) \<and>
         group_from_old [7, 8] ([7, 8] ! p) (duo_sst\<lparr>local_index := p\<rparr>) old [False, False] u (\<lambda>_. True) = Inr (node edge_next p)) \<or>
      (\<exists>bufs disp params files.
         unat (max_payload_size params) + 9 + unat (dp_block_size params) < 2 ^ 64 \<and>
         new_group [7, 8] ([7, 8] ! p) (duo_sst\<lparr>local_index := p\<rparr>) bufs disp params files [False, False] (\<lambda>_. True) =
           Inr (node edge_next p))"
      by (intro disjI1 exI[of _ p] exI[of _ "[1, -1]"] exI[of _ "left_with [1, -1] (node edge p)"] exI[of _ 1])
         (use p edge_leaves_with[OF p] edge_next_runs[OF p] in simp)
  qed (simp_all add: edge_next_def)
  then show ?thesis by (simp add: numeral_2_eq_2)
qed

theorem own_messages_delivered_or_resent_witness:
  "\<exists>g j. group_from_old [7, 8] 8 (duo_sst\<lparr>local_index := 1\<rparr>) (left_with [1, -1] (node edge 1)) [] 1 (\<lambda>_. True) = Inr g \<and>
     map wire_of (outgoing g) = drop j (sent edge 1) @ map wire_of (pending_sends (node edge 1) @ opt_list (next_send (node edge 1))) \<and>
     j = 0"
proof -
  have p: "(1 :: nat) < 2" by simp
  note old = edge_leaves_with[OF p]
  have "sst_fits (length [7, 8 :: node_id]) (index_of [7, 8 :: node_id] 8) (duo_sst\<lparr>local_index := 1\<rparr>)"
    "concat (map published_row (calls (duo_sst\<lparr>local_index := 1\<rparr>))) = []"
    using edge_next_fits[of 1] by auto
  from own_messages_delivered_or_resent[OF edge_reachable p old[THEN conjunct1] _ _ this, of "[]" 1 "\<lambda>_. True"] old
  show ?thesis by (auto simp: edge_facts simp del: One_nat_def)
qed

end
