(* ===== verification/Replication.thy ===== *)
theory Replication
  imports View_Change
begin

text \<open>
  The replicated objects: what a delivered call does to the objects of a member, as a
  function of the bytes of the message, and that the objects of every member are that
  function folded over the calls of the merged logs. Members that have delivered the same
  calls to everyone therefore hold equal objects, through the end of a view into the next.
\<close>

section \<open>What a call does to the objects\<close>

type_synonym 'o program = "(u64 \<times> u64 \<times> bool \<times> ('o \<Rightarrow> bytes \<Rightarrow> 'o \<times> bytes option)) list"

text \<open>
  A cooked message after its nine bytes of header: the number of destinations, the
  destinations (none means everyone), the header of the call, the invocation id and the
  arguments.
\<close>

definition call_dests :: "bytes \<Rightarrow> node_id list" where
  "call_dests b = dec32_list (unat (dec64 (drop 9 b))) (drop 17 b)"

definition call_body :: "bytes \<Rightarrow> bytes" where
  "call_body b = drop (17 + 4 * unat (dec64 (drop 9 b))) b"

definition apply_body :: "'o program \<Rightarrow> bytes \<Rightarrow> 'o \<Rightarrow> 'o" where
  "apply_body prog c x = (case find (\<lambda>h. fst h = dec64 (drop 8 c)) prog of
     None \<Rightarrow> x | Some (iid, rid, void, f) \<Rightarrow> fst (f x (drop (8 + header_space) c)))"

definition apply_call :: "node_id \<Rightarrow> 'o program \<Rightarrow> bytes \<Rightarrow> 'o \<Rightarrow> 'o" where
  "apply_call me prog b x =
     (if call_dests b = [] \<or> me \<in> set (call_dests b) then apply_body prog (call_body b) x else x)"

definition apply_calls :: "node_id \<Rightarrow> 'o program \<Rightarrow> bytes list \<Rightarrow> 'o \<Rightarrow> 'o" where
  "apply_calls me prog bs x = foldl (\<lambda>x b. apply_call me prog b x) x bs"

text \<open>No reply id is an invocation id: the ids are all different.\<close>

definition ids_apart :: "'o program \<Rightarrow> bool" where
  "ids_apart prog \<longleftrightarrow> list_all (\<lambda>h. list_all (\<lambda>k. fst (snd h) \<noteq> fst k) prog) prog"

lemma apply_calls_simps [simp]:
  "apply_calls me prog [] x = x" "apply_calls me prog (xs @ ys) x = apply_calls me prog ys (apply_calls me prog xs x)"
  "apply_calls me prog [b] x = apply_call me prog b x"
  by (simp_all add: apply_calls_def)

lemma route_find:
  assumes "route (\<lambda>op h. op = invoke_id h) op d = k"
  shows "k = -1 \<Longrightarrow> find (\<lambda>h. fst h = op) (program d) = None"
    and "k \<noteq> -1 \<Longrightarrow> nat k < length (invs d) \<and> find (\<lambda>h. fst h = op) (program d) =
      (let h = invs d ! nat k in Some (invoke_id h, reply_id h, is_void h, fn h))"
proof -
  show "find (\<lambda>h. fst h = op) (program d) = None" if "k = -1"
    using assms that by (force simp: route_def scan_None_iff find_None_iff program_def in_set_conv_nth)
  assume "k \<noteq> -1"
  then obtain r where r: "k = int r" "r < length (invs d)" "op = invoke_id (invs d ! r)" "\<forall>j < r. op \<noteq> invoke_id (invs d ! j)"
    using assms by (auto simp: route_def elim: scan_SomeD)
  then have "find (\<lambda>h. fst h = op) (program d) = Some (program d ! r)"
    by (auto simp: find_Some_iff program_def intro!: exI[of _ r])
  with r show "nat k < length (invs d) \<and> find (\<lambda>h. fst h = op) (program d) =
      (let h = invs d ! nat k in Some (invoke_id h, reply_id h, is_void h, fn h))"
    by (simp add: program_def Let_def)
qed

lemma receive_response_program:
  assumes "receive_response h sender buf = Inr h'"
  shows "invoke_id h' = invoke_id h \<and> reply_id h' = reply_id h \<and> is_void h' = is_void h \<and> fn h' = fn h"
  using assms by (auto simp: receive_response_def Let_def split: if_splits option.splits sum.splits)

lemma receive_call_objects:
  "receive_call h x buf alloc = Inr (x', out) \<Longrightarrow> x' = fst (fn h x (drop 8 buf))"
  by (auto simp: receive_call_def Let_def split: prod.splits if_splits option.splits)

text \<open>A message to the dispatcher: its objects, its functions, and whom a reply is for.\<close>

lemma received_message:
  assumes "handle_receive_buf d buf alloc = Inr (d', reply)"
  shows "program d' = program d" "objects d' = apply_body (program d) buf (objects d)"
    "reply \<noteq> [] \<Longrightarrow> \<exists>h \<in> set (program d). dec64 (drop 8 reply) = fst (snd h)"
proof -
  obtain ps op sender where hd: "retrieve_header buf = (ps, op, sender)" by (cases "retrieve_header buf") auto
  then have op: "op = dec64 (drop 8 buf)" by (simp add: retrieve_header_def)
  define k where "k = route (\<lambda>op h. op = invoke_id h) op d"
  note find = route_find[OF k_def[symmetric]]
  define j where "j = route (\<lambda>op h. op = reply_id h) op d"
  note run = assms[unfolded handle_receive_buf_def handle_receive_def hd Let_def prod.case, folded k_def j_def]
  have "program d' = program d \<and> objects d' = apply_body (program d) buf (objects d) \<and>
    (reply \<noteq> [] \<longrightarrow> (\<exists>h \<in> set (program d). dec64 (drop 8 reply) = fst (snd h)))"
  proof (cases "k = -1")
    case True
    note none = find(1)[OF True, unfolded op]
    from run True obtain h' where j: "j \<noteq> -1" and h': "receive_response (invs d ! nat j) sender (drop header_space buf) = Inr h'"
      and d': "d' = d\<lparr>invs := (invs d)[nat j := h']\<rparr>" "reply = []"
      by (auto split: if_splits)
    have "nat j < length (invs d)"
      using j by (auto simp: j_def route_def elim: scan_SomeD)
    with receive_response_program[OF h'] d' none show ?thesis
      by (simp add: program_update apply_body_def)
  next
    case False
    let ?h = "invs d ! nat k"
    note some = find(2)[OF False, unfolded op Let_def]
    from run False obtain x out where x: "receive_call ?h (objects d) (drop header_space buf) (\<lambda>size. int_alloc alloc (size + header_space)) = Inr (x, out)"
      and d': "d' = d\<lparr>objects := x\<rparr>" and reply: "reply = (case out of None \<Rightarrow> []
        | Some r \<Rightarrow> populate_header (replicate header_space 0 @ r) (word_of_nat (length r)) (reply_id ?h) (nid d))"
      by (auto split: option.splits)
    have "objects d' = apply_body (program d) buf (objects d)"
      using some receive_call_objects[OF x] by (simp add: d' apply_body_def)
    moreover have "dec64 (drop 8 reply) = reply_id ?h" if "reply \<noteq> []"
      using that header_roundtrip[of "replicate header_space 0 @ (case out of Some r \<Rightarrow> r)"]
      by (auto simp: reply retrieve_header_def split: option.splits)
    moreover have "(invoke_id ?h, reply_id ?h, is_void ?h, fn ?h) \<in> set (program d)"
      using some by (auto simp: program_def)
    ultimately show ?thesis using d' by (auto simp: program_def)
  qed
  then show "program d' = program d" "objects d' = apply_body (program d) buf (objects d)"
    "reply \<noteq> [] \<Longrightarrow> \<exists>h \<in> set (program d). dec64 (drop 8 reply) = fst (snd h)" by simp_all
qed

section \<open>What a delivery does to the objects\<close>

abbreviation me_of :: "'o dgroup \<Rightarrow> node_id" where
  "me_of g \<equiv> dg_members g ! member_index g"

abbreviation objs :: "'o dgroup \<Rightarrow> 'o" where
  "objs g \<equiv> objects (dispatchers g)"

abbreviation prog_of :: "'o dgroup \<Rightarrow> 'o program" where
  "prog_of g \<equiv> program (dispatchers g)"

lemma apply_reply: "ids_apart prog \<Longrightarrow> h \<in> set prog \<Longrightarrow> dec64 (drop 8 c) = fst (snd h) \<Longrightarrow> apply_body prog c x = x"
proof -
  assume "ids_apart prog" "h \<in> set prog" "dec64 (drop 8 c) = fst (snd h)"
  then have "find (\<lambda>h. fst h = dec64 (drop 8 c)) prog = None"
    unfolding ids_apart_def list_all_iff find_None_iff by metis
  then show ?thesis by (simp add: apply_body_def)
qed

lemma deliver_cooked_objects:
  assumes run: "deliver_cooked msg b g = Inr (g', off)" and "h_header_size b = 9" "ids_apart (prog_of g)"
  shows "prog_of g' = prog_of g \<and> objs g' = apply_call (me_of g) (prog_of g) b (objs g)"
proof -
  let ?n = "unat (dec64 (drop 9 b))"
  let ?here = "me_of g \<in> set (dec32_list ?n (drop 17 b)) \<or> ?n = 0"
  have here: "?here \<longleftrightarrow> call_dests b = [] \<or> me_of g \<in> set (call_dests b)"
    by (cases ?n) (auto simp: call_dests_def)
  have body: "drop (17 + 4 * ?n) b = call_body b" "?n = 0 \<Longrightarrow> drop 17 b = call_body b" by (simp_all add: call_body_def)
  show ?thesis
  proof (cases ?here)
    case False
    with run assms(2) here show ?thesis
      by (auto simp: deliver_cooked_def Let_def apply_call_def split: if_splits)
  next
    case True
    with run assms(2) obtain d reply where
      d: "handle_receive_buf (dispatchers g) (call_body b) (\<lambda>size. size \<le> unat (max_msg_size g - word_of_nat sizeof_header)) = Inr (d, reply)"
      by (auto simp: deliver_cooked_def Let_def body split: if_splits)
    note D = received_message[OF d]
    have returns: "program e = program d \<and> objects e = objects d"
      if "handle_receive_buf d reply (\<lambda>_. False) = Inr (e, r)" "reply \<noteq> []" for e r
    proof -
      from D(3)[OF that(2)] obtain h where h: "h \<in> set (program d)" "dec64 (drop 8 reply) = fst (snd h)"
        unfolding D(1) ..
      with received_message(1,2)[OF that(1)] assms(3) apply_reply[OF _ h] show ?thesis by (simp add: D(1))
    qed
    have fits: "\<not> length b < 17 + 4 * ?n"
      using run assms(2) by (auto simp: deliver_cooked_def Let_def)
    have run': "(if unat (reply_buffer_size g) < length reply then Inl (Undefined ''reply written past deliveryBuffer'')
        else if reply = [] then Inr (g\<lparr>dispatchers := d\<rparr>, 17 + 4 * ?n)
        else if dg_members g ! nat (sender_rank msg) = me_of g then
          bindE (handle_receive_buf d reply (\<lambda>_. False)) (\<lambda>(d, _).
            if ?n = 0 then (case toFulfillQueue g of [] \<Rightarrow> Inl (Undefined ''front of an empty queue'')
              | p # ps \<Rightarrow> bindE (pending_fulfill_map (dg_members g) p d) (\<lambda>d.
                  Inr (g\<lparr>dispatchers := d, fulfilledList := fulfilledList g @ [p], toFulfillQueue := ps\<rparr>, 17 + 4 * ?n)))
            else Inr (g\<lparr>dispatchers := d\<rparr>, 17 + 4 * ?n))
        else Inr (call (Tcp_write (dg_members g ! nat (sender_rank msg)) reply) (g\<lparr>dispatchers := d\<rparr>), 17 + 4 * ?n)) =
      Inr (g', off)"
      using run unfolding deliver_cooked_def Let_def assms(2)
      by (simp add: True fits body(1) d cong: if_cong list.case_cong)
    have "program (dispatchers g') = program d \<and> objs g' = objects d"
    proof (cases "reply \<noteq> [] \<and> dg_members g ! nat (sender_rank msg) = me_of g")
      case True
      with run' obtain e r where e: "handle_receive_buf d reply (\<lambda>_. False) = Inr (e, r)" "reply \<noteq> []"
        by (auto split: if_splits)
      from run' True e(1) show ?thesis
        by (auto simp: returns[OF e] fulfill_map_keeps split: if_splits list.splits)
    next
      case False
      with run' show ?thesis by (auto simp: call_def split: if_splits)
    qed
    with D(1,2) True here show ?thesis by (simp add: apply_call_def)
  qed
qed

text \<open>What a message does must not depend on the bytes that follow it in its buffer.\<close>

definition self_contained :: "'o program \<Rightarrow> wire \<Rightarrow> bool" where
  "self_contained prog w \<longleftrightarrow> (\<forall>me x junk. h_cooked_send (snd w) \<longrightarrow> apply_call me prog (snd w @ junk) x = apply_call me prog (snd w) x)"

definition call_of :: "wire \<Rightarrow> bytes list" where
  "call_of w = (if 0 < fst w \<and> h_cooked_send (snd w) then [snd w] else [])"

lemma release_objects: "dispatchers (release_message msg b off g) = dispatchers g"
  by (simp add: release_message_def Let_def split: option.splits)

lemma deliver_message_objects:
  assumes run: "deliver_message msg g = Inr g'" and ok: "wire_of msg = w" "fst w = 0 \<or> wire_ok w"
    and placed: "placed (dg_n g) (k, msg)" and apart: "ids_apart (prog_of g)"
  shows "prog_of g' = prog_of g" "self_contained (prog_of g) w \<Longrightarrow> objs g' = apply_calls (me_of g) (prog_of g) (call_of w) (objs g)"
proof -
  have "prog_of g' = prog_of g \<and> (self_contained (prog_of g) w \<longrightarrow> objs g' = apply_calls (me_of g) (prog_of g) (call_of w) (objs g))"
  proof (cases "fst w = 0")
    case True
    then have "msize msg = 0" using ok(1) by (auto simp: wire_of_def)
    with run True show ?thesis by (simp add: deliver_message_def call_of_def)
  next
    case False
    with ok have size: "9 \<le> unat (msize msg)" "0 < msize msg" "fst w = msize msg"
      by (auto simp: wire_ok_def wire_of_def word_gt_0)
    then obtain b where b: "message_buffer msg = Some b" using placed by (auto simp: placed_def)
    note same = header_prefix_reads[OF wire_header[OF size(1) b], unfolded ok(1)]
    have h: "h_header_size b = 9" using ok(2) False same(3) by (simp add: wire_ok_def)
    show ?thesis
    proof (cases "h_cooked_send b")
      case True
      with run b size(2) obtain g1 off where g1: "deliver_cooked msg b g = Inr (g1, off)" "g' = release_message msg b off g1"
        by (auto simp: deliver_message_def)
      have "b = snd w @ drop (unat (msize msg)) b" using b by (auto simp: wire_of_def simp flip: ok(1))
      then obtain junk where junk: "b = snd w @ junk" ..
      have "h_cooked_send (snd w)" using same(2) True by simp
      with deliver_cooked_objects[OF g1(1) h apart] size(2,3) show ?thesis
        by (auto simp: g1(2) release_objects call_of_def self_contained_def junk)
    next
      case False
      with run b size(2) have "dispatchers g' = dispatchers g"
        by (auto simp: deliver_message_def release_objects call_def)
      with False same(2) show ?thesis by (simp add: call_of_def)
    qed
  qed
  then show "prog_of g' = prog_of g" "self_contained (prog_of g) w \<Longrightarrow> objs g' = apply_calls (me_of g) (prog_of g) (call_of w) (objs g)"
    by simp_all
qed

section \<open>The calls of the merged logs\<close>

definition calls_at :: "nat \<Rightarrow> (nat \<Rightarrow> wire list) \<Rightarrow> int \<Rightarrow> bytes list" where
  "calls_at n S k = (case slot_at n S k of None \<Rightarrow> [] | Some w \<Rightarrow> call_of w)"

definition calls_upto :: "nat \<Rightarrow> (nat \<Rightarrow> wire list) \<Rightarrow> int \<Rightarrow> bytes list" where
  "calls_upto n S d = concat (map (calls_at n S) [0..d])"

lemma calls_upto_Suc: "-1 \<le> d \<Longrightarrow> calls_upto n S (d + 1) = calls_upto n S d @ calls_at n S (d + 1)"
proof -
  assume "-1 \<le> d"
  then have "[0..d + 1] = [0..d] @ [d + 1]" using upto_rec2[of 0 "d + 1"] by simp
  then show ?thesis by (simp add: calls_upto_def)
qed

lemma calls_upto_append:
  assumes "\<forall>q. \<exists>ws. S' q = S q @ ws" "\<forall>k \<in> {0..d}. slot_at n S k \<noteq> None"
  shows "calls_upto n S' d = calls_upto n S d"
proof -
  have "calls_at n S' k = calls_at n S k" if "k \<in> {0..d}" for k
  proof -
    obtain w where "slot_at n S k = Some w" using assms(2) \<open>k \<in> {0..d}\<close> by blast
    with slot_at_append[OF assms(1) this] show ?thesis by (simp add: calls_at_def)
  qed
  then show ?thesis unfolding calls_upto_def by (intro arg_cong[where f = concat] map_cong) auto
qed

definition all_self_contained :: "nat \<Rightarrow> 'o program \<Rightarrow> (nat \<Rightarrow> wire list) \<Rightarrow> bool" where
  "all_self_contained n prog S \<longleftrightarrow> (\<forall>q < n. \<forall>w \<in> set (S q). self_contained prog w)"

text \<open>
  The members run the same program, and the objects of each are its first objects after the
  calls of the merged logs up to its \<^verbatim>\<open>delivered_num\<close>.
\<close>

definition in_step :: "'o program \<Rightarrow> (nat \<Rightarrow> wire list) \<Rightarrow> nat \<Rightarrow> 'o \<Rightarrow> 'o dgroup \<Rightarrow> bool" where
  "in_step prog S n x g \<longleftrightarrow> prog_of g = prog \<and> (all_self_contained n prog S \<longrightarrow>
     objs g = apply_calls (me_of g) prog (calls_upto n S (delivered_num (my_row g))) x)"

definition replicas_inv :: "'o program \<Rightarrow> (nat \<Rightarrow> 'o) \<Rightarrow> nat \<Rightarrow> 'o cluster \<Rightarrow> bool" where
  "replicas_inv prog init n C \<longleftrightarrow> (\<forall>p < n. in_step prog (sent C) n (init p) (node C p))"

text \<open>Every step but a delivery leaves the objects alone.\<close>

definition same_objects :: "'o dgroup \<Rightarrow> 'o dgroup \<Rightarrow> bool" where
  "same_objects g g' \<longleftrightarrow> prog_of g' = prog_of g \<and> objs g' = objs g \<and> me_of g' = me_of g \<and>
     delivered_num (my_row g') = delivered_num (my_row g)"

lemma same_objectsI:
  "dispatchers g' = dispatchers g \<Longrightarrow> dg_members g' = dg_members g \<Longrightarrow> member_index g' = member_index g \<Longrightarrow>
   delivered_num (my_row g') = delivered_num (my_row g) \<Longrightarrow> same_objects g g'"
  by (simp add: same_objects_def)

lemma in_step_grow:
  assumes "in_step prog S n x g" and "same_objects g g'" and grow: "\<forall>q. \<exists>ws. S' q = S q @ ws"
    and node: "node_inv n S G g"
  shows "in_step prog S' n x g'"
proof -
  have "order_inv g" using node_invD(1)[OF node] by (rule group_invD)
  then have "\<forall>k \<in> {0..delivered_num (my_row g)}. slot_at n S k \<noteq> None"
    using delivered_received[OF node] by (auto simp: order_inv_def)
  from calls_upto_append[OF grow this]
  have "calls_upto n S' (delivered_num (my_row g)) = calls_upto n S (delivered_num (my_row g))" .
  moreover have "all_self_contained n prog S' \<Longrightarrow> all_self_contained n prog S"
    using grow unfolding all_self_contained_def by (metis UnCI set_append)
  ultimately show ?thesis using assms(1,2) by (auto simp: in_step_def same_objects_def)
qed

lemma replicas_grow:
  assumes "replicas_inv prog init n C" and inv: "cluster_inv n C" and p: "p < n" and "same_objects (node C p) g'"
    and "node C' = (node C)(p := g')" and grow: "\<forall>q. \<exists>ws. sent C' q = sent C q @ ws"
  shows "replicas_inv prog init n C'"
  unfolding replicas_inv_def
proof (intro allI impI)
  fix r assume r: "r < n"
  have "same_objects (node C r) (node C' r)" using assms(4) by (simp add: assms(5) same_objects_def)
  from in_step_grow[OF _ this grow cluster_node(1)[OF inv r]] assms(1) r
  show "in_step prog (sent C') n (init r) (node C' r)" by (simp add: replicas_inv_def)
qed

lemma replicas_set_node:
  "replicas_inv prog init n C \<Longrightarrow> cluster_inv n C \<Longrightarrow> p < n \<Longrightarrow> same_objects (node C p) g' \<Longrightarrow>
   replicas_inv prog init n (set_node p g' C)"
  by (rule replicas_grow) auto

lemma same_dispatchers [group_simps]:
  "dispatchers (upd_my_row f g) = dispatchers g" "dispatchers (sst_put g) = dispatchers g"
  "dispatchers (call c g) = dispatchers g" "dispatchers (update_seq_num g) = dispatchers g"
  "dispatchers (group_wedge g) = dispatchers g"
  by (simp_all add: upd_my_row_def sst_put_def call_def update_seq_num_def Let_def group_wedge_def)

lemma update_seq_num_delivered:
  "member_index g < num_rows (dg_sst g) \<Longrightarrow>
   delivered_num (rows (dg_sst (update_seq_num g)) ! member_index g) = delivered_num (my_row g)"
  by (simp add: update_seq_num_def Let_def group_simps)

lemma receive_same_objects:
  assumes inv: "group_inv g" and q: "q < dg_n g" and run: "rdmc_receive_handler q data g = Inr g'"
  shows "same_objects g g'"
  using assms
proof (rule rdmc_receive_handler_cases)
  fix m g2 assume
    own: "q = member_index g \<Longrightarrow> current_send g = Some m \<and>
       g2 = g\<lparr>locally_stable_messages := sm_assign (seq_of (dg_n g) (int q) (my_counts g ! q + 1)) m
          (locally_stable_messages g), current_send := None\<rparr>"
    and other: "q \<noteq> member_index g \<Longrightarrow>
       sm_find (current_receives g) (seq_of (dg_n g) (int q) (my_counts g ! q + 1)) = Some m \<and>
       g2 = g\<lparr>locally_stable_messages := sm_emplace (seq_of (dg_n g) (int q) (my_counts g ! q + 1)) m
          (locally_stable_messages g),
          current_receives := sm_erase (seq_of (dg_n g) (int q) (my_counts g ! q + 1)) (current_receives g)\<rparr>"
    and g': "g' = update_seq_num ((upd_my_row (add_received q (int (unat (h_pause_sending_turns data)) + 1)) g2)
       \<lparr>locally_stable_messages := skipped q (dg_n g) (unat (h_pause_sending_turns data)) (my_counts g ! q + 1)
          (locally_stable_messages g2)\<rparr>)"
  let ?g2 = "(upd_my_row (add_received q (int (unat (h_pause_sending_turns data)) + 1)) g2)
       \<lparr>locally_stable_messages := skipped q (dg_n g) (unat (h_pause_sending_turns data)) (my_counts g ! q + 1)
          (locally_stable_messages g2)\<rparr>"
  have g2: "dg_sst g2 = dg_sst g \<and> member_index g2 = member_index g \<and> dg_members g2 = dg_members g \<and>
      dispatchers g2 = dispatchers g"
    using own other by (cases "q = member_index g") (auto dest: sym)
  moreover have "member_index g < num_rows (dg_sst g)" using group_invD(1)[OF inv] by (simp add: rows_inv_def)
  ultimately have "delivered_num (my_row ?g2) = delivered_num (my_row g)"
    by (simp add: upd_my_row_def set_row_def add_received_def)
  moreover have "delivered_num (my_row (update_seq_num ?g2)) = delivered_num (my_row ?g2)"
    using update_seq_num_delivered[of ?g2] \<open>member_index g < num_rows (dg_sst g)\<close> g2
    by (simp add: group_simps)
  ultimately have "delivered_num (my_row g') = delivered_num (my_row g)" unfolding g' by (rule trans[rotated])
  then show "same_objects g g'"
    by (rule same_objectsI[rotated -1]) (simp_all add: g' group_simps g2)
qed

lemma place_owner: "node_inv n S G g \<Longrightarrow> nat (k mod int n) < n"
  using node_invD(1,2)[of n S G g] by (auto simp: group_inv_def rows_inv_def nat_less_iff)

lemma delivery_in_step:
  assumes step: "in_step prog S n x g" and node: "node_inv n S G g" and logs: "logs_ok S"
    and apart: "ids_apart prog" and run: "delivery_trig g = Inr g'"
  shows "in_step prog S n x g'"
  using node_invD(1)[OF node] run
proof (cases rule: delivery_cases)
  case 1
  with step show ?thesis by simp
next
  case (2 msg g1)
  note ginv = node_invD(1)[OF node]
  let ?d = "delivered_num (my_row g) + 1"
  have wf: "sm_wf (locally_stable_messages g)" using group_invD(3)[OF ginv] by (simp add: store_inv_def)
  have found: "sm_find (locally_stable_messages g) ?d = Some msg" by (rule std_map.least_lookup[OF wf 2(1)])
  then have slot: "slot_at n S ?d = Some (wire_of msg)" using node_invD(6)[OF node] by (simp add: stable_inv_def)
  have w: "fst (wire_of msg) = 0 \<and> call_of (wire_of msg) = [] \<or> wire_of msg \<in> set (S (nat (?d mod int n)))"
    using slot slot_in by (fastforce simp: slot_at_def call_of_def)
  then have ok: "fst (wire_of msg) = 0 \<or> wire_ok (wire_of msg)" using logs by (auto simp: logs_ok_def)
  have "placed (dg_n g) (?d, msg)"
    using group_invD(3)[OF ginv] sm_find_in_set[OF found] by (auto simp: store_inv_def)
  note D = deliver_message_objects[OF 2(3) refl ok this]
  have prog: "prog_of g = prog" using step by (simp add: in_step_def)
  have frame: "me_of g' = me_of g" "dispatchers g' = dispatchers g1"
    using 2(4) by (simp_all add: 2(6) group_simps delivery_frame_def)
  have row: "delivered_num (my_row g') = ?d"
    using group_invD(1)[OF ginv] 2(4)
    by (auto simp: 2(6) delivery_frame_def rows_inv_def upd_my_row_def sst_put_def put_fields set_row_def)
  have d: "-1 \<le> delivered_num (my_row g)" using group_invD(2)[OF ginv] by (simp add: order_inv_def)
  have "objs g1 = apply_calls (me_of g) prog (call_of (wire_of msg)) (objs g)" if "all_self_contained n prog S"
  proof (cases "self_contained prog (wire_of msg)")
    case True
    with D(2) apart show ?thesis by (simp add: prog)
  next
    case False
    then have "fst (wire_of msg) = 0" using w that place_owner[OF node, of ?d] by (auto simp: all_self_contained_def)
    then have "msize msg = 0" by (simp add: wire_of_def)
    with 2(3) show ?thesis by (simp add: deliver_message_def call_of_def wire_of_def)
  qed
  then show ?thesis
    using step D(1) apart prog by (auto simp: in_step_def frame row calls_upto_Suc[OF d] calls_at_def slot)
qed

lemma same_row_objects:
  "dispatchers g' = dispatchers g \<Longrightarrow> dg_members g' = dg_members g \<Longrightarrow> member_index g' = member_index g \<Longrightarrow>
   dg_sst g' = dg_sst g \<Longrightarrow> same_objects g g'"
  by (simp add: same_objects_def)

lemma same_objects_trans: "same_objects g h \<Longrightarrow> same_objects h k \<Longrightarrow> same_objects g k"
  by (simp add: same_objects_def)

lemma table_same_objects:
  assumes "rows_inv g"
  shows "same_objects g (stability_trig g)" "file_written_callback given m g = Inr g' \<Longrightarrow> same_objects g g'"
  using assms
  by (auto simp: rows_inv_def stability_trig_def file_written_callback_def Let_def sst_put_def upd_my_row_def set_row_def
      put_fields call_def intro!: same_objectsI split: option.splits if_splits)

lemma replicas_step:
  "c_step n C C' \<Longrightarrow> cluster_inv n C \<Longrightarrow> replicas_inv prog init n C \<Longrightarrow> ids_apart prog \<Longrightarrow> replicas_inv prog init n C'"
proof (induction rule: c_step.induct)
  case (c_get p C pause sz cooked g' pos)
  show ?case
    by (rule replicas_set_node[OF c_get(8,7,1)]) (use c_get(6) in \<open>cases rule: get_position_cases; simp add: same_row_objects\<close>)
next
  case (c_fill p C m b data)
  show ?case
    by (rule replicas_set_node[OF c_fill(6,5,1)], rule same_row_objects) (simp_all add: fill_payload_def split: option.splits)
next
  case (c_send p C g' ok)
  show ?case
    by (rule replicas_set_node[OF c_send(4,3,1)], rule same_row_objects)
       (use c_send(2) in \<open>auto simp: send_def call_def split: if_splits option.splits\<close>)
next
  case (c_loop p C m ms g')
  have "same_objects (node C p) g'"
    by (rule same_row_objects) (use c_loop(3,4,5) in \<open>auto simp: send_loop_turn_def call_def Let_def\<close>)
  then show ?case by (rule replicas_grow[OF c_loop(7,6,1)]) auto
next
  case (c_start p q C g')
  show ?case
    by (rule replicas_set_node[OF c_start(6,5,1)], rule same_row_objects)
       (use c_start(4) in \<open>auto simp: receive_destination_def Let_def split: if_splits\<close>)
next
  case (c_own p C m b g')
  note N = cluster_node[OF c_own(5,1)]
  from c_own(4) obtain g1 where g1: "rdmc_receive_handler p b (node C p) = Inr g1" "g' = call Notify_sender g1"
    by (auto simp: receive_handler_plus_notify_def)
  have "same_objects (node C p) g1" by (rule receive_same_objects[OF N(4) _ g1(1)]) (simp add: N(5) c_own(1))
  then have "same_objects (node C p) g'"
    by (rule same_objects_trans) (rule same_row_objects, simp_all add: g1(2) group_simps)
  then show ?case by (rule replicas_grow[OF c_own(6,5,1)]) auto
next
  case (c_other p q C data g')
  note N = cluster_node[OF c_other(7,1)]
  have "same_objects (node C p) (rdmc_deliver q data (node C p))"
    by (rule same_row_objects) (auto simp: rdmc_deliver_def Let_def split: option.splits)
  moreover have "same_objects (rdmc_deliver q data (node C p)) g'"
    by (rule receive_same_objects[OF rdmc_deliver_inv[OF N(4)] _ c_other(6)]) (simp add: N(5) c_other(2))
  ultimately have "same_objects (node C p) g'" by (rule same_objects_trans)
  then show ?case by (rule replicas_grow[OF c_other(8,7,1)]) auto
next
  case (c_delivery p C g')
  note N = cluster_node[OF c_delivery(3,1)]
  have "in_step prog (sent C) n (init p) g'"
    by (rule delivery_in_step[OF _ N(1,3) c_delivery(5,2)]) (use c_delivery(1,4) in \<open>simp add: replicas_inv_def\<close>)
  with c_delivery(4) show ?case by (simp add: replicas_inv_def)
next
  case (c_stability p C)
  show ?case by (rule replicas_set_node[OF c_stability(3,2,1) table_same_objects(1)[OF cluster_node(6)[OF c_stability(2,1)]]])
next
  case (c_sender p C)
  show ?case
    by (rule replicas_set_node[OF c_sender(4,3,1)], rule same_row_objects) (simp_all add: sender_trig_def call_def)
next
  case (c_logged p m C g')
  show ?case
    by (rule replicas_set_node[OF c_logged(4,3,1) table_same_objects(2)[OF cluster_node(6)[OF c_logged(3,1)] c_logged(2)]])
next
  case (c_writer p C fw)
  show ?case by (rule replicas_set_node[OF c_writer(3,2,1)], rule same_row_objects) simp_all
next
  case (c_wedge p C)
  show ?case by (rule replicas_set_node[OF c_wedge(3,2,1)], rule same_objectsI) (simp_all add: group_simps)
next
  case (c_calls p d C queue results writes)
  show ?case
    by (rule replicas_set_node[OF c_calls(5,4,1)])
       (use c_calls(2,3) in \<open>simp add: same_objects_def group_simps\<close>, simp add: calls_made_def)
next
  case (c_row p r C row)
  show ?case
    by (rule replicas_set_node[OF c_row(6,5,1)], rule same_objectsI)
       (use c_row(3) cluster_node(2)[OF c_row(5,1)] in \<open>simp_all add: rows_arrive_def\<close>)
qed

definition replica_start :: "'o program \<Rightarrow> (nat \<Rightarrow> 'o) \<Rightarrow> nat \<Rightarrow> 'o cluster \<Rightarrow> bool" where
  "replica_start prog init n C \<longleftrightarrow> cluster_init n C \<and> ids_apart prog \<and>
     (\<forall>p < n. prog_of (node C p) = prog \<and> objs (node C p) = init p)"

interpretation replicas: state_machine "replica_start prog init n" "c_step n"
  "\<lambda>C. cluster_inv n C \<and> ids_apart prog \<and> replicas_inv prog init n C"
proof
  fix C :: "'a cluster"
  assume start: "replica_start prog init n C"
  then have "calls_upto n (sent C) (delivered_num (my_row (node C p))) = []" if "p < n" for p
    using that by (auto simp: replica_start_def cluster_init_def started_def fresh_group_def calls_upto_def)
  with start show "cluster_inv n C \<and> ids_apart prog \<and> replicas_inv prog init n C"
    by (simp add: replica_start_def cluster_init_inv replicas_inv_def in_step_def)
next
  fix C D :: "'a cluster"
  assume "cluster_inv n C \<and> ids_apart prog \<and> replicas_inv prog init n C" "c_step n C D"
  then show "cluster_inv n D \<and> ids_apart prog \<and> replicas_inv prog init n D"
    using cluster_step_inv replicas_step by blast
qed

abbreviation replicas_reachable :: "'o program \<Rightarrow> (nat \<Rightarrow> 'o) \<Rightarrow> nat \<Rightarrow> 'o cluster \<Rightarrow> bool" where
  "replicas_reachable prog init n \<equiv> reachable (replica_start prog init n) (c_step n)"

lemma replicas_are_cluster: "replicas_reachable prog init n C \<Longrightarrow> cluster_reachable n C"
proof (induction rule: reachable.induct)
  case (reachable_init C)
  then show ?case by (auto simp: replica_start_def intro: reachable.reachable_init)
qed (rule reachable.reachable_step)


section \<open>The replicas agree\<close>

definition reaches :: "node_id \<Rightarrow> bytes \<Rightarrow> bool" where
  "reaches me b \<longleftrightarrow> call_dests b = [] \<or> me \<in> set (call_dests b)"

lemma apply_calls_same:
  "\<forall>b \<in> set bs. reaches me b = reaches you b \<Longrightarrow> apply_calls me prog bs x = apply_calls you prog bs x"
  by (induction bs arbitrary: x) (simp_all add: apply_calls_def apply_call_def reaches_def)



section \<open>The objects at the end of a view\<close>

definition held_calls :: "'o dgroup \<Rightarrow> int \<Rightarrow> bytes list" where
  "held_calls g k = (case message_at g k of None \<Rightarrow> [] | Some m \<Rightarrow> call_of (wire_of m))"

lemma call_of_self_contained:
  assumes "msize m = 0 \<or> self_contained prog (wire_of m)" "prog = prog_of g" "ids_apart prog"
    and "deliver_message m g = Inr g'" "msize m = 0 \<or> wire_ok (wire_of m)" "placed (dg_n g) (k, m)"
  shows "prog_of g' = prog" "objs g' = apply_calls (me_of g) prog (call_of (wire_of m)) (objs g)"
proof -
  have ok: "fst (wire_of m) = 0 \<or> wire_ok (wire_of m)" using assms(5) by (simp add: wire_of_def)
  note D = deliver_message_objects[OF assms(4) refl ok assms(6)]
  show "prog_of g' = prog" using D(1) assms(2,3) by simp
  show "objs g' = apply_calls (me_of g) prog (call_of (wire_of m)) (objs g)"
  proof (cases "msize m = 0")
    case True
    with assms(4) show ?thesis by (simp add: deliver_message_def call_of_def wire_of_def)
  next
    case False
    with D(2) assms(1-3) show ?thesis by simp
  qed
qed

lemma deliver_range_objects:
  assumes "deliver_range ks g = Inr g'" "held_ok g" "distinct ks" "prog_of g = prog" "ids_apart prog"
    and "\<forall>k m. message_at g k = Some m \<longrightarrow> msize m = 0 \<or> self_contained prog (wire_of m)"
  shows "prog_of g' = prog \<and> me_of g' = me_of g \<and> objs g' = apply_calls (me_of g) prog (concat (map (held_calls g) ks)) (objs g)"
  using assms
proof (induction ks arbitrary: g)
  case (Cons k ks)
  show ?case
  proof (cases "sm_find (locally_stable_messages g) k")
    case None
    with Cons.IH[of g] Cons.prems show ?thesis by (auto simp: message_at_def held_calls_def)
  next
    case (Some m)
    with Cons.prems obtain g1 where g1: "deliver_message m g = Inr g1" by auto
    let ?g = "g1\<lparr>locally_stable_messages := sm_erase k (locally_stable_messages g1)\<rparr>"
    have m: "placed (dg_n g) (k, m)" "msize m = 0 \<or> wire_ok (wire_of m)" "sm_wf (locally_stable_messages g)"
      "msize m = 0 \<or> self_contained prog (wire_of m)"
      using Cons.prems(2,6) Some by (auto simp: held_ok_def message_at_def)
    note D = call_of_self_contained[OF m(4) _ Cons.prems(5) g1 m(2,1)]
    have f: "delivery_frame g g1" using deliver_message_frame[OF g1] by simp
    have at: "message_at ?g j = (if j = k then None else message_at g j)" for j
      using f m(3) by (simp add: message_at_def delivery_frame_def sm_find_erase)
    have same: "dg_n ?g = dg_n g" "me_of ?g = me_of g" "prog_of ?g = prog"
      "objs ?g = apply_calls (me_of g) prog (held_calls g k) (objs g)"
      using f D Cons.prems(4) Some by (simp_all add: delivery_frame_def held_calls_def message_at_def)
    have "held_ok ?g" using Cons.prems(2) f at by (auto simp: held_ok_def delivery_frame_def sm_wf_erase)
    from Cons.IH[OF _ this] Cons.prems(1,3,5,6) Some g1 same at
    have "prog_of g' = prog \<and> me_of g' = me_of g \<and>
        objs g' = apply_calls (me_of g) prog (held_calls g k @ concat (map (held_calls ?g) ks)) (objs g)"
      by (simp split: if_splits)
    moreover have "map (held_calls ?g) ks = map (held_calls g) ks"
      using Cons.prems(3) at by (auto simp: held_calls_def split: option.splits)
    ultimately show ?thesis by simp
  qed
qed simp

lemma node_holds_calls:
  assumes inv: "node_inv n S G g" and logs: "logs_ok S"
  shows "held_calls g k = (if delivered_num (my_row g) < k \<and> received n (my_counts g) k then calls_at n S k else [])"
    and "all_self_contained n prog S \<Longrightarrow> message_at g k = Some m \<Longrightarrow> msize m = 0 \<or> self_contained prog (wire_of m)"
proof -
  have slot: "slot_at n S k = Some (wire_of m)" if "message_at g k = Some m" for m
    using node_invD(6)[OF inv] that by (simp add: stable_inv_def message_at_def)
  show "held_calls g k = (if delivered_num (my_row g) < k \<and> received n (my_counts g) k then calls_at n S k else [])"
    using node_holds(2)[OF inv logs, of k] slot
    by (cases "message_at g k") (auto simp: held_calls_def calls_at_def)
  show "msize m = 0 \<or> self_contained prog (wire_of m)" if "all_self_contained n prog S" "message_at g k = Some m"
  proof -
    from slot[OF that(2)] have "wire_of m = (0, []) \<or> wire_of m \<in> set (S (nat (k mod int n)))"
      unfolding slot_at_def by (rule slot_in)
    with that(1) place_owner[OF inv, of k] show ?thesis
      unfolding all_self_contained_def by (metis fst_conv wire_of_def)
  qed
qed

lemma final_delivery_objects:
  assumes inv: "node_inv n S G g" and logs: "logs_ok S" and step: "in_step prog S n x g" and apart: "ids_apart prog"
    and sc: "all_self_contained n prog S" and run: "deliver_messages_upto maxs g = Inr g'"
  shows "prog_of g' = prog" "objs g' = apply_calls (me_of g) prog
      (concat (map (\<lambda>k. if received n (my_counts g) k then calls_at n S k else [])
        [0..last_of_edge n maxs (delivered_num (my_row g))])) x"
proof -
  let ?d = "delivered_num (my_row g)" let ?m = "last_of_edge n maxs ?d"
  let ?h = "\<lambda>k. if received n (my_counts g) k then calls_at n S k else []"
  note N = node_invD[OF inv]
  have d: "-1 \<le> ?d" "?d \<le> seq_num (my_row g)" "seq_num (my_row g) = contiguous_seq n (my_counts g)" "counts_ok n (my_counts g)"
    using group_invD(1,2)[OF N(1)] N(2) by (auto simp: order_inv_def rows_inv_def)
  have range: "deliver_range [?d..?m] g = Inr g'"
    using run N(2) by (auto simp: deliver_messages_upto_def Let_def last_of_edge_def)
  have le: "?d \<le> ?m" by (simp add: last_of_edge_eq)
  have prog: "prog_of g = prog" and now: "objs g = apply_calls (me_of g) prog (calls_upto n S ?d) x"
    using step sc by (simp_all add: in_step_def)
  have "\<forall>k m. message_at g k = Some m \<longrightarrow> msize m = 0 \<or> self_contained prog (wire_of m)"
    using node_holds_calls(2)[OF inv logs sc] by blast
  note R = deliver_range_objects[OF range node_holds(1)[OF inv logs] _ prog apart this]
  have "held_calls g ?d = []" by (simp add: node_holds_calls(1)[OF inv logs])
  then have "concat (map (held_calls g) [?d..?m]) = concat (map (held_calls g) [?d + 1..?m])"
    using le by (simp add: upto_rec1)
  also have "map (held_calls g) [?d + 1..?m] = map ?h [?d + 1..?m]"
    by (rule map_cong) (auto simp: node_holds_calls(1)[OF inv logs])
  finally have new: "concat (map (held_calls g) [?d..?m]) = concat (map ?h [?d + 1..?m])" .
  have old: "calls_upto n S ?d = concat (map ?h [0..?d])"
    unfolding calls_upto_def
    by (intro arg_cong[where f = concat] map_cong refl) (use contiguous_prefix_received[OF d(4)] d(2,3) in auto)
  have split: "[0..?m] = [0..?d] @ [?d + 1..?m]"
    using upto_split1[of 0 "?d + 1" ?m] upto_split2[of 0 ?d ?m] le d(1) by (cases "?d = -1") auto
  show "prog_of g' = prog" using R by simp
  show "objs g' = apply_calls (me_of g) prog (concat (map ?h [0..?m])) x"
    using R unfolding new now old split by simp
qed

lemma edge_leaves_equal_objects:
  assumes "replicas_reachable prog init n C" and "p < n" and "r < n" and "init p = init r"
    and "all_self_contained n prog (sent C)"
    and "\<forall>q < n. maxs ! q = Min ((\<lambda>s. my_counts (node C s) ! q) ` {..<n})"
    and "deliver_messages_upto maxs (node C p) = Inr gp" and "deliver_messages_upto maxs (node C r) = Inr gr"
    and "\<forall>k. 0 \<le> k \<and> k \<le> last_of_edge n maxs (-1) \<longrightarrow>
      received n (my_counts (node C p)) k = received n (my_counts (node C r)) k"
    and "\<forall>b \<in> set (calls_upto n (sent C) (last_of_edge n maxs (-1))).
      reaches (me_of (node C p)) b = reaches (me_of (node C r)) b"
  shows "objs gp = objs gr"
proof -
  note C = replicas_are_cluster[OF assms(1)]
  have inv: "cluster_inv n C" "ids_apart prog" "replicas_inv prog init n C"
    using replicas.inv_reachable[OF assms(1)] by simp_all
  note P = cluster_node[OF inv(1) assms(2)] and R = cluster_node[OF inv(1) assms(3)]
  have step: "in_step prog (sent C) n (init p) (node C p)" "in_step prog (sent C) n (init r) (node C r)"
    using inv(3) assms(2,3) by (simp_all add: replicas_inv_def)
  have len: "length maxs = n" by (rule final_delivery_raw(2)[OF P(1,3) assms(7)])
  note top = smallest_counts_cover_delivered[OF C _ len assms(6)]
  note fp = final_delivery_objects(2)[OF P(1,3) step(1) inv(2) assms(5,7), unfolded top[OF assms(2)]]
  note fr = final_delivery_objects(2)[OF R(1,3) step(2) inv(2) assms(5,8), unfolded top[OF assms(3)]]
  let ?h = "\<lambda>s k. if received n (my_counts (node C s)) k then calls_at n (sent C) k else []"
  have eq: "map (?h p) [0..last_of_edge n maxs (-1)] = map (?h r) [0..last_of_edge n maxs (-1)]"
    by (rule map_cong) (use assms(9) in auto)
  have "\<forall>b \<in> set (concat (map (?h r) [0..last_of_edge n maxs (-1)])).
      reaches (me_of (node C p)) b = reaches (me_of (node C r)) b"
    using assms(10) unfolding calls_upto_def by (fastforce split: if_splits)
  then show ?thesis unfolding fp fr eq assms(4) by (rule apply_calls_same)
qed

text \<open>
  C11. State machine replication through a view change: when the members trim to the smallest
  counts and have received the same messages up to the last accepted place, two members that
  began the view with equal objects leave it with equal objects, however far each had got,
  when each call was for both of them or for neither.
\<close>

theorem view_leaves_equal_objects:
  assumes "replicas_reachable prog init n C" and "p < n" and "r < n" and "init p = init r"
    and "all_self_contained n prog (sent C)"
    and "\<forall>q < n. maxs ! q = Min ((\<lambda>s. my_counts (node C s) ! q) ` {..<n})"
    and "deliver_messages_upto maxs (node C p) = Inr gp" and "deliver_messages_upto maxs (node C r) = Inr gr"
    and "\<forall>k. 0 \<le> k \<and> k \<le> last_of_edge n maxs (-1) \<longrightarrow>
      received n (my_counts (node C p)) k = received n (my_counts (node C r)) k"
    and "\<forall>b \<in> set (calls_upto n (sent C) (last_of_edge n maxs (-1))).
      reaches (me_of (node C p)) b = reaches (me_of (node C r)) b"
  shows "objs gp = objs gr"
  by (rule edge_leaves_equal_objects[OF assms])

section \<open>An ordered call, from the caller to every replica\<close>

lemma send_until_sends:
  assumes "send_until g = Some (Inr g')" "next_send g = Some m"
  shows "send g = Inr (g', True)"
proof -
  have "\<not> thread_shutdown g \<and> rdmc_groups_created g" using send_until_step[OF assms(1)] assms(2) by simp
  then show ?thesis using assms by (subst (asm) send_until.simps) (simp add: send_def)
qed

text \<open>The bytes \<^verbatim>\<open>derechoCallerSend\<close> writes, and what they do wherever they are delivered.\<close>

definition call_wire :: "bytes \<Rightarrow> node_id list \<Rightarrow> u64 \<Rightarrow> u64 \<Rightarrow> u64 \<Rightarrow> bytes list \<Rightarrow> bytes" where
  "call_wire h9 nodes op from_id inv_id args = h9 @ enc64 (word_of_nat (length nodes)) @ enc32_list nodes @
     populate_header (replicate header_space 0 @ enc64 inv_id @ concat args)
       (word_of_nat (8 + length (concat args))) op from_id"

lemma length_call_wire: "length h9 = 9 \<Longrightarrow> length (call_wire h9 nodes op a i args) = 49 + 4 * length nodes + length (concat args)"
  by (simp add: call_wire_def u64_codec.enc_length header_space_def)

lemma call_wire_reads:
  assumes "length h9 = 9" "length nodes < 2 ^ 64"
  shows "call_dests (call_wire h9 nodes op a i args @ rest) = nodes"
    and "call_body (call_wire h9 nodes op a i args @ rest) =
      populate_header (replicate header_space 0 @ enc64 i @ concat args) (word_of_nat (8 + length (concat args))) op a @ rest"
proof -
  define c where "c = populate_header (replicate header_space 0 @ enc64 i @ concat args) (word_of_nat (8 + length (concat args))) op a @ rest"
  have w: "call_wire h9 nodes op a i args @ rest = h9 @ enc64 (word_of_nat (length nodes)) @ enc32_list nodes @ c"
    by (simp add: call_wire_def c_def)
  have d: "drop 9 (h9 @ enc64 x @ r) = enc64 x @ r" "drop 17 (h9 @ enc64 x @ r) = r"
    "drop (17 + 4 * length nodes) (h9 @ enc64 x @ enc32_list nodes @ c) = c" for x r
    using assms(1) by (simp_all add: u64_codec.enc_length)
  have n: "unat (dec64 (enc64 (word_of_nat (length nodes)) @ r)) = length nodes" for r
    using assms(2) by (simp add: u64_codec.dec_enc unat_of_nat)
  show "call_dests (call_wire h9 nodes op a i args @ rest) = nodes"
    unfolding call_dests_def w d n by (rule dec32_list_enc)
  show "call_body (call_wire h9 nodes op a i args @ rest) =
      populate_header (replicate header_space 0 @ enc64 i @ concat args) (word_of_nat (8 + length (concat args))) op a @ rest"
    unfolding call_body_def w d n by (simp add: c_def)
qed

lemma find_at: "distinct (map fst xs) \<Longrightarrow> k < length xs \<Longrightarrow> find (\<lambda>h. fst h = fst (xs ! k)) xs = Some (xs ! k)"
proof (induction xs arbitrary: k)
  case (Cons y ys)
  show ?case
  proof (cases k)
    case (Suc j)
    then have "fst y \<noteq> fst (ys ! j)" using Cons.prems by auto
    with Suc Cons show ?thesis by simp
  qed simp
qed simp

lemma call_wire_applied:
  assumes "length h9 = 9" "length nodes < 2 ^ 64" "distinct (map fst (program d))" "k < length (invs d)"
  shows "apply_call me (program d) (call_wire h9 nodes (invoke_id (invs d ! k)) a i args @ rest) x =
    (if nodes = [] \<or> me \<in> set nodes then fst (fn (invs d ! k) x (concat args @ rest)) else x)"
proof -
  let ?h = "invs d ! k"
  let ?c = "populate_header (replicate header_space 0 @ enc64 i @ concat args) (word_of_nat (8 + length (concat args))) (invoke_id ?h) a @ rest"
  have p: "program d ! k = (invoke_id ?h, reply_id ?h, is_void ?h, fn ?h)" using assms(4) by (simp add: program_def)
  have "dec64 (drop 8 ?c) = invoke_id ?h" "drop (8 + header_space) ?c = concat args @ rest"
    by (simp_all add: populate_header_def header_space_def u64_codec.enc_length u64_codec.dec_enc)
  with find_at[OF assms(3), of k] assms(4) p have "apply_body (program d) ?c x = fst (fn ?h x (concat args @ rest))"
    by (simp add: apply_body_def program_def)
  then show ?thesis by (simp add: apply_call_def call_wire_reads[OF assms(1,2)])
qed

lemma wire_of_refill: "snd (wire_of (m\<lparr>message_buffer := Some c\<rparr>)) = take (unat (msize m)) c"
  by (simp add: wire_of_def)

lemma write_call_bytes:
  assumes run: "write_call nodes 9 k inv_id args g = Inr g'" and m: "next_send g = Some m" "message_buffer m = Some b"
    and size: "49 + 4 * length nodes + length (concat args) \<le> unat (msize m)"
  obtains m' rest where "next_send g' = Some m'" "pending_sends g' = pending_sends g" "msize m' = msize m"
    "thread_shutdown g' = thread_shutdown g" "rdmc_groups_created g' = rdmc_groups_created g"
    "length (take 9 b) = 9"
    "snd (wire_of m') = call_wire (take 9 b) nodes (invoke_id (invs (dispatchers g) ! k)) (nid (dispatchers g)) inv_id args @ rest"
proof -
  let ?d = "dispatchers g" and ?n = "length nodes" and ?l = "length (concat args)"
  let ?dests = "enc64 (word_of_nat ?n) @ enc32_list nodes"
  let ?alloc = "\<lambda>size. size \<le> unat (max_msg_size g - word_of_nat sizeof_header - 8 - word_of_nat (4 * ?n))"
  from run m obtain d out where d: "dispatcher_send ?d k inv_id args ?alloc = Inr (d, out)"
    and g': "g' = g\<lparr>dispatchers := d, next_send := Some (m\<lparr>message_buffer :=
        Some (take 9 b @ ?dests @ out @ drop (9 + length ?dests + length out) b)\<rparr>)\<rparr>"
      "9 + length ?dests + length out \<le> length b"
    by (auto simp: write_call_def Let_def split: option.splits if_splits)
  have out: "out = populate_header (replicate header_space 0 @ enc64 inv_id @ concat args)
      (word_of_nat (8 + ?l)) (invoke_id (invs ?d ! k)) (nid ?d)"
    using d by (auto simp: dispatcher_send_def invocable_send_def Let_def guardE_def u64_codec.enc_length split: if_splits)
  let ?w = "call_wire (take 9 b) nodes (invoke_id (invs ?d ! k)) (nid ?d) inv_id args"
  let ?m = "m\<lparr>message_buffer := Some (take 9 b @ ?dests @ out @ drop (9 + length ?dests + length out) b)\<rparr>"
  have hd: "length (take 9 b) = 9" using g'(2) by simp
  let ?r = "drop (9 + length ?dests + length out) b"
  have "take 9 b @ ?dests @ out @ ?r = ?w @ ?r" by (simp add: call_wire_def out)
  then have "snd (wire_of ?m) = take (unat (msize m)) (?w @ ?r)" 
    by (simp only: wire_of_refill)
  also have "\<dots> = ?w @ take (unat (msize m) - length ?w) ?r"
    using size length_call_wire[OF hd, of nodes] by simp
  finally have "snd (wire_of ?m) = ?w @ take (unat (msize m) - length ?w) ?r" .
  then show thesis using g' hd by (intro that[of ?m]) auto
qed

text \<open>
  C12. From an ordered call to its effect: what \<^verbatim>\<open>derechoCallerSend\<close> queues for the send loop
  is one message, and at every node that delivers it, it applies the called function to the
  caller's arguments, if the node is among the destinations, and otherwise does nothing;
  whatever follows in the buffer. The function must read no further than its arguments, and
  the position asked for must have had room for the call.
\<close>

theorem ordered_call_is_applied:
  assumes "derechoCallerSend nodes 9 k inv_id args g = Some (Inr g')"
    and "next_send g = Some m" and "message_buffer m = Some b" and "h_cooked_send b"
    and "k < length (invs (dispatchers g))" and "distinct (map fst (prog_of g))" and "length nodes < 2 ^ 64"
    and "49 + 4 * length nodes + length (concat args) \<le> unat (msize m)"
    and "\<forall>x rest. fn (invs (dispatchers g) ! k) x (concat args @ rest) = fn (invs (dispatchers g) ! k) x (concat args)"
  shows "\<exists>m'. pending_sends g' = pending_sends g @ [m'] \<and> call_of (wire_of m') = [snd (wire_of m')] \<and>
    self_contained (prog_of g) (wire_of m') \<and>
    (\<forall>me x. apply_call me (prog_of g) (snd (wire_of m')) x =
      (if nodes = [] \<or> me \<in> set nodes then fst (fn (invs (dispatchers g) ! k) x (concat args)) else x))"
proof -
  from assms(1) obtain g1 g2 where g1: "write_call nodes 9 k inv_id args g = Inr g1"
    and g2: "send_until g1 = Some (Inr g2)" and g': "record_pending nodes (k, inv_id) g2 = Inr g'"
    by (auto simp: derechoCallerSend_def split: sum.splits option.splits)
  from g1 assms(2,3,8) obtain m' rest where m': "next_send g1 = Some m'" "pending_sends g1 = pending_sends g"
    "msize m' = msize m" "length (take 9 b) = 9" and w: "snd (wire_of m') =
      call_wire (take 9 b) nodes (invoke_id (invs (dispatchers g) ! k)) (nid (dispatchers g)) inv_id args @ rest"
    by (rule write_call_bytes)
  have "pending_sends g2 = pending_sends g @ [m']"
    using send_until_sends[OF g2 m'(1)] m'(1,2) by (auto simp: send_def call_def split: if_splits)
  then have queued: "pending_sends g' = pending_sends g @ [m']" using g' by (auto simp: record_pending_def split: if_splits)
  note applied = call_wire_applied[OF m'(4) assms(7,6,5)]
  have "take 9 (snd (wire_of m')) = take 9 b" using m'(4) by (simp add: w call_wire_def)
  then have "h_cooked_send (snd (wire_of m'))" using header_prefix_reads(2) assms(4) by blast
  moreover have "0 < fst (wire_of m')" using assms(8) m'(3) by (simp add: wire_of_def word_gt_0) auto
  ultimately have "call_of (wire_of m') = [snd (wire_of m')]" by (simp add: call_of_def)
  moreover have "self_contained (prog_of g) (wire_of m')"
    unfolding self_contained_def w append_assoc applied by (simp add: assms(9))
  moreover have "\<forall>me x. apply_call me (prog_of g) (snd (wire_of m')) x =
      (if nodes = [] \<or> me \<in> set nodes then fst (fn (invs (dispatchers g) ! k) x (concat args)) else x)"
    unfolding w applied by (simp add: assms(9))
  ultimately show ?thesis using queued by blast
qed

text \<open>
  Replication carries over to the next view: when the members that stay have left the old
  view holding the objects \<open>x\<close> and a joining member was sent the same, the groups of the next
  view are again a cluster of equal replicas running the same program.
\<close>

lemma next_view_starts_replicated:
  assumes "replicas_reachable prog init n C" and "all_self_contained n prog (sent C)" and "distinct ms"
    and "\<And>p. p < length ms \<Longrightarrow> sst_fits (length ms) p (s p) \<and> concat (map published_row (calls (s p))) = [] \<and>
      (af p = [] \<or> length ms \<le> length (af p))"
    and "\<And>p. p < length ms \<Longrightarrow>
      (\<exists>r maxs old u. r < n \<and> deliver_messages_upto maxs (node C r) = Inr old \<and> objs old = x \<and>
         non_persistent_messages old = [] \<and>
         uint (rdmc_group_num_offset old) \<le> 65535 - int (dg_n old) - int (length ms) \<and>
         group_from_old ms (ms ! p) (s p) old (af p) u (ok p) = Inr (node C' p)) \<or>
      (\<exists>bufs disp params files. program disp = prog \<and> objects disp = x \<and>
         unat (max_payload_size params) + 9 + unat (dp_block_size params) < 2 ^ 64 \<and>
         new_group ms (ms ! p) (s p) bufs disp params files (af p) (ok p) = Inr (node C' p))"
    and "\<And>p q. sent C' q = [] \<and> got C' p q = 0"
  shows "replica_start prog (\<lambda>_. x) (length ms) C'"
proof -
  have inv: "cluster_inv n C" "ids_apart prog" "replicas_inv prog init n C"
    using replicas.inv_reachable[OF assms(1)] by simp_all
  have "cluster_init (length ms) C'"
    by (rule next_groups_cluster[OF replicas_are_cluster[OF assms(1)] assms(3,4) _ assms(6)])
       (use assms(5) in blast)+
  moreover have "prog_of (node C' p) = prog \<and> objs (node C' p) = x" if p: "p < length ms" for p
    using assms(5)[OF p]
  proof (elim disjE exE conjE)
    fix r maxs old u
    assume r: "r < n" "deliver_messages_upto maxs (node C r) = Inr old" "objs old = x"
      "group_from_old ms (ms ! p) (s p) old (af p) u (ok p) = Inr (node C' p)"
    have "in_step prog (sent C) n (init r) (node C r)" using inv(3) r(1) by (simp add: replicas_inv_def)
    from final_delivery_objects(1)[OF cluster_node(1,3)[OF inv(1) r(1)] this inv(2) assms(2) r(2)]
    show ?thesis using r(3) constructor_dispatcher(1)[OF r(4)] by simp
  next
    fix bufs disp params files
    assume "program disp = prog" "objects disp = x"
      "new_group ms (ms ! p) (s p) bufs disp params files (af p) (ok p) = Inr (node C' p)"
    then show ?thesis using constructor_dispatcher(2) by metis
  qed
  ultimately show ?thesis using inv(2) by (simp add: replica_start_def)
qed

section \<open>Two members with a replicated list\<close>

text \<open>One function, which appends the first byte of its arguments; member 0 calls it for all.\<close>

definition noting :: "bytes invocable" where
  "noting = \<lparr>invoke_id = 1, reply_id = 2, is_void = False, fn = (\<lambda>x a. (x @ take 1 a, Some [])), ret = []\<rparr>"

definition noting_params :: derecho_params where
  "noting_params = \<lparr>max_payload_size = 55, dp_block_size = 16, filename = [], dp_window_size = 2, timeout_ms = 1,
     rpc_port = 12487\<rparr>"

definition noting_group :: "nat \<Rightarrow> bytes dgroup result" where
  "noting_group p = new_group [7, 8] ([7, 8] ! p) (duo_sst\<lparr>local_index := p\<rparr>) []
     \<lparr>nid = [7, 8] ! p, invs = [noting], objects = []\<rparr> noting_params ([], []) [] (\<lambda>_. True)"

definition noting_pair :: "bytes cluster" where
  "noting_pair = \<lparr>node = (\<lambda>p. result_of (noting_group p)), sent = (\<lambda>_. []), got = (\<lambda>_ _. 0)\<rparr>"

definition noting_moves :: "move list" where
  "noting_moves = [Get 0 41 0 True, Write 0 [] 0 77 [[5]], Send 0, Record 0 [] 0 77, Loop 0, Own 0, Start 1 0, Recv 1 0,
     Row 0 1, Row 1 0, Stabilize 0, Stabilize 1, Row 0 1, Row 1 0, Deliver 0]"

text \<open>The header of the call: a cooked message that pauses no turns.\<close>

definition noting_header :: bytes where
  "noting_header = [9, 0, 0, 0, 0, 0, 0, 0, 1]"

text \<open>Member 0 has delivered the call, member 1 has it stable.\<close>

definition noting_edge :: "bytes cluster" where
  "noting_edge = the (simulate 2 noting_moves noting_pair)"

definition noting_end :: "bytes cluster" where
  "noting_end = set_node 1 (result_of (delivery_trig (node noting_edge 1))) noting_edge"

definition noting_left :: "nat \<Rightarrow> bytes dgroup" where
  "noting_left p = result_of (deliver_messages_upto [0, -1] (node noting_edge p))"

lemma noting_run:
  "map_option (\<lambda>C. ((map (\<lambda>p. (delivered_num (my_row (node C p)), objs (node C p), me_of (node C p), my_counts (node C p))) [0, 1],
      map snd (sent C 0) = [call_wire noting_header [] 1 7 77 [[5]]], map h_cooked_send (map snd (sent C 0)), sent C 1),
      of_result (\<lambda>g. (delivered_num (my_row g), objs g, me_of g)) (delivery_trig (node C 1)),
      map (\<lambda>p. of_result (\<lambda>g. (objs g, non_persistent_messages g, uint (rdmc_group_num_offset g), dg_n g))
        (deliver_messages_upto [0, -1] (node C p))) [0, 1]))
     (simulate 2 noting_moves noting_pair) =
   Some (([(0, [5], 7, [0, -1]), (-1, [], 8, [0, -1])], True, [True], []), Some (0, [5], 8),
     [Some ([5], [], 0, 2), Some ([5], [], 0, 2)])"
  by code_simp

lemma noting_groups: "p < 2 \<Longrightarrow> noting_group p = Inr (node noting_pair p)"
proof -
  have "compute_max_msg_size 55 16 = Inr 64" by (simp add: compute_max_msg_size_def sizeof_header_def)
  moreover have "\<exists>g'. start_dgroup [] ok g = Inr g'" for ok and g :: "bytes dgroup"
    by (rule start_dgroup_runs[of "[]" g ok]) auto
  ultimately have "\<exists>g. noting_group p = Inr g"
    by (simp add: noting_group_def new_group_def noting_params_def guardE_def Let_def)
  then show ?thesis by (auto simp: noting_pair_def result_of_def)
qed

abbreviation noting_program :: "bytes program" where
  "noting_program \<equiv> [(1, 2, False, \<lambda>x a. (x @ take 1 a, Some []))]"

lemma noting_fits:
  "p < length [7, 8 :: node_id] \<Longrightarrow> sst_fits (length [7, 8 :: node_id]) p (duo_sst\<lparr>local_index := p\<rparr>) \<and>
     concat (map published_row (calls (duo_sst\<lparr>local_index := p\<rparr>))) = []"
  using edge_next_fits by blast

lemma noting_start: "replica_start noting_program (\<lambda>_. []) 2 noting_pair"
proof -
  have runs: "new_group [7, 8] ([7, 8] ! p) (duo_sst\<lparr>local_index := p\<rparr>) []
     \<lparr>nid = [7, 8] ! p, invs = [noting], objects = []\<rparr> noting_params ([], []) [] (\<lambda>_. True) = Inr (node noting_pair p)"
    if "p < length [7, 8 :: node_id]" for p
    using noting_groups[of p] that by (simp add: noting_group_def)
  have "cluster_init (length [7, 8 :: node_id]) noting_pair"
    by (rule new_groups_cluster[OF _ runs noting_fits]) (simp_all add: noting_params_def noting_pair_def)
  moreover have "dispatchers (node noting_pair p) = \<lparr>nid = [7, 8] ! p, invs = [noting], objects = []\<rparr>" if "p < 2" for p
    using constructor_dispatcher(2)[OF runs] that by simp
  ultimately show ?thesis
    by (simp add: replica_start_def numeral_2_eq_2 ids_apart_def program_def noting_def)
qed

lemma noting_edge_reachable: "replicas_reachable noting_program (\<lambda>_. []) 2 noting_edge"
proof -
  obtain C where "simulate 2 noting_moves noting_pair = Some C" using noting_run by auto
  then show ?thesis
    using reachable_steps[OF simulate_steps reachable_init[of "replica_start noting_program (\<lambda>_. []) 2", OF noting_start]]
    by (simp add: noting_edge_def)
qed

lemma noting_edge_facts:
  "delivered_num (my_row (node noting_edge 0)) = 0" "me_of (node noting_edge 0) = 7" "me_of (node noting_edge 1) = 8"
  "my_counts (node noting_edge 0) = [0, -1]" "my_counts (node noting_edge 1) = [0, -1]"
  "map snd (sent noting_edge 0) = [call_wire noting_header [] 1 7 77 [[5]]]" "sent noting_edge 1 = []"
  using noting_run by (auto simp: noting_edge_def)



lemma noting_self_contained: "all_self_contained 2 noting_program (sent noting_edge)"
proof -
  have p: "noting_program = program \<lparr>nid = 7, invs = [noting], objects = []\<rparr>" by (simp add: program_def noting_def)
  have "apply_call me noting_program (call_wire noting_header [] 1 7 77 [[5]] @ r) x = x @ [5]" for me r x
    using call_wire_applied[of noting_header "[]" "\<lparr>nid = 7, invs = [noting], objects = []\<rparr>" 0 me 7 77 "[[5]]" r x]
    by (simp add: p[symmetric]) (simp add: noting_header_def noting_def)
  from this[where r = "[]"] this have "self_contained noting_program (a, call_wire noting_header [] 1 7 77 [[5]])" for a
    by (simp add: self_contained_def)
  then show ?thesis
    using noting_edge_facts(6,7) by (auto simp: all_self_contained_def less_2_cases_iff)
qed

lemma noting_calls: "b \<in> set (calls_upto 2 (sent noting_edge) k) \<Longrightarrow> k \<le> 0 \<Longrightarrow> call_dests b = []"
proof -
  assume b: "b \<in> set (calls_upto 2 (sent noting_edge) k)" and k: "k \<le> 0"
  obtain a where "sent noting_edge 0 = [(a, call_wire noting_header [] 1 7 77 [[5]])]"
    using noting_edge_facts(6) by (cases "sent noting_edge 0") auto
  with b k have "b = call_wire noting_header [] 1 7 77 [[5]]"
    by (cases "k = 0") (auto simp: calls_upto_def calls_at_def slot_at_def call_of_def split: if_splits)
  then show ?thesis using call_wire_reads(1)[of noting_header "[]" 1 7 77 "[[5]]" "[]"] by (simp add: noting_header_def)
qed

lemma noting_end_sent [simp]: "sent noting_end = sent noting_edge"
  by (simp add: noting_end_def)



lemma noting_leaves:
  assumes "p < 2"
  shows "deliver_messages_upto [0, -1] (node noting_edge p) = Inr (noting_left p) \<and> objs (noting_left p) = [5] \<and>
    non_persistent_messages (noting_left p) = [] \<and> uint (rdmc_group_num_offset (noting_left p)) = 0 \<and> dg_n (noting_left p) = 2"
proof -
  have "of_result (\<lambda>g. (objs g, non_persistent_messages g, uint (rdmc_group_num_offset g), dg_n g))
      (deliver_messages_upto [0, -1] (node noting_edge p)) = Some ([5], [], 0, 2)"
    using noting_run assms by (auto simp: noting_edge_def less_2_cases_iff)
  from of_result_Some[OF this] show ?thesis by (simp add: noting_left_def)
qed

theorem view_leaves_equal_objects_witness: "objs (noting_left 0) = objs (noting_left 1)"
proof (rule view_leaves_equal_objects[OF noting_edge_reachable])
  show "\<forall>q < 2. [0, -1] ! q = Min ((\<lambda>s. my_counts (node noting_edge s) ! q) ` {..<2})"
    by (auto simp: less_2_cases_iff lessThan_Suc numeral_2_eq_2 noting_edge_facts noting_edge_facts[unfolded One_nat_def])
  have "last_of_edge 2 [0, -1] (-1) = 0" by (simp add: last_of_edge_def seq_of_def)
  then show "\<forall>b \<in> set (calls_upto 2 (sent noting_edge) (last_of_edge 2 [0, -1] (-1))).
      reaches (me_of (node noting_edge 0)) b = reaches (me_of (node noting_edge 1)) b"
    using noting_calls by (auto simp: reaches_def)
qed (use noting_self_contained noting_leaves noting_edge_facts in \<open>simp_all del: One_nat_def\<close>)

text \<open>Member 8 is removed, member 9 joins with the objects it was sent.\<close>

definition noting_next :: "bytes cluster" where
  "noting_next = \<lparr>node = (\<lambda>p. result_of (if p = 0
      then group_from_old [7, 9] 7 duo_sst (noting_left 0) [False, False] 1 (\<lambda>_. True)
      else new_group [7, 9] 9 (duo_sst\<lparr>local_index := 1\<rparr>) [] \<lparr>nid = 9, invs = [noting], objects = [5]\<rparr> noting_params
        ([], []) [False, False] (\<lambda>_. True))), sent = (\<lambda>_. []), got = (\<lambda>_ _. 0)\<rparr>"

lemma noting_next_runs:
  "group_from_old [7, 9] 7 duo_sst (noting_left 0) [False, False] 1 (\<lambda>_. True) = Inr (node noting_next 0)"
  "new_group [7, 9] 9 (duo_sst\<lparr>local_index := 1\<rparr>) [] \<lparr>nid = 9, invs = [noting], objects = [5]\<rparr> noting_params
        ([], []) [False, False] (\<lambda>_. True) = Inr (node noting_next 1)"
proof -
  have p: "(0 :: nat) < 2" by simp
  note N = cluster_node[OF cluster.inv_reachable[OF replicas_are_cluster[OF noting_edge_reachable]] p]
  obtain g' where "group_from_old [7, 9] 7 duo_sst (noting_left 0) [False, False] 1 (\<lambda>_. True) = Inr g'"
    by (rule hand_over_started[OF N(1,3), of "[0, -1]" "noting_left 0" "[7, 9]" 7 duo_sst "[False, False]"])
       (use noting_leaves[OF p] in \<open>auto simp: sst_fits_def duo_sst_def duo_row_def\<close>)
  then show "group_from_old [7, 9] 7 duo_sst (noting_left 0) [False, False] 1 (\<lambda>_. True) = Inr (node noting_next 0)"
    by (simp add: noting_next_def result_of_def)
  have "compute_max_msg_size 55 16 = Inr 64" by (simp add: compute_max_msg_size_def sizeof_header_def)
  moreover have "\<exists>g'. start_dgroup [False, False] ok g = Inr g'" if "dg_n g = 2" for ok and g :: "bytes dgroup"
    by (rule start_dgroup_runs[of "[False, False]" g ok]) (use that in auto)
  ultimately have "\<exists>g. new_group [7, 9] 9 (duo_sst\<lparr>local_index := 1\<rparr>) [] \<lparr>nid = 9, invs = [noting], objects = [5]\<rparr> noting_params
        ([], []) [False, False] (\<lambda>_. True) = Inr g"
    by (simp add: new_group_def noting_params_def guardE_def Let_def)
  then show "new_group [7, 9] 9 (duo_sst\<lparr>local_index := 1\<rparr>) [] \<lparr>nid = 9, invs = [noting], objects = [5]\<rparr> noting_params
        ([], []) [False, False] (\<lambda>_. True) = Inr (node noting_next 1)"
    by (auto simp: noting_next_def result_of_def)
qed

lemma noting_next_start: "replica_start noting_program (\<lambda>_. [5]) 2 noting_next"
proof -
  have "replica_start noting_program (\<lambda>_. [5]) (length [7, 9 :: node_id]) noting_next"
  proof (rule next_view_starts_replicated[OF noting_edge_reachable noting_self_contained, where s = "\<lambda>p. duo_sst\<lparr>local_index := p\<rparr>"])
    fix p assume "p < length [7, 9 :: node_id]"
    then consider "p = 0" | "p = 1" by fastforce
    then show "(\<exists>r maxs old u. r < 2 \<and> deliver_messages_upto maxs (node noting_edge r) = Inr old \<and> objs old = [5] \<and>
         non_persistent_messages old = [] \<and>
         uint (rdmc_group_num_offset old) \<le> 65535 - int (dg_n old) - int (length [7, 9 :: node_id]) \<and>
         group_from_old [7, 9] ([7, 9] ! p) (duo_sst\<lparr>local_index := p\<rparr>) old [False, False] u (\<lambda>_. True) = Inr (node noting_next p)) \<or>
      (\<exists>bufs disp params files. program disp = noting_program \<and> objects disp = [5] \<and>
         unat (max_payload_size params) + 9 + unat (dp_block_size params) < 2 ^ 64 \<and>
         new_group [7, 9] ([7, 9] ! p) (duo_sst\<lparr>local_index := p\<rparr>) bufs disp params files [False, False] (\<lambda>_. True) = Inr (node noting_next p))"
    proof cases
      case 1
      have s: "duo_sst\<lparr>local_index := 0\<rparr> = duo_sst" by (simp add: duo_sst_def)
      show ?thesis
        by (intro disjI1 exI[of _ 0] exI[of _ "[0, -1]"] exI[of _ "noting_left 0"] exI[of _ 1])
           (use 1 noting_leaves[of 0] noting_next_runs(1) in \<open>simp add: s\<close>)
    next
      case 2
      show ?thesis
        by (intro disjI2 exI[of _ "[]"] exI[of _ "\<lparr>nid = 9, invs = [noting], objects = [5]\<rparr>"] exI[of _ noting_params]
            exI[of _ "([], [])"])
           (use 2 noting_next_runs(2) in \<open>simp add: program_def noting_def noting_params_def\<close>)
    qed
  qed (use edge_next_fits in \<open>simp_all add: noting_next_def\<close>)
  then show ?thesis by (simp add: numeral_2_eq_2)
qed

text \<open>The call of the example, up to the queue of the sender.\<close>

definition noting_asked :: "bytes dgroup" where
  "noting_asked = result_of (map_sum (\<lambda>e. e) fst (get_position (node noting_pair 0) 41 0 True))"

lemma noting_asked_run:
  "(case next_send noting_asked of None \<Rightarrow> None | Some m \<Rightarrow> (case message_buffer m of None \<Rightarrow> None | Some b \<Rightarrow>
      Some (h_cooked_send b, msize m))) = Some (True, 50)"
  "of_result (\<lambda>g. (thread_shutdown g, rdmc_groups_created g, map_option msize (next_send g)))
     (write_call [] 9 0 77 [[5]] noting_asked) = Some (False, True, Some 50)"
  "length (invs (dispatchers noting_asked)) = 1"
  by code_simp+

lemma noting_asked_program: "prog_of noting_asked = noting_program" "invs (dispatchers noting_asked) ! 0 = noting"
proof -
  have "of_result (\<lambda>_. ()) (get_position (node noting_pair 0) 41 0 True) = Some ()" by code_simp
  then obtain g pos where "get_position (node noting_pair 0) 41 0 True = Inr (g, pos)"
    by (cases "get_position (node noting_pair 0) 41 0 True") (auto simp: of_result_def)
  moreover from this have "dispatchers g = dispatchers (node noting_pair 0)" by (cases rule: get_position_cases) simp_all
  ultimately have d: "dispatchers noting_asked = dispatchers (node noting_pair 0)" by (simp add: noting_asked_def result_of_def)
  have "dispatchers (node noting_pair 0) = \<lparr>nid = 7, invs = [noting], objects = []\<rparr>"
    using noting_groups[of 0] constructor_dispatcher(2) by (fastforce simp: noting_group_def)
  then show "prog_of noting_asked = noting_program" "invs (dispatchers noting_asked) ! 0 = noting"
    by (simp_all add: d program_def noting_def)
qed

theorem ordered_call_is_applied_witness:
  "\<exists>g m. derechoCallerSend [] 9 0 77 [[5]] noting_asked = Some (Inr g) \<and> pending_sends g = pending_sends noting_asked @ [m] \<and>
     apply_call 8 noting_program (snd (wire_of m)) [1] = [1, 5]"
proof -
  obtain m b where m: "next_send noting_asked = Some m" "message_buffer m = Some b" "h_cooked_send b" "msize m = 50"
    using noting_asked_run(1) by (auto split: option.splits)
  obtain g1 where g1: "write_call [] 9 0 77 [[5]] noting_asked = Inr g1" "\<not> thread_shutdown g1" "rdmc_groups_created g1"
    "next_send g1 \<noteq> None"
    using of_result_Some[OF noting_asked_run(2)] by auto
  then have "\<exists>g2. send_until g1 = Some (Inr g2)" by (subst send_until.simps) (auto simp: send_def)
  then obtain g where g: "derechoCallerSend [] 9 0 77 [[5]] noting_asked = Some (Inr g)"
    using g1(1) by (auto simp: derechoCallerSend_def record_pending_def)
  from ordered_call_is_applied[OF g m(1-3)] obtain m' where
    "pending_sends g = pending_sends noting_asked @ [m'] \<and> (\<forall>me x. apply_call me noting_program (snd (wire_of m')) x = x @ [5])"
    using noting_asked_run(3) m(4) noting_asked_program by (auto simp: noting_def)
  with g show ?thesis by auto
qed

end
