(* ===== verification/Replica_Life.thy ===== *)
theory Replica_Life
  imports Replication
begin

text \<open>
  State machine replication over all views of a group: a run of one view's cluster, the trim
  at its end, the groups of the next view, its run, and so on. Whatever the members went
  through, those of one view that have delivered equally far hold equal objects.
\<close>

section \<open>From one view's cluster to the next\<close>







section \<open>The life of a replicated group\<close>












end
