(* ===== verification/Gms_Cluster.thy ===== *)
theory Gms_Cluster
  imports View_Change
begin

text \<open>
  The membership service of all members of one view at once. Each node runs the predicates
  and triggers of \<^verbatim>\<open>ManagedGroup\<close>, and the shared table carries rows between them,
  up to the first suspicion of the leader. A node's copy of another row may lag and may be
  torn: a row is written from its first field to its last, so a copy may pair a list of
  changes with a count from an earlier publication.
\<close>

section \<open>The columns of the protocol\<close>

text \<open>
  The columns agreement rests on, and updates that leave them alone. Everything the
  multicast and the failure detector do is of this kind.
\<close>

definition gms_cols :: "derecho_row \<Rightarrow> node_id list \<times> string \<times> int \<times> int \<times> int" where
  "gms_cols r = (changes r, joiner_ip r, nChanges r, nCommitted r, nAcked r)"

definition put_rows :: "sst \<Rightarrow> derecho_row list" where
  "put_rows s = concat (map published_row (calls s))"

definition quiet :: "sst \<Rightarrow> sst \<Rightarrow> bool" where
  "quiet s t \<longleftrightarrow> local_index t = local_index s \<and> num_rows t = num_rows s \<and>
     (\<forall>r. gms_cols (rows t ! r) = gms_cols (rows s ! r)) \<and>
     (\<exists>new. put_rows t = put_rows s @ new \<and> (\<forall>x \<in> set new. gms_cols x = gms_cols (local_row s)))"

lemma gms_cols_cong:
  "gms_cols a = gms_cols b \<longleftrightarrow> changes a = changes b \<and> joiner_ip a = joiner_ip b \<and> nChanges a = nChanges b \<and>
     nCommitted a = nCommitted b \<and> nAcked a = nAcked b"
  by (simp add: gms_cols_def)

named_theorems quiet_intros

lemma quiet_refl [simp, quiet_intros]: "quiet s s"
  by (auto simp: quiet_def)

lemma quiet_trans [trans]: "quiet s t \<Longrightarrow> quiet t u \<Longrightarrow> quiet s u"
  unfolding quiet_def local_row_def by (auto 0 3)

lemma put_rows_simps [simp]:
  "put_rows (put s) = put_rows s @ [local_row s]" "put_rows (freeze q s) = put_rows s"
  "put_rows (sync_with_members s) = put_rows s" "put_rows (start_predicate_evaluation s) = put_rows s"
  "put_rows (insert_pred p s) = put_rows s" "put_rows (remove_pred p s) = put_rows s"
  "put_rows (delete_all_predicates s) = put_rows s" "put_rows (set_row i r s) = put_rows s"
  "put_rows (upd_local f s) = put_rows s" "put_rows (s\<lparr>rows := rs\<rparr>) = put_rows s"
  by (simp_all add: put_rows_def put_def freeze_def sync_with_members_def start_predicate_evaluation_def
      insert_pred_def remove_pred_def delete_all_predicates_def set_row_def upd_local_def set_local_def)

lemma quiet_put [quiet_intros]: "quiet s (put s)"
  by (auto simp: quiet_def put_fields)

lemma quiet_set_row: "gms_cols r = gms_cols (rows s ! i) \<Longrightarrow> quiet s (set_row i r s)"
  by (auto simp: quiet_def set_row_def nth_list_update list_update_beyond not_less)
     (metis list_update_beyond not_le nth_list_update)

lemma quiet_upd_local: "(\<And>r. gms_cols (f r) = gms_cols r) \<Longrightarrow> quiet s (upd_local f s)"
  unfolding upd_local_def set_local_def by (rule quiet_set_row) (simp add: local_row_def)

lemma quiet_preds [quiet_intros]:
  "quiet s (freeze q s)" "quiet s (insert_pred p s)" "quiet s (remove_pred p s)" "quiet s (delete_all_predicates s)"
  "quiet s (sync_with_members s)" "quiet s (start_predicate_evaluation s)"
  by (simp_all add: quiet_def freeze_fields pred_fields sync_fields)
     (simp_all add: delete_all_predicates_def start_predicate_evaluation_def)

lemma quiet_foldl: "(\<And>s x. x \<in> set xs \<Longrightarrow> quiet s (f s x)) \<Longrightarrow> quiet s (foldl f s xs)"
  by (rule foldl_invariant[where P = "quiet s"]) (auto intro: quiet_trans)

section \<open>The multicast leaves them alone\<close>

lemma quiet_upd_my_row:
  "(\<And>r. gms_cols (f r) = gms_cols r) \<Longrightarrow> quiet (dg_sst g) (dg_sst (upd_my_row f g))"
  by (simp add: upd_my_row_def quiet_set_row)

lemma quiet_sst_put: "quiet (dg_sst g) (dg_sst (sst_put g))"
  by (simp add: sst_put_def quiet_put)

lemma quiet_skip_turns: "quiet s (dg_sst g) \<Longrightarrow> quiet s (dg_sst (skip_turns q k idx seq g))"
proof (induction k arbitrary: idx seq g)
  case (Suc k)
  have "quiet (dg_sst g) (dg_sst (upd_my_row (add_received q 1) g))"
    by (rule quiet_upd_my_row) (simp add: add_received_def gms_cols_def)
  with Suc.prems show ?case by (simp add: Let_def Suc.IH quiet_trans)
qed simp

lemma quiet_update_seq_num: "quiet (dg_sst g) (dg_sst (update_seq_num g))"
proof -
  have "quiet (dg_sst g) (dg_sst (upd_my_row (\<lambda>r. r\<lparr>seq_num := k\<rparr>) g))" for k
    by (rule quiet_upd_my_row) (simp add: gms_cols_def)
  then show ?thesis
    by (auto simp: update_seq_num_def Let_def intro: quiet_sst_put quiet_trans)
qed

lemma take_received_sst: "take_received q seq g = Inr g' \<Longrightarrow> dg_sst g' = dg_sst g"
  by (auto simp: take_received_def split: if_splits option.splits)

lemma quiet_receive:
  assumes "rdmc_receive_handler q data g = Inr g'"
  shows "quiet (dg_sst g) (dg_sst g')"
proof -
  let ?g = "upd_my_row (add_received q 1) g"
  from assms obtain g1 seq where g1: "take_received q seq ?g = Inr g1"
    and g': "g' = update_seq_num (skip_turns q (unat (h_pause_sending_turns data)) (nReceived (my_row ?g) ! q) seq g1)"
    by (auto simp: rdmc_receive_handler_def Let_def)
  have "quiet (dg_sst g) (dg_sst ?g)"
    by (rule quiet_upd_my_row) (simp add: add_received_def gms_cols_def)
  also have "dg_sst ?g = dg_sst g1" using take_received_sst[OF g1] by simp
  finally show ?thesis
    unfolding g' by (blast intro: quiet_trans quiet_skip_turns quiet_update_seq_num)
qed

lemma delivered_sst: "deliver_message msg g = Inr g' \<Longrightarrow> dg_sst g' = dg_sst g"
  using deliver_message_frame[of msg g g'] by (simp add: delivery_frame_def)

lemma delivered_range_sst: "deliver_range ks g = Inr g' \<Longrightarrow> dg_sst g' = dg_sst g"
  by (induction ks g arbitrary: g' rule: deliver_range.induct) (auto simp: delivered_sst split: option.splits)

lemma delivered_upto_sst: "deliver_messages_upto maxs g = Inr g' \<Longrightarrow> dg_sst g' = dg_sst g"
  by (auto simp: deliver_messages_upto_def Let_def delivered_range_sst)

lemma quiet_set_and_put:
  "(\<And>r. gms_cols (f r) = gms_cols r) \<Longrightarrow> dg_sst g = s \<Longrightarrow> quiet s (dg_sst (sst_put (upd_my_row f g)))"
  by (blast intro: quiet_trans quiet_upd_my_row quiet_sst_put)

lemma quiet_stability: "quiet (dg_sst g) (dg_sst (stability_trig g))"
  by (auto simp: stability_trig_def Let_def gms_cols_def intro!: quiet_set_and_put)

lemma quiet_delivery: "delivery_trig g = Inr g' \<Longrightarrow> quiet (dg_sst g) (dg_sst g')"
  by (auto simp: delivery_trig_def Let_def gms_cols_def delivered_sst split: option.splits if_splits
      intro!: quiet_set_and_put)

lemma quiet_logged: "file_written_callback given m g = Inr g' \<Longrightarrow> quiet (dg_sst g) (dg_sst g')"
  by (auto simp: file_written_callback_def Let_def gms_cols_def call_def split: option.splits if_splits
      intro!: quiet_set_and_put)

lemma quiet_wedge_group: "quiet (dg_sst g) (dg_sst (group_wedge g))"
  by (simp add: group_wedge_def) (blast intro: quiet_trans quiet_preds)

text \<open>One turn of any thread of the multicast at a node.\<close>

inductive group_turn :: "'o dgroup \<Rightarrow> 'o dgroup \<Rightarrow> bool" where
  "get_position g sz pause cooked = Inr (g', pos) \<Longrightarrow> group_turn g g'"
| "group_turn g (fill_payload data g)"
| "send g = Inr (g', ok) \<Longrightarrow> group_turn g g'"
| "send_loop_turn rdmc_ok g = Inr g' \<Longrightarrow> group_turn g g'"
| "receive_destination q sz g = Inr g' \<Longrightarrow> group_turn g g'"
| "rdmc_receive_handler q data (rdmc_deliver q data g) = Inr g' \<Longrightarrow> group_turn g g'"
| "receive_handler_plus_notify q data g = Inr g' \<Longrightarrow> group_turn g g'"
| "group_turn g (stability_trig g)"
| "delivery_trig g = Inr g' \<Longrightarrow> group_turn g g'"
| "group_turn g (sender_trig g)"
| "file_written_callback given m g = Inr g' \<Longrightarrow> group_turn g g'"
| "group_turn g (g\<lparr>dg_writer := Some fw\<rparr>)"
| "group_turn g (calls_made d queue results writes g)"

lemma quiet_group_turn: "group_turn g g' \<Longrightarrow> quiet (dg_sst g) (dg_sst g')"
proof (induction rule: group_turn.induct)
  case (1 g sz pause cooked g' pos)
  then show ?case by (auto simp: get_position_def Let_def split: if_splits option.splits)
next
  case (3 g g' ok)
  then show ?case by (auto simp: send_def call_def split: if_splits option.splits)
next
  case (4 ok g g')
  then show ?case by (auto simp: send_loop_turn_def call_def Let_def split: if_splits list.splits)
next
  case (5 q sz g g')
  then show ?case by (auto simp: receive_destination_def Let_def split: if_splits)
next
  case (6 q data g g')
  then show ?case by (auto simp: rdmc_deliver_def Let_def dest!: quiet_receive split: option.splits)
next
  case (7 q data g g')
  then show ?case by (auto simp: receive_handler_plus_notify_def call_def dest: quiet_receive)
qed (auto simp: fill_payload_def sender_trig_def call_def calls_made_def Let_def split: option.splits
    intro: quiet_stability quiet_delivery quiet_logged)

section \<open>The nodes and the table between them\<close>

text \<open>
  \<open>gnode\<close> is each member's group in the view; once a member installs the next view its
  old group stays as it was left and \<open>installed\<close> holds what it continues with.
\<close>

record 'o gms_cluster =
  gnode :: "nat \<Rightarrow> 'o managed"
  installed :: "nat \<Rightarrow> 'o managed option"

definition set_gnode :: "nat \<Rightarrow> 'o managed \<Rightarrow> 'o gms_cluster \<Rightarrow> 'o gms_cluster" where
  "set_gnode p g C = C\<lparr>gnode := (gnode C)(p := g)\<rparr>"

definition install :: "nat \<Rightarrow> 'o managed \<Rightarrow> 'o gms_cluster \<Rightarrow> 'o gms_cluster" where
  "install p g C = C\<lparr>installed := (installed C)(p := Some g)\<rparr>"

lemma gms_cluster_simps [simp]:
  "gnode (set_gnode p g C) = (gnode C)(p := g)" "installed (set_gnode p g C) = installed C"
  "gnode (install p g C) = gnode C" "installed (install p g C) = (installed C)(p := Some g)"
  "set_gnode p h (set_gnode p g C) = set_gnode p h C"
  by (simp_all add: set_gnode_def install_def)

text \<open>
  What a copy of a row may hold: the list of changes and the joining address of one
  publication, with a count of changes no newer; and any published value of the other
  columns.
\<close>

definition gms_visible :: "derecho_row list \<Rightarrow> derecho_row \<Rightarrow> bool" where
  "gms_visible pub row \<longleftrightarrow>
     (\<exists>i < length pub. changes row = changes (pub ! i) \<and> joiner_ip row = joiner_ip (pub ! i) \<and>
        nChanges row \<in> set (map nChanges (take (Suc i) pub))) \<and>
     nCommitted row \<in> set (map nCommitted pub) \<and> nAcked row \<in> set (map nAcked pub) \<and>
     wedged row \<in> set (map wedged pub) \<and> globalMinReady row \<in> set (map globalMinReady pub)"

definition has_pred :: "pred_id \<Rightarrow> 'o managed \<Rightarrow> bool" where
  "has_pred p g \<longleftrightarrow> p \<in> set (preds (gms_sst g))"

text \<open>A predicate registered as \<^verbatim>\<open>ONE_TIME\<close> is removed when it fires.\<close>

definition fired :: "pred_id \<Rightarrow> 'o managed \<Rightarrow> 'o managed" where
  "fired p g = upd_sst (remove_pred p) g"

text \<open>
  The steps of a member that is still in the view. \<open>l\<close> is the rank of the leader, whom no
  step here marks failed.
\<close>

inductive m_step :: "nat \<Rightarrow> nat \<Rightarrow> 'o managed \<Rightarrow> 'o managed \<Rightarrow> bool" for N l where
  m_suspect: "has_pred Suspected_changed g \<Longrightarrow> suspected_changed N g \<Longrightarrow> suspected_changed_trig N g = Inr g' \<Longrightarrow>
    \<not> failed (curr_view g') ! l \<Longrightarrow> m_step N l g g'"
| m_report: "report_failure N q g = Inr g' \<Longrightarrow> m_step N l g g'"
| m_connect: "m_step N l g (g\<lparr>pending_joins := pending_joins g @ [c]\<rparr>)"
| m_join: "has_pred Start_join g \<Longrightarrow> start_join_pred g \<Longrightarrow> start_join_trig N g = Inr g' \<Longrightarrow> m_step N l g g'"
| m_commit: "has_pred Change_commit_ready g \<Longrightarrow> change_commit_ready g \<Longrightarrow> m_step N l g (commit_change g)"
| m_ack: "has_pred Leader_proposed g \<Longrightarrow> leader_proposed_change g = Inr True \<Longrightarrow> ack_proposed_change g = Inr g' \<Longrightarrow>
    m_step N l g g'"
| m_start: "has_pred Leader_committed g \<Longrightarrow> leader_committed_next_view g = Inr True \<Longrightarrow>
    start_view_change N g = Inr g' \<Longrightarrow> m_step N l g (fired Leader_committed g')"
| m_wedged: "has_pred (Meta_wedged b w) g \<Longrightarrow> is_meta_wedged g \<Longrightarrow> \<not> IAmLeader (curr_view g) \<Longrightarrow>
    meta_wedged_continuation N rs ok u b w g = Inr g' \<Longrightarrow> m_step N l g (fired (Meta_wedged b w) g')"
| m_group: "group_turn (curr_group g) dg \<Longrightarrow> m_step N l g (upd_group (\<lambda>_. dg) g)"
| m_barrier: "m_step N l g (barrier_sync g)"
| m_leave: "m_step N l g (leave g)"

text \<open>
  When the last predicate fires, the member cleans up the ragged edge in the old view and
  continues in the next one. The leader runs that part at once when it sees everyone wedged.
\<close>

definition continues :: "nat \<Rightarrow> 'o managed \<Rightarrow> 'o managed \<Rightarrow> bool" where
  "continues N g g' \<longleftrightarrow> (\<exists>b w rs ok u.
     has_pred (Meta_wedged b w) g \<and> is_meta_wedged g \<and> IAmLeader (curr_view g) \<and>
       meta_wedged_continuation N rs ok u b w g = Inr g' \<or>
     has_pred (GlobalMin_ready b w) g \<and> leader_globalMin_is_ready g = Inr True \<and>
       globalMin_ready_continuation N rs ok u b g = Inr g')"

inductive gms_step :: "nat \<Rightarrow> nat \<Rightarrow> nat \<Rightarrow> 'o gms_cluster \<Rightarrow> 'o gms_cluster \<Rightarrow> bool" for n N l where
  g_member: "p < n \<Longrightarrow> installed C p = None \<Longrightarrow> m_step N l (gnode C p) g' \<Longrightarrow> gms_step n N l C (set_gnode p g' C)"
| g_install: "p < n \<Longrightarrow> installed C p = None \<Longrightarrow> continues N (gnode C p) g' \<Longrightarrow>
    ragged_edge_cleanup (gnode C p) = Inr g1 \<Longrightarrow> gms_step n N l C (install p g' (set_gnode p g1 C))"
| g_row: "p < n \<Longrightarrow> r < n \<Longrightarrow> r \<noteq> p \<Longrightarrow> installed C p = None \<Longrightarrow>
    gms_visible (put_rows (gms_sst (gnode C r))) row \<Longrightarrow>
    gms_step n N l C (set_gnode p (upd_sst (set_row r row) (gnode C p)) C)"

section \<open>Steps of the membership service that leave the columns alone\<close>

lemma quiet_row_update: "(\<And>r. gms_cols (f r) = gms_cols r) \<Longrightarrow> quiet s (set_row i (f (rows s ! i)) s)"
  by (rule quiet_set_row) simp

lemma quiet_view_wedge: "quiet (gms_sst g) (gms_sst (view_wedge g))"
proof -
  let ?i = "nat (my_rank (curr_view g))" and ?s = "dg_sst (group_wedge (curr_group g))"
  have "quiet (gms_sst g) ?s" by (rule quiet_wedge_group)
  also have "quiet ?s (set_row ?i ((rows ?s ! ?i)\<lparr>wedged := True\<rparr>) ?s)"
    by (rule quiet_row_update) (simp add: gms_cols_def)
  also have "quiet \<dots> (put \<dots>)" by (rule quiet_put)
  finally show ?thesis by (simp add: view_wedge_def)
qed

lemma quiet_report:
  assumes "report_failure N q g = Inr g'"
  shows "quiet (gms_sst g) (gms_sst g')"
proof -
  from assms obtain r where g': "g' = upd_sst (\<lambda>s. put (set_row (nat (my_rank (curr_view g)))
      ((rows (gms_sst g) ! nat (my_rank (curr_view g)))\<lparr>suspected := r\<rparr>) s)) g"
    by (auto simp: report_failure_def Let_def split: if_splits)
  have "quiet (gms_sst g) (set_row i ((rows (gms_sst g) ! i)\<lparr>suspected := r\<rparr>) (gms_sst g))" for i
    by (rule quiet_set_row) (simp add: gms_cols_def)
  then show ?thesis by (simp add: g' quiet_trans[OF _ quiet_put])
qed

lemma quiet_leave: "quiet (gms_sst g) (gms_sst (leave g))"
proof -
  let ?i = "nat (my_rank (curr_view g))" and ?s = "delete_all_predicates (dg_sst (group_wedge (curr_group g)))"
  have "quiet (gms_sst g) ?s" by (rule quiet_trans[OF quiet_wedge_group quiet_preds(4)])
  also have "quiet ?s (set_row ?i ((rows ?s ! ?i)\<lparr>suspected := (suspected (rows ?s ! ?i))[?i := True]\<rparr>) ?s)"
    by (rule quiet_set_row) (simp add: gms_cols_def)
  also have "quiet \<dots> (put \<dots>)" by (rule quiet_put)
  finally show ?thesis by (simp add: leave_def Let_def upd_sst_def upd_group_def)
qed

lemma quiet_globalMin:
  "quiet s (globalMin_done i s)" "quiet s (copy_globalMin i j k s)" "quiet s (compute_globalMin i k s)"
proof -
  have "quiet s (set_row i ((rows s ! i)\<lparr>globalMinReady := True\<rparr>) s)"
    by (rule quiet_set_row) (simp add: gms_cols_def)
  then show "quiet s (globalMin_done i s)" unfolding globalMin_done_def by (rule quiet_trans) (rule quiet_put)
  show "quiet s (copy_globalMin i j k s)"
    unfolding copy_globalMin_def by (rule quiet_set_row) (simp add: gms_cols_def)
  show "quiet s (compute_globalMin i k s)"
    unfolding compute_globalMin_def by (intro quiet_foldl quiet_set_row) (simp add: gms_cols_def)
qed

lemma deliver_in_order_frame:
  "deliver_in_order ld g = Inr g' \<Longrightarrow> gms_sst g' = gms_sst g \<and> curr_view g' = curr_view g \<and>
     next_view g' = next_view g \<and> joining_client g' = joining_client g"
  by (auto simp: deliver_in_order_def Let_def delivered_upto_sst)

lemma upd_fields_more [simp]:
  "next_view (upd_sst f g) = next_view g" "next_view (upd_group h g) = next_view g" "next_view (upd_view k g) = next_view g"
  "joining_client (upd_sst f g) = joining_client g" "joining_client (upd_group h g) = joining_client g"
  "joining_client (upd_view k g) = joining_client g"
  "pending_joins (upd_sst f g) = pending_joins g"
  "gms_sst (gms_call c g) = gms_sst g" "curr_view (gms_call c g) = curr_view g"
  "next_view (gms_call c g) = next_view g" "joining_client (gms_call c g) = joining_client g"
  by (simp_all add: upd_sst_def upd_group_def upd_view_def gms_call_def)

lemma view_wedge_frame [simp]:
  "curr_view (view_wedge g) = curr_view g" "next_view (view_wedge g) = next_view g"
  "joining_client (view_wedge g) = joining_client g"
  by (simp_all add: view_wedge_def)

lemma quiet_ragged_edge:
  assumes "ragged_edge_cleanup g = Inr g'"
  shows "quiet (gms_sst g) (gms_sst g') \<and> curr_view g' = curr_view g \<and> next_view g' = next_view g \<and>
    joining_client g' = joining_client g"
proof (cases "IAmLeader (curr_view g)")
  case True
  with assms show ?thesis
    by (auto simp: ragged_edge_cleanup_def leader_ragged_edge_cleanup_def Let_def
        dest!: deliver_in_order_frame intro: quiet_trans[OF quiet_globalMin(2) quiet_globalMin(1)]
        quiet_trans[OF quiet_globalMin(3) quiet_globalMin(1)])
next
  case False
  with assms show ?thesis
    by (auto simp: ragged_edge_cleanup_def follower_ragged_edge_cleanup_def Let_def
        dest!: deliver_in_order_frame intro: quiet_trans[OF quiet_globalMin(2) quiet_globalMin(1)])
qed

lemma quiet_start_view_change:
  assumes "start_view_change N g = Inr g'"
  shows "quiet (gms_sst g) (gms_sst g') \<and> curr_view g' = curr_view g \<and> joining_client g' = joining_client g"
proof -
  let ?g = "upd_sst (\<lambda>s. remove_pred Leader_proposed (remove_pred Change_commit_ready (remove_pred Start_join s))) g"
  from assms obtain p nv where g': "g' = upd_sst (insert_pred p) ((view_wedge ?g)\<lparr>next_view := Some nv\<rparr>)"
    by (auto simp: start_view_change_def Let_def)
  have "quiet (gms_sst g) (gms_sst ?g)"
    by simp (blast intro: quiet_trans quiet_preds)
  also have "quiet (gms_sst ?g) (gms_sst (view_wedge ?g))" by (rule quiet_view_wedge)
  finally have "quiet (gms_sst g) (gms_sst (view_wedge ?g))" .
  then have "quiet (gms_sst g) (gms_sst g')" by (simp add: g' quiet_trans[OF _ quiet_preds(2)])
  then show ?thesis by (simp add: g')
qed

end
