(* ===== verification/View_Agreement.thy ===== *)
theory View_Agreement
  imports Gms_Cluster
begin

text \<open>
  Members agree on the next view. While the leader is not suspected its own row is the
  reference: every other row, every copy and every published row lists the same changes as
  far as its count goes, no change that some member has not installed is overwritten, and
  whoever starts the view change takes the same change to it.
\<close>

section \<open>The invariant\<close>

definition own :: "'o gms_cluster \<Rightarrow> nat \<Rightarrow> derecho_row" where
  "own C p = local_row (gms_sst (gnode C p))"

definition next_change :: "nat \<Rightarrow> view \<Rightarrow> derecho_row \<Rightarrow> node_id" where
  "next_change N V o' = changes o' ! (nat (vid V) mod N)"

text \<open>Row \<open>x\<close> lists a prefix of the changes of row \<open>ld\<close>, from the view's own change on.\<close>

definition follows :: "nat \<Rightarrow> view \<Rightarrow> derecho_row \<Rightarrow> derecho_row \<Rightarrow> bool" where
  "follows N V ld x \<longleftrightarrow> length (changes x) = N \<and> nChanges x \<le> nChanges ld \<and>
     (\<forall>k. vid V \<le> int k \<and> int k < nChanges x \<longrightarrow> changes x ! (k mod N) = changes ld ! (k mod N)) \<and>
     (vid V < nChanges x \<and> next_change N V ld \<notin> set (members V) \<longrightarrow> c_str (joiner_ip x) = c_str (joiner_ip ld))"

text \<open>Row \<open>x\<close> of member \<open>r\<close> is not ahead of the member's own row \<open>z\<close>.\<close>

definition lags :: "nat \<Rightarrow> nat \<Rightarrow> derecho_row \<Rightarrow> derecho_row \<Rightarrow> bool" where
  "lags l r x z \<longleftrightarrow> nAcked x \<le> nAcked z \<and> nChanges x \<le> nChanges z \<and> (r = l \<longrightarrow> nCommitted x \<le> nCommitted z)"

definition acked_ok :: "nat \<Rightarrow> nat \<Rightarrow> derecho_row \<Rightarrow> bool" where
  "acked_ok l p z \<longleftrightarrow> nAcked z \<le> nChanges z \<and> (p \<noteq> l \<longrightarrow> nAcked z = nChanges z)"

definition in_view :: "nat \<Rightarrow> nat \<Rightarrow> view \<Rightarrow> nat \<Rightarrow> 'o managed \<Rightarrow> bool" where
  "in_view n l V p g \<longleftrightarrow> view_wf (curr_view g) \<and> vid (curr_view g) = vid V \<and> members (curr_view g) = members V \<and>
     member_ips (curr_view g) = member_ips V \<and> num_members (curr_view g) = int n \<and> my_rank (curr_view g) = int p \<and>
     rank_of_leader (curr_view g) = int l \<and> local_index (gms_sst g) = p \<and> num_rows (gms_sst g) = n"

definition member_table :: "nat \<Rightarrow> nat \<Rightarrow> nat \<Rightarrow> view \<Rightarrow> 'o gms_cluster \<Rightarrow> nat \<Rightarrow> bool" where
  "member_table n N l V C p \<longleftrightarrow> in_view n l V p (gnode C p) \<and> acked_ok l p (own C p) \<and>
     (\<forall>r < n. follows N V (own C l) (rows (gms_sst (gnode C p)) ! r) \<and>
        lags l r (rows (gms_sst (gnode C p)) ! r) (own C r)) \<and>
     (\<forall>x \<in> set (put_rows (gms_sst (gnode C p))). follows N V (own C l) x \<and> lags l p x (own C p)) \<and>
     sorted (map nChanges (put_rows (gms_sst (gnode C p))))"

definition gms_table :: "nat \<Rightarrow> nat \<Rightarrow> nat \<Rightarrow> view \<Rightarrow> 'o gms_cluster \<Rightarrow> bool" where
  "gms_table n N l V C \<longleftrightarrow> (\<forall>p < n. member_table n N l V C p)"

text \<open>
  What bounds the leader's list: a change is proposed when a member is marked failed or
  when a client is taken from the queue, and one client is served at a time.
\<close>

definition proposals_bound :: "view \<Rightarrow> 'o managed \<Rightarrow> int" where
  "proposals_bound V g = vid V + nFailed (curr_view g) + (if joining_client g = None then 0 else 1)"

definition gms_leader :: "nat \<Rightarrow> nat \<Rightarrow> nat \<Rightarrow> view \<Rightarrow> 'o gms_cluster \<Rightarrow> bool" where
  "gms_leader n N l V C \<longleftrightarrow> l < n \<and> n \<le> N \<and> view_wf V \<and> num_members V = int n \<and> 0 \<le> vid V \<and> vid V \<le> nChanges (own C l) \<and>
     nChanges (own C l) \<le> proposals_bound V (gnode C l) \<and> \<not> majority_lost (curr_view (gnode C l)) \<and>
     (vid V < nChanges (own C l) \<and> next_change N V (own C l) \<notin> set (members V) \<longrightarrow> joining_client (gnode C l) \<noteq> None) \<and>
     (\<forall>p < n. \<not> failed (curr_view (gnode C l)) ! p \<longrightarrow> nCommitted (own C l) \<le> nAcked (own C p))"

text \<open>The view every member makes of the change the leader lists for this view.\<close>

definition agreed :: "nat \<Rightarrow> view \<Rightarrow> derecho_row \<Rightarrow> view \<Rightarrow> bool" where
  "agreed N V ld nv \<longleftrightarrow> (let w = changed_view V (next_change N V ld) (joiner_ip ld) in
     vid nv = vid w \<and> members nv = members w \<and> member_ips nv = member_ips w \<and> num_members nv = num_members w \<and>
     who nv = who w)"

definition gms_decided :: "nat \<Rightarrow> nat \<Rightarrow> nat \<Rightarrow> view \<Rightarrow> 'o gms_cluster \<Rightarrow> bool" where
  "gms_decided n N l V C \<longleftrightarrow>
     (\<forall>p < n. \<not> failed (curr_view (gnode C l)) ! p \<longrightarrow> (\<forall>nv. next_view (gnode C p) = Some nv \<longrightarrow>
        vid V < nChanges (own C l) \<and> agreed N V (own C l) nv)) \<and>
     (\<forall>p < n. next_view (gnode C p) \<noteq> None \<longrightarrow> vid V < nCommitted (own C l)) \<and>
     (\<forall>p a. installed C p = Some a \<longrightarrow>
        (\<exists>nv b. next_view (gnode C p) = Some nv \<and> curr_view a = nv\<lparr>IKnowIAmLeader := b\<rparr>))"

definition gms_inv :: "nat \<Rightarrow> nat \<Rightarrow> nat \<Rightarrow> view \<Rightarrow> 'o gms_cluster \<Rightarrow> bool" where
  "gms_inv n N l V C \<longleftrightarrow> gms_table n N l V C \<and> gms_leader n N l V C \<and> gms_decided n N l V C"

text \<open>
  The start of a view: the rows agree with the leader's, proposals may be pending from the
  view before, and nobody has begun a view change.
\<close>

definition gms_start :: "nat \<Rightarrow> nat \<Rightarrow> nat \<Rightarrow> view \<Rightarrow> 'o gms_cluster \<Rightarrow> bool" where
  "gms_start n N l V C \<longleftrightarrow> gms_table n N l V C \<and> gms_leader n N l V C \<and>
     (\<forall>p. installed C p = None) \<and> (\<forall>p < n. next_view (gnode C p) = None)"

lemma gms_start_inv: "gms_start n N l V C \<Longrightarrow> gms_inv n N l V C"
  by (simp add: gms_start_def gms_inv_def gms_decided_def)

section \<open>Prefixes\<close>

lemma follows_cong:
  "gms_cols x = gms_cols x' \<Longrightarrow> gms_cols z = gms_cols z' \<Longrightarrow> follows N V z x = follows N V z' x'"
  by (simp add: follows_def gms_cols_cong next_change_def)

lemma lags_cong: "gms_cols x = gms_cols x' \<Longrightarrow> gms_cols z = gms_cols z' \<Longrightarrow> lags l r x z = lags l r x' z'"
  by (simp add: lags_def gms_cols_cong)

lemma lags_refl [simp]: "lags l r x x"
  by (simp add: lags_def)

lemma lags_trans: "lags l r x y \<Longrightarrow> lags l r y z \<Longrightarrow> lags l r x z"
  by (auto simp: lags_def)

lemma next_change_follows:
  assumes "follows N V z x" "0 \<le> vid V" "vid V < nChanges x"
  shows "next_change N V x = next_change N V z"
  using assms unfolding follows_def next_change_def by (metis nat_0_le order_refl)

lemma follows_trans:
  assumes "follows N V y x" "follows N V z y" "0 \<le> vid V"
  shows "follows N V z x"
proof -
  have "next_change N V y = next_change N V z" if "vid V < nChanges x"
    using assms that by (intro next_change_follows) (auto simp: follows_def)
  with assms show ?thesis unfolding follows_def by auto
qed

lemma follows_refl: "length (changes x) = N \<Longrightarrow> follows N V x x"
  by (simp add: follows_def)

lemma agreed_follows:
  assumes "agreed N V y nv" "follows N V z y" "0 \<le> vid V" "vid V < nChanges y" "view_wf V"
  shows "agreed N V z nv"
proof -
  have c: "next_change N V y = next_change N V z" using assms(2-4) by (rule next_change_follows)
  have "rank_of V (next_change N V z) \<noteq> -1 \<or> c_str (joiner_ip y) = c_str (joiner_ip z)"
    using assms rank_of_None_iff[OF assms(5)] by (auto simp: follows_def)
  with assms(1) show ?thesis by (auto simp: agreed_def changed_view_def Let_def c)
qed

section \<open>One member writes its own row\<close>

definition moves :: "sst \<Rightarrow> sst \<Rightarrow> bool" where
  "moves s t \<longleftrightarrow> local_index t = local_index s \<and> num_rows t = num_rows s \<and>
     (\<forall>r. r \<noteq> local_index s \<longrightarrow> gms_cols (rows t ! r) = gms_cols (rows s ! r)) \<and>
     (\<exists>new. put_rows t = put_rows s @ new \<and> (\<forall>x \<in> set new. gms_cols x = gms_cols (local_row t)))"

lemma quiet_cols: "quiet s t \<Longrightarrow> gms_cols (local_row t) = gms_cols (local_row s)"
  by (simp add: quiet_def local_row_def)

lemma quiet_moves: "quiet s t \<Longrightarrow> moves s t"
  using quiet_cols[of s t] by (auto simp: quiet_def moves_def)

lemma moves_quiet: "moves s t \<Longrightarrow> quiet t u \<Longrightarrow> moves s u"
  using quiet_cols[of t u] by (auto 0 3 simp: quiet_def moves_def)

lemma moves_upd_local: "moves s (upd_local f s)"
  by (auto simp: moves_def sst_simps)

lemma gms_tableD:
  assumes "gms_table n N l V C" "p < n"
  shows "in_view n l V p (gnode C p)" "acked_ok l p (own C p)"
    "r < n \<Longrightarrow> follows N V (own C l) (rows (gms_sst (gnode C p)) ! r)"
    "r < n \<Longrightarrow> lags l r (rows (gms_sst (gnode C p)) ! r) (own C r)"
    "x \<in> set (put_rows (gms_sst (gnode C p))) \<Longrightarrow> follows N V (own C l) x \<and> lags l p x (own C p)"
    "sorted (map nChanges (put_rows (gms_sst (gnode C p))))"
  using assms by (auto simp: gms_table_def member_table_def)

lemma own_is_copy:
  "gms_table n N l V C \<Longrightarrow> p < n \<Longrightarrow> rows (gms_sst (gnode C p)) ! p = own C p"
  using gms_tableD(1)[of n N l V C p] by (simp add: own_def local_row_def in_view_def)

lemma own_follows: "gms_table n N l V C \<Longrightarrow> p < n \<Longrightarrow> follows N V (own C l) (own C p)"
  using gms_tableD(3)[of n N l V C p p] own_is_copy by metis

lemma own_set [simp]: "own (set_gnode p g C) r = (if r = p then local_row (gms_sst g) else own C r)"
  by (simp add: own_def)

lemma table_move:
  assumes T: "gms_table n N l V C" and p: "p < n" "l < n" "0 \<le> vid V"
    and v: "in_view n l V p g" and mv: "moves (gms_sst (gnode C p)) (gms_sst g)"
    and ok: "acked_ok l p (local_row (gms_sst g))" "lags l p (own C p) (local_row (gms_sst g))"
    and lead: "p = l \<Longrightarrow> follows N V (local_row (gms_sst g)) (own C l)"
    and len: "length (changes (local_row (gms_sst g))) = N"
    and foll: "p \<noteq> l \<Longrightarrow> follows N V (own C l) (local_row (gms_sst g))"
  shows "gms_table n N l V (set_gnode p g C)"
proof -
  let ?C = "set_gnode p g C" and ?z = "local_row (gms_sst g)"
  have idx: "local_index (gms_sst (gnode C p)) = p" "local_index (gms_sst g) = p"
    using gms_tableD(1)[OF T p(1)] v by (simp_all add: in_view_def)
  have ref: "follows N V (own ?C l) (own C l)"
    using lead own_follows[OF T p(2)] by auto
  have mine: "follows N V (own ?C l) ?z"
    using foll follows_refl[OF len] by (cases "p = l") auto
  have up: "lags l r x (own C r) \<Longrightarrow> lags l r x (own ?C r)" for r x
    using ok(2) by (auto intro: lags_trans)
  have member: "member_table n N l V ?C q" if q: "q < n" "q \<noteq> p" for q
    using gms_tableD[OF T q(1)] q ref p(3) unfolding member_table_def
    by (auto simp del: own_set intro: follows_trans up) (simp_all add: own_def)
  obtain new where new: "put_rows (gms_sst g) = put_rows (gms_sst (gnode C p)) @ new"
    "\<And>x. x \<in> set new \<Longrightarrow> gms_cols x = gms_cols ?z"
    using mv by (auto simp: moves_def)
  have copy: "follows N V (own ?C l) (rows (gms_sst g) ! r) \<and> lags l r (rows (gms_sst g) ! r) (own ?C r)" if "r < n" for r
  proof (cases "r = p")
    case True
    then have "rows (gms_sst g) ! r = ?z" using idx by (simp add: local_row_def)
    with mine True show ?thesis by simp
  next
    case False
    with mv idx have "gms_cols (rows (gms_sst g) ! r) = gms_cols (rows (gms_sst (gnode C p)) ! r)"
      by (simp add: moves_def)
    with gms_tableD(3,4)[OF T p(1) that] show ?thesis
      using follows_trans[OF _ ref p(3)] up follows_cong[of _ _ "own ?C l" "own ?C l"] lags_cong[of _ _ "own ?C r" "own ?C r"] by metis
  qed
  have pub: "follows N V (own ?C l) x \<and> lags l p x ?z" if "x \<in> set (put_rows (gms_sst g))" for x
  proof (cases "x \<in> set new")
    case True
    then have "gms_cols x = gms_cols ?z" by (rule new(2))
    with mine show ?thesis using follows_cong[of x ?z "own ?C l" "own ?C l"] lags_cong[of x ?z ?z ?z] by simp
  next
    case False
    with that new(1) have "x \<in> set (put_rows (gms_sst (gnode C p)))" by auto
    from gms_tableD(5)[OF T p(1) this] show ?thesis using follows_trans[OF _ ref p(3)] up[of p x] by simp
  qed
  have new_counts: "map nChanges new = replicate (length new) (nChanges ?z)"
    using new(2) by (auto simp: gms_cols_cong intro!: nth_equalityI)
  have "\<forall>x \<in> set (put_rows (gms_sst (gnode C p))). nChanges x \<le> nChanges ?z"
    using gms_tableD(5)[OF T p(1)] lags_trans[OF _ ok(2)] by (auto simp: lags_def[of l p _ ?z])
  then have "sorted (map nChanges (put_rows (gms_sst g)))"
    using gms_tableD(6)[OF T p(1)] by (auto simp: new(1) sorted_append new_counts)
  with v ok(1) copy pub have "member_table n N l V ?C p" by (simp add: member_table_def)
  with member show ?thesis by (auto simp: gms_table_def)
qed

lemma quiet_step_ok:
  assumes T: "gms_table n N l V C" and p: "p < n" and q: "quiet (gms_sst (gnode C p)) (gms_sst g)"
  shows "acked_ok l p (local_row (gms_sst g))" "lags l p (own C p) (local_row (gms_sst g))"
    "length (changes (local_row (gms_sst g))) = N" "follows N V (own C l) (local_row (gms_sst g))"
    "p = l \<Longrightarrow> follows N V (local_row (gms_sst g)) (own C l)"
proof -
  have c: "gms_cols (local_row (gms_sst g)) = gms_cols (own C p)" using quiet_cols[OF q] by (simp add: own_def)
  have "follows N V (own C l) (local_row (gms_sst g)) = follows N V (own C l) (own C p)"
    by (rule follows_cong[OF c refl])
  with own_follows[OF T p] show f: "follows N V (own C l) (local_row (gms_sst g))" by simp
  then show "length (changes (local_row (gms_sst g))) = N" by (simp add: follows_def)
  show "acked_ok l p (local_row (gms_sst g))"
    using gms_tableD(2)[OF T p] c by (simp add: acked_ok_def gms_cols_cong)
  show "lags l p (own C p) (local_row (gms_sst g))" using c by (simp add: lags_def gms_cols_cong)
  assume "p = l"
  with f c own_follows[OF T p] show "follows N V (local_row (gms_sst g)) (own C l)"
    using follows_cong[OF refl c, of N V "own C l"] by simp
qed

lemma table_quiet:
  assumes "gms_table n N l V C" "p < n" "l < n" "0 \<le> vid V" "in_view n l V p g"
    "quiet (gms_sst (gnode C p)) (gms_sst g)"
  shows "gms_table n N l V (set_gnode p g C)"
  using assms quiet_step_ok[OF assms(1,2,6)] by (intro table_move) (auto intro: quiet_moves)

section \<open>What a step does to the rest of the invariant\<close>

definition view_grows :: "'o managed \<Rightarrow> 'o managed \<Rightarrow> bool" where
  "view_grows g g' \<longleftrightarrow> (\<forall>q. failed (curr_view g) ! q \<longrightarrow> failed (curr_view g') ! q) \<and>
     nFailed (curr_view g) \<le> nFailed (curr_view g') \<and> (majority_lost (curr_view g') \<longrightarrow> majority_lost (curr_view g)) \<and>
     (joining_client g \<noteq> None \<longrightarrow> joining_client g' \<noteq> None)"

lemma view_grows_same [simp]:
  "curr_view g' = curr_view g \<Longrightarrow> joining_client g' = joining_client g \<Longrightarrow> view_grows g g'"
  by (simp add: view_grows_def)

lemma decided_move:
  assumes D: "gms_decided n N l V C" and L: "gms_leader n N l V C"
    and ref: "follows N V (own (set_gnode p g C) l) (own C l)"
    and up: "p = l \<Longrightarrow> lags l l (own C l) (local_row (gms_sst g))"
    and fl: "p = l \<Longrightarrow> view_grows (gnode C l) g" and nv: "next_view g = next_view (gnode C p)"
  shows "gms_decided n N l V (set_gnode p g C)"
proof -
  have V: "view_wf V" "0 \<le> vid V" using L by (simp_all add: gms_leader_def)
  have "vid V < nChanges (own (set_gnode p g C) l) \<and> agreed N V (own (set_gnode p g C) l) w"
    if q: "q < n" "\<not> failed (curr_view (gnode (set_gnode p g C) l)) ! q" "next_view (gnode (set_gnode p g C) q) = Some w" for q w
  proof -
    have "\<not> failed (curr_view (gnode C l)) ! q" "next_view (gnode C q) = Some w"
      using q fl nv by (auto simp: view_grows_def split: if_splits)
    with D q(1) have a: "vid V < nChanges (own C l)" "agreed N V (own C l) w" by (auto simp: gms_decided_def)
    with agreed_follows[OF a(2) ref V(2) a(1) V(1)] ref show ?thesis by (auto simp: follows_def)
  qed
  moreover have "nCommitted (own C l) \<le> nCommitted (own (set_gnode p g C) l)" using up by (auto simp: lags_def)
  ultimately show ?thesis using D nv by (auto simp: gms_decided_def split: if_splits)
qed

lemma leader_other:
  assumes "gms_leader n N l V C" "p \<noteq> l" "lags l p (own C p) (local_row (gms_sst g))"
  shows "gms_leader n N l V (set_gnode p g C)"
  using assms by (fastforce simp: gms_leader_def lags_def)

lemma inv_member:
  assumes inv: "gms_inv n N l V C" and p: "p < n" "p \<noteq> l" and v: "in_view n l V p g"
    and mv: "moves (gms_sst (gnode C p)) (gms_sst g)"
    and ok: "acked_ok l p (local_row (gms_sst g))" "lags l p (own C p) (local_row (gms_sst g))"
      "follows N V (own C l) (local_row (gms_sst g))"
    and nv: "next_view g = next_view (gnode C p)"
  shows "gms_inv n N l V (set_gnode p g C)"
proof -
  have T: "gms_table n N l V C" and L: "gms_leader n N l V C" and D: "gms_decided n N l V C"
    using inv by (simp_all add: gms_inv_def)
  have V: "l < n" "0 \<le> vid V" using L by (simp_all add: gms_leader_def)
  have "length (changes (local_row (gms_sst g))) = N" using ok(3) by (simp add: follows_def)
  with T p V v mv ok have "gms_table n N l V (set_gnode p g C)" by (intro table_move) simp_all
  moreover have "follows N V (own (set_gnode p g C) l) (own C l)" using own_follows[OF T V(1)] p by simp
  ultimately show ?thesis
    using decided_move[OF D L _ _ _ nv] leader_other[OF L p(2) ok(2)] p(2) by (auto simp: gms_inv_def)
qed

lemma inv_quiet:
  assumes inv: "gms_inv n N l V C" and p: "p < n" and v: "in_view n l V p g"
    and q: "quiet (gms_sst (gnode C p)) (gms_sst g)" and nv: "next_view g = next_view (gnode C p)"
    and grow: "p = l \<Longrightarrow> view_grows (gnode C l) g"
  shows "gms_inv n N l V (set_gnode p g C)"
proof -
  have T: "gms_table n N l V C" and L: "gms_leader n N l V C" and D: "gms_decided n N l V C"
    using inv by (simp_all add: gms_inv_def)
  have V: "l < n" "0 \<le> vid V" using L by (simp_all add: gms_leader_def)
  note ok = quiet_step_ok[OF T p q]
  show ?thesis
  proof (cases "p = l")
    case False
    with inv p v q ok nv show ?thesis by (intro inv_member) (auto intro: quiet_moves)
  next
    case True
    have c: "gms_cols (local_row (gms_sst g)) = gms_cols (own C l)" using quiet_cols[OF q] True by (simp add: own_def)
    have "gms_leader n N l V (set_gnode p g C)"
      using L grow True c unfolding gms_leader_def view_grows_def proposals_bound_def next_change_def
      by (auto simp: gms_cols_cong split: if_splits)
    moreover have "follows N V (own (set_gnode p g C) l) (own C l)" using ok(5) True by simp
    ultimately show ?thesis
      using decided_move[OF D L _ _ _ nv] grow True ok(2) table_quiet[OF T p V v q] by (auto simp: gms_inv_def)
  qed
qed

section \<open>Acknowledging, committing and starting the change\<close>

lemma in_view_same:
  "in_view n l V p g \<Longrightarrow> curr_view g' = curr_view g \<Longrightarrow> local_index (gms_sst g') = local_index (gms_sst g) \<Longrightarrow>
   num_rows (gms_sst g') = num_rows (gms_sst g) \<Longrightarrow> in_view n l V p g'"
  by (simp add: in_view_def)

lemma in_view_quiet:
  "in_view n l V p g \<Longrightarrow> quiet (gms_sst g) (gms_sst g') \<Longrightarrow> curr_view g' = curr_view g \<Longrightarrow> in_view n l V p g'"
  by (rule in_view_same) (simp_all add: quiet_def)

lemma moves_put: "moves s t \<Longrightarrow> moves s (put t)"
  using moves_quiet quiet_put by blast

lemma inv_parts:
  assumes "gms_inv n N l V C" "p < n"
  shows "gms_table n N l V C" "gms_leader n N l V C" "gms_decided n N l V C" "l < n" "0 \<le> vid V" "in_view n l V p (gnode C p)"
    "local_row (gms_sst (gnode C p)) = own C p" "local_index (gms_sst (gnode C p)) = p"
    "num_rows (gms_sst (gnode C p)) = n" "my_rank (curr_view (gnode C p)) = int p"
    "rank_of_leader (curr_view (gnode C p)) = int l"
  using assms gms_tableD(1)[of n N l V C p] by (auto simp: gms_inv_def gms_leader_def own_def in_view_def)

lemma inv_commit:
  assumes inv: "gms_inv n N l V C" and p: "p < n" and ready: "change_commit_ready (gnode C p)"
  shows "gms_inv n N l V (set_gnode p (commit_change (gnode C p)) C)"
proof -
  let ?g = "gnode C p"
  define g' where "g' = commit_change ?g"
  let ?m = "min_acked (gms_sst ?g) (failed (curr_view ?g))" and ?z = "local_row (gms_sst g')"
  note P = inv_parts[OF inv p]
  from ready P(10,11) have pl: "p = l" by (simp add: change_commit_ready_def)
  have more: "nCommitted (own C l) < ?m" using ready P(7) pl by (simp add: change_commit_ready_def)
  have z: "?z = (own C l)\<lparr>nCommitted := ?m\<rparr>"
    using P(7-9) p pl by (simp add: g'_def commit_change_def sst_simps)
  have view: "curr_view g' = curr_view ?g" "next_view g' = next_view ?g" "joining_client g' = joining_client ?g"
    by (simp_all add: g'_def commit_change_def)
  have mv: "moves (gms_sst ?g) (gms_sst g')"
    by (simp add: g'_def commit_change_def moves_put moves_upd_local)
  have v: "in_view n l V p g'"
    by (rule in_view_same[OF P(6) view(1)]) (simp_all add: g'_def commit_change_def sst_simps)
  have ff: "length (changes (own C l)) = N" using own_follows[OF P(1,4)] by (simp add: follows_def)
  have f: "follows N V ?z (own C l)"
    by (simp add: z follows_def ff next_change_def)
  have T: "gms_table n N l V (set_gnode p g' C)"
    using P(1) p P(4,5) v mv
    by (rule table_move) (use f ff pl more gms_tableD(2)[OF P(1) p] in \<open>auto simp: z acked_ok_def lags_def\<close>)
  have up: "lags l l (own C l) ?z" using more by (simp add: z lags_def)
  have low: "?m \<le> nAcked (own C q)" if q: "q < n" "\<not> failed (curr_view ?g) ! q" for q
  proof -
    have "length (failed (curr_view ?g)) = n" using P(6) by (simp add: in_view_def view_wf_def)
    with q have "?m \<le> nAcked (rows (gms_sst ?g) ! q)" by (intro min_acked_le(2)) simp_all
    also have "\<dots> \<le> nAcked (own C q)" using gms_tableD(4)[OF P(1) p q(1)] by (simp add: lags_def)
    finally show ?thesis .
  qed
  have "gms_leader n N l V (set_gnode p g' C)"
    using P(2) low unfolding gms_leader_def proposals_bound_def next_change_def by (auto simp: pl z view[unfolded pl])
  moreover have "gms_decided n N l V (set_gnode p g' C)"
    using P(3,2) by (rule decided_move) (use f up view pl in simp_all)
  ultimately show ?thesis using T by (simp add: gms_inv_def g'_def)
qed

lemma inv_ack:
  assumes inv: "gms_inv n N l V C" and p: "p < n" and new: "leader_proposed_change (gnode C p) = Inr True"
    and run: "ack_proposed_change (gnode C p) = Inr g'"
  shows "gms_inv n N l V (set_gnode p g' C)"
proof -
  let ?g = "gnode C p"
  let ?x = "rows (gms_sst ?g) ! l"
  note P = inv_parts[OF inv p]
  define g1 where "g1 = (if p = l then ?g else upd_sst (upd_local (echo_leader ?x)) ?g)"
  define g2 where "g2 = upd_sst (upd_local (\<lambda>r. r\<lparr>nAcked := nChanges ?x\<rparr>)) g1"
  let ?z = "local_row (gms_sst g2)"
  have xl: "rows (gms_sst g1) ! l = ?x" using P(8) by (auto simp: g1_def sst_simps)
  have new': "nAcked (own C p) < nChanges ?x"
    using new P(7,11) by (simp add: leader_proposed_change_def leader_row_def)
  have g': "g' = view_wedge (upd_sst put g2)"
    using run P(8,10,11) xl
    by (auto simp: ack_proposed_change_def leader_row_def Let_def g1_def g2_def upd_sst_def split: if_splits)
  have fields: "curr_view g2 = curr_view ?g" "next_view g2 = next_view ?g" "joining_client g2 = joining_client ?g"
    "local_index (gms_sst g2) = p" "num_rows (gms_sst g2) = n"
    using P(8,9) by (auto simp: g2_def g1_def sst_simps)
  have z: "?z = (if p = l then own C l else echo_leader ?x (own C p))\<lparr>nAcked := nChanges ?x\<rparr>"
    using P(7-9) p by (cases "p = l") (auto simp: g2_def g1_def sst_simps)
  have q: "quiet (gms_sst (upd_sst put g2)) (gms_sst g')" unfolding g' by (rule quiet_view_wedge)
  have c: "gms_cols (local_row (gms_sst g')) = gms_cols ?z" using quiet_cols[OF q] by (simp add: sst_simps)
  have mv: "moves (gms_sst ?g) (gms_sst g')"
  proof -
    have "moves (gms_sst ?g) (gms_sst g2)"
      by (cases "p = l") (simp_all add: g2_def g1_def moves_def sst_simps)
    then have "moves (gms_sst ?g) (gms_sst (upd_sst put g2))" by (simp add: moves_put)
    then show ?thesis using q by (rule moves_quiet)
  qed
  have v: "in_view n l V p g'"
    by (rule in_view_quiet[OF in_view_same[OF P(6), of "upd_sst put g2"] q])
       (use fields P(8,9) in \<open>simp_all add: g' sst_simps\<close>)
  note x = gms_tableD(3,4)[OF P(1) p P(4)]
  have ok: "acked_ok l p ?z" "lags l p (own C p) ?z"
    using gms_tableD(2)[OF P(1) p] new' x own_is_copy[OF P(1,4)]
    by (auto simp: z acked_ok_def lags_def echo_leader_def)
  have ok': "acked_ok l p (local_row (gms_sst g'))" "lags l p (own C p) (local_row (gms_sst g'))"
    using ok c lags_cong[OF refl c] by (auto simp: acked_ok_def gms_cols_cong)
  have f: "p \<noteq> l \<Longrightarrow> follows N V (own C l) ?z" using x(1) by (simp add: z follows_def echo_leader_def)
  show ?thesis
  proof (cases "p = l")
    case False
    with inv p v mv ok' f c fields(2) show ?thesis
      by (intro inv_member) (simp_all add: g' follows_cong[OF c refl, unfolded g'])
  next
    case True
    have ff: "length (changes (own C l)) = N" using own_follows[OF P(1,4)] by (simp add: follows_def)
    have f: "follows N V (local_row (gms_sst g')) (own C l)"
      using c by (simp add: z True gms_cols_cong follows_def ff next_change_def)
    have T: "gms_table n N l V (set_gnode p g' C)"
      using P(1) p P(4,5) v mv ok'
      by (rule table_move) (use f ff c True in \<open>simp_all add: z gms_cols_cong\<close>)
    have "nAcked (own C l) \<le> nAcked (local_row (gms_sst g'))" using ok'(2) True by (simp add: lags_def)
    then have "gms_leader n N l V (set_gnode p g' C)"
      using P(2) c unfolding gms_leader_def proposals_bound_def next_change_def
      by (fastforce simp: True z gms_cols_cong g' fields[unfolded True])
    moreover have "gms_decided n N l V (set_gnode p g' C)"
      using P(3,2) by (rule decided_move) (use f ok'(2) fields True in \<open>simp_all add: g'\<close>)
    ultimately show ?thesis using T by (simp add: gms_inv_def)
  qed
qed

lemma next_view_agreed:
  assumes run: "next_view_of Vc c ip = Inr nv" and wf: "view_wf Vc"
    and same: "vid Vc = vid V" "members Vc = members V" "member_ips Vc = member_ips V" "num_members Vc = num_members V"
    and c: "c = next_change N V ld" "c \<notin> set (members V) \<longrightarrow> c_str ip = c_str (joiner_ip ld)"
  shows "agreed N V ld nv"
proof -
  from run obtain r where nv: "nv = (changed_view Vc c ip)\<lparr>my_rank := r\<rparr>"
    unfolding next_view_of_eq[OF wf] by (auto simp: Let_def split: if_splits)
  have "rank_of Vc c = rank_of V c" using same by (simp add: rank_of_def)
  moreover have "rank_of V c = -1 \<Longrightarrow> c_str ip = c_str (joiner_ip ld)"
    using c(2) rank_of_None_iff[OF wf, of c] same \<open>rank_of Vc c = rank_of V c\<close> by simp
  ultimately show ?thesis using same by (auto simp: agreed_def nv changed_view_def Let_def c(1)[symmetric])
qed

lemma inv_start:
  assumes inv: "gms_inv n N l V C" and p: "p < n" "installed C p = None"
    and go: "leader_committed_next_view (gnode C p) = Inr True" and run: "start_view_change N (gnode C p) = Inr g'"
  shows "gms_inv n N l V (set_gnode p (fired Leader_committed g') C)"
proof -
  let ?g = "gnode C p" and ?h = "fired Leader_committed g'"
  note P = inv_parts[OF inv p(1)]
  let ?start = "upd_sst (\<lambda>s. remove_pred Leader_proposed (remove_pred Change_commit_ready (remove_pred Start_join s))) ?g"
  note f = quiet_start_view_change[OF run]
  have q: "quiet (gms_sst ?g) (gms_sst ?h)" using f quiet_trans[OF _ quiet_preds(3), of "gms_sst ?g" "gms_sst g'"] by (simp add: fired_def)
  have v: "in_view n l V p ?h" by (rule in_view_quiet[OF P(6) q]) (simp add: fired_def f)
  let ?r = "rows (gms_sst (view_wedge ?start)) ! p"
  from run P(10) obtain nv where nv: "next_view_of (curr_view ?g) (changes ?r ! (nat (vid (curr_view ?g)) mod N)) (joiner_ip ?r) = Inr nv"
    and nxt: "next_view ?h = Some nv"
    by (auto simp: start_view_change_def Let_def fired_def)
  have "quiet (gms_sst ?g) (gms_sst ?start)" by simp (blast intro: quiet_trans quiet_preds)
  then have "quiet (gms_sst ?g) (gms_sst (view_wedge ?start))" using quiet_view_wedge by (rule quiet_trans)
  then have r: "gms_cols ?r = gms_cols (own C p)" using own_is_copy[OF P(1) p(1)] by (simp add: quiet_def)
  have view: "view_wf (curr_view ?g)" "vid (curr_view ?g) = vid V" "members (curr_view ?g) = members V"
    "member_ips (curr_view ?g) = member_ips V" "num_members (curr_view ?g) = num_members V" "view_wf V"
    using P(2,6) by (simp_all add: in_view_def gms_leader_def)
  have "vid V < nCommitted (rows (gms_sst ?g) ! l)"
    using go P(11) view(2) by (simp add: leader_committed_next_view_def leader_row_def)
  also have "\<dots> \<le> nCommitted (own C l)" using gms_tableD(4)[OF P(1) p(1) P(4)] by (simp add: lags_def)
  finally have committed: "vid V < nCommitted (own C l)" .
  have far: "vid V < nChanges (own C p)" if "\<not> failed (curr_view (gnode C l)) ! p"
  proof -
    note committed
    also have "\<dots> \<le> nAcked (own C p)" using P(2) p(1) that by (simp add: gms_leader_def)
    also have "\<dots> \<le> nChanges (own C p)" using gms_tableD(2)[OF P(1) p(1)] by (simp add: acked_ok_def)
    finally show ?thesis .
  qed
  have T: "gms_table n N l V (set_gnode p ?h C)" using P(1) p(1) P(4,5) v q by (rule table_quiet)
  have c: "gms_cols (own (set_gnode p ?h C) x) = gms_cols (own C x)" for x
    using quiet_cols[OF q] by (simp add: own_def)
  have now: "vid V < nChanges (own C l) \<and> agreed N V (own C l) nv" if ok: "\<not> failed (curr_view (gnode C l)) ! p"
  proof -
    note foll = own_follows[OF P(1) p(1)]
    have "next_change N V (own C p) = next_change N V (own C l)" by (rule next_change_follows[OF foll P(5) far[OF ok]])
    then have "agreed N V (own C l) nv"
      using r far[OF ok] foll view by (intro next_view_agreed[OF nv]) (auto simp: next_change_def gms_cols_cong follows_def)
    with far[OF ok] foll show ?thesis by (simp add: follows_def)
  qed
  have D: "gms_decided n N l V (set_gnode p ?h C)"
  proof -
    have a: "agreed N V (own (set_gnode p ?h C) l) w = agreed N V (own C l) w"
      "nChanges (own (set_gnode p ?h C) l) = nChanges (own C l)"
      "nCommitted (own (set_gnode p ?h C) l) = nCommitted (own C l)" for w
      using c[of l] by (simp_all add: agreed_def gms_cols_cong next_change_def)
    have fl: "failed (curr_view (gnode (set_gnode p ?h C) l)) = failed (curr_view (gnode C l))"
      by (simp add: fired_def f)
    show ?thesis
      using P(3) now committed p(2) nxt unfolding gms_decided_def a fl by (auto split: if_splits)
  qed
  have "gms_leader n N l V (set_gnode p ?h C)"
    using P(2) c unfolding gms_leader_def proposals_bound_def next_change_def
    by (auto simp del: own_set simp: gms_cols_cong fired_def f)
  with T D show ?thesis by (simp add: gms_inv_def)
qed

section \<open>Proposing a change\<close>

lemma room_for_one:
  assumes "gms_leader n N l V C" "in_view n l V l (gnode C l)"
  shows "0 < n" "nFailed (curr_view (gnode C l)) < int n" "2 * nFailed (curr_view (gnode C l)) < int n + 1"
  using assms by (auto simp: gms_leader_def in_view_def majority_lost_def)

lemma follows_propose:
  assumes len: "length (changes r) = N" and v: "0 \<le> vid V" "vid V \<le> nChanges r"
    and room: "nChanges r < vid V + int N"
    and z: "changes z = (changes r)[nat (nChanges r) mod N := q]" "nChanges z = nChanges r + 1"
    and ip: "vid V < nChanges r \<Longrightarrow> next_change N V r \<notin> set (members V) \<Longrightarrow> c_str (joiner_ip z) = c_str (joiner_ip r)"
  shows "follows N V z r" "vid V < nChanges r \<Longrightarrow> next_change N V z = next_change N V r"
    "vid V = nChanges r \<Longrightarrow> next_change N V z = q"
proof -
  have keep: "changes z ! (k mod N) = changes r ! (k mod N)" if "vid V \<le> int k" "int k < nChanges r" for k
  proof -
    have "k < nat (nChanges r)" "nat (nChanges r) - k < N" using that v room by auto
    then have "k mod N \<noteq> nat (nChanges r) mod N" by (rule mod_neq_in_window)
    then show ?thesis by (simp add: z)
  qed
  from keep[of "nat (vid V)"] v show nxt: "vid V < nChanges r \<Longrightarrow> next_change N V z = next_change N V r"
    by (simp add: next_change_def)
  show "follows N V z r" using len keep ip nxt by (auto simp: follows_def z)
  have "0 < N" using v room by linarith
  then show "vid V = nChanges r \<Longrightarrow> next_change N V z = q" using len by (simp add: next_change_def z)
qed

lemma inv_join:
  assumes inv: "gms_inv n N l V C" and p: "p < n" and ready: "start_join_pred (gnode C p)"
    and run: "start_join_trig N (gnode C p) = Inr g'"
  shows "gms_inv n N l V (set_gnode p g' C)"
proof -
  let ?g = "gnode C p"
  note P = inv_parts[OF inv p]
  from ready P(10,11) have pl: "p = l" and idle: "joining_client ?g = None" and "pending_joins ?g \<noteq> []"
    by (auto simp: start_join_pred_def IAmLeader_def)
  then obtain c cs where cs: "pending_joins ?g = c # cs" by (cases "pending_joins ?g") auto
  let ?h = "?g\<lparr>joining_client := Some c, pending_joins := cs\<rparr>"
  let ?q = "case client_id c of None \<Rightarrow> 0 | Some q \<Rightarrow> q"
  have rp: "rows (gms_sst ?g) ! p = own C l" using own_is_copy[OF P(1) p] pl by simp
  from run cs obtain ip where g': "g' = upd_sst put (view_wedge (upd_sst (set_row p
      ((propose_change N ?q (own C l))\<lparr>joiner_ip := ip\<rparr>)) ?h))"
    unfolding start_join_trig_def cs receive_join_def Let_def join_row[symmetric]
    by (auto simp: P(10) rp split: if_splits)
  let ?z = "(propose_change N ?q (own C l))\<lparr>joiner_ip := ip\<rparr>" and ?t = "upd_sst (set_row p
      ((propose_change N ?q (own C l))\<lparr>joiner_ip := ip\<rparr>)) ?h"
  have t: "local_row (gms_sst ?t) = ?z" "moves (gms_sst ?g) (gms_sst ?t)"
    using P(8,9) p by (auto simp: local_row_def set_row_def moves_def put_rows_def)
  have q: "quiet (gms_sst ?t) (gms_sst g')"
    unfolding g' using quiet_trans[OF quiet_view_wedge quiet_put, of ?t] by simp
  have c: "gms_cols (local_row (gms_sst g')) = gms_cols ?z" using quiet_cols[OF q] t(1) by simp
  have mv: "moves (gms_sst ?g) (gms_sst g')" using t(2) q by (rule moves_quiet)
  have v: "in_view n l V p g'"
    by (rule in_view_quiet[OF in_view_same[OF P(6), of ?t] q]) (simp_all add: g' set_row_def)
  have len: "length (changes (own C l)) = N" using own_follows[OF P(1,4)] by (simp add: follows_def)
  note room = room_for_one[OF P(2) P(6)[unfolded pl]]
  have bound: "nChanges (own C l) < vid V + int N" "vid V \<le> nChanges (own C l)"
    using P(2) room idle pl by (auto simp: gms_leader_def proposals_bound_def)
  have free: "\<not> (vid V < nChanges (own C l) \<and> next_change N V (own C l) \<notin> set (members V))"
    using P(2) idle pl by (auto simp: gms_leader_def)
  have f: "follows N V (local_row (gms_sst g')) (own C l)"
    by (rule follows_propose(1)[where q = ?q]) (use len P(5) bound free c in \<open>auto simp: gms_cols_cong propose_change_def increment_def\<close>)
  have T: "gms_table n N l V (set_gnode p g' C)"
    using P(1) p P(4,5) v mv
    by (rule table_move) (use f len c pl gms_tableD(2)[OF P(1) p] in \<open>auto simp: acked_ok_def lags_def gms_cols_cong propose_change_def increment_def\<close>)
  have view: "curr_view g' = curr_view ?g" "next_view g' = next_view ?g" "joining_client g' = Some c"
    by (simp_all add: g')
  have L: "gms_leader n N l V (set_gnode p g' C)"
    using P(2) c idle unfolding gms_leader_def proposals_bound_def
    by (auto simp: pl gms_cols_cong view[unfolded pl])
  have "gms_decided n N l V (set_gnode p g' C)"
    using P(3,2) by (rule decided_move) (use f view pl idle c in \<open>auto simp: view_grows_def lags_def gms_cols_cong\<close>)
  with T L show ?thesis by (simp add: gms_inv_def)
qed

section \<open>Marking a member failed\<close>

definition failed_view :: "nat \<Rightarrow> view \<Rightarrow> view" where
  "failed_view q v = v\<lparr>failed := (failed v)[q := True], nFailed := nFailed v + 1\<rparr>"

lemma marked_stays: "xs ! j \<Longrightarrow> xs[q := True] ! j"
  by (cases "q < length xs"; cases "j = q") (auto simp: list_update_beyond)

lemma mark_failed_effect:
  assumes run: "mark_failed N q g = Inr g'" and new: "g' \<noteq> g"
  obtains s where "quiet (gms_sst g) s" "\<not> failed (curr_view g) ! q" "curr_view g' = failed_view q (curr_view g)"
    "\<not> majority_lost (curr_view g')" "next_view g' = next_view g" "joining_client g' = joining_client g"
    "gms_sst g' = s \<or> IAmLeader (curr_view g') \<and>
       gms_sst g' = put (upd_local (propose_change N (members (curr_view g) ! q)) s)"
proof -
  let ?w = "upd_sst (upd_local (\<lambda>r. r\<lparr>wedged := True\<rparr>)) (upd_group group_wedge (upd_sst (freeze q) g))"
  let ?m = "upd_sst put (upd_view (failed_view q) ?w)"
  have "quiet (gms_sst g) (gms_sst (upd_sst (freeze q) g))" by (simp add: quiet_preds(1))
  also have "quiet \<dots> (gms_sst (upd_group group_wedge (upd_sst (freeze q) g)))" by (simp add: quiet_wedge_group[of "curr_group (upd_sst (freeze q) g)", simplified])
  also have "quiet \<dots> (gms_sst ?w)"
    unfolding upd_fields(4) by (rule quiet_upd_local) (simp add: gms_cols_def)
  also have "quiet \<dots> (gms_sst ?m)" by (simp add: quiet_put)
  finally have q: "quiet (gms_sst g) (gms_sst ?m)" .
  have view: "curr_view ?m = failed_view q (curr_view g)" "next_view ?m = next_view g" "joining_client ?m = joining_client g"
    by simp_all
  from run new have "\<not> failed (curr_view g) ! q" "\<not> majority_lost (curr_view ?m)"
    and r: "(if IAmLeader (curr_view ?m) \<and> \<not> changes_contains N (gms_sst ?m) (members (curr_view g) ! q)
       then if nChanges (local_row (gms_sst ?m)) - nCommitted (local_row (gms_sst ?m)) = int N
         then Inl (Throw ''Ran out of room in the pending changes list'')
         else Inr (upd_sst (\<lambda>s. put (upd_local (propose_change N (members (curr_view g) ! q)) s)) ?m)
       else Inr ?m) = Inr g'"
    unfolding mark_failed_def Let_def failed_view_def[abs_def] by (auto simp: upd_fields split: if_split_asm)
  moreover from r have "g' = ?m \<or> IAmLeader (curr_view ?m) \<and>
      g' = upd_sst (\<lambda>s. put (upd_local (propose_change N (members (curr_view g) ! q)) s)) ?m"
    by (auto split: if_split_asm)
  ultimately show thesis
    using q view by (intro that[of "gms_sst ?m"]) auto
qed

lemma in_view_marked:
  assumes v: "in_view n l V p g" and q: "q < n" "q \<noteq> l" "\<not> failed (curr_view g) ! q"
    and g': "curr_view g' = failed_view q (curr_view g)" "local_index (gms_sst g') = p" "num_rows (gms_sst g') = n"
  shows "in_view n l V p g'"
proof -
  have len: "q < length (failed (curr_view g))" using v q by (simp add: in_view_def view_wf_def)
  have "view_wf (curr_view g')"
    using v q len by (auto simp: g' failed_view_def in_view_def view_wf_def count_list_update_True)
  moreover have "rank_of_leader (curr_view g') = int l"
    using v q len by (auto simp: in_view_def g' failed_view_def rank_of_leader_eq_iff nth_list_update)
  ultimately show ?thesis using v g' by (simp add: in_view_def failed_view_def)
qed

lemma inv_mark:
  assumes inv: "gms_inv n N l V C" and p: "p < n" "q < n" and run: "mark_failed N q (gnode C p) = Inr g'"
    and alive: "\<not> failed (curr_view g') ! l"
  shows "gms_inv n N l V (set_gnode p g' C)"
proof (cases "g' = gnode C p")
  case True
  then have "set_gnode p g' C = C" by (simp add: set_gnode_def)
  with inv show ?thesis by simp
next
  case False
  let ?g = "gnode C p"
  note P = inv_parts[OF inv p(1)]
  from mark_failed_effect[OF run False] obtain s where s: "quiet (gms_sst ?g) s"
    and new: "\<not> failed (curr_view ?g) ! q" and view: "curr_view g' = failed_view q (curr_view ?g)"
      "next_view g' = next_view ?g" "joining_client g' = joining_client ?g"
    and maj: "\<not> majority_lost (curr_view g')"
    and or: "gms_sst g' = s \<or> IAmLeader (curr_view g') \<and> gms_sst g' = put (upd_local (propose_change N (members (curr_view ?g) ! q)) s)"
    by metis
  have fl: "length (failed (curr_view ?g)) = n" using P(6) by (simp add: in_view_def view_wf_def)
  have ql: "q \<noteq> l" using alive fl p(2) by (auto simp: view failed_view_def)
  have dims: "local_index s = p" "num_rows s = n" using s P(8,9) by (simp_all add: quiet_def)
  have v: "in_view n l V p g'"
    using or dims by (intro in_view_marked[OF P(6) p(2) ql new view(1)]) (auto simp: sst_simps)
  have grows: "view_grows ?g g'"
    using maj view new by (auto simp: view_grows_def failed_view_def marked_stays majority_lost_def)
  show ?thesis
  proof (cases "gms_sst g' = s")
    case True
    with inv p(1) v s view grows show ?thesis by (intro inv_quiet) auto
  next
    case unlisted: False
    let ?q = "members (curr_view ?g) ! q" and ?z = "local_row (gms_sst g')"
    from or unlisted have lead: "IAmLeader (curr_view g')" and sst: "gms_sst g' = put (upd_local (propose_change N ?q) s)" by auto
    have pl: "p = l" using lead v by (simp add: IAmLeader_def in_view_def)
    have z: "?z = propose_change N ?q (local_row s)" using dims p(1) by (simp add: sst sst_simps)
    have c: "gms_cols (local_row s) = gms_cols (own C l)" using quiet_cols[OF s] pl by (simp add: own_def)
    define g1 where "g1 = upd_sst (\<lambda>_. s) g'"
    have T1: "gms_table n N l V (set_gnode p g1 C)"
      using P(1) p(1) P(4,5) in_view_same[OF v, of g1] s
      by (intro table_quiet) (simp_all add: g1_def dims sst sst_simps)
    have len: "length (changes (local_row s)) = N" using own_follows[OF P(1,4)] c by (simp add: follows_def gms_cols_cong)
    have mq: "?q \<in> set (members V)" using P(6) p(2) by (auto simp: in_view_def view_wf_def)
    have bound: "vid V \<le> nChanges (local_row s)" "nChanges (local_row s) \<le> proposals_bound V ?g"
      using P(2) c pl by (simp_all add: gms_leader_def gms_cols_cong)
    have nf: "nFailed (curr_view g') = nFailed (curr_view ?g) + 1" by (simp add: view failed_view_def)
    have num: "num_members (curr_view g') = int n" using v by (simp add: in_view_def)
    have "nFailed (curr_view g') \<le> int n" using maj num P(4) by (simp add: majority_lost_def)
    then have room: "nChanges (local_row s) < vid V + int N"
      using bound(2) maj num nf P(2,4) by (auto simp: majority_lost_def proposals_bound_def gms_leader_def split: if_splits)
    note F = follows_propose[OF len P(5) bound(1) room, of ?z ?q]
    have zz: "changes ?z = (changes (local_row s))[nat (nChanges (local_row s)) mod N := ?q]" "nChanges ?z = nChanges (local_row s) + 1"
      "joiner_ip ?z = joiner_ip (local_row s)"
      by (simp_all add: z propose_change_def increment_def)
    have f: "follows N V ?z (local_row s)" by (rule F(1)) (simp_all add: zz)
    then have f': "follows N V ?z (own C l)" using follows_cong[OF c refl, of N V ?z] by simp
    have ok: "acked_ok l p ?z" "lags l p (local_row s) ?z" "length (changes ?z) = N"
      using gms_tableD(2)[OF P(1) p(1)] c len pl by (simp_all add: zz acked_ok_def lags_def gms_cols_cong) (simp_all add: z)
    have "moves (gms_sst g1) (gms_sst g')" by (simp add: g1_def sst moves_put moves_upd_local)
    then have T: "gms_table n N l V (set_gnode p g' (set_gnode p g1 C))"
      using ok f pl by (intro table_move[OF T1 p(1) P(4,5) v]) (simp_all add: g1_def)
    have up: "lags l l (own C l) ?z"
      using c by (simp add: z lags_def gms_cols_cong)
    have kept: "next_change N V ?z = (if vid V = nChanges (own C l) then ?q else next_change N V (own C l))"
      using F(2,3) bound(1) c by (auto simp: zz next_change_def gms_cols_cong)
    have L: "gms_leader n N l V (set_gnode p g' C)"
      using P(2) mq maj nf c kept zz z unfolding gms_leader_def proposals_bound_def
      by (auto simp: pl gms_cols_cong view[unfolded pl] failed_view_def marked_stays split: if_splits)
    have "gms_decided n N l V (set_gnode p g' C)"
      using P(3,2) by (rule decided_move) (use f' view pl grows up in simp_all)
    with T L show ?thesis by (simp add: gms_inv_def)
  qed
qed

lemma mark_failed_all_keeps:
  "mark_failed_all N qs g = Inr g' \<Longrightarrow> failed (curr_view g) ! j \<Longrightarrow> failed (curr_view g') ! j"
proof (induction qs arbitrary: g)
  case (Cons q qs)
  from Cons.prems obtain g1 where g1: "mark_failed N q g = Inr g1" "mark_failed_all N qs g1 = Inr g'" by auto
  have "failed (curr_view g1) ! j"
  proof (cases "g1 = g")
    case False
    from mark_failed_effect[OF g1(1) this] have "curr_view g1 = failed_view q (curr_view g)" by metis
    with Cons.prems(2) show ?thesis by (simp add: failed_view_def marked_stays)
  qed (use Cons.prems in simp)
  then show ?case by (rule Cons.IH[OF g1(2)])
qed simp

lemma inv_mark_all:
  assumes "mark_failed_all N qs g = Inr g'" "gms_inv n N l V (set_gnode p g C)" "p < n" "\<forall>q \<in> set qs. q < n"
    "\<not> failed (curr_view g') ! l"
  shows "gms_inv n N l V (set_gnode p g' C)"
  using assms
proof (induction qs arbitrary: g)
  case (Cons q qs)
  from Cons.prems(1) obtain g1 where g1: "mark_failed N q g = Inr g1" "mark_failed_all N qs g1 = Inr g'" by auto
  have "\<not> failed (curr_view g1) ! l" using mark_failed_all_keeps[OF g1(2)] Cons.prems(5) by blast
  with inv_mark[OF Cons.prems(2,3), of q g1] g1(1) Cons.prems(4) have "gms_inv n N l V (set_gnode p g1 C)" by simp
  with Cons.IH[OF g1(2)] Cons.prems show ?case by simp
qed simp

lemma inv_suspect:
  assumes inv: "gms_inv n N l V C" and p: "p < n" and run: "suspected_changed_trig N (gnode C p) = Inr g'"
    and alive: "\<not> failed (curr_view g') ! l"
  shows "gms_inv n N l V (set_gnode p g' C)"
proof -
  note P = inv_parts[OF inv p]
  let ?g = "upd_sst (aggregate_suspicions n) (gnode C p)"
  have size: "size_of (curr_view (gnode C p)) = n" using P(6) by (simp add: in_view_def)
  from run obtain g1 where loop: "mark_failed_all N [0..<n] ?g = Inr g1"
    and g': "g' = g1\<lparr>last_suspected := copy_suspected (gms_sst g1) (last_suspected g1)\<rparr>"
    by (auto simp: suspected_changed_trig_def size)
  have q: "quiet (gms_sst (gnode C p)) (gms_sst ?g)"
    by (auto simp: aggregate_suspicions_def absorb_suspicions_def gms_cols_def intro!: quiet_foldl quiet_upd_local)
  have "gms_inv n N l V (set_gnode p ?g C)"
    by (rule inv_quiet[OF inv p in_view_quiet[OF P(6) q] q]) simp_all
  then have inv1: "gms_inv n N l V (set_gnode p g1 C)"
    using inv_mark_all[OF loop _ p] alive by (simp add: g')
  have "in_view n l V p g'" using inv_parts(6)[OF inv1 p] by (simp add: g' in_view_def)
  from inv_quiet[OF inv1 p this] show ?thesis by (simp add: g')
qed

section \<open>Rows that arrive and members that continue\<close>

lemma visible_follows:
  assumes vis: "gms_visible pub row" and pub: "\<forall>x \<in> set pub. follows N V ld x \<and> lags l r x z" "sorted (map nChanges pub)"
  shows "follows N V ld row" "lags l r row z"
proof -
  from vis obtain i where i: "i < length pub" "changes row = changes (pub ! i)" "joiner_ip row = joiner_ip (pub ! i)"
    and "nChanges row \<in> set (map nChanges (take (Suc i) pub))"
    by (auto simp: gms_visible_def)
  then obtain j where j: "j < length (take (Suc i) pub)" "nChanges row = nChanges (take (Suc i) pub ! j)"
    unfolding in_set_conv_nth by auto
  then have "j \<le> i" "nChanges row = nChanges (pub ! j)" by auto
  with i(1) pub(2) have le: "nChanges row \<le> nChanges (pub ! i)" by (auto simp: sorted_iff_nth_mono)
  have x: "follows N V ld (pub ! i)" "lags l r (pub ! i) z" using pub(1) i(1) by simp_all
  with le i show "follows N V ld row" by (auto simp: follows_def)
  have "nAcked row \<le> nAcked z" "r = l \<Longrightarrow> nCommitted row \<le> nCommitted z"
    using vis pub(1) by (auto simp: gms_visible_def lags_def)
  with le x show "lags l r row z" by (auto simp: lags_def)
qed

lemma inv_row:
  assumes inv: "gms_inv n N l V C" and p: "p < n" "r < n" "r \<noteq> p"
    and vis: "gms_visible (put_rows (gms_sst (gnode C r))) row"
  shows "gms_inv n N l V (set_gnode p (upd_sst (set_row r row) (gnode C p)) C)"
proof -
  let ?C = "set_gnode p (upd_sst (set_row r row) (gnode C p)) C"
  note P = inv_parts[OF inv p(1)]
  have own: "own ?C x = own C x" for x
    using P(8) p(3) by (simp add: own_def local_row_def set_row_def)
  have new: "follows N V (own C l) row" "lags l r row (own C r)"
    using gms_tableD(5,6)[OF P(1) p(2)] by (auto intro!: visible_follows[OF vis])
  have "gms_table n N l V ?C"
    using P(1) new p P(9) unfolding gms_table_def member_table_def own
    by (auto simp: in_view_def set_row_def nth_list_update put_rows_def)
  moreover have g: "curr_view (gnode ?C x) = curr_view (gnode C x)" "joining_client (gnode ?C x) = joining_client (gnode C x)"
    "next_view (gnode ?C x) = next_view (gnode C x)" for x by simp_all
  moreover have "gms_leader n N l V ?C"
    using P(2) unfolding gms_leader_def own proposals_bound_def g .
  moreover have "gms_decided n N l V ?C"
    using P(3) unfolding gms_decided_def own g by simp
  ultimately show ?thesis by (simp add: gms_inv_def)
qed

lemma first_task_view: "\<exists>b. curr_view (first_task N g) = (curr_view g)\<lparr>IKnowIAmLeader := b\<rparr>"
proof -
  have "\<exists>b. v = v\<lparr>IKnowIAmLeader := b\<rparr>" for v :: view by (rule exI[of _ "IKnowIAmLeader v"]) simp
  then show ?thesis by (auto simp: first_task_def IAmTheNewLeader_def Let_def)
qed

lemma upcalls_view: "run_view_upcalls old h = Inr g' \<Longrightarrow> curr_view g' = curr_view h"
  by (auto simp: run_view_upcalls_def Let_def)

lemma continuation_view:
  assumes run: "globalMin_ready_continuation N rs ok u b g = Inr g'"
  shows "\<exists>nv c. next_view g = Some nv \<and> curr_view g' = nv\<lparr>IKnowIAmLeader := c\<rparr>"
proof (cases "next_view g")
  case None
  with run show ?thesis by (simp add: globalMin_ready_continuation_def)
next
  case (Some nv)
  from run obtain h old x where h: "curr_view h = nv" and x: "run_view_upcalls old (first_task N h) = Inr x"
    and g': "g' = gms_call Notify_view_change x"
    unfolding globalMin_ready_continuation_def Some option.case Let_def bindE_Inr_iff
    by (elim exE conjE) (rule that[rotated], assumption, erule sum.inject(2)[THEN iffD1, symmetric],
        simp add: register_predicates_def install_view_def)
  obtain c where "curr_view (first_task N h) = nv\<lparr>IKnowIAmLeader := c\<rparr>" using first_task_view[of N h] h by auto
  then have "curr_view g' = nv\<lparr>IKnowIAmLeader := c\<rparr>" by (simp add: g' upcalls_view[OF x])
  with Some show ?thesis by blast
qed

lemma meta_wedged_leader:
  "IAmLeader (curr_view g) \<Longrightarrow> meta_wedged_continuation N rs ok u b w g = Inr g' \<Longrightarrow>
   globalMin_ready_continuation N rs ok u b g = Inr g'"
  by (auto simp: meta_wedged_continuation_def)

lemma continues_view:
  assumes "continues N g g'"
  shows "\<exists>nv c. next_view g = Some nv \<and> curr_view g' = nv\<lparr>IKnowIAmLeader := c\<rparr>"
proof -
  from assms obtain rs ok u b where "globalMin_ready_continuation N rs ok u b g = Inr g'"
    unfolding continues_def using meta_wedged_leader by blast
  then show ?thesis by (rule continuation_view)
qed

section \<open>Every step keeps the invariant\<close>

lemma quiet_meta_wedged:
  assumes "meta_wedged_continuation N rs ok u b w g = Inr g'" "\<not> IAmLeader (curr_view g)"
  shows "quiet (gms_sst g) (gms_sst (fired (Meta_wedged b w) g')) \<and> curr_view g' = curr_view g \<and>
    next_view g' = next_view g \<and> joining_client g' = joining_client g"
  using assms quiet_trans[OF quiet_preds(2) quiet_preds(3)]
  by (auto simp: meta_wedged_continuation_def fired_def)

lemma inv_m_step:
  assumes inv: "gms_inv n N l V C" and p: "p < n" "installed C p = None" and step: "m_step N l (gnode C p) g'"
  shows "gms_inv n N l V (set_gnode p g' C)"
proof -
  note P = inv_parts[OF inv p(1)]
  have quiet_case: "gms_inv n N l V (set_gnode p g C)"
    if "quiet (gms_sst (gnode C p)) (gms_sst g)" "curr_view g = curr_view (gnode C p)" "next_view g = next_view (gnode C p)"
      "joining_client g = joining_client (gnode C p)" for g
    using inv_quiet[OF inv p(1) in_view_quiet[OF P(6) that(1,2)] that(1,3)] that by auto
  from step show ?thesis
  proof cases
    case m_suspect
    then show ?thesis using inv_suspect[OF inv p(1)] by simp
  next
    case (m_report q)
    then show ?thesis using quiet_report[OF m_report] by (intro quiet_case) (auto simp: report_failure_def Let_def split: if_splits)
  next
    case (m_connect c)
    then show ?thesis by (intro quiet_case) simp_all
  next
    case m_join
    then show ?thesis using inv_join[OF inv p(1)] by simp
  next
    case m_commit
    then show ?thesis using inv_commit[OF inv p(1)] by simp
  next
    case m_ack
    then show ?thesis using inv_ack[OF inv p(1)] by simp
  next
    case (m_start g1)
    then show ?thesis using inv_start[OF inv p] by simp
  next
    case (m_wedged b w rs ok u g1)
    then show ?thesis using quiet_meta_wedged[OF m_wedged(5,4)] by (intro quiet_case) (auto simp: fired_def)
  next
    case (m_group dg)
    then show ?thesis using quiet_group_turn by (intro quiet_case) simp_all
  next
    case m_barrier
    then show ?thesis by (intro quiet_case) (simp_all add: barrier_sync_def quiet_preds)
  next
    case m_leave
    then show ?thesis using quiet_leave by (intro quiet_case) (auto simp: leave_def Let_def upd_sst_def upd_group_def)
  qed
qed

lemma inv_installed:
  assumes "gms_inv n N l V C" "p < n" "next_view (gnode C p) = Some nv" "curr_view g' = nv\<lparr>IKnowIAmLeader := c\<rparr>"
  shows "gms_inv n N l V (install p g' C)"
proof -
  have own: "own (install p g' C) = own C" by (simp add: own_def fun_eq_iff)
  have "gms_decided n N l V (install p g' C)"
    using assms unfolding gms_inv_def gms_decided_def own by (auto split: if_splits)
  with assms(1) show ?thesis
    by (simp add: gms_inv_def gms_table_def member_table_def gms_leader_def own)
qed

lemma inv_step: "gms_inv n N l V C \<Longrightarrow> gms_step n N l C D \<Longrightarrow> gms_inv n N l V D"
proof (erule gms_step.cases)
  fix p C' g'
  assume "gms_inv n N l V C" "C = C'" "D = set_gnode p g' C'" "p < n" "installed C' p = None" "m_step N l (gnode C' p) g'"
  then show ?thesis by (simp add: inv_m_step)
next
  fix p C' g' g1
  assume inv: "gms_inv n N l V C" and C: "C = C'" "D = install p g' (set_gnode p g1 C')" and p: "p < n" "installed C' p = None"
    and go: "continues N (gnode C' p) g'" and edge: "ragged_edge_cleanup (gnode C' p) = Inr g1"
  note P = inv_parts[OF inv p(1)] and q = quiet_ragged_edge[OF edge]
  have "gms_inv n N l V (set_gnode p g1 C)"
    using inv p(1) P(6) q C(1) by (intro inv_quiet) (auto intro: in_view_quiet)
  moreover obtain nv c where "next_view (gnode C p) = Some nv" "curr_view g' = nv\<lparr>IKnowIAmLeader := c\<rparr>"
    using continues_view[OF go] C(1) by auto
  ultimately show ?thesis using inv_installed[of n N l V "set_gnode p g1 C" p nv g' c] p(1) q C by simp
next
  fix p r C' row
  assume "gms_inv n N l V C" "C = C'" "D = set_gnode p (upd_sst (set_row r row) (gnode C' p)) C'" "p < n" "r < n" "r \<noteq> p"
    "gms_visible (put_rows (gms_sst (gnode C' r))) row"
  then show ?thesis by (simp add: inv_row)
qed

interpretation view_service: state_machine "gms_start n N l V" "gms_step n N l" "gms_inv n N l V"
  for n N l V
  by unfold_locales (auto intro: gms_start_inv inv_step)

end
