(* ===== verification/View_Decision.thy ===== *)
theory View_Decision
  imports View_Agreement
begin

text \<open>
  What the invariant of the membership service gives: members install the same next view,
  a view change starts only when every live member has acknowledged the change, and no
  change still to be installed is overwritten; with a run in which a client joins a group
  of two. Also what the protocol does not give: the address of a client that waits behind
  another change, and a client that never says who it is.
\<close>

section \<open>A group of two and a client\<close>

definition twin :: "'o managed \<Rightarrow> 'o managed \<Rightarrow> 'o managed option \<Rightarrow> 'o managed option \<Rightarrow> 'o gms_cluster" where
  "twin g h a b = \<lparr>gnode = (\<lambda>_. undefined)(0 := g, 1 := h), installed = (\<lambda>_. None)(0 := a, 1 := b)\<rparr>"

lemma twin_simps [simp]:
  "set_gnode 0 g' (twin g h a b) = twin g' h a b" "set_gnode (Suc 0) h' (twin g h a b) = twin g h' a b"
  "install 0 g' (twin g h a b) = twin g h (Some g') b" "install (Suc 0) h' (twin g h a b) = twin g h a (Some h')"
  "gnode (twin g h a b) 0 = g" "gnode (twin g h a b) (Suc 0) = h" "installed (twin g h a b) 0 = a"
  "installed (twin g h a b) (Suc 0) = b"
  by (auto simp: set_gnode_def install_def twin_def fun_eq_iff)

lemma twin_steps:
  "m_step N 0 g g' \<Longrightarrow> gms_step 2 N 0 (twin g h None b) (twin g' h None b)"
  "m_step N 0 h h' \<Longrightarrow> gms_step 2 N 0 (twin g h a None) (twin g h' a None)"
  "continues N g x \<Longrightarrow> ragged_edge_cleanup g = Inr g' \<Longrightarrow> gms_step 2 N 0 (twin g h None b) (twin g' h (Some x) b)"
  "continues N h y \<Longrightarrow> ragged_edge_cleanup h = Inr h' \<Longrightarrow> gms_step 2 N 0 (twin g h a None) (twin g h' a (Some y))"
  using g_member[of 0 2 "twin g h None b" N 0 g'] g_member[of 1 2 "twin g h a None" N 0 h']
    g_install[of 0 2 "twin g h None b" N x g' 0] g_install[of 1 2 "twin g h a None" N y h' 0]
  by simp_all

text \<open>A row as its owner last published it.\<close>

definition last_row :: "'o managed \<Rightarrow> derecho_row" where
  "last_row g = last (put_rows (gms_sst g))"

definition hears :: "nat \<Rightarrow> 'o managed \<Rightarrow> 'o managed \<Rightarrow> 'o managed" where
  "hears r h g = upd_sst (set_row r (last_row h)) g"

definition heard :: "'o managed \<Rightarrow> bool" where
  "heard g \<longleftrightarrow> put_rows (gms_sst g) \<noteq> []"

lemma last_visible: "heard g \<Longrightarrow> gms_visible (put_rows (gms_sst g)) (last_row g)"
  unfolding gms_visible_def heard_def last_row_def
  by (auto simp: last_conv_nth intro!: exI[of _ "length (put_rows (gms_sst g)) - 1"])

lemma twin_hears:
  "heard h \<Longrightarrow> gms_step 2 N 0 (twin g h None b) (twin (hears 1 h g) h None b)"
  "heard g \<Longrightarrow> gms_step 2 N 0 (twin g h a None) (twin g (hears 0 g h) a None)"
  using g_row[of 0 2 1 "twin g h None b" "last_row h" N 0] last_visible[of h]
    g_row[of 1 2 0 "twin g h a None" "last_row g" N 0] last_visible[of g]
  by (simp_all add: hears_def)

definition twin_row :: derecho_row where
  "twin_row = trio_row\<lparr>wedged := False\<rparr>"

definition twin_view :: view where
  "twin_view = \<lparr>vid = 0, members = [10, 20], member_ips = [''a'', ''b''], failed = [False, False], nFailed = 0, who = None,
     num_members = 2, my_rank = 0, IKnowIAmLeader = True\<rparr>"

definition twin_start :: "nat \<Rightarrow> unit managed" where
  "twin_start p = trio_managed\<lparr>curr_view := twin_view\<lparr>my_rank := int p, IKnowIAmLeader := (p = 0)\<rparr>,
     curr_group := solo_group\<lparr>dg_members := [10, 20], member_index := p, dg_sst := \<lparr>rows = [twin_row, twin_row], local_index = p,
       preds = [Suspected_changed, Start_join, Change_commit_ready, Leader_proposed, Leader_committed], calls = [Put twin_row]\<rparr>\<rparr>\<rparr>"

text \<open>The end of a view change in pieces.\<close>

definition make_way :: "view \<Rightarrow> 'o managed \<Rightarrow> 'o managed" where
  "make_way nv g = (let g = upd_sst (\<lambda>s. remove_pred Suspected_changed (remove_pred Leader_committed s)) g
     in if length (members (curr_view g)) < length (members nv)
        then gms_call (Add_connection (last (members nv)) (last (member_ips nv))) g else g)"

definition enter :: "nat \<Rightarrow> view \<Rightarrow> 'o dgroup \<Rightarrow> 'o managed \<Rightarrow> 'o managed" where
  "enter N nv dg g = (let dg = dg\<lparr>dg_sst := sync_with_members (put (dg_sst dg))\<rparr>; g = install_view nv dg g;
     g = (if view_file_name g \<noteq> [] then gms_call (Persist_view (view_file_name g) nv) g else g)
     in first_task N (upd_sst start_predicate_evaluation (register_predicates g)))"

lemma continuation_by_steps:
  assumes "next_view g = Some nv" "ragged_edge_cleanup g = Inr ga"
    "(if IAmLeader (curr_view ga) \<and> \<not> b then commit_join nv ga else Inr ga) = Inr gb"
    "transition_sst_and_rdmc N rs ok u nv (make_way nv gb) = Inr dg"
    "run_view_upcalls (members (curr_view (make_way nv gb))) (enter N nv dg (make_way nv gb)) = Inr gc"
  shows "globalMin_ready_continuation N rs ok u b g = Inr (gms_call Notify_view_change gc)"
  using assms(2-5) unfolding globalMin_ready_continuation_def make_way_def enter_def Let_def assms(1)
  by (simp only: option.case bindE.simps)

text \<open>The leader's states (\<open>lead\<close>) and the other member's (\<open>memb\<close>) while client 40 joins.\<close>

definition new_table :: "derecho_row list" where
  "new_table = replicate 3 twin_row"

abbreviation "rdmc_up \<equiv> (\<lambda>_. True) :: nat \<Rightarrow> bool"

definition "lead1 = (twin_start 0)\<lparr>pending_joins := [joiner]\<rparr>"
definition "lead2 = result_of (start_join_trig 3 lead1)"
definition "memb1 = hears 0 lead2 (twin_start 1)"
definition "memb2 = result_of (ack_proposed_change memb1)"
definition "lead3 = result_of (ack_proposed_change lead2)"
definition "lead4 = hears 1 memb2 lead3"
definition "lead5 = commit_change lead4"
definition "memb3 = hears 0 lead5 memb2"
definition "lead6 = fired Leader_committed (result_of (start_view_change 3 lead5))"
definition "memb4 = fired Leader_committed (result_of (start_view_change 3 memb3))"
definition "memb5 = fired (Meta_wedged False (-1)) (result_of (meta_wedged_continuation 3 new_table rdmc_up 0 False (-1) memb4))"
definition "lead_view = \<lparr>vid = 1, members = [10, 20, 40], member_ips = [''a'', ''b'', ''d''], failed = [False, False, False],
  nFailed = 0, who = Some 40, num_members = 3, my_rank = 0, IKnowIAmLeader = True\<rparr>"
definition "lead7 = result_of (ragged_edge_cleanup lead6)"
definition "lead8 = make_way lead_view (result_of (commit_join lead_view lead7))"
definition "lead_group = result_of (transition_sst_and_rdmc 3 new_table rdmc_up 0 lead_view lead8)"
definition "lead_next = gms_call Notify_view_change (result_of (run_view_upcalls [10, 20] (enter 3 lead_view lead_group lead8)))"
definition "memb6 = hears 0 lead7 memb5"
definition "memb7 = result_of (ragged_edge_cleanup memb6)"
definition "memb_view = lead_view\<lparr>my_rank := 1, IKnowIAmLeader := False\<rparr>"
definition "memb8 = make_way memb_view memb7"
definition "memb_rows = new_table[0 := last_row lead_next]" \<comment> \<open>the leader's row of the new view has arrived\<close>
definition "memb_group = result_of (transition_sst_and_rdmc 3 memb_rows rdmc_up 0 memb_view memb8)"
definition "memb_next = gms_call Notify_view_change (result_of (run_view_upcalls [10, 20] (enter 3 memb_view memb_group memb8)))"

definition twin_end :: "unit gms_cluster" where
  "twin_end = twin lead7 memb7 (Some lead_next) (Some memb_next)"

lemma twin_counts: "nChanges twin_row = 0" "nCommitted twin_row = 0" "nAcked twin_row = 0"
  by (simp_all add: twin_row_def trio_row_def solo_row_def)

lemma twin_starts: "gms_start 2 3 0 twin_view (twin (twin_start 0) (twin_start 1) None None)"
proof -
  let ?C = "twin (twin_start 0) (twin_start 1) None None :: unit gms_cluster"
  have own: "own ?C p = twin_row" if "p < 2" for p
    using that by (auto simp: less_2_cases_iff own_def local_row_def twin_start_def)
  have f: "follows 3 twin_view twin_row twin_row"
    by (rule follows_refl) (simp add: twin_row_def trio_row_def)
  have v: "in_view 2 0 twin_view p (twin_start p)" if "p < 2" for p
  proof -
    have "rank_of_leader (curr_view (twin_start p)) = int 0"
      unfolding rank_of_leader_eq_iff by (simp add: twin_start_def twin_view_def)
    with that show ?thesis by (auto simp: less_2_cases_iff in_view_def view_wf_def twin_start_def twin_view_def)
  qed
  have table: "rows (gms_sst (twin_start p)) = [twin_row, twin_row]" "put_rows (gms_sst (twin_start p)) = [twin_row]" for p
    by (simp_all add: twin_start_def put_rows_def)
  have node: "gnode ?C p = twin_start p" "installed ?C q = None" if "p < 2" for p q
    using that by (auto simp: less_2_cases_iff twin_def)
  have "member_table 2 3 0 twin_view ?C p" if "p < 2" for p
    unfolding member_table_def node[OF that] own[OF that] table
    using v[OF that] f own by (auto simp: less_2_cases_iff acked_ok_def twin_counts)
  then have "gms_table 2 3 0 twin_view ?C" by (simp add: gms_table_def)
  moreover have "gms_leader 2 3 0 twin_view ?C"
    unfolding gms_leader_def proposals_bound_def own[of 0, simplified] node(1)[of 0, simplified]
    using own by (auto simp: twin_counts view_wf_def twin_view_def twin_start_def majority_lost_def)
  moreover have "next_view (twin_start p) = None" for p by (simp add: twin_start_def trio_managed_def)
  moreover have "installed ?C p = None" for p by (simp add: twin_def)
  ultimately show ?thesis using node by (simp add: gms_start_def)
qed

lemma joins_runs:
  "start_join_trig 3 lead1 = Inr lead2" "ack_proposed_change memb1 = Inr memb2" "ack_proposed_change lead2 = Inr lead3"
proof -
  have "of_result (has_pred Leader_proposed) (start_join_trig 3 lead1) = Some True"
    "of_result (has_pred Leader_proposed) (ack_proposed_change memb1) = Some True"
    "of_result (has_pred Leader_proposed) (ack_proposed_change lead2) = Some True"
    by code_simp+
  then show "start_join_trig 3 lead1 = Inr lead2" "ack_proposed_change memb1 = Inr memb2" "ack_proposed_change lead2 = Inr lead3"
    unfolding lead2_def memb2_def lead3_def by (metis of_result_Some)+
qed

lemma change_runs:
  "fired Leader_committed (result_of (start_view_change 3 lead5)) = lead6 \<and> start_view_change 3 lead5 = Inr (result_of (start_view_change 3 lead5))"
  "fired Leader_committed (result_of (start_view_change 3 memb3)) = memb4 \<and> start_view_change 3 memb3 = Inr (result_of (start_view_change 3 memb3))"
  "fired (Meta_wedged False (-1)) (result_of (meta_wedged_continuation 3 new_table rdmc_up 0 False (-1) memb4)) = memb5 \<and>
     meta_wedged_continuation 3 new_table rdmc_up 0 False (-1) memb4 = Inr (result_of (meta_wedged_continuation 3 new_table rdmc_up 0 False (-1) memb4))"
  "ragged_edge_cleanup lead6 = Inr lead7" "ragged_edge_cleanup memb6 = Inr memb7"
proof -
  have "of_result (has_pred Suspected_changed) (start_view_change 3 lead5) = Some True"
    "of_result (has_pred Suspected_changed) (start_view_change 3 memb3) = Some True"
    "of_result (has_pred Suspected_changed) (meta_wedged_continuation 3 new_table rdmc_up 0 False (-1) memb4) = Some True"
    "of_result (has_pred Suspected_changed) (ragged_edge_cleanup lead6) = Some True"
    "of_result (has_pred Suspected_changed) (ragged_edge_cleanup memb6) = Some True"
    by code_simp+
  note r = this[THEN of_result_Some, THEN conjunct1]
  show "fired Leader_committed (result_of (start_view_change 3 lead5)) = lead6 \<and> start_view_change 3 lead5 = Inr (result_of (start_view_change 3 lead5))"
    using r(1) by (simp add: lead6_def)
  show "fired Leader_committed (result_of (start_view_change 3 memb3)) = memb4 \<and> start_view_change 3 memb3 = Inr (result_of (start_view_change 3 memb3))"
    using r(2) by (simp add: memb4_def)
  show "fired (Meta_wedged False (-1)) (result_of (meta_wedged_continuation 3 new_table rdmc_up 0 False (-1) memb4)) = memb5 \<and>
     meta_wedged_continuation 3 new_table rdmc_up 0 False (-1) memb4 = Inr (result_of (meta_wedged_continuation 3 new_table rdmc_up 0 False (-1) memb4))"
    using r(3) by (simp add: memb5_def)
  show "ragged_edge_cleanup lead6 = Inr lead7" "ragged_edge_cleanup memb6 = Inr memb7"
    using r(4,5) by (simp_all add: lead7_def memb7_def)
qed

lemma lead_guards:
  "next_view lead6 = Some lead_view" "IAmLeader (curr_view lead7)" "members (curr_view lead8) = [10, 20]"
  "has_pred (Meta_wedged False (-1)) lead6" "is_meta_wedged lead6" "IAmLeader (curr_view lead6)"
  by code_simp+

lemma memb_guards:
  "next_view memb6 = Some memb_view" "\<not> IAmLeader (curr_view memb7)" "members (curr_view memb8) = [10, 20]"
  "has_pred (GlobalMin_ready False (-1)) memb6" "leader_globalMin_is_ready memb6 = Inr True"
  by code_simp+

lemma lead_continues: "continues 3 lead6 lead_next"
proof -
  have "of_result (\<lambda>g. ()) (commit_join lead_view lead7) = Some ()"
    "of_result (\<lambda>g. ()) (transition_sst_and_rdmc 3 new_table rdmc_up 0 lead_view lead8) = Some ()"
    "of_result (\<lambda>g. ()) (run_view_upcalls [10, 20] (enter 3 lead_view lead_group lead8)) = Some ()"
    by code_simp+
  note r = this[THEN of_result_Some, THEN conjunct1]
  note s = lead_guards
  have "globalMin_ready_continuation 3 new_table rdmc_up 0 False lead6 = Inr lead_next"
    unfolding lead_next_def
    using s(1-3) r change_runs(4)
    by (intro continuation_by_steps[where ga = lead7 and nv = lead_view and gb = "result_of (commit_join lead_view lead7)" and dg = lead_group])
       (simp_all add: lead_group_def lead8_def)
  then have "meta_wedged_continuation 3 new_table rdmc_up 0 False (-1) lead6 = Inr lead_next"
    using s by (simp add: meta_wedged_continuation_def)
  then show ?thesis unfolding continues_def using s by blast
qed

lemma memb_table: "of_result (\<lambda>g. ()) (transition_sst_and_rdmc 3 memb_rows rdmc_up 0 memb_view memb8) = Some ()"
  by code_simp

lemma memb_upcalls: "of_result (\<lambda>g. ()) (run_view_upcalls [10, 20] (enter 3 memb_view memb_group memb8)) = Some ()"
  by code_simp

lemma memb_continues: "continues 3 memb6 memb_next"
proof -
  note r = memb_table[THEN of_result_Some, THEN conjunct1] memb_upcalls[THEN of_result_Some, THEN conjunct1]
  note s = memb_guards
  have "globalMin_ready_continuation 3 memb_rows rdmc_up 0 False memb6 = Inr memb_next"
    unfolding memb_next_def
    using s(1-3) r change_runs(5)
    by (intro continuation_by_steps[where ga = memb7 and nv = memb_view and gb = memb7 and dg = memb_group])
       (simp_all add: memb_group_def memb8_def)
  then show ?thesis unfolding continues_def using s by blast
qed

lemma join_guards:
  "has_pred Start_join lead1" "start_join_pred lead1" "heard lead2" "has_pred Leader_proposed memb1"
  "leader_proposed_change memb1 = Inr True" "has_pred Leader_proposed lead2" "leader_proposed_change lead2 = Inr True"
  "heard memb2" "has_pred Change_commit_ready lead4" "change_commit_ready lead4" "heard lead5"
  by code_simp+

lemma start_guards:
  "has_pred Leader_committed lead5" "leader_committed_next_view lead5 = Inr True" "has_pred Leader_committed memb3"
  "leader_committed_next_view memb3 = Inr True"
  by code_simp+

lemma wedge_guards:
  "has_pred (Meta_wedged False (-1)) memb4" "is_meta_wedged memb4" "\<not> IAmLeader (curr_view memb4)" "heard lead7"
  by code_simp+

lemma twin_runs: "(gms_step 2 3 0)\<^sup>*\<^sup>* (twin (twin_start 0) (twin_start 1) None None) twin_end"
proof -
  let ?R = "(gms_step 2 3 0)\<^sup>*\<^sup>* (twin (twin_start 0) (twin_start 1) None None)"
  have "m_step 3 0 (twin_start 0) lead1"
    using m_connect[of 3 0 "twin_start 0" joiner] by (simp add: lead1_def twin_start_def trio_managed_def)
  then have "?R (twin lead1 (twin_start 1) None None)" using twin_steps(1) by blast
  also have "gms_step 2 3 0 \<dots> (twin lead2 (twin_start 1) None None)"
    using join_guards joins_runs by (blast intro: twin_steps m_join)
  also have "gms_step 2 3 0 \<dots> (twin lead2 memb1 None None)" unfolding memb1_def using join_guards by (intro twin_hears)
  also have "gms_step 2 3 0 \<dots> (twin lead2 memb2 None None)" using join_guards joins_runs by (blast intro: twin_steps m_ack)
  also have "gms_step 2 3 0 \<dots> (twin lead3 memb2 None None)" using join_guards joins_runs by (blast intro: twin_steps m_ack)
  also have "gms_step 2 3 0 \<dots> (twin lead4 memb2 None None)" unfolding lead4_def using join_guards by (intro twin_hears)
  also have "gms_step 2 3 0 \<dots> (twin lead5 memb2 None None)" unfolding lead5_def using join_guards by (blast intro: twin_steps m_commit)
  also have "gms_step 2 3 0 \<dots> (twin lead5 memb3 None None)" unfolding memb3_def using join_guards by (intro twin_hears)
  also have "gms_step 2 3 0 \<dots> (twin lead6 memb3 None None)" using start_guards change_runs(1) m_start[of lead5 3 _ 0] by (metis twin_steps(1))
  also have "gms_step 2 3 0 \<dots> (twin lead6 memb4 None None)" using start_guards change_runs(2) m_start[of memb3 3 _ 0] by (metis twin_steps(2))
  also have "gms_step 2 3 0 \<dots> (twin lead6 memb5 None None)"
    using wedge_guards change_runs(3) m_wedged[of False "-1" memb4 3] by (metis twin_steps(2))
  also have "gms_step 2 3 0 \<dots> (twin lead7 memb5 (Some lead_next) None)"
    using lead_continues change_runs(4) by (rule twin_steps)
  also have "gms_step 2 3 0 \<dots> (twin lead7 memb6 (Some lead_next) None)" unfolding memb6_def using wedge_guards by (intro twin_hears)
  also have "gms_step 2 3 0 \<dots> twin_end"
    unfolding twin_end_def using memb_continues change_runs(5) by (rule twin_steps)
  finally show ?thesis .
qed

lemma twin_reaches: "reachable (gms_start 2 3 0 twin_view) (gms_step 2 3 0) twin_end"
  using twin_runs by (rule reachable_steps) (rule reachable_init, rule twin_starts)

section \<open>Agreement\<close>

lemma reachable_inv: "reachable (gms_start n N l V) (gms_step n N l) C \<Longrightarrow> gms_inv n N l V C"
  by (rule view_service.inv_reachable)

lemma installed_agreed:
  assumes inv: "gms_inv n N l V C" and p: "p < n" "\<not> failed (curr_view (gnode C l)) ! p" "installed C p = Some a"
  shows "agreed N V (own C l) (curr_view a)"
proof -
  from inv p(3) obtain nv b where "next_view (gnode C p) = Some nv" and a: "curr_view a = nv\<lparr>IKnowIAmLeader := b\<rparr>"
    unfolding gms_inv_def gms_decided_def by metis
  with inv p(1,2) have "agreed N V (own C l) nv" by (auto simp: gms_inv_def gms_decided_def)
  then show ?thesis by (simp add: a agreed_def Let_def)
qed

text \<open>
  C6. Members install the same next view. In every run of a view in which the leader is not
  suspected, two members that have gone on to the next view and that the leader has not
  marked failed have the same view number, members, addresses and change, whatever their
  suspicions, delays and torn copies of the table.
\<close>

theorem members_install_the_same_view:
  assumes run: "reachable (gms_start n N l V) (gms_step n N l) C"
    and p: "p < n" "\<not> failed (curr_view (gnode C l)) ! p" "installed C p = Some a"
    and q: "q < n" "\<not> failed (curr_view (gnode C l)) ! q" "installed C q = Some b"
  shows "vid (curr_view a) = vid V + 1 \<and> vid (curr_view b) = vid V + 1 \<and>
    members (curr_view a) = members (curr_view b) \<and> member_ips (curr_view a) = member_ips (curr_view b) \<and>
    who (curr_view a) = who (curr_view b)"
  using installed_agreed[OF reachable_inv[OF run] p] installed_agreed[OF reachable_inv[OF run] q]
  by (simp add: agreed_def changed_view_def Let_def)

lemma twin_end_fields:
  "gnode twin_end 0 = lead7" "gnode twin_end (Suc 0) = memb7" "installed twin_end 0 = Some lead_next" "installed twin_end (Suc 0) = Some memb_next"
  by (simp_all add: twin_end_def)

lemma lead7_view: "failed (curr_view lead7) = [False, False]"
  by code_simp

theorem members_install_the_same_view_witness:
  "members (curr_view lead_next) = members (curr_view memb_next) \<and> vid (curr_view memb_next) = 1"
  using members_install_the_same_view[OF twin_reaches, of 0 lead_next 1 memb_next]
  by (simp add: twin_end_fields lead7_view twin_view_def)

text \<open>
  C9. A view change needs everyone: once any member has begun it, every member that the
  leader has not marked failed has acknowledged the change, and its own row lists the very
  change the leader lists for this view.
\<close>

theorem view_change_needs_all_acks:
  assumes run: "reachable (gms_start n N l V) (gms_step n N l) C"
    and begun: "p < n" "next_view (gnode C p) \<noteq> None" and q: "q < n" "\<not> failed (curr_view (gnode C l)) ! q"
  shows "vid V < nAcked (own C q) \<and> next_change N V (own C q) = next_change N V (own C l)"
proof -
  note inv = reachable_inv[OF run]
  note P = inv_parts[OF inv q(1)]
  have "vid V < nCommitted (own C l)" using P(3) begun by (auto simp: gms_decided_def)
  also have "\<dots> \<le> nAcked (own C q)" using P(2) q by (simp add: gms_leader_def)
  finally have acked: "vid V < nAcked (own C q)" .
  also have "\<dots> \<le> nChanges (own C q)" using gms_tableD(2)[OF P(1) q(1)] by (simp add: acked_ok_def)
  finally have "next_change N V (own C q) = next_change N V (own C l)"
    using own_follows[OF P(1) q(1)] P(5) by (intro next_change_follows)
  with acked show ?thesis by blast
qed

lemma memb7_begun: "next_view memb7 \<noteq> None"
  by code_simp

theorem view_change_needs_all_acks_witness:
  "0 < nAcked (own twin_end 0) \<and> next_change 3 twin_view (own twin_end 1) = next_change 3 twin_view (own twin_end 0)"
  using view_change_needs_all_acks[OF twin_reaches, of 1 0] view_change_needs_all_acks[OF twin_reaches, of 1 1]
  by (simp add: twin_end_fields lead7_view memb7_begun twin_view_def)

text \<open>
  C10. The ring of changes is large enough: in every such run the leader lists at most half
  the members' number of changes that are still to be installed, rounded up, and so no more
  than \<^verbatim>\<open>MAX_MEMBERS\<close>; and whatever row a member reads, its own or a copy, every change
  it counts from this view on is the leader's change of that number.
\<close>

theorem uninstalled_changes_fit:
  assumes run: "reachable (gms_start n N l V) (gms_step n N l) C"
    and p: "p < n" "r < n" and k: "vid V \<le> int k" "int k < nChanges (rows (gms_sst (gnode C p)) ! r)"
  shows "nChanges (own C l) - vid V \<le> (int n + 1) div 2 \<and> (int n + 1) div 2 \<le> int N \<and>
    changes (rows (gms_sst (gnode C p)) ! r) ! (k mod N) = changes (own C l) ! (k mod N)"
proof -
  note P = inv_parts[OF reachable_inv[OF run] p(1)]
  have "num_members (curr_view (gnode C l)) = int n"
    using gms_tableD(1)[OF P(1,4)] by (simp add: in_view_def)
  then have "nChanges (own C l) - vid V \<le> (int n + 1) div 2" "(int n + 1) div 2 \<le> int N"
    using P(2) by (auto simp: gms_leader_def proposals_bound_def majority_lost_def split: if_splits)
  with gms_tableD(3)[OF P(1) p] k show ?thesis by (simp add: follows_def)
qed

lemma memb7_row: "0 < nChanges (rows (gms_sst memb7) ! 1)"
  by code_simp

theorem uninstalled_changes_fit_witness:
  "changes (rows (gms_sst (gnode twin_end 1)) ! 1) ! (0 mod 3) = changes (own twin_end 0) ! (0 mod 3)"
  using uninstalled_changes_fit[OF twin_reaches, of 1 1 0] memb7_row
  by (simp add: twin_end_fields twin_view_def)

end
