(* ===== verification/Join_Faults.thy ===== *)
theory Join_Faults
  imports Agreement
begin

text \<open>
  Two ways in which a join goes wrong: a client that waits behind another change loses its
  address at the view change, and a client that never says who it is makes the group remove
  member 0.
\<close>

section \<open>A join that waits\<close>

lemma transition_row:
  assumes run: "transition_sst_and_rdmc N new_rows ok u nv g = Inr dg"
    and me: "0 \<le> my_rank nv" "nat (my_rank nv) < length new_rows"
  defines "old \<equiv> rows (gms_sst g) ! nat (my_rank (curr_view g))" and "r \<equiv> local_row (dg_sst dg)"
  shows "changes r = changes old" "nChanges r = nChanges old" "nCommitted r = nCommitted old" "nAcked r = nAcked old"
    "joiner_ip r = joiner_ip (new_rows ! nat (my_rank nv))" "row_vid r = vid nv"
proof -
  let ?i = "nat (my_rank nv)" and ?s = "\<lparr>rows = new_rows, local_index = nat (my_rank nv), preds = [], calls = []\<rparr>"
  from run obtain h where h: "group_from_old (members nv) (members nv ! ?i) ?s (curr_group g) (failed nv) u ok = Inr h"
    and dg: "dg = h\<lparr>dg_sst := set_row ?i ((init_from_existing N (rows (dg_sst h) ! ?i) old)\<lparr>row_vid := vid nv\<rparr>) (dg_sst h)\<rparr>"
    by (auto simp: transition_sst_and_rdmc_def Let_def old_def)
  note t = constructor_table[OF h]
  have len: "length (rows (dg_sst h)) = length new_rows" by (simp add: t)
  have "joiner_ip (rows (dg_sst h) ! ?i) = joiner_ip (new_rows ! ?i)"
    using me(2) by (cases "?i < length (members nv)") (simp_all add: t nth_append initialize_row_def)
  then show "changes r = changes old" "nChanges r = nChanges old" "nCommitted r = nCommitted old" "nAcked r = nAcked old"
    "joiner_ip r = joiner_ip (new_rows ! ?i)" "row_vid r = vid nv"
    using me(2) len t(2) by (simp_all add: r_def dg local_row_def set_row_def init_from_existing_def)
qed

text \<open>
  The proposals a member holds move to its row in the next view, but the address of the
  joining client does not: \<^verbatim>\<open>init_from_existing\<close> leaves that field as the new table was
  created. When a join waits behind another change, the view after next lists the new member
  with whatever the new table held there, and not with the client's address.
\<close>

lemma waiting_join_loses_its_address:
  assumes run: "transition_sst_and_rdmc N new_rows ok u nv g = Inr dg"
    and me: "view_wf nv" "nat (my_rank nv) < length new_rows"
  defines "old \<equiv> rows (gms_sst g) ! nat (my_rank (curr_view g))" and "r \<equiv> local_row (dg_sst dg)"
  assumes waits: "changes old ! (nat (vid nv) mod N) = c" "c \<notin> set (members nv)"
  shows "changes r ! (nat (vid nv) mod N) = c \<and> nChanges r = nChanges old \<and> nAcked r = nAcked old \<and>
    (\<forall>w. next_view_of nv (changes r ! (nat (vid nv) mod N)) (joiner_ip r) = Inr w \<longrightarrow>
       members w = members nv @ [c] \<and> last (member_ips w) = c_str (joiner_ip (new_rows ! nat (my_rank nv))))"
proof -
  note t = transition_row[OF run _ me(2), folded old_def r_def]
  have pos: "0 \<le> my_rank nv" using me(1) by (simp add: view_wf_def)
  have "members w = members nv @ [c] \<and> last (member_ips w) = c_str (joiner_ip r)"
    if "next_view_of nv c (joiner_ip r) = Inr w" for w
  proof -
    from that obtain k where "w = (changed_view nv c (joiner_ip r))\<lparr>my_rank := k\<rparr>"
      unfolding next_view_of_eq[OF me(1)] by (auto simp: Let_def split: if_splits)
    moreover have "rank_of nv c = -1" using waits(2) me(1) by (simp add: rank_of_None_iff)
    ultimately show ?thesis by (simp add: changed_view_def kept_all)
  qed
  with t[OF pos] waits show ?thesis by simp
qed

text \<open>The removal of member 30 is installed while client 40, at address \<open>d\<close>, waits.\<close>

definition waiting_row :: derecho_row where
  "waiting_row = trio_row\<lparr>changes := [30, 40, 0], nChanges := 2, nCommitted := 1, nAcked := 2,
     joiner_ip := ''d'' @ replicate 49 NUL\<rparr>"

definition waiting_managed :: "unit managed" where
  "waiting_managed = trio_managed\<lparr>curr_group := (curr_group trio_managed)\<lparr>dg_sst := \<lparr>
     rows = replicate 3 waiting_row, local_index = 0, preds = [], calls = []\<rparr>\<rparr>\<rparr>"

definition without_30 :: view where
  "without_30 = \<lparr>vid = 1, members = [10, 20], member_ips = [''a'', ''b''], failed = [False, False], nFailed = 0,
     who = Some 30, num_members = 2, my_rank = 0, IKnowIAmLeader = True\<rparr>"

lemma waiting_join_loses_its_address_witness:
  "\<exists>dg w. transition_sst_and_rdmc 3 [trio_row, trio_row] (\<lambda>_. True) 0 without_30 waiting_managed = Inr dg \<and>
     next_view_of without_30 40 (joiner_ip (local_row (dg_sst dg))) = Inr w \<and> members w = [10, 20, 40] \<and>
     last (member_ips w) = []"
proof -
  let ?run = "transition_sst_and_rdmc 3 [trio_row, trio_row] (\<lambda>_. True) 0 without_30 waiting_managed"
  have "of_result (\<lambda>g. ()) ?run = Some ()" by code_simp
  then have run: "?run = Inr (result_of ?run)" by (rule of_result_Some[THEN conjunct1])
  have wf: "view_wf without_30" by (simp add: view_wf_def without_30_def)
  have "(case next_view_of without_30 40 ip of Inl _ \<Rightarrow> False | Inr _ \<Rightarrow> True)" for ip
    using next_view_members[OF wf, of 40 ip] by (auto simp: without_30_def)
  then obtain w where w: "next_view_of without_30 40 (joiner_ip (local_row (dg_sst (result_of ?run)))) = Inr w"
    by (metis sum.case_eq_if sum.collapse(2))
  have "changes (rows (gms_sst waiting_managed) ! nat (my_rank (curr_view waiting_managed))) ! (nat (vid without_30) mod 3) = 40"
    "nat (my_rank without_30) < length [trio_row, trio_row]" "40 \<notin> set (members without_30)"
    "c_str (joiner_ip ([trio_row, trio_row] ! nat (my_rank without_30))) = []" by code_simp+
  with waiting_join_loses_its_address[OF run wf, of 40] w run show ?thesis
    by (auto simp: without_30_def)
qed

section \<open>A client that does not say who it is\<close>

text \<open>
  C35. \<^verbatim>\<open>receive_join\<close> ignores whether the exchange of ids succeeded, and the id it then
  proposes is 0, which is the id of every group's first leader. If that leader accepts a
  connection that is closed at once, its own view change throws and every other member's
  next view is without it.
\<close>

theorem silent_client_removes_the_leader:
  assumes wf: "view_wf (curr_view g)" and zero: "members (curr_view g) ! nat (my_rank (curr_view g)) = 0"
    and me: "int (local_index (gms_sst g)) = my_rank (curr_view g)" "local_index (gms_sst g) < num_rows (gms_sst g)"
    and ring: "length (changes (local_row (gms_sst g))) = N" "0 < N"
      "nChanges (local_row (gms_sst g)) = vid (curr_view g)" "0 \<le> vid (curr_view g)"
    and silent: "client_id c = None" and run: "receive_join N c g = Inr g'"
  shows "(\<exists>e. start_view_change N g' = Inl (Throw e)) \<and>
    (\<forall>V ip. view_wf V \<and> members V = members (curr_view g) \<and> my_rank V \<noteq> my_rank (curr_view g) \<longrightarrow>
       (\<exists>nv. next_view_of V (change_at N (local_row (gms_sst g')) (vid (curr_view g))) ip = Inr nv \<and>
          members nv = removeAll 0 (members V)))"
proof -
  let ?i = "local_index (gms_sst g)" and ?r = "local_row (gms_sst g)"
  have i: "nat (my_rank (curr_view g)) = ?i" "rows (gms_sst g) ! ?i = ?r" using me(1) by (simp_all add: local_row_def)
  from run obtain ip where g': "g' = upd_sst put (view_wedge (upd_sst (set_row ?i ((propose_change N 0 ?r)\<lparr>joiner_ip := ip\<rparr>)) g))"
    unfolding receive_join_def Let_def i join_row[symmetric] by (auto simp: silent split: if_splits)
  let ?g = "upd_sst (set_row ?i ((propose_change N 0 ?r)\<lparr>joiner_ip := ip\<rparr>)) g"
  have pre: "int (local_index (gms_sst ?g)) = my_rank (curr_view ?g)" "local_index (gms_sst ?g) < num_rows (gms_sst ?g)"
    using me by (simp_all add: set_row_def)
  note w = view_wedge_sst[OF pre]
  have row: "local_row (gms_sst g') = (propose_change N 0 ?r)\<lparr>joiner_ip := ip, wedged := True\<rparr>"
    using w(1) me(2) by (simp add: g' put_fields set_row_def local_row_def)
  then have change: "change_at N (local_row (gms_sst g')) (vid (curr_view g)) = 0"
    using ring by (simp add: change_at_def propose_change_def)
  have view: "curr_view g' = curr_view g" using w(5) by (simp add: g')
  have loc: "local_index (gms_sst g') = ?i" "num_rows (gms_sst g') = num_rows (gms_sst g)"
    using w(2,6) by (simp_all add: g' put_fields set_row_def)
  let ?h = "upd_sst (\<lambda>s. remove_pred Leader_proposed (remove_pred Change_commit_ready (remove_pred Start_join s))) g'"
  have pre': "int (local_index (gms_sst ?h)) = my_rank (curr_view ?h)" "local_index (gms_sst ?h) < num_rows (gms_sst ?h)"
    using me loc view by (simp_all add: pred_fields)
  have "local_row (gms_sst (view_wedge ?h)) = (local_row (gms_sst g'))\<lparr>wedged := True\<rparr>"
    using view_wedge_sst(1)[OF pre'] by (simp add: pred_fields)
  then have own: "changes (rows (gms_sst (view_wedge ?h)) ! ?i) ! (nat (vid (curr_view g)) mod N) = 0"
    using change view_wedge_sst(2)[OF pre'] loc by (simp add: local_row_def change_at_def pred_fields)
  have stop: "\<exists>e. next_view_of (curr_view g) 0 ip = Inl (Throw e)" for ip
    using next_view_members[OF wf, of 0 ip] zero by simp
  have "\<exists>e. start_view_change N g' = Inl (Throw e)"
    using stop[of "joiner_ip (rows (gms_sst (view_wedge ?h)) ! ?i)"] pre'(1) own
    by (auto simp: start_view_change_def Let_def view view_wedge_sst[OF pre'] i)
  moreover have "\<exists>nv. next_view_of V 0 jp = Inr nv \<and> members nv = removeAll 0 (members V)"
    if V: "view_wf V" "members V = members (curr_view g)" "my_rank V \<noteq> my_rank (curr_view g)" for V jp
  proof -
    have "nat (my_rank (curr_view g)) < length (members V)" using wf V(2) by (auto simp: view_wf_def)
    then have "0 \<in> set (members V)" using zero nth_mem[of _ "members V"] by (fastforce simp: V(2))
    moreover have "size_of V = size_of (curr_view g)" using V(1,2) wf by (metis view_wf_lengths)
    then have "num_members V = num_members (curr_view g)" using V(1) wf by (simp add: view_wf_def eq_nat_nat_iff)
    then have "members V ! nat (my_rank V) \<noteq> 0"
      using V wf zero nth_eq_iff_index_eq[of "members V" "nat (my_rank V)" "nat (my_rank (curr_view g))"] by (auto simp: view_wf_def)
    ultimately show ?thesis using next_view_members[OF V(1), of 0 jp] by auto
  qed
  ultimately show ?thesis unfolding change by simp
qed

definition founders :: "unit managed" where
  "founders = trio_managed\<lparr>curr_view := (curr_view trio_managed)\<lparr>members := [0, 20, 30]\<rparr>\<rparr>"

definition silent_client :: client where
  "silent_client = \<lparr>remote_ip = ''d'', client_id = None\<rparr>"

theorem silent_client_removes_the_leader_witness:
  "\<exists>g' e. receive_join 3 silent_client founders = Inr g' \<and> start_view_change 3 g' = Inl (Throw e)"
proof -
  have "of_result (\<lambda>g. ()) (receive_join 3 silent_client founders) = Some ()" by code_simp
  then have run: "receive_join 3 silent_client founders = Inr (result_of (receive_join 3 silent_client founders))"
    by (rule of_result_Some[THEN conjunct1])
  have "view_wf (curr_view founders)" by (simp add: view_wf_def founders_def trio_managed_def)
  moreover have "members (curr_view founders) ! nat (my_rank (curr_view founders)) = 0"
    "int (local_index (gms_sst founders)) = my_rank (curr_view founders)" "local_index (gms_sst founders) < num_rows (gms_sst founders)"
    "length (changes (local_row (gms_sst founders))) = 3" "nChanges (local_row (gms_sst founders)) = vid (curr_view founders)"
    "0 \<le> vid (curr_view founders)" "client_id silent_client = None" by code_simp+
  ultimately show ?thesis
    using silent_client_removes_the_leader[of founders 3 silent_client, OF _ _ _ _ _ _ _ _ _ run] run by auto
qed

end
