(* ===== verification/Handover.thy ===== *)
theory Handover
  imports View_Decision Join_Faults
begin

text \<open>
  What a member takes from one view to the next: the state its last predicate leaves it
  with, as a function of its state in the old view, kept as an invariant of the membership
  service of all members beside the one agreement rests on.
\<close>

section \<open>The table a constructor leaves\<close>

lemma start_dgroup_puts:
  assumes "start_dgroup af ok g = Inr g'"
  shows "put_rows (dg_sst g') = put_rows (dg_sst g) @ [local_row (dg_sst g')]"
proof -
  have "af = [] \<or> dg_n g \<le> length af"
    using assms by (auto simp: start_dgroup_def Let_def initialize_sst_row_def split: if_splits)
  then obtain cs created where "start_dgroup af ok g = Inr (register_group_predicates
       ((initialize_sst_row g)\<lparr>dg_calls := dg_calls g @ cs, rdmc_groups_created := created\<rparr>))"
    by (rule start_dgroup_runs)
  with assms show ?thesis
    by (auto simp: register_group_predicates_def initialize_sst_row_def Let_def sst_simps)
qed

lemma constructor_puts:
  assumes "group_from_old ms me s old af u ok = Inr g'"
  shows "put_rows (dg_sst g') = put_rows s @ [local_row (dg_sst g')]"
proof -
  from assms obtain g where g: "start_dgroup af ok g = Inr g'" "dg_sst g = s"
    by (auto simp: group_from_old_def Let_def moved_def dest!: take_stable_moved requeue_all_moved
        take_next_send_moved take_non_persistent_moved)
  with start_dgroup_puts[OF g(1)] show ?thesis by simp
qed

section \<open>The first task of a view\<close>

lemma upd_local_same: "f (local_row s) = local_row s \<Longrightarrow> upd_local f s = s"
  by (simp add: upd_local_def set_local_def set_row_def local_row_def)

text \<open>No row is ahead of this node's own.\<close>

definition ahead_of_all :: "nat \<Rightarrow> sst \<Rightarrow> bool" where
  "ahead_of_all n s \<longleftrightarrow> (\<forall>r < n. nChanges (rows s ! r) \<le> nChanges (local_row s) \<and>
     nCommitted (rows s ! r) \<le> nCommitted (local_row s))"

lemma merge_changes_nothing:
  assumes v: "0 < size_of v" "\<not> failed v ! 0" and s: "ahead_of_all (size_of v) s"
  shows "merge_changes N v s = put s"
proof -
  have step: "merge_step s n = s" if "n < size_of v" for n
    unfolding merge_step_def using s that by (intro upd_local_same) (simp add: merge_row_def ahead_of_all_def flip: not_less)
  have "foldl merge_step s ns = s" if "\<forall>n \<in> set ns. n < size_of v" for ns
    using that by (induction ns) (auto simp: step)
  then have first: "foldl merge_step s [0..<size_of v] = s" by simp
  have rest: "foldl (list_failed_step N v) (True, t) ns = (True, t)" for t ns
    by (induction ns) (auto simp: list_failed_step_def)
  have "[0..<size_of v] = 0 # [1..<size_of v]" using v(1) by (simp add: upt_conv_Cons)
  then have "foldl (list_failed_step N v) (False, s) [0..<size_of v] = (True, s)"
    using v(2) rest by (simp add: list_failed_step_def)
  with first show ?thesis by (simp add: merge_changes_def)
qed

text \<open>A node writes only its own row, publishes nothing else, and leaves its suspicions.\<close>

definition own_writes :: "sst \<Rightarrow> sst \<Rightarrow> bool" where
  "own_writes s t \<longleftrightarrow> local_index t = local_index s \<and> num_rows t = num_rows s \<and>
     (\<forall>r. r \<noteq> local_index s \<longrightarrow> rows t ! r = rows s ! r) \<and> suspected (local_row t) = suspected (local_row s) \<and>
     (\<exists>new. put_rows t = put_rows s @ new \<and> (\<forall>x \<in> set new. suspected x = suspected (local_row s)))"

lemma own_writes_refl: "own_writes s s"
  by (simp add: own_writes_def)

lemma own_writes_trans: "own_writes s t \<Longrightarrow> own_writes t u \<Longrightarrow> own_writes s u"
  by (auto simp: own_writes_def)

lemma own_writes_put: "own_writes s (put s)"
  by (simp add: own_writes_def sst_simps)

lemma own_writes_upd: "(\<And>r. suspected (f r) = suspected r) \<Longrightarrow> own_writes s (upd_local f s)"
  by (cases "local_index s < num_rows s")
     (auto simp: own_writes_def sst_simps local_row_def list_update_beyond not_less)

lemma own_writes_merge_step: "own_writes s (merge_step s n)"
  unfolding merge_step_def by (rule own_writes_upd) (simp add: merge_row_def Let_def)

lemma own_writes_propose: "own_writes s (upd_local (propose_change N q) s)"
  by (rule own_writes_upd) (simp add: propose_change_def)

lemma own_writes_merge: "own_writes s (merge_changes N v s)"
proof -
  let ?s1 = "foldl merge_step s [0..<size_of v]"
  have one: "own_writes s ?s1"
    by (rule foldl_invariant[where P = "own_writes s"])
       (auto simp: own_writes_refl intro: own_writes_trans[OF _ own_writes_merge_step])
  have "own_writes s (snd (foldl (list_failed_step N v) (False, ?s1) [0..<size_of v]))"
    by (rule foldl_invariant[where P = "\<lambda>fs. own_writes s (snd fs)"])
       (auto simp: list_failed_step_def Let_def one split: prod.splits intro: own_writes_trans[OF _ own_writes_propose])
  then show ?thesis
    by (auto simp: merge_changes_def Let_def split: prod.splits intro: own_writes_trans[OF _ own_writes_put])
qed

lemma first_task_writes: "own_writes (gms_sst h) (gms_sst (first_task N h))"
  by (auto simp: first_task_def Let_def own_writes_refl split: prod.splits intro: own_writes_merge)

lemma first_task_quiet:
  assumes "0 < size_of (curr_view h)" "\<not> failed (curr_view h) ! 0" "ahead_of_all (size_of (curr_view h)) (gms_sst h)"
  shows "quiet (gms_sst h) (gms_sst (first_task N h))"
proof -
  have "merge_changes N (curr_view h\<lparr>IKnowIAmLeader := b\<rparr>) (gms_sst h) = put (gms_sst h)" for b
    using assms by (intro merge_changes_nothing) simp_all
  then show ?thesis
    by (auto simp: first_task_def IAmTheNewLeader_def Let_def quiet_put)
qed


section \<open>What the next view begins with\<close>

text \<open>\<^verbatim>\<open>init_from_existing\<close> keeps the list of changes and the three counts.\<close>

definition carried :: "derecho_row \<Rightarrow> derecho_row \<Rightarrow> bool" where
  "carried old r \<longleftrightarrow> changes r = changes old \<and> nChanges r = nChanges old \<and> nCommitted r = nCommitted old \<and>
     nAcked r = nAcked old"

text \<open>
  The state \<open>h\<close> a member has in the view \<open>nv\<close> just before its first task there: its table is
  new, it suspects nobody, and it has published its own row twice, before and after the
  counts were carried over.
\<close>

definition entering :: "nat \<Rightarrow> derecho_row \<Rightarrow> view \<Rightarrow> 'o managed \<Rightarrow> bool" where
  "entering N old nv h \<longleftrightarrow> curr_view h = nv \<and> local_index (gms_sst h) = nat (my_rank nv) \<and>
     carried old (local_row (gms_sst h)) \<and> suspected (local_row (gms_sst h)) = replicate N False \<and>
     (\<exists>blank. put_rows (gms_sst h) = [blank, local_row (gms_sst h)])"

definition hands_over :: "nat \<Rightarrow> derecho_row \<Rightarrow> view \<Rightarrow> 'o managed \<Rightarrow> bool" where
  "hands_over N old nv a \<longleftrightarrow> (\<exists>h :: 'o managed. entering N old nv h \<and> gms_sst a = gms_sst (first_task N h) \<and>
     curr_view a = curr_view (first_task N h) \<and> next_view a = None)"

lemma transition_table:
  assumes run: "transition_sst_and_rdmc N new_rows ok u nv g = Inr dg"
  shows "local_index (dg_sst dg) = nat (my_rank nv)" "num_rows (dg_sst dg) = length new_rows"
    "\<exists>blank. put_rows (dg_sst dg) = [blank]"
    "0 \<le> my_rank nv \<Longrightarrow> nat (my_rank nv) < length new_rows \<Longrightarrow>
       carried (rows (gms_sst g) ! nat (my_rank (curr_view g))) (local_row (dg_sst dg)) \<and>
       suspected (local_row (dg_sst dg)) = replicate N False"
proof -
  let ?i = "nat (my_rank nv)" and ?s = "\<lparr>rows = new_rows, local_index = nat (my_rank nv), preds = [], calls = []\<rparr>"
  from run obtain h r where h: "group_from_old (members nv) (members nv ! ?i) ?s (curr_group g) (failed nv) u ok = Inr h"
    and dg: "dg = h\<lparr>dg_sst := set_row ?i r (dg_sst h)\<rparr>" and r: "suspected r = replicate N False"
    by (auto simp: transition_sst_and_rdmc_def Let_def init_from_existing_def)
  note t = constructor_table[OF h] constructor_puts[OF h]
  show "local_index (dg_sst dg) = ?i" "num_rows (dg_sst dg) = length new_rows" using t by (simp_all add: dg set_row_def)
  show "\<exists>blank. put_rows (dg_sst dg) = [blank]" using t(3) by (simp add: dg put_rows_simps(8)) (simp add: put_rows_def)
  assume "0 \<le> my_rank nv" "nat (my_rank nv) < length new_rows"
  then have "local_row (dg_sst dg) = r" using t(1,2) by (simp add: dg local_row_def set_row_def)
  with transition_row[OF run \<open>0 \<le> my_rank nv\<close> \<open>?i < length new_rows\<close>] r
  show "carried (rows (gms_sst g) ! nat (my_rank (curr_view g))) (local_row (dg_sst dg)) \<and>
      suspected (local_row (dg_sst dg)) = replicate N False"
    unfolding carried_def by metis
qed

lemma continuation_steps:
  assumes "globalMin_ready_continuation N rs ok u b g = Inr a" "next_view g = Some nv"
  obtains ga gb dg x where "ragged_edge_cleanup g = Inr ga"
    "(if IAmLeader (curr_view ga) \<and> \<not> b then commit_join nv ga else Inr ga) = Inr gb"
    "transition_sst_and_rdmc N rs ok u nv (make_way nv gb) = Inr dg"
    "run_view_upcalls (members (curr_view (make_way nv gb))) (enter N nv dg (make_way nv gb)) = Inr x"
    "a = gms_call Notify_view_change x"
  using assms unfolding globalMin_ready_continuation_def make_way_def enter_def Let_def
  by (simp only: option.case bindE_Inr_iff sum.inject) (metis (no_types))

lemma start_fields:
  "rows (start_predicate_evaluation s) = rows s" "local_index (start_predicate_evaluation s) = local_index s"
  by (simp_all add: start_predicate_evaluation_def)

lemma enter_first_task:
  obtains h where "enter N nv dg g = first_task N h" "curr_view h = nv" "next_view h = None"
    "rows (gms_sst h) = rows (dg_sst dg)" "local_index (gms_sst h) = local_index (dg_sst dg)"
    "put_rows (gms_sst h) = put_rows (dg_sst dg) @ [local_row (dg_sst dg)]"
  by (rule that[OF enter_def[unfolded Let_def]]) (simp_all add: register_predicates_def install_view_def sst_simps start_fields)


lemma make_way_frame:
  "gms_sst (make_way nv g) = remove_pred Suspected_changed (remove_pred Leader_committed (gms_sst g))"
  "curr_view (make_way nv g) = curr_view g"
  by (simp_all add: make_way_def Let_def)

lemma commit_join_frame:
  "(if b then commit_join nv g else Inr g) = Inr g' \<Longrightarrow> gms_sst g' = gms_sst g \<and> curr_view g' = curr_view g"
  by (auto simp: commit_join_def gms_call_def split: if_splits option.splits)

lemma upcalls_frame: "run_view_upcalls old g = Inr g' \<Longrightarrow> gms_sst g' = gms_sst g \<and> next_view g' = next_view g"
  by (auto simp: run_view_upcalls_def set_exceptions_for_removed_nodes_def Let_def split: if_splits)

lemma first_task_next_view: "next_view (first_task N h) = next_view h"
  by (simp add: first_task_def Let_def split: prod.splits)

lemma continuation_hands_over:
  assumes run: "globalMin_ready_continuation N rs ok u b g = Inr a" and nv: "next_view g = Some nv"
    and me: "0 \<le> my_rank nv" "nat (my_rank nv) < num_rows (gms_sst a)"
    and i: "nat (my_rank (curr_view g)) = local_index (gms_sst g)"
  shows "hands_over N (local_row (gms_sst g)) nv a"
proof -
  from run nv obtain ga gb dg x where cleaned: "ragged_edge_cleanup g = Inr ga"
    and gb: "(if IAmLeader (curr_view ga) \<and> \<not> b then commit_join nv ga else Inr ga) = Inr gb"
    and dg: "transition_sst_and_rdmc N rs ok u nv (make_way nv gb) = Inr dg"
    and up: "run_view_upcalls (members (curr_view (make_way nv gb))) (enter N nv dg (make_way nv gb)) = Inr x"
    and a: "a = gms_call Notify_view_change x"
    by (rule continuation_steps)
  obtain h where h: "enter N nv dg (make_way nv gb) = first_task N h" "curr_view h = nv" "next_view h = None"
    "rows (gms_sst h) = rows (dg_sst dg)" "local_index (gms_sst h) = local_index (dg_sst dg)"
    "put_rows (gms_sst h) = put_rows (dg_sst dg) @ [local_row (dg_sst dg)]"
    by (rule enter_first_task)
  note up = upcalls_frame[OF up[unfolded h(1)]] upcalls_view[OF up[unfolded h(1)]]
  have sst: "gms_sst a = gms_sst (first_task N h)" by (simp add: a up)
  have "num_rows (gms_sst a) = num_rows (dg_sst dg)"
    using first_task_writes[of h N] by (simp add: sst own_writes_def h(4))
  with transition_table(2)[OF dg] me have pos: "nat (my_rank nv) < length rs" by simp
  have "quiet (gms_sst g) (gms_sst ga)" "curr_view ga = curr_view g" using quiet_ragged_edge[OF cleaned] by simp_all
  with commit_join_frame[OF gb]
  have old: "gms_cols (rows (gms_sst (make_way nv gb)) ! nat (my_rank (curr_view (make_way nv gb)))) = gms_cols (local_row (gms_sst g))"
    using i by (simp add: make_way_frame sst_simps quiet_def local_row_def)
  have "local_row (gms_sst h) = local_row (dg_sst dg)" using h(4,5) by (simp add: local_row_def)
  moreover have "carried (local_row (gms_sst g)) (local_row (dg_sst dg))" "suspected (local_row (dg_sst dg)) = replicate N False"
    using transition_table(4)[OF dg me(1) pos] old by (simp_all add: carried_def gms_cols_cong)
  ultimately have "entering N (local_row (gms_sst g)) nv h"
    using transition_table(1,3)[OF dg] h by (auto simp: entering_def)
  moreover have "next_view a = None" using h(3) first_task_next_view[of N h] by (simp add: a up)
  ultimately show ?thesis using sst up by (auto simp: hands_over_def a)
qed


section \<open>The handover as an invariant\<close>

text \<open>The next view of member \<open>p\<close> is one it has computed from this view.\<close>

definition made_in :: "view \<Rightarrow> nat \<Rightarrow> nat \<Rightarrow> view \<Rightarrow> bool" where
  "made_in V l p nv \<longleftrightarrow> (\<exists>v c ip. view_wf v \<and> vid v = vid V \<and> members v = members V \<and> num_members v = num_members V \<and>
     my_rank v = int p \<and> rank_of_leader v = int l \<and> next_view_of v c ip = Inr nv)"

definition handed :: "nat \<Rightarrow> nat \<Rightarrow> nat \<Rightarrow> view \<Rightarrow> 'o gms_cluster \<Rightarrow> bool" where
  "handed n N l V C \<longleftrightarrow>
     (\<forall>p < n. \<forall>nv. next_view (gnode C p) = Some nv \<longrightarrow> made_in V l p nv) \<and>
     (\<forall>p a. installed C p = Some a \<longrightarrow> p < n \<and> (\<exists>nv. next_view (gnode C p) = Some nv \<and>
        (nat (my_rank nv) < num_rows (gms_sst a) \<longrightarrow> hands_over N (own C p) nv a)))"

lemma mark_failed_next_view: "mark_failed N q g = Inr g' \<Longrightarrow> next_view g' = next_view g"
  by (cases "g' = g") (auto elim: mark_failed_effect)

lemma mark_failed_all_next_view: "mark_failed_all N qs g = Inr g' \<Longrightarrow> next_view g' = next_view g"
  by (induction qs arbitrary: g) (auto dest!: mark_failed_next_view)

lemma m_step_next_view:
  assumes "m_step N l g g'"
  shows "next_view g' = next_view g \<or>
    (\<exists>nv c ip. next_view g' = Some nv \<and> next_view_of (curr_view g) c ip = Inr nv)"
  using assms
proof cases
  case m_suspect
  then show ?thesis by (auto simp: suspected_changed_trig_def dest!: mark_failed_all_next_view)
next
  case m_report
  then show ?thesis by (auto simp: report_failure_def Let_def split: if_splits)
next
  case m_join
  then show ?thesis by (auto simp: start_join_trig_def receive_join_def Let_def split: if_splits list.splits)
next
  case m_ack
  then show ?thesis by (auto simp: ack_proposed_change_def Let_def split: if_splits)
next
  case (m_start g1)
  then obtain nv c ip where "next_view_of (curr_view g) c ip = Inr nv" "next_view g1 = Some nv"
    by (auto simp: start_view_change_def Let_def)
  with m_start show ?thesis by (auto simp: fired_def)
next
  case m_wedged
  then show ?thesis by (auto simp: fired_def dest: quiet_meta_wedged)
qed (auto simp: commit_change_def barrier_sync_def leave_def Let_def upd_sst_def upd_group_def)

lemma made_in_step:
  assumes "gms_inv n N l V C" "p < n" "next_view_of (curr_view (gnode C p)) c ip = Inr nv"
  shows "made_in V l p nv"
proof -
  note P = inv_parts[OF assms(1,2)]
  then have "num_members (curr_view (gnode C p)) = num_members V" by (simp add: in_view_def gms_leader_def)
  with P(6) assms(3) show ?thesis unfolding made_in_def in_view_def by blast
qed

lemma handed_same:
  assumes "handed n N l V C" "installed C p = None"
    and "\<And>nv. p < n \<Longrightarrow> next_view g = Some nv \<Longrightarrow> made_in V l p nv"
  shows "handed n N l V (set_gnode p g C)"
proof -
  have "p \<noteq> q" if "installed C q = Some a" for q a using assms(2) that by auto
  with assms show ?thesis by (fastforce simp: handed_def)
qed

lemma continues_hands_over:
  assumes go: "continues N g a" and nv: "next_view g = Some nv" and me: "0 \<le> my_rank nv" "nat (my_rank nv) < num_rows (gms_sst a)"
    and i: "nat (my_rank (curr_view g)) = local_index (gms_sst g)"
  shows "hands_over N (local_row (gms_sst g)) nv a"
proof -
  from go obtain rs ok u b where "globalMin_ready_continuation N rs ok u b g = Inr a"
    unfolding continues_def using meta_wedged_leader by blast
  then show ?thesis using nv me i by (rule continuation_hands_over)
qed

lemma next_view_my_rank:
  assumes "view_wf v" "next_view_of v c ip = Inr nv"
  shows "0 \<le> my_rank nv \<and> my_rank nv < num_members nv \<and> members nv ! nat (my_rank nv) = members v ! nat (my_rank v) \<and>
    num_members nv = int (length (members nv))"
  using next_view_members[OF assms(1), of c ip] assms(2) by (auto split: if_splits)

lemma own_install: "own (install p a C) = own C"
  by (simp add: own_def fun_eq_iff)

lemma handed_install:
  assumes "handed n N l V C" "p < n" "next_view (gnode C p) = Some nv"
    and "nat (my_rank nv) < num_rows (gms_sst a) \<Longrightarrow> hands_over N (own C p) nv a"
  shows "handed n N l V (install p a C)"
  using assms by (auto simp: handed_def own_install)

lemma handed_start: "gms_start n N l V C \<Longrightarrow> handed n N l V C"
  by (simp add: gms_start_def handed_def)

lemma handed_step:
  assumes inv: "gms_inv n N l V C" and H: "handed n N l V C" and step: "gms_step n N l C D"
  shows "handed n N l V D"
  using step
proof cases
  case (g_member p g')
  have old: "made_in V l p nv" if "next_view (gnode C p) = Some nv" "p < n" for nv
    using H that by (auto simp: handed_def)
  show ?thesis
    unfolding g_member(1)
  proof (rule handed_same[OF H g_member(3)])
    fix nv assume "p < n" "next_view g' = Some nv"
    with m_step_next_view[OF g_member(4)] show "made_in V l p nv"
      using old made_in_step[OF inv] by auto
  qed
next
  case (g_install p g' g1)
  note P = inv_parts[OF inv g_install(2)] and q = quiet_ragged_edge[OF g_install(5)]
  obtain nv where nv: "next_view (gnode C p) = Some nv" using continues_view[OF g_install(4)] by auto
  then have made: "made_in V l p nv" using H g_install(2) by (auto simp: handed_def)
  then have "0 \<le> my_rank nv" using next_view_my_rank by (auto simp: made_in_def)
  with continues_hands_over[OF g_install(4) nv] P(7,8,10)
  have "nat (my_rank nv) < num_rows (gms_sst g') \<Longrightarrow> hands_over N (own C p) nv g'" by simp
  moreover have "gms_cols (local_row (gms_sst g1)) = gms_cols (own C p)" using quiet_cols q P(7) by metis
  then have "hands_over N (own (set_gnode p g1 C) p) w a = hands_over N (own C p) w a" for w a
    by (simp add: hands_over_def entering_def carried_def gms_cols_cong)
  moreover have "handed n N l V (set_gnode p g1 C)"
    using made nv q by (intro handed_same[OF H g_install(3)]) auto
  ultimately show ?thesis
    unfolding g_install(1) using g_install(2) q nv by (intro handed_install[where nv = nv]) auto
next
  case (g_row p r row)
  have "own D x = own C x" for x
    using g_row inv_parts(8)[OF inv g_row(2)] by (simp add: own_def local_row_def set_row_def)
  with H show ?thesis using g_row(1) by (simp add: handed_def)
qed

section \<open>Nobody commits before the leader\<close>

text \<open>
  A member other than the leader takes its count of committed changes from the leader's row,
  so it never has more than the leader. What begins a view has this beside the start of the
  protocol.
\<close>

definition commits_lag :: "nat \<Rightarrow> nat \<Rightarrow> 'o gms_cluster \<Rightarrow> bool" where
  "commits_lag n l C \<longleftrightarrow> (\<forall>p < n. nCommitted (own C p) \<le> nCommitted (own C l))"

definition begins_view :: "nat \<Rightarrow> nat \<Rightarrow> nat \<Rightarrow> view \<Rightarrow> 'o gms_cluster \<Rightarrow> bool" where
  "begins_view n N l V C \<longleftrightarrow> gms_start n N l V C \<and> commits_lag n l C"

abbreviation commits :: "'o managed \<Rightarrow> int" where
  "commits g \<equiv> nCommitted (local_row (gms_sst g))"

lemma quiet_commits: "quiet (gms_sst g) (gms_sst g') \<Longrightarrow> commits g' = commits g"
  using quiet_cols[of "gms_sst g" "gms_sst g'"] by (simp add: gms_cols_cong)

lemma commits_upd_local:
  "(\<And>r. nCommitted (f r) = nCommitted r) \<Longrightarrow> nCommitted (local_row (upd_local f s)) = nCommitted (local_row s)"
  by (cases "local_index s < num_rows s") (auto simp: sst_simps local_row_def list_update_beyond not_less)

lemma mark_failed_commits: "mark_failed N q g = Inr g' \<Longrightarrow> commits g' = commits g"
proof (cases "g' = g")
  case False
  assume "mark_failed N q g = Inr g'"
  from mark_failed_effect[OF this False] obtain s where s: "quiet (gms_sst g) s"
    "gms_sst g' = s \<or> gms_sst g' = put (upd_local (propose_change N (members (curr_view g) ! q)) s)" by metis
  have "nCommitted (local_row s) = commits g" using quiet_cols[OF s(1)] by (simp add: gms_cols_cong)
  moreover have "nCommitted (local_row (put (upd_local (propose_change N x) s))) = nCommitted (local_row s)" for x
    using commits_upd_local[of "propose_change N x" s] by (simp add: propose_change_def sst_simps)
  ultimately show ?thesis using s(2) by auto
qed simp

lemma mark_failed_all_commits: "mark_failed_all N qs g = Inr g' \<Longrightarrow> commits g' = commits g"
  by (induction qs arbitrary: g) (auto dest!: mark_failed_commits)

lemma m_step_commits:
  assumes inv: "gms_inv n N l V C" and p: "p < n" and step: "m_step N l (gnode C p) g'"
  shows "commits g' = nCommitted (own C p) \<or> p = l \<and> nCommitted (own C l) \<le> commits g' \<or>
    commits g' = nCommitted (rows (gms_sst (gnode C p)) ! l)"
proof -
  let ?g = "gnode C p"
  note P = inv_parts[OF inv p]
  have quiet_case: "commits g = nCommitted (own C p)" if "quiet (gms_sst ?g) (gms_sst g)" for g
    using quiet_commits[OF that] P(7) by simp
  from step show ?thesis
  proof cases
    case m_suspect
    then obtain g1 where g1: "mark_failed_all N [0..<size_of (curr_view ?g)] (upd_sst (aggregate_suspicions (size_of (curr_view ?g))) ?g) = Inr g1"
      "gms_sst g' = gms_sst g1" by (auto simp: suspected_changed_trig_def)
    have "quiet (gms_sst ?g) (gms_sst (upd_sst (aggregate_suspicions k) ?g))" for k
      by (auto simp: aggregate_suspicions_def absorb_suspicions_def gms_cols_def intro!: quiet_foldl quiet_upd_local)
    with mark_failed_all_commits[OF g1(1)] g1(2) show ?thesis using quiet_case by metis
  next
    case (m_report q)
    then show ?thesis using quiet_case quiet_report[OF m_report] by blast
  next
    case (m_connect c)
    then show ?thesis using quiet_case[of ?g] by (simp add: P(7))
  next
    case m_join
    then obtain c cs r where g': "g' = upd_sst put (view_wedge (upd_sst (set_row p r) (?g\<lparr>joining_client := Some c, pending_joins := cs\<rparr>)))"
      and r: "nCommitted r = nCommitted (rows (gms_sst ?g) ! p)"
      by (auto simp: start_join_trig_def receive_join_def Let_def P(10) split: list.splits if_splits)
    have "local_row (set_row p r (gms_sst ?g)) = r" using P(8,9) p by (simp add: local_row_def set_row_def)
    then show ?thesis
      using r own_is_copy[OF P(1) p] by (auto simp: g' sst_simps quiet_commits[OF quiet_view_wedge])
  next
    case m_commit
    then show ?thesis
      using P p by (auto simp: change_commit_ready_def commit_change_def sst_simps)
  next
    case m_ack
    then show ?thesis
      using P p
      by (auto simp: ack_proposed_change_def leader_row_def echo_leader_def Let_def sst_simps quiet_commits[OF quiet_view_wedge] split: if_splits)
  next
    case (m_start g1)
    have "quiet (gms_sst ?g) (gms_sst g')"
      using quiet_start_view_change[OF m_start(4)] quiet_trans[OF _ quiet_preds(3), of "gms_sst ?g" "gms_sst g1"] m_start(1) by (simp add: fired_def)
    then show ?thesis using quiet_case by blast
  next
    case (m_wedged b w rs ok u g1)
    then show ?thesis using quiet_meta_wedged[OF m_wedged(5,4)] quiet_case by blast
  next
    case (m_group dg)
    then have "quiet (gms_sst ?g) (gms_sst g')" using quiet_group_turn by simp
    with quiet_case show ?thesis by blast
  next
    case m_barrier
    then show ?thesis using quiet_case[of g'] by (simp add: barrier_sync_def quiet_preds)
  next
    case m_leave
    then show ?thesis using quiet_leave quiet_case by blast
  qed
qed

lemma commits_lag_step:
  assumes inv: "gms_inv n N l V C" and lag: "commits_lag n l C" and step: "gms_step n N l C D"
  shows "commits_lag n l D"
  using step
proof cases
  case (g_member p g')
  note P = inv_parts[OF inv g_member(2)]
  have "nCommitted (rows (gms_sst (gnode C p)) ! l) \<le> nCommitted (own C l)"
    using gms_tableD(4)[OF P(1) g_member(2) P(4)] by (simp add: lags_def)
  with m_step_commits[OF inv g_member(2,4)] lag g_member(2)
  have g': "commits g' \<le> (if p = l then commits g' else nCommitted (own C l))"
    "p = l \<Longrightarrow> nCommitted (own C l) \<le> commits g'"
    unfolding commits_lag_def using own_is_copy[OF P(1) P(4)] by auto
  show ?thesis
    unfolding commits_lag_def
  proof (intro allI impI)
    fix q assume "q < n"
    with lag have "nCommitted (own C q) \<le> nCommitted (own C l)" by (simp add: commits_lag_def)
    with g' show "nCommitted (own D q) \<le> nCommitted (own D l)" unfolding g_member(1) by (auto split: if_splits)
  qed
next
  case (g_install p g' g1)
  note P = inv_parts[OF inv g_install(2)] and q = quiet_ragged_edge[OF g_install(5)]
  have "commits g1 = nCommitted (own C p)" using quiet_commits q P(7) by metis
  with lag show ?thesis unfolding g_install(1) commits_lag_def own_install by auto
next
  case (g_row p r row)
  have "own D x = own C x" for x
    using g_row inv_parts(8)[OF inv g_row(2)] by (simp add: own_def local_row_def set_row_def)
  with lag show ?thesis by (simp add: commits_lag_def)
qed

interpretation handover: state_machine "begins_view n N l V" "gms_step n N l"
  "\<lambda>C. gms_inv n N l V C \<and> handed n N l V C \<and> commits_lag n l C"
  for n N l V
  by unfold_locales (auto simp: begins_view_def intro: gms_start_inv handed_start inv_step handed_step commits_lag_step)

end
