(* ===== verification/View_Io.thy ===== *)
theory View_Io
  imports View
begin

text \<open>
  Views outside memory (\<^verbatim>\<open>view_impl.h\<close>): the description for people, the plain text that
  \<^verbatim>\<open>parse_state_file\<close> prints and \<^verbatim>\<open>create_state_file\<close> reads, and the saved-state file
  with its swap file. The serialisation of a view to bytes is another library's: \<open>to_bytes\<close>
  and \<open>from_bytes\<close> are parameters.
\<close>

section \<open>Streams of characters\<close>

definition is_space :: "char \<Rightarrow> bool" where
  "is_space c \<longleftrightarrow> (let n = of_char c :: nat in n = 32 \<or> 9 \<le> n \<and> n \<le> 13)"

definition newline :: char where
  "newline = CHR 0x0A"

text \<open>\<^verbatim>\<open>std::getline\<close>: \<open>None\<close> when the stream fails.\<close>

definition getline :: "string \<Rightarrow> (string \<times> string) option" where
  "getline s = (if s = [] then None
     else Some (takeWhile (\<lambda>c. c \<noteq> newline) s, drop 1 (dropWhile (\<lambda>c. c \<noteq> newline) s)))"

text \<open>One extraction of a word, and of an unsigned 32-bit number in decimal.\<close>

definition read_word :: "string \<Rightarrow> (string \<times> string) option" where
  "read_word s =
     (let t = dropWhile is_space s
      in if t = [] then None
         else Some (takeWhile (\<lambda>c. \<not> is_space c) t, dropWhile (\<lambda>c. \<not> is_space c) t))"

definition take_sign :: "string \<Rightarrow> bool \<times> string" where
  "take_sign s = (case s of [] \<Rightarrow> (False, [])
     | c # t \<Rightarrow> if c = CHR ''-'' then (True, t) else if c = CHR ''+'' then (False, t) else (False, s))"

definition read_u32 :: "string \<Rightarrow> (u32 \<times> string) option" where
  "read_u32 s =
     (let (neg, t) = take_sign (dropWhile is_space s); ds = takeWhile is_digit t; v = digits_value ds
      in if ds = [] \<or> v \<ge> 2 ^ 32 then None
         else Some (if neg then - word_of_nat v else word_of_nat v, dropWhile is_digit t))"

text \<open>\<^verbatim>\<open>std::stoi\<close>.\<close>

definition stoi :: "string \<Rightarrow> int result" where
  "stoi s =
     (let (neg, t) = take_sign (dropWhile is_space s); ds = takeWhile is_digit t;
          v = (if neg then - int (digits_value ds) else int (digits_value ds))
      in if ds = [] then Inl (Throw ''invalid_argument'')
         else if v < - (2 ^ 31) \<or> v \<ge> 2 ^ 31 then Inl (Throw ''out_of_range'')
         else Inr v)"

lemma length_dropWhile_less: "s \<noteq> [] \<Longrightarrow> P (hd s) \<Longrightarrow> length (dropWhile P s) < length s"
  using length_dropWhile_le[of P "tl s"] by (cases s) auto

lemma take_sign_length: "take_sign s = (neg, t) \<Longrightarrow> length t \<le> length s"
  by (cases s) (auto simp: take_sign_def split: if_splits)

lemma read_u32_shorter: "read_u32 s = Some (v, t) \<Longrightarrow> length t < length s"
proof -
  assume r: "read_u32 s = Some (v, t)"
  obtain neg u where u: "take_sign (dropWhile is_space s) = (neg, u)" by fastforce
  from r u have ds: "takeWhile is_digit u \<noteq> []" and t: "t = dropWhile is_digit u"
    by (auto simp: read_u32_def Let_def split: if_splits)
  then have "u \<noteq> []" "is_digit (hd u)" by (cases u; auto split: if_splits)+
  then have "length t < length u" unfolding t by (rule length_dropWhile_less)
  also have "length u \<le> length (dropWhile is_space s)"
    using u by (rule take_sign_length)
  also have "\<dots> \<le> length s" by (rule length_dropWhile_le)
  finally show ?thesis .
qed

lemma read_word_shorter: "read_word s = Some (w, t) \<Longrightarrow> length t < length s"
proof -
  assume r: "read_word s = Some (w, t)"
  let ?u = "dropWhile is_space s"
  from r have u: "?u \<noteq> []" and t: "t = dropWhile (\<lambda>c. \<not> is_space c) ?u"
    by (auto simp: read_word_def Let_def split: if_splits)
  have "\<not> is_space (hd ?u)" using u by (rule hd_dropWhile)
  with u have "length t < length ?u" unfolding t by (intro length_dropWhile_less) simp_all
  also have "\<dots> \<le> length s" by (rule length_dropWhile_le)
  finally show ?thesis .
qed

text \<open>\<^verbatim>\<open>std::istream_iterator\<close>: extract until the stream fails.\<close>

function read_words :: "string \<Rightarrow> string list" where
  "read_words s = (case read_word s of None \<Rightarrow> [] | Some (w, t) \<Rightarrow> w # read_words t)"
  by pat_completeness auto
termination by (relation "measure length") (auto dest: read_word_shorter)

function read_u32s :: "string \<Rightarrow> u32 list" where
  "read_u32s s = (case read_u32 s of None \<Rightarrow> [] | Some (v, t) \<Rightarrow> v # read_u32s t)"
  by pat_completeness auto
termination by (relation "measure length") (auto dest: read_u32_shorter)

declare read_words.simps [simp del] read_u32s.simps [simp del]

section \<open>The plain text\<close>

definition show_list :: "('a \<Rightarrow> string) \<Rightarrow> 'a list \<Rightarrow> string" where
  "show_list f xs = concat (map (\<lambda>x. f x @ '' '') xs)"

definition show_u32 :: "u32 \<Rightarrow> string" where
  "show_u32 x = show_nat (unat x)"

definition write_view :: "view \<Rightarrow> string" where
  "write_view v =
     show_int (vid v) @ [newline] @
     show_list show_u32 (members v) @ [newline] @
     show_list (\<lambda>ip. ip) (member_ips v) @ [newline] @
     show_list (\<lambda>f. if f then ''T'' else ''F'') (failed v) @ [newline] @
     show_int (nFailed v) @ [newline] @ show_int (num_members v) @ [newline] @ show_int (my_rank v) @ [newline]"

text \<open>A line is read and used, or the stream has failed and the rest of the view is left alone.\<close>

definition with_line :: "(string \<Rightarrow> view \<Rightarrow> view result) \<Rightarrow> string \<times> view \<Rightarrow> (string \<times> view) result" where
  "with_line f sv = (case sv of (s, v) \<Rightarrow>
     (case getline s of None \<Rightarrow> Inr (s, v)
      | Some (line, t) \<Rightarrow> bindE (f line v) (\<lambda>v'. Inr (t, v'))))"

definition read_view :: "view \<Rightarrow> string \<Rightarrow> view result" where
  "read_view view0 stream =
     bindE (with_line (\<lambda>l v. bindE (stoi l) (\<lambda>i. Inr (v\<lparr>vid := i\<rparr>))) (stream, view0)) (\<lambda>sv.
     bindE (with_line (\<lambda>l v. Inr (v\<lparr>members := members v @ read_u32s l\<rparr>)) sv) (\<lambda>sv.
     bindE (with_line (\<lambda>l v. Inr (v\<lparr>member_ips := member_ips v @ read_words l\<rparr>)) sv) (\<lambda>sv.
     bindE (with_line (\<lambda>l v. Inr (v\<lparr>failed := failed v @ map (\<lambda>w. w = ''T'') (read_words l)\<rparr>)) sv) (\<lambda>sv.
     bindE (with_line (\<lambda>l v. bindE (stoi l) (\<lambda>i. Inr (v\<lparr>nFailed := i\<rparr>))) sv) (\<lambda>sv.
     bindE (with_line (\<lambda>l v. bindE (stoi l) (\<lambda>i. Inr (v\<lparr>num_members := i\<rparr>))) sv) (\<lambda>sv.
     bindE (with_line (\<lambda>l v. bindE (stoi l) (\<lambda>i. Inr (v\<lparr>my_rank := i\<rparr>))) sv) (\<lambda>sv.
       Inr (snd sv))))))))"

section \<open>Reading back what was written\<close>

lemma digit_not_space: "is_digit c \<Longrightarrow> \<not> is_space c"
  by (auto simp: is_digit_def is_space_def Let_def)

lemma space_space [simp]: "is_space CHR '' ''"
  by (simp add: is_space_def)

lemma newline_facts [simp]: "is_space newline" "\<not> is_digit newline"
  by (simp_all add: is_space_def newline_def is_digit_def)

lemma digit_neq [simp]: "is_digit c \<Longrightarrow> c \<noteq> CHR ''-''" "is_digit c \<Longrightarrow> c \<noteq> CHR ''+''"
    "is_digit c \<Longrightarrow> c \<noteq> newline" "\<not> is_digit CHR '' ''"
  by (auto simp: is_digit_def newline_def)

lemma takeWhile_digits: "takeWhile is_digit (show_nat n @ t) = show_nat n @ takeWhile is_digit t"
    "dropWhile is_digit (show_nat n @ t) = dropWhile is_digit t"
  using show_nat_digits by (auto simp: takeWhile_append2 dropWhile_append2)

lemma takeWhile_show [simp]: "takeWhile is_digit (show_nat n) = show_nat n"
  using takeWhile_digits(1)[of n "[]"] by simp

lemma show_nat_head: "\<exists>c cs. show_nat n = c # cs \<and> is_digit c"
  using show_nat_digits[of "hd (show_nat n)" n] by (cases "show_nat n") auto

lemma take_sign_nat: "take_sign (dropWhile is_space (show_nat n @ t)) = (False, show_nat n @ t)"
  using show_nat_head[of n] digit_not_space by (auto simp: take_sign_def)

lemma stoi_show: "- (2 ^ 31) \<le> i \<Longrightarrow> i < 2 ^ 31 \<Longrightarrow> stoi (show_int i) = Inr i"
proof (cases "i < 0")
  case True
  assume b: "- (2 ^ 31) \<le> i" "i < 2 ^ 31"
  have "take_sign (dropWhile is_space (show_int i)) = (True, show_nat (nat (- i)))"
    using True by (simp add: show_int_def take_sign_def is_space_def)
  with True b show ?thesis
    by (simp add: stoi_def Let_def)
next
  case False
  assume b: "- (2 ^ 31) \<le> i" "i < 2 ^ 31"
  have "take_sign (dropWhile is_space (show_int i)) = (False, show_nat (nat i))"
    using False take_sign_nat[of "nat i" "[]"] by (simp add: show_int_def)
  with False b show ?thesis
    by (simp add: stoi_def Let_def)
qed

lemma read_u32s_show: "read_u32s (show_list show_u32 xs) = xs"
proof (induction xs)
  case Nil
  show ?case by (subst read_u32s.simps) (simp add: show_list_def read_u32_def take_sign_def)
next
  case (Cons x xs)
  let ?t = "'' '' @ show_list show_u32 xs"
  have s: "show_list show_u32 (x # xs) = show_nat (unat x) @ ?t" by (simp add: show_list_def show_u32_def)
  have "read_u32 (show_nat (unat x) @ ?t) = Some (x, ?t)"
    unfolding read_u32_def take_sign_nat Let_def using unsigned_less[of x, where 'a = nat]
    by (simp add: takeWhile_digits)
  then have "read_u32s (show_list show_u32 (x # xs)) = x # read_u32s ?t"
    unfolding s by (subst read_u32s.simps) simp
  also have "read_u32s ?t = read_u32s (show_list show_u32 xs)"
    by (subst (1 2) read_u32s.simps) (simp add: read_u32_def)
  finally show ?case using Cons by simp
qed

definition plain_word :: "string \<Rightarrow> bool" where
  "plain_word w \<longleftrightarrow> w \<noteq> [] \<and> list_all (\<lambda>c. \<not> is_space c) w"

lemma read_words_show:
  "\<forall>x \<in> set xs. plain_word (f x) \<Longrightarrow> read_words (show_list f xs) = map f xs"
proof (induction xs)
  case Nil
  show ?case by (subst read_words.simps) (simp add: show_list_def read_word_def)
next
  case (Cons x xs)
  let ?t = "'' '' @ show_list f xs"
  have s: "show_list f (x # xs) = f x @ ?t" by (simp add: show_list_def)
  from Cons.prems obtain c cs where f: "f x = c # cs" "\<not> is_space c" "\<forall>c \<in> set cs. \<not> is_space c"
    by (cases "f x") (auto simp: plain_word_def list_all_iff)
  have "read_word (f x @ ?t) = Some (f x, ?t)"
    using f by (simp add: read_word_def takeWhile_append2 dropWhile_append2)
  then have "read_words (show_list f (x # xs)) = f x # read_words ?t"
    unfolding s by (subst read_words.simps) simp
  also have "read_words ?t = read_words (show_list f xs)"
    by (subst (1 2) read_words.simps) (simp add: read_word_def)
  finally show ?case using Cons by simp
qed

lemma getline_line: "newline \<notin> set l \<Longrightarrow> getline (l @ newline # t) = Some (l, t)"
  by (induction l) (auto simp: getline_def)

lemma no_newline:
  "newline \<notin> set (show_int i)" "newline \<notin> set (show_list show_u32 xs)"
  "\<forall>x \<in> set ys. plain_word (f x) \<Longrightarrow> newline \<notin> set (show_list f ys)"
  using show_nat_digits digit_neq(3)
  by (auto simp: show_int_def show_list_def show_u32_def newline_def plain_word_def list_all_iff is_space_def
      split: if_splits) (force simp: newline_def)+

definition int32 :: "int \<Rightarrow> bool" where
  "int32 i \<longleftrightarrow> - (2 ^ 31) \<le> i \<and> i < 2 ^ 31"

text \<open>
  The state file's text round trip: what \<^verbatim>\<open>create_state_file\<close> parses from the text
  \<^verbatim>\<open>parse_state_file\<close> prints is the same view, if its numbers fit an \<^verbatim>\<open>int\<close> and no
  address is empty or contains white space. Only \<^verbatim>\<open>who\<close> and \<^verbatim>\<open>IKnowIAmLeader\<close>, which
  are not printed, are lost.
\<close>

lemma view_text_roundtrip:
  assumes "int32 (vid v)" "int32 (nFailed v)" "int32 (num_members v)" "int32 (my_rank v)"
    and "\<forall>ip \<in> set (member_ips v). plain_word ip"
  shows "read_view empty_view (write_view v) = Inr (v\<lparr>who := None, IKnowIAmLeader := False\<rparr>)"
proof -
  have tf: "\<forall>f \<in> set (failed v). plain_word (if f then ''T'' else ''F'')"
    by (simp add: plain_word_def is_space_def)
  have "map (\<lambda>w. w = ''T'') (read_words (show_list (\<lambda>f. if f then ''T'' else ''F'') (failed v))) = failed v"
    unfolding read_words_show[OF tf] map_map by (rule map_idI) simp
  moreover have "read_words (show_list (\<lambda>ip. ip) (member_ips v)) = member_ips v"
    using read_words_show[of "member_ips v" "\<lambda>ip. ip"] assms(5) by simp
  ultimately show ?thesis
    using assms no_newline(1,2) no_newline(3)[of "member_ips v" "\<lambda>ip. ip"] no_newline(3)[OF tf]
    unfolding read_view_def write_view_def with_line_def
    by (simp add: getline_line stoi_show int32_def read_u32s_show empty_view_def new_view_def)
qed

definition sample_view :: view where
  "sample_view = \<lparr>vid = 7, members = [10, 4294967295], member_ips = [''10.0.0.1'', ''b''], failed = [True, False],
     nFailed = 1, who = Some 3, num_members = 2, my_rank = -1, IKnowIAmLeader = True\<rparr>"

lemma view_text_roundtrip_witness:
  "read_view empty_view (write_view sample_view) = Inr (sample_view\<lparr>who := None, IKnowIAmLeader := False\<rparr>)"
  by (rule view_text_roundtrip) (simp_all add: sample_view_def int32_def plain_word_def is_space_def)

section \<open>The description for people\<close>

definition ToString :: "view \<Rightarrow> string" where
  "ToString v =
     ''View '' @ show_int (vid v) @ '': MyRank='' @ show_int (my_rank v) @ ''. '' @
     ''Members={'' @ '' '' @ concat (map (\<lambda>m. show_u32 (members v ! m) @ ''  '') [0..<size_of v]) @ ''}, '' @
     ''Failed={'' @ '' '' @ concat (map (\<lambda>m. if failed v ! m then '' T '' else '' F '') [0..<size_of v]) @
     '' }, nFailed='' @ show_int (nFailed v) @
     (case Departed v of None \<Rightarrow> [] | Some p \<Rightarrow> '', Departed: '' @ show_u32 p) @
     (case Joined v of None \<Rightarrow> [] | Some p \<Rightarrow> '', Joined: '' @ show_u32 p)"

section \<open>The saved-state file\<close>

type_synonym disk = "string \<Rightarrow> bytes option"

definition SWAP_FILE_EXTENSION :: string where
  "SWAP_FILE_EXTENSION = ''.swp''"

text \<open>The bytes of a saved view: its size, then the view.\<close>

definition saved_bytes :: "(view \<Rightarrow> bytes) \<Rightarrow> view \<Rightarrow> bytes" where
  "saved_bytes to_bytes v = enc64 (word_of_nat (length (to_bytes v))) @ to_bytes v"

text \<open>
  \<^verbatim>\<open>persist_view\<close>: the swap file is truncated and written, then renamed over the view
  file. \<open>write_swap\<close> is the disk when \<open>k\<close> bytes have reached the swap file.
\<close>

definition write_swap :: "(view \<Rightarrow> bytes) \<Rightarrow> view \<Rightarrow> string \<Rightarrow> nat \<Rightarrow> disk \<Rightarrow> disk" where
  "write_swap to_bytes v name k d = d(name @ SWAP_FILE_EXTENSION \<mapsto> take k (saved_bytes to_bytes v))"

definition rename :: "string \<Rightarrow> string \<Rightarrow> disk \<Rightarrow> disk" where
  "rename from_name to_name d = (d(to_name := d from_name))(from_name := None)"

definition persist_view :: "(view \<Rightarrow> bytes) \<Rightarrow> bool \<Rightarrow> view \<Rightarrow> string \<Rightarrow> disk \<Rightarrow> disk" where
  "persist_view to_bytes rename_ok v name d =
     (let d = write_swap to_bytes v name (length (saved_bytes to_bytes v)) d
      in if rename_ok then rename (name @ SWAP_FILE_EXTENSION) name d else d)"

text \<open>
  Reading one of the two files. A file shorter than the size field leaves the variable for
  the size uninitialised, and an array of that size is made before the stream is tested.
\<close>

definition read_saved :: "(bytes \<Rightarrow> view) \<Rightarrow> bytes option \<Rightarrow> view option result" where
  "read_saved from_bytes f =
     (case f of None \<Rightarrow> Inr None
      | Some bs \<Rightarrow>
          if length bs < 8 then Inl (Undefined ''size_of_view read uninitialised'')
          else if length bs < 8 + unat (dec64 bs) then Inr None
          else Inr (Some (from_bytes (take (unat (dec64 bs)) (drop 8 bs)))))"

definition load_view :: "(bytes \<Rightarrow> view) \<Rightarrow> string \<Rightarrow> disk \<Rightarrow> view option result" where
  "load_view from_bytes name d =
     bindE (read_saved from_bytes (d name)) (\<lambda>saved.
     bindE (read_saved from_bytes (d (name @ SWAP_FILE_EXTENSION))) (\<lambda>swap.
       Inr (case swap of None \<Rightarrow> saved
            | Some s \<Rightarrow> (case saved of
                 Some v \<Rightarrow> if vid v \<ge> vid s then saved else swap
               | None \<Rightarrow> swap))))"

lemma length_saved: "length (saved_bytes to_bytes v) = 8 + length (to_bytes v)"
  by (simp add: saved_bytes_def u64_codec.enc_length)

lemma read_saved_prefix:
  assumes size: "length (to_bytes v) < 2 ^ 64" and inverse: "from_bytes (to_bytes v) = w"
    and k: "k \<le> length (saved_bytes to_bytes v)"
  shows "read_saved from_bytes (Some (take k (saved_bytes to_bytes v))) =
    (if k < 8 then Inl (Undefined ''size_of_view read uninitialised'')
     else if k < length (saved_bytes to_bytes v) then Inr None else Inr (Some w))"
proof (cases "k < 8")
  case True
  then show ?thesis using k by (simp add: read_saved_def)
next
  case False
  let ?e = "enc64 (word_of_nat (length (to_bytes v)))"
  obtain j where j: "k = 8 + j" using False by (metis le_add_diff_inverse not_less)
  have t: "take k (saved_bytes to_bytes v) = ?e @ take j (to_bytes v)"
    by (simp add: saved_bytes_def j u64_codec.enc_length)
  have n: "unat (dec64 (?e @ take j (to_bytes v))) = length (to_bytes v)"
    using size by (simp add: u64_codec.dec_enc unat_of_nat)
  have le: "j \<le> length (to_bytes v)" using k by (simp add: j length_saved)
  show ?thesis
    unfolding read_saved_def t option.case n using le inverse False
    by (auto simp: j length_saved u64_codec.enc_length)
qed

lemma swap_name [simp]: "SWAP_FILE_EXTENSION \<noteq> []"
  by (simp add: SWAP_FILE_EXTENSION_def)

text \<open>
  C28. A crash while a view is saved. With the old view on disk, and \<open>k\<close> bytes of the new
  one in the swap file, loading returns the old view until the swap file is complete, and
  from then on the newer of the two; after the rename it returns the new view. The views are
  returned as the serialisation library reads them back (\<open>old'\<close>, \<open>new'\<close>), which for a view is
  without \<^verbatim>\<open>who\<close> and \<^verbatim>\<open>IKnowIAmLeader\<close>. The one gap is a crash within the first eight
  bytes: \<^verbatim>\<open>load_view\<close> then uses a size it never read.
\<close>

theorem save_is_crash_safe:
  assumes size: "length (to_bytes old) < 2 ^ 64" "length (to_bytes new) < 2 ^ 64"
    and inverse: "from_bytes (to_bytes old) = old'" "from_bytes (to_bytes new) = new'"
    and disk: "d name = Some (saved_bytes to_bytes old)"
    and k: "k \<le> length (saved_bytes to_bytes new)"
  shows "load_view from_bytes name (write_swap to_bytes new name k d) =
      (if k < 8 then Inl (Undefined ''size_of_view read uninitialised'')
       else if k < length (saved_bytes to_bytes new) \<or> vid new' \<le> vid old' then Inr (Some old') else Inr (Some new')) \<and>
    load_view from_bytes name (persist_view to_bytes True new name d) = Inr (Some new')"
proof -
  note old = read_saved_prefix[where to_bytes = to_bytes and from_bytes = from_bytes and v = old and
      k = "length (saved_bytes to_bytes old)", OF size(1) inverse(1) order_refl, simplified length_saved, simplified]
  note new = read_saved_prefix[where to_bytes = to_bytes and from_bytes = from_bytes and v = new, OF size(2) inverse(2)]
  have o: "read_saved from_bytes (Some (saved_bytes to_bytes old)) = Inr (Some old')"
    using old length_saved[of to_bytes old] by simp
  have n: "read_saved from_bytes (Some (saved_bytes to_bytes new)) = Inr (Some new')"
    using new[OF order_refl] by (simp add: length_saved)
  have "load_view from_bytes name (persist_view to_bytes True new name d) = Inr (Some new')"
    by (simp add: load_view_def persist_view_def write_swap_def rename_def n read_saved_def[of _ None])
  moreover have "load_view from_bytes name (write_swap to_bytes new name k d) =
      (if k < 8 then Inl (Undefined ''size_of_view read uninitialised'')
       else if k < length (saved_bytes to_bytes new) \<or> vid new' \<le> vid old' then Inr (Some old') else Inr (Some new'))"
    using new[OF k] by (auto simp: load_view_def write_swap_def disk o)
  ultimately show ?thesis by simp
qed

theorem save_is_crash_safe_witness:
  "load_view (\<lambda>bs. sample_view\<lparr>vid := int (length bs)\<rparr>) ''s''
     (write_swap (\<lambda>v. replicate (nat (vid v)) 0) (sample_view\<lparr>vid := 9\<rparr>) ''s'' 17
        (\<lambda>n. if n = ''s'' then Some (saved_bytes (\<lambda>v. replicate (nat (vid v)) 0) sample_view) else None)) =
   Inr (Some (sample_view\<lparr>vid := 9\<rparr>))"
proof -
  let ?to = "\<lambda>v. replicate (nat (vid v)) (0 :: byte)"
  have "length (saved_bytes ?to (sample_view\<lparr>vid := 9\<rparr>)) = 17" by (simp add: length_saved)
  with save_is_crash_safe[of ?to sample_view "sample_view\<lparr>vid := 9\<rparr>" "\<lambda>bs. sample_view\<lparr>vid := int (length bs)\<rparr>"
      sample_view "sample_view\<lparr>vid := 9\<rparr>" "\<lambda>n. if n = ''s'' then Some (saved_bytes ?to sample_view) else None" "''s''" 17]
  show ?thesis by (simp add: sample_view_def)
qed

end
