(* ===== verification/Serialisation.thy ===== *)
theory Serialisation
  imports View Derecho_Group
begin

text \<open>
  The contract of the serialisation library (\<^verbatim>\<open>mutils\<close>): a class's \<^verbatim>\<open>bytes_size\<close>,
  \<^verbatim>\<open>to_bytes\<close> and \<^verbatim>\<open>from_bytes\<close> are parameters. What is read back is what the class lists
  as its serialised fields: all of \<^verbatim>\<open>DerechoParams\<close>, but of a view only seven. At the end,
  serialisers that meet the contract for views and parameters, field by field.
\<close>

section \<open>The contract of a serialiser\<close>

record 'a serial =
  bytes_size :: "'a \<Rightarrow> nat"
  to_bytes :: "'a \<Rightarrow> bytes"
  from_bytes :: "bytes \<Rightarrow> 'a"

text \<open>
  What holds of one value: its size is told, and at the front of a buffer it is read as \<open>y\<close>,
  which is the value itself when every field of it is serialised.
\<close>

definition reads_as :: "'a serial \<Rightarrow> 'a \<Rightarrow> 'a \<Rightarrow> bool" where
  "reads_as S x y \<longleftrightarrow> bytes_size S x = length (to_bytes S x) \<and> (\<forall>rest. from_bytes S (to_bytes S x @ rest) = y)"

definition reads_back :: "'a serial \<Rightarrow> 'a \<Rightarrow> bool" where
  "reads_back S x \<longleftrightarrow> reads_as S x x"

lemma reads_asD:
  "reads_as S x y \<Longrightarrow> from_bytes S (to_bytes S x @ rest) = y" "reads_as S x y \<Longrightarrow> from_bytes S (to_bytes S x) = y"
  "reads_as S x y \<Longrightarrow> bytes_size S x = length (to_bytes S x)"
  unfolding reads_as_def by (auto dest: spec[of _ "[]"])

lemma reads_backD:
  "reads_back S x \<Longrightarrow> from_bytes S (to_bytes S x @ rest) = x" "reads_back S x \<Longrightarrow> from_bytes S (to_bytes S x) = x"
  "reads_back S x \<Longrightarrow> bytes_size S x = length (to_bytes S x)"
  unfolding reads_back_def by (rule reads_asD; assumption)+

locale serializer =
  fixes S :: "'a serial"
  assumes value_read_back: "reads_back S x"
begin

lemma size_told: "bytes_size S x = length (to_bytes S x)"
  by (rule reads_backD(3)[OF value_read_back])

lemma read_exactly: "from_bytes S (to_bytes S x) = x"
  by (rule reads_backD(2)[OF value_read_back])

lemma distinct_values_differ: "to_bytes S x = to_bytes S y \<longleftrightarrow> x = y"
  using read_exactly by metis

end

sublocale fixed_codec \<subseteq> coded: serializer "\<lparr>bytes_size = \<lambda>_. width, to_bytes = enc, from_bytes = dec\<rparr>"
  by unfold_locales (simp add: reads_back_def reads_as_def enc_length dec_enc)

text \<open>A 64-bit counter as a replicated object.\<close>

definition u64_serial :: "u64 serial" where
  "u64_serial = \<lparr>bytes_size = \<lambda>_. 8, to_bytes = enc64, from_bytes = dec64\<rparr>"

interpretation u64_object: serializer u64_serial
  unfolding u64_serial_def by (rule u64_codec.coded.serializer_axioms)

section \<open>A view as it arrives\<close>

text \<open>
  The serialised fields of a view are \<^verbatim>\<open>vid\<close>, \<^verbatim>\<open>members\<close>, \<^verbatim>\<open>member_ips\<close>, \<^verbatim>\<open>failed\<close>,
  \<^verbatim>\<open>nFailed\<close>, \<^verbatim>\<open>num_members\<close> and \<^verbatim>\<open>my_rank\<close>; the deserialising constructor leaves \<^verbatim>\<open>who\<close>
  null and \<^verbatim>\<open>IKnowIAmLeader\<close> false.
\<close>

definition sent_view :: "view \<Rightarrow> view" where
  "sent_view v = \<lparr>vid = vid v, members = members v, member_ips = member_ips v, failed = failed v, nFailed = nFailed v,
     who = None, num_members = num_members v, my_rank = my_rank v, IKnowIAmLeader = False\<rparr>"

lemma sent_view_fields [simp]:
  "vid (sent_view v) = vid v" "members (sent_view v) = members v" "member_ips (sent_view v) = member_ips v"
  "failed (sent_view v) = failed v" "nFailed (sent_view v) = nFailed v" "who (sent_view v) = None"
  "num_members (sent_view v) = num_members v" "my_rank (sent_view v) = my_rank v" "\<not> IKnowIAmLeader (sent_view v)"
  by (simp_all add: sent_view_def)

lemma sent_view_ranks [simp]: "rank_of (sent_view v) p = rank_of v p" "rank_of_leader (sent_view v) = rank_of_leader v"
  by (simp_all add: rank_of_def rank_of_leader_def)

section \<open>Serialisers field by field\<close>

text \<open>
  The library's own byte format is not part of the sources. These serialisers meet its
  contract: integers little-endian, a list after its length, a record as its fields in the
  order in which the class lists them.
\<close>

named_theorems read_back_intros

definition pair_serial :: "'a serial \<Rightarrow> 'b serial \<Rightarrow> ('a \<times> 'b) serial" where
  "pair_serial A B = \<lparr>bytes_size = \<lambda>(x, y). bytes_size A x + bytes_size B y, to_bytes = \<lambda>(x, y). to_bytes A x @ to_bytes B y,
     from_bytes = \<lambda>bs. let x = from_bytes A bs in (x, from_bytes B (drop (bytes_size A x) bs))\<rparr>"

fun read_items :: "'a serial \<Rightarrow> nat \<Rightarrow> bytes \<Rightarrow> 'a list" where
  "read_items S 0 bs = []"
| "read_items S (Suc n) bs = (let x = from_bytes S bs in x # read_items S n (drop (bytes_size S x) bs))"

definition list_serial :: "'a serial \<Rightarrow> 'a list serial" where
  "list_serial S = \<lparr>bytes_size = \<lambda>xs. 8 + sum_list (map (bytes_size S) xs),
     to_bytes = \<lambda>xs. enc64 (word_of_nat (length xs)) @ concat (map (to_bytes S) xs),
     from_bytes = \<lambda>bs. read_items S (unat (dec64 bs)) (drop 8 bs)\<rparr>"

text \<open>A class by its fields.\<close>

definition by_fields :: "('a \<Rightarrow> 'b) \<Rightarrow> ('b \<Rightarrow> 'a) \<Rightarrow> 'b serial \<Rightarrow> 'a serial" where
  "by_fields rd mk S = \<lparr>bytes_size = bytes_size S \<circ> rd, to_bytes = to_bytes S \<circ> rd, from_bytes = mk \<circ> from_bytes S\<rparr>"

lemma pair_read_back [read_back_intros]:
  "reads_back A x \<Longrightarrow> reads_back B y \<Longrightarrow> reads_back (pair_serial A B) (x, y)"
  unfolding reads_back_def[of "pair_serial A B"] by (simp add: pair_serial_def reads_as_def reads_backD Let_def)

lemma list_read_back [read_back_intros]:
  assumes "\<And>x. x \<in> set xs \<Longrightarrow> reads_back S x" "length xs < 2 ^ 64"
  shows "reads_back (list_serial S) xs"
proof -
  have "read_items S (length xs) (concat (map (to_bytes S) xs) @ rest) = xs \<and>
      sum_list (map (bytes_size S) xs) = length (concat (map (to_bytes S) xs))" for rest
    using assms(1)
  proof (induction xs)
    case (Cons x xs)
    then have "reads_back S x" by simp
    with Cons show ?case by (simp add: reads_backD Let_def)
  qed simp
  then show ?thesis
    using assms(2) by (simp add: reads_back_def reads_as_def list_serial_def u64_codec.enc_length u64_codec.dec_enc unat_of_nat)
qed

lemma by_fields_reads_as: "reads_back S (rd x) \<Longrightarrow> mk (rd x) = y \<Longrightarrow> reads_as (by_fields rd mk S) x y"
  by (auto simp: by_fields_def reads_as_def reads_backD)

text \<open>The types of the fields.\<close>

definition u32_serial :: "u32 serial" where
  "u32_serial = \<lparr>bytes_size = \<lambda>_. 4, to_bytes = enc32, from_bytes = dec32\<rparr>"

definition bool_serial :: "bool serial" where
  "bool_serial = \<lparr>bytes_size = \<lambda>_. 1, to_bytes = enc_bool, from_bytes = dec_bool\<rparr>"

definition int32_serial :: "int serial" where
  "int32_serial = by_fields word_of_int sint u32_serial"

definition string_serial :: "string serial" where
  "string_serial = list_serial \<lparr>bytes_size = \<lambda>_. 1, to_bytes = \<lambda>c. [word_of_nat (of_char c)], from_bytes = \<lambda>bs. char_of (unat (hd bs))\<rparr>"

interpretation u32_object: serializer u32_serial
  unfolding u32_serial_def by (rule u32_codec.coded.serializer_axioms)

interpretation bool_object: serializer bool_serial
  unfolding bool_serial_def by (rule bool_codec.coded.serializer_axioms)

lemmas [read_back_intros] = u32_object.value_read_back u64_object.value_read_back bool_object.value_read_back

definition in_int32 :: "int \<Rightarrow> bool" where
  "in_int32 i \<longleftrightarrow> - (2 ^ 31) \<le> i \<and> i < 2 ^ 31"

lemma int32_read_back [read_back_intros]:
  assumes "in_int32 i"
  shows "reads_back int32_serial i"
proof -
  have "sint (word_of_int i :: u32) = i"
    using assms unfolding in_int32_def sint_sbintrunc' by (intro signed_take_bit_int_eq_self) simp_all
  then show ?thesis
    unfolding int32_serial_def reads_back_def by (intro by_fields_reads_as u32_object.value_read_back)
qed

lemma string_read_back [read_back_intros]: "length s < 2 ^ 64 \<Longrightarrow> reads_back string_serial s"
  unfolding string_serial_def
  by (rule list_read_back) (simp_all add: reads_back_def reads_as_def unat_of_nat of_char_mod_256)

section \<open>Views and parameters\<close>

type_synonym view_fields = "int \<times> node_id list \<times> string list \<times> bool list \<times> int \<times> int \<times> int"

definition view_fields :: "view \<Rightarrow> view_fields" where
  "view_fields v = (vid v, members v, member_ips v, failed v, nFailed v, num_members v, my_rank v)"

definition view_of_fields :: "view_fields \<Rightarrow> view" where
  "view_of_fields = (\<lambda>(i, ms, ips, fs, f, n, r). \<lparr>vid = i, members = ms, member_ips = ips, failed = fs, nFailed = f, who = None,
     num_members = n, my_rank = r, IKnowIAmLeader = False\<rparr>)"

definition view_serial :: "view serial" where
  "view_serial = by_fields view_fields view_of_fields
     (pair_serial int32_serial (pair_serial (list_serial u32_serial) (pair_serial (list_serial string_serial)
        (pair_serial (list_serial bool_serial) (pair_serial int32_serial (pair_serial int32_serial int32_serial))))))"

definition params_fields :: "derecho_params \<Rightarrow> u64 \<times> u64 \<times> string \<times> u32 \<times> u32 \<times> u32" where
  "params_fields p = (max_payload_size p, dp_block_size p, filename p, dp_window_size p, timeout_ms p, rpc_port p)"

definition params_of_fields :: "u64 \<times> u64 \<times> string \<times> u32 \<times> u32 \<times> u32 \<Rightarrow> derecho_params" where
  "params_of_fields = (\<lambda>(m, b, f, w, t, r). \<lparr>max_payload_size = m, dp_block_size = b, filename = f, dp_window_size = w,
     timeout_ms = t, rpc_port = r\<rparr>)"

definition params_serial :: "derecho_params serial" where
  "params_serial = by_fields params_fields params_of_fields
     (pair_serial u64_serial (pair_serial u64_serial (pair_serial string_serial
        (pair_serial u32_serial (pair_serial u32_serial u32_serial)))))"

text \<open>The 32-bit fields hold what they are given, and no list is longer than its length can tell.\<close>

definition view_in_range :: "view \<Rightarrow> bool" where
  "view_in_range v \<longleftrightarrow> in_int32 (vid v) \<and> in_int32 (nFailed v) \<and> in_int32 (num_members v) \<and> in_int32 (my_rank v) \<and>
     length (members v) < 2 ^ 64 \<and> length (failed v) < 2 ^ 64 \<and> length (member_ips v) < 2 ^ 64 \<and>
     list_all (\<lambda>ip. length ip < 2 ^ 64) (member_ips v)"

lemma view_serial_reads:
  assumes "view_in_range v"
  shows "reads_as view_serial v (sent_view v)"
  unfolding view_serial_def
proof (rule by_fields_reads_as)
  show "view_of_fields (view_fields v) = sent_view v" by (simp add: view_of_fields_def view_fields_def sent_view_def)
  note r = assms[unfolded view_in_range_def list_all_iff]
  show "reads_back (pair_serial int32_serial (pair_serial (list_serial u32_serial) (pair_serial (list_serial string_serial)
        (pair_serial (list_serial bool_serial) (pair_serial int32_serial (pair_serial int32_serial int32_serial)))))) (view_fields v)"
    unfolding view_fields_def by (intro read_back_intros) (use r in auto)
qed

lemma view_serial_size:
  "bytes_size view_serial v = 40 + 4 * length (members v) + length (failed v) + (\<Sum>ip \<leftarrow> member_ips v. 8 + length ip)"
proof -
  have "sum_list (map (bytes_size string_serial) ips) = (\<Sum>ip \<leftarrow> ips. 8 + length ip)" for ips
    by (induction ips) (simp_all add: string_serial_def list_serial_def sum_list_triv)
  then show ?thesis
    by (simp add: view_serial_def by_fields_def view_fields_def pair_serial_def list_serial_def int32_serial_def u32_serial_def
        bool_serial_def sum_list_triv)
qed

lemma params_serial_size: "bytes_size params_serial p = 36 + length (filename p)"
  by (simp add: params_serial_def by_fields_def params_fields_def pair_serial_def list_serial_def string_serial_def u32_serial_def
      u64_serial_def sum_list_triv)

lemma params_serial_reads:
  assumes "length (filename p) < 2 ^ 64"
  shows "reads_back params_serial p"
  unfolding params_serial_def reads_back_def[of "by_fields _ _ _"]
proof (rule by_fields_reads_as)
  show "params_of_fields (params_fields p) = p" by (simp add: params_of_fields_def params_fields_def)
  show "reads_back (pair_serial u64_serial (pair_serial u64_serial (pair_serial string_serial
        (pair_serial u32_serial (pair_serial u32_serial u32_serial))))) (params_fields p)"
    unfolding params_fields_def by (intro read_back_intros assms)
qed

end
