(* ===== verification/Join_Protocol.thy ===== *)
theory Join_Protocol
  imports Managed_Group Serialisation
begin

text \<open>
  The bytes that bring a joining node up to date: the leader sends the view, the parameters
  and the replicated objects, each preceded by its size; the joining node's \<^verbatim>\<open>join_existing\<close>
  reads them back. Serialisation is another library's (\<^verbatim>\<open>mutils\<close>), a parameter with the
  contract of \<open>Serialisation\<close>; a view arrives as \<open>sent_view\<close> of what was sent, without the
  fields that \<^verbatim>\<open>view.h\<close> does not list.
\<close>

section \<open>Reading from a socket\<close>

text \<open>\<^verbatim>\<open>read(buf, k)\<close>: fails when the stream ends before \<open>k\<close> bytes have come.\<close>

definition read_exact :: "nat \<Rightarrow> bytes \<Rightarrow> (bytes \<times> bytes) option" where
  "read_exact k inp = (if length inp < k then None else Some (take k inp, drop k inp))"

lemma read_sized [simp]: "read_exact (length x) (x @ t) = Some (x, t)"
  by (simp add: read_exact_def)

lemma read_size [simp]: "read_exact 8 (enc64 x @ t) = Some (enc64 x, t)"
  by (simp add: read_exact_def u64_codec.enc_length)

lemma size_read [simp]: "k < 2 ^ 64 \<Longrightarrow> unat (dec64 (enc64 (word_of_nat k))) = k"
  by (simp add: u64_codec.dec_exact unat_of_nat)

lemma size_read_fails [simp]: "read_exact 8 [] = None"
  by (simp add: read_exact_def)

section \<open>The objects\<close>

text \<open>
  The dispatcher's objects are a tuple, one object of each class; here a list, with the
  list of the classes' serialisers in the same order. The total size is accumulated by the
  library's \<^verbatim>\<open>fold\<close> from an \<^verbatim>\<open>int\<close> zero and posted by \<^verbatim>\<open>post_object\<close>; in how many bytes
  depends on the type the fold ends with, so \<open>post_total\<close> is a parameter. The receiver
  reads a \<^verbatim>\<open>size_t\<close>.
\<close>

definition total_size :: "'a serial list \<Rightarrow> 'a list \<Rightarrow> nat" where
  "total_size cs xs = foldl (\<lambda>acc (c, x). acc + bytes_size c x) 0 (zip cs xs)"

definition send_objects :: "(nat \<Rightarrow> bytes) \<Rightarrow> 'a serial list \<Rightarrow> 'a list \<Rightarrow> bytes" where
  "send_objects post_total cs xs = post_total (total_size cs xs) @ concat (map (\<lambda>(c, x). to_bytes c x) (zip cs xs))"

text \<open>A total posted as a \<^verbatim>\<open>size_t\<close>.\<close>

definition post_size_t :: "nat \<Rightarrow> bytes" where
  "post_size_t k = enc64 (word_of_nat k)"

fun read_objects :: "'a serial list \<Rightarrow> bytes \<Rightarrow> nat \<Rightarrow> 'a list" where
  "read_objects [] buf offset = []"
| "read_objects (c # cs) buf offset =
     (let x = from_bytes c (drop offset buf) in x # read_objects cs buf (offset + bytes_size c x))"

definition receive_objects :: "'a serial list \<Rightarrow> bytes \<Rightarrow> ('a list \<times> bytes) result" where
  "receive_objects cs inp =
     (case read_exact 8 inp of None \<Rightarrow> Inl (Assert ''success'') | Some (n, inp) \<Rightarrow>
      case read_exact (unat (dec64 n)) inp of None \<Rightarrow> Inl (Assert ''success'') | Some (buf, inp) \<Rightarrow>
        Inr (read_objects cs buf 0, inp))"

section \<open>The view and the parameters\<close>

definition join_bytes :: "view serial \<Rightarrow> derecho_params serial \<Rightarrow> view \<Rightarrow> derecho_params \<Rightarrow> bytes" where
  "join_bytes vs ps v p =
     enc64 (word_of_nat (bytes_size vs v)) @ to_bytes vs v @
     enc64 (word_of_nat (bytes_size ps p)) @ to_bytes ps p"

text \<open>
  \<^verbatim>\<open>join_existing\<close> on the bytes that arrive after the exchange of ids. The read of the
  second size is not checked.
\<close>

definition join_existing ::
  "view serial \<Rightarrow> derecho_params serial \<Rightarrow> 'a serial list \<Rightarrow> bytes \<Rightarrow> ((view \<times> derecho_params \<times> 'a list) \<times> bytes) result" where
  "join_existing vs ps cs inp =
     (case read_exact 8 inp of None \<Rightarrow> Inl (Assert ''success'') | Some (size_of_view, inp) \<Rightarrow>
      case read_exact (unat (dec64 size_of_view)) inp of None \<Rightarrow> Inl (Assert ''success'') | Some (buffer, inp) \<Rightarrow>
      case read_exact 8 inp of None \<Rightarrow> Inl (Undefined ''size_of_derecho_params'') | Some (size_of_derecho_params, inp) \<Rightarrow>
      case read_exact (unat (dec64 size_of_derecho_params)) inp of None \<Rightarrow> Inl (Assert ''success'') | Some (buffer2, inp) \<Rightarrow>
        bindE (receive_objects cs inp) (\<lambda>(xs, inp).
          Inr ((from_bytes vs buffer, from_bytes ps buffer2, xs), inp)))"

section \<open>What arrives is what was sent\<close>

definition all_read_back :: "'a serial list \<Rightarrow> 'a list \<Rightarrow> bool" where
  "all_read_back cs xs \<longleftrightarrow> list_all2 reads_back cs xs"

lemma total_size_bytes:
  "all_read_back cs xs \<Longrightarrow> total_size cs xs = length (concat (map (\<lambda>(c, x). to_bytes c x) (zip cs xs)))"
proof -
  have "foldl (\<lambda>acc (c, x). acc + bytes_size c x) k (zip cs xs) = k + length (concat (map (\<lambda>(c, x). to_bytes c x) (zip cs xs)))"
    if "list_all2 reads_back cs xs" for k
    using that by (induction cs xs arbitrary: k rule: list_all2_induct) (simp_all add: reads_backD(3))
  then show "all_read_back cs xs \<Longrightarrow> total_size cs xs = length (concat (map (\<lambda>(c, x). to_bytes c x) (zip cs xs)))"
    by (simp add: total_size_def all_read_back_def)
qed

lemma objects_read_back:
  "list_all2 reads_back cs xs \<Longrightarrow>
   read_objects cs (pre @ concat (map (\<lambda>(c, x). to_bytes c x) (zip cs xs)) @ rest) (length pre) = xs"
proof (induction cs xs arbitrary: pre rule: list_all2_induct)
  case (Cons c cs x xs)
  have "read_objects cs ((pre @ to_bytes c x) @ concat (map (\<lambda>(c, x). to_bytes c x) (zip cs xs)) @ rest)
      (length (pre @ to_bytes c x)) = xs" by (rule Cons.IH)
  with Cons.hyps show ?case by (simp add: Let_def reads_backD)
qed simp

lemma objects_roundtrip:
  assumes "all_read_back cs xs" "total_size cs xs < 2 ^ 64" "post (total_size cs xs) = post_size_t (total_size cs xs)"
  shows "receive_objects cs (send_objects post cs xs @ rest) = Inr (xs, rest)"
  using assms objects_read_back[of cs xs "[]" "[]"] total_size_bytes[OF assms(1)]
  by (simp add: receive_objects_def send_objects_def post_size_t_def all_read_back_def)

lemma join_head:
  assumes "reads_as vs v v'" "reads_back ps p" "bytes_size vs v < 2 ^ 64" "bytes_size ps p < 2 ^ 64"
  shows "join_existing vs ps cs (join_bytes vs ps v p @ tail) =
    bindE (receive_objects cs tail) (\<lambda>(xs, inp). Inr ((v', p, xs), inp))"
  using assms by (simp add: join_existing_def join_bytes_def reads_backD reads_asD)

section \<open>What a leader sends a client\<close>

text \<open>The bytes a list of recorded calls writes to the socket of client \<open>c\<close>.\<close>

fun call_to ::
  "view serial \<Rightarrow> derecho_params serial \<Rightarrow> (nat \<Rightarrow> bytes) \<Rightarrow> 'a serial list \<Rightarrow> client \<Rightarrow> 'a list gms_call \<Rightarrow> bytes" where
  "call_to vs ps post cs c (Send_view d v p) = (if d = c then join_bytes vs ps v p else [])"
| "call_to vs ps post cs c (Send_objects d xs) = (if d = c then send_objects post cs xs else [])"
| "call_to vs ps post cs c _ = []"

definition bytes_to ::
  "view serial \<Rightarrow> derecho_params serial \<Rightarrow> (nat \<Rightarrow> bytes) \<Rightarrow> 'a serial list \<Rightarrow> client \<Rightarrow> 'a list gms_call list \<Rightarrow> bytes" where
  "bytes_to vs ps post cs c cls = concat (map (call_to vs ps post cs c) cls)"

lemma bytes_to_simps [simp]:
  "bytes_to vs ps post cs c [] = []"
  "bytes_to vs ps post cs c (x # xs) = call_to vs ps post cs c x @ bytes_to vs ps post cs c xs"
  "bytes_to vs ps post cs c (xs @ ys) = bytes_to vs ps post cs c xs @ bytes_to vs ps post cs c ys"
  by (simp_all add: bytes_to_def)

text \<open>
  That a view, parameters and objects can be sent: the library reads the serialised fields of
  the view and all of the others' values back, and no size exceeds its 64 bits.
\<close>

definition can_send :: "view serial \<Rightarrow> derecho_params serial \<Rightarrow> (nat \<Rightarrow> bytes) \<Rightarrow> 'a serial list \<Rightarrow> view \<Rightarrow> derecho_params \<Rightarrow> 'a list \<Rightarrow> bool" where
  "can_send vs ps post cs v p xs \<longleftrightarrow> reads_as vs v (sent_view v) \<and> reads_back ps p \<and> bytes_size vs v < 2 ^ 64 \<and> bytes_size ps p < 2 ^ 64 \<and>
     all_read_back cs xs \<and> total_size cs xs < 2 ^ 64 \<and> post (total_size cs xs) = post_size_t (total_size cs xs)"

lemma sent_state_arrives:
  "can_send vs ps post cs v p xs \<Longrightarrow>
   join_existing vs ps cs (join_bytes vs ps v p @ send_objects post cs xs @ rest) = Inr ((sent_view v, p, xs), rest)"
  unfolding can_send_def
  by (elim conjE) (simp add: join_head[where v' = "sent_view v"] objects_roundtrip[where post = post])

text \<open>Without the objects the joining node fails.\<close>

lemma objects_missing:
  assumes "reads_as vs v v'" "reads_back ps p" "bytes_size vs v < 2 ^ 64" "bytes_size ps p < 2 ^ 64"
  shows "join_existing vs ps cs (join_bytes vs ps v p) = Inl (Assert ''success'')"
  using join_head[OF assms, of cs "[]"] by (simp add: receive_objects_def)

section \<open>A join in a running group\<close>

lemma ragged_edge_keeps:
  assumes "ragged_edge_cleanup g = Inr g1"
  shows "curr_view g1 = curr_view g" "mg_calls g1 = mg_calls g" "joining_client g1 = joining_client g"
    "mg_params g1 = mg_params g" "view_file_name g1 = view_file_name g"
  using assms
  by (auto simp: ragged_edge_cleanup_def leader_ragged_edge_cleanup_def follower_ragged_edge_cleanup_def deliver_in_order_def
      Let_def upd_sst_def split: if_splits)

lemma set_exceptions_objects: "set_exceptions_for ps d = Inr d' \<Longrightarrow> objects d' = objects d"
proof (induction ps d rule: set_exceptions_for.induct)
  case (2 p r ps d)
  from 2(2) obtain d1 where d1: "pending_set_removed r p d = Inr d1" "set_exceptions_for ps d1 = Inr d'" by auto
  from d1(1) have "objects d1 = objects d"
    by (auto simp: pending_set_removed_def update_pending_def Let_def split: option.splits)
  with 2(1)[OF d1] show ?case by simp
qed simp

lemma upcalls_keep:
  assumes "run_view_upcalls ms g = Inr g'"
  shows "objects (dispatchers (curr_group g')) = objects (dispatchers (curr_group g))"
    "mg_calls g' = mg_calls g @ [View_upcall (members (curr_view g)) ms]"
  using assms set_exceptions_objects
  by (auto simp: run_view_upcalls_def set_exceptions_for_removed_nodes_def gms_call_def Let_def)

lemma transition_objects:
  "transition_sst_and_rdmc N rs ok u nv g = Inr dg \<Longrightarrow> objects (dispatchers dg) = objects (dispatchers (curr_group g))"
  by (auto simp: transition_sst_and_rdmc_def Let_def dest: constructor_dispatcher(1))

text \<open>
  C14. State transfer at a join: the leader of a running group, once the view change that
  admits client \<open>c\<close> is through, has written to it exactly the bytes from which the client
  reads the serialised fields of the next view, with \<^verbatim>\<open>who\<close> null and \<^verbatim>\<open>IKnowIAmLeader\<close>
  false, the parameters, and the objects with which the leader starts that view: they are
  sent after the last messages of the old view have been delivered and before anything of the
  new one can be. The serialisation library is assumed to read back what the classes list as
  their fields, for the view, the parameters and the objects at hand.
\<close>

theorem joiner_gets_the_state:
  assumes "globalMin_ready_continuation N rs ok u False g = Inr g'" and "IAmLeader (curr_view g)"
    and "joining_client g = Some c" and "next_view g = Some nv" and "bytes_to vs ps post cs c (mg_calls g) = []"
    and "can_send vs ps post cs nv (mg_params g) (objects (dispatchers (curr_group g')))"
  shows "join_existing vs ps cs (bytes_to vs ps post cs c (mg_calls g')) =
    Inr ((sent_view nv, mg_params g, objects (dispatchers (curr_group g'))), [])"
proof -
  let ?to = "bytes_to vs ps post cs c" and ?objs = "\<lambda>g. objects (dispatchers (curr_group g))"
  obtain g1 where g1: "ragged_edge_cleanup g = Inr g1"
    using assms(1,4) by (auto simp: globalMin_ready_continuation_def)
  note keep = ragged_edge_keeps[OF g1]
  define g2 where "g2 = (gms_call (Send_objects c (?objs g1)) (gms_call (Send_view c nv (mg_params g1)) g1))\<lparr>joining_client := None\<rparr>"
  have g2: "commit_join nv g1 = Inr g2" using assms(3) by (simp add: commit_join_def g2_def keep)
  define g3 where "g3 = (let g = upd_sst (\<lambda>s. remove_pred Suspected_changed (remove_pred Leader_committed s)) g2
      in if length (members (curr_view g)) < length (members nv)
         then gms_call (Add_connection (last (members nv)) (last (member_ips nv))) g else g)"
  define installed where "installed dg = (let g = install_view nv (dg\<lparr>dg_sst := sync_with_members (put (dg_sst dg))\<rparr>) g3;
        g = (if view_file_name g \<noteq> [] then gms_call (Persist_view (view_file_name g) nv) g else g)
      in first_task N (upd_sst start_predicate_evaluation (register_predicates g)))" for dg
  have "bindE (transition_sst_and_rdmc N rs ok u nv g3) (\<lambda>dg. bindE (run_view_upcalls (members (curr_view g3)) (installed dg))
      (\<lambda>g. Inr (gms_call Notify_view_change g))) = Inr g'"
    using assms(1,2) unfolding globalMin_ready_continuation_def assms(4) option.case g1 bindE.simps
    by (simp add: keep(1) g2 g3_def installed_def Let_def)
  then obtain dg g5 where dg: "transition_sst_and_rdmc N rs ok u nv g3 = Inr dg"
    and g5: "run_view_upcalls (members (curr_view g3)) (installed dg) = Inr g5" "g' = gms_call Notify_view_change g5"
    by auto
  have sent: "?to (mg_calls g3) = join_bytes vs ps nv (mg_params g) @ send_objects post cs (?objs g1)" "?objs g3 = ?objs g1"
    using assms(5) by (simp_all add: g3_def g2_def gms_call_def upd_sst_def keep Let_def)
  have "?to (mg_calls (installed dg)) = ?to (mg_calls g3)" "?objs (installed dg) = objects (dispatchers dg)"
    by (simp_all add: installed_def Let_def gms_call_def upd_sst_def install_view_def first_task_def register_predicates_def
        split: prod.split)
  then have "?to (mg_calls g') = join_bytes vs ps nv (mg_params g) @ send_objects post cs (?objs g1)" "?objs g' = ?objs g1"
    using upcalls_keep[OF g5(1)] transition_objects[OF dg] sent by (simp_all add: g5(2) gms_call_def)
  then show ?thesis using sent_state_arrives[where rest = "[]", OF assms(6)] by simp
qed

text \<open>The serialisers of \<open>Serialisation\<close> send any view in range with one counter.\<close>

lemma can_send_one_counter:
  assumes "view_in_range v" "bytes_size view_serial v < 2 ^ 64"
  shows "can_send view_serial params_serial post_size_t [u64_serial] v duo_params [k]"
proof -
  have "bytes_size params_serial duo_params < 2 ^ 64" "length (filename duo_params) < 2 ^ 64"
    by (simp_all add: params_serial_size duo_params_def)
  with assms show ?thesis
    by (simp add: can_send_def view_serial_reads params_serial_reads all_read_back_def u64_object.value_read_back)
       (simp add: total_size_def u64_serial_def)
qed

text \<open>Node 7, alone in its view and holding the counter 3, admits node 8.\<close>

definition host_group :: "u64 list dgroup" where
  "host_group = \<lparr>dg_members = [7], member_index = 0, block_size = 16, max_msg_size = 16, window_size = 2,
     dispatchers = \<lparr>nid = 7, invs = [], objects = [3]\<rparr>, toFulfillQueue = [], fulfilledList = [],
     rdmc_group_num_offset = 0, rdmc_groups_created = True, total_message_buffers = 2, free_message_buffers = [],
     reply_buffer_size = 7, future_message_index = 0, next_send = None, pending_sends = [], current_send = None,
     current_receives = [], locally_stable_messages = [], non_persistent_messages = [], next_message_to_deliver = 0,
     sender_timeout = 1, thread_shutdown = False, dg_sst = \<lparr>rows = [duo_row], local_index = 0, preds = [], calls = []\<rparr>,
     dg_writer = None, dg_calls = []\<rparr>"

definition host_view :: view where
  "host_view = empty_view\<lparr>members := [7], member_ips := [''a''], failed := [False], num_members := 1, my_rank := 0\<rparr>"

definition grown_view :: view where
  "grown_view = host_view\<lparr>vid := 1, who := Some 8, IKnowIAmLeader := True, members := [7, 8], member_ips := [''a'', ''b''], failed := [False, False], num_members := 2\<rparr>"

definition newcomer :: client where
  "newcomer = \<lparr>remote_ip = ''b'', client_id = Some 8\<rparr>"

definition host_managed :: "u64 list managed" where
  "host_managed = \<lparr>curr_view = host_view, curr_group = host_group, next_view = Some grown_view, pending_joins = [],
     joining_client = Some newcomer, last_suspected = [False, False], mg_shutdown = False, view_file_name = [],
     old_views = [], mg_params = duo_params, mg_calls = []\<rparr>"

text \<open>Its state after the final delivery, with the state sent, in the new view, and with its first task done.\<close>

definition host_delivered :: "u64 list managed" where
  "host_delivered = result_of (ragged_edge_cleanup host_managed)"

definition host_sent :: "u64 list managed" where
  "host_sent = gms_call (Add_connection 8 ''b'') (upd_sst (\<lambda>s. remove_pred Suspected_changed (remove_pred Leader_committed s))
     (result_of (commit_join grown_view host_delivered)))"

definition host_next :: "u64 list dgroup" where
  "host_next = result_of (transition_sst_and_rdmc 2 [duo_row, duo_row] (\<lambda>_. True) 1 grown_view host_sent)"

definition host_ready :: "u64 list managed" where
  "host_ready = first_task 2 (upd_sst start_predicate_evaluation (register_predicates
     (install_view grown_view (host_next\<lparr>dg_sst := sync_with_members (put (dg_sst host_next))\<rparr>) host_sent)))"

lemma host_stages:
  "of_result (\<lambda>g. (members (curr_view g), mg_calls g, objects (dispatchers (curr_group g)))) (ragged_edge_cleanup host_managed) = Some ([7], [], [3])"
  "of_result (\<lambda>g. members (curr_view g)) (commit_join grown_view host_delivered) = Some [7]"
  "(members (curr_view host_sent), view_file_name host_sent) = ([7], [])"
  "of_result (\<lambda>g. objects (dispatchers g)) (transition_sst_and_rdmc 2 [duo_row, duo_row] (\<lambda>_. True) 1 grown_view host_sent) = Some [3]"
  "of_result (\<lambda>g. objects (dispatchers (curr_group g))) (run_view_upcalls [7] host_ready) = Some [3]"
  "IAmLeader host_view" "IAmLeader (curr_view host_delivered)"
  by code_simp+

lemma host_runs:
  "\<exists>g. globalMin_ready_continuation 2 [duo_row, duo_row] (\<lambda>_. True) 1 False host_managed = Inr g \<and>
     objects (dispatchers (curr_group g)) = [3]"
proof -
  have g1: "ragged_edge_cleanup host_managed = Inr host_delivered" "members (curr_view host_delivered) = [7]"
    using of_result_Some[OF host_stages(1)] by (simp_all add: host_delivered_def)
  obtain g2 where g2: "commit_join grown_view host_delivered = Inr g2" "members (curr_view g2) = [7]"
    "host_sent = gms_call (Add_connection 8 ''b'') (upd_sst (\<lambda>s. remove_pred Suspected_changed (remove_pred Leader_committed s)) g2)"
    using of_result_Some[OF host_stages(2)] host_sent_def by blast
  have g3: "transition_sst_and_rdmc 2 [duo_row, duo_row] (\<lambda>_. True) 1 grown_view host_sent = Inr host_next"
    using of_result_Some[OF host_stages(4)] by (simp add: host_next_def)
  obtain g4 where g4: "run_view_upcalls [7] host_ready = Inr g4" "objects (dispatchers (curr_group g4)) = [3]"
    using of_result_Some[OF host_stages(5)] by blast
  have v: "next_view host_managed = Some grown_view" "members grown_view = [7, 8]" "member_ips grown_view = [''a'', ''b'']"
    by (simp_all add: host_managed_def grown_view_def host_view_def)
  let ?g2 = "upd_sst (\<lambda>s. remove_pred Suspected_changed (remove_pred Leader_committed s)) g2"
  have "members (curr_view ?g2) = [7]" "members (curr_view host_sent) = [7]" "view_file_name host_sent = []"
    "view_file_name (install_view grown_view dg host_sent) = []" for dg
    using g2(2) host_stages(3) by (simp_all add: upd_sst_def install_view_def)
  then have "globalMin_ready_continuation 2 [duo_row, duo_row] (\<lambda>_. True) 1 False host_managed = Inr (gms_call Notify_view_change g4)"
    by (simp add: globalMin_ready_continuation_def v g1 g2(1) host_stages(7) Let_def g2(3)[symmetric] g3 host_ready_def[symmetric] g4(1)
        del: One_nat_def)
  with g4(2) show ?thesis by (simp add: gms_call_def)
qed

theorem joiner_gets_the_state_witness:
  "\<exists>g. globalMin_ready_continuation 2 [duo_row, duo_row] (\<lambda>_. True) 1 False host_managed = Inr g \<and>
     join_existing view_serial params_serial [u64_serial]
       (bytes_to view_serial params_serial post_size_t [u64_serial] newcomer (mg_calls g)) =
     Inr ((sent_view grown_view, duo_params, [3]), [])"
proof -
  obtain g where g: "globalMin_ready_continuation 2 [duo_row, duo_row] (\<lambda>_. True) 1 False host_managed = Inr g"
    "objects (dispatchers (curr_group g)) = [3]"
    using host_runs by blast
  have "can_send view_serial params_serial post_size_t [u64_serial] grown_view duo_params [3]"
    by (rule can_send_one_counter)
       (simp_all add: view_in_range_def in_int32_def view_serial_size grown_view_def host_view_def empty_view_def new_view_def)
  with joiner_gets_the_state[OF g(1), of newcomer grown_view view_serial params_serial post_size_t "[u64_serial]"] g host_stages(6)
  show ?thesis by (simp add: host_managed_def)
qed

end
