(* ===== verification/Managed_Start.thy ===== *)
theory Managed_Start
  imports Ragged_Edge View_Io Join_Protocol
begin

text \<open>
  The three constructors of \<^verbatim>\<open>ManagedGroup\<close>: starting a group and waiting for its first
  member, joining one, and restarting from the saved view; what the first member reads from
  the bytes each kind of leader has sent it. RDMC, the table and the network are parameters.
\<close>

section \<open>Setting up\<close>

definition start_group :: "node_id \<Rightarrow> string \<Rightarrow> view" where
  "start_group my_id my_ip = (new_view 1)\<lparr>members := [my_id], my_rank := 0, member_ips := [my_ip],
     failed := [False], IKnowIAmLeader := True\<rparr>"

definition accept_member :: "client \<Rightarrow> view \<Rightarrow> view" where
  "accept_member c v = v\<lparr>num_members := num_members v + 1, member_ips := member_ips v @ [remote_ip c],
     members := members v @ [case client_id c of None \<Rightarrow> 0 | Some p \<Rightarrow> p], failed := failed v @ [False]\<rparr>"

text \<open>What the environment supplies to a constructor.\<close>

record setup_env =
  new_rows :: "derecho_row list"
  log_files :: "bytes \<times> bytes"
  rdmc_answers :: "nat \<Rightarrow> bool"

definition setup_derecho ::
  "nat \<Rightarrow> setup_env \<Rightarrow> 'o dispatcher \<Rightarrow> derecho_params \<Rightarrow> view \<Rightarrow> 'o dgroup result" where
  "setup_derecho N env disp params v =
     bindE (compute_max_msg_size (max_payload_size params) (dp_block_size params)) (\<lambda>max_msg.
       let message_buffers = top_up (buffers_wanted (dp_window_size params) N) max_msg [];
           i = nat (my_rank v); n = size_of v;
           rs = map (init_row N) (take n (new_rows env)) @ drop n (new_rows env);
           rs = rs[i := (rs ! i)\<lparr>row_vid := vid v\<rparr>]
       in new_group (members v) (members v ! i) \<lparr>rows = rs, local_index = i, preds = [], calls = []\<rparr>
            message_buffers disp params (log_files env) (failed v) (rdmc_answers env))"

definition new_managed :: "nat \<Rightarrow> view \<Rightarrow> 'o dgroup \<Rightarrow> derecho_params \<Rightarrow> string \<Rightarrow> 'o gms_call list \<Rightarrow> 'o managed" where
  "new_managed N v dg params file cs = \<lparr>curr_view = v, curr_group = dg, next_view = None, pending_joins = [],
     joining_client = None, last_suspected = replicate N False, mg_shutdown = False, view_file_name = file,
     old_views = [], mg_params = params, mg_calls = cs\<rparr>"

text \<open>The end of each constructor, from the registration of the predicates on.\<close>

definition begin_service :: "'o managed \<Rightarrow> 'o managed result" where
  "begin_service g = run_view_upcalls (butlast (members (curr_view g)))
     (upd_sst start_predicate_evaluation (register_predicates g))"

definition PAXOS_STATE_EXTENSION :: string where
  "PAXOS_STATE_EXTENSION = ''.paxosstate''"

definition state_file :: "derecho_params \<Rightarrow> string" where
  "state_file params = (if filename params = [] then [] else filename params @ PAXOS_STATE_EXTENSION)"

definition persist_calls :: "derecho_params \<Rightarrow> view \<Rightarrow> 'o gms_call list" where
  "persist_calls params v = (if filename params = [] then [] else [Persist_view (state_file params) v])"

definition managed_leader ::
  "nat \<Rightarrow> setup_env \<Rightarrow> string \<Rightarrow> 'o dispatcher \<Rightarrow> derecho_params \<Rightarrow> client \<Rightarrow> 'o managed result" where
  "managed_leader N env my_ip disp params c =
     (let v0 = start_group 0 my_ip;
          v = accept_member c v0;
          cs = [Rdmc_sst_setup (get_member_ips_map (members v0) (member_ips v0) (failed v0)) 0,
                Send_view c v params, Send_objects c (objects disp), Add_connection (last (members v)) (remote_ip c)] @
               persist_calls params v
      in bindE (setup_derecho N env disp params v) (\<lambda>dg.
         begin_service (upd_sst (\<lambda>s. sync_with_members (put s)) (new_managed N v dg params (state_file params) cs))))"

text \<open>\<open>leader\<close> is the leader's row as the initial synchronisation delivers it.\<close>

definition adopt_leader_row :: "nat \<Rightarrow> derecho_row \<Rightarrow> 'o managed \<Rightarrow> 'o managed result" where
  "adopt_leader_row N leader g =
     (if vid (curr_view g) = 0 then Inr g
      else if rank_of_leader (curr_view g) = -1 then Inl (Undefined ''row of no leader'')
      else Inr (upd_sst (\<lambda>s. put (set_row (nat (my_rank (curr_view g)))
                  (init_from_existing N (rows s ! nat (my_rank (curr_view g))) leader) s)) g))"

definition managed_join ::
  "nat \<Rightarrow> setup_env \<Rightarrow> node_id \<Rightarrow> 'o dispatcher \<Rightarrow> view \<Rightarrow> derecho_params \<Rightarrow> derecho_row \<Rightarrow> 'o managed result" where
  "managed_join N env my_id disp rv params leader =
     (let v = rv\<lparr>my_rank := rank_of rv my_id\<rparr>
      in if my_rank v = -1 then Inl (Undefined ''members[-1]'')
         else
           let cs = Rdmc_sst_setup (get_member_ips_map (members v) (member_ips v) (failed v)) (members v ! nat (my_rank v))
                    # persist_calls params v
           in bindE (setup_derecho N env disp params v) (\<lambda>dg.
              bindE (adopt_leader_row N leader (upd_sst (\<lambda>s. sync_with_members (put s))
                       (new_managed N v dg params (state_file params) cs))) begin_service))"

text \<open>
  The constructor that restarts from a saved view: \<open>joined\<close> is the view an existing group
  sends, \<open>c\<close> the first member to come back when this node was the leader.
\<close>

definition managed_recover ::
  "nat \<Rightarrow> setup_env \<Rightarrow> string \<Rightarrow> node_id \<Rightarrow> string \<Rightarrow> 'o dispatcher \<Rightarrow> derecho_params \<Rightarrow> view option \<Rightarrow> view \<Rightarrow> client \<Rightarrow>
   'o managed result" where
  "managed_recover N env recovery_filename my_id my_ip disp params last_view joined c =
     (case last_view of
        None \<Rightarrow> Inl (Undefined ''no saved view'')
      | Some lv \<Rightarrow>
          if rank_of_leader lv = -1 then Inl (Undefined ''members[-1]'')
          else
            let was_leader = (my_id = members lv ! nat (rank_of_leader lv));
                v = (if was_leader then accept_member c ((start_group my_id my_ip)\<lparr>vid := vid lv + 1\<rparr>) else joined);
                cs = (if was_leader then [Send_view c v params] else []);
                v = v\<lparr>my_rank := rank_of v my_id\<rparr>;
                params = params\<lparr>filename := recovery_filename\<rparr>
            in if my_rank v = -1 then Inl (Undefined ''members[-1]'')
               else bindE (setup_derecho N env disp params v) (\<lambda>dg.
                 let g = upd_sst (\<lambda>s. sync_with_members (put s))
                           (new_managed N v dg params (recovery_filename @ PAXOS_STATE_EXTENSION) cs);
                     g = upd_sst (\<lambda>s. set_row (nat (my_rank v)) (init_row_vid N (rows s ! nat (my_rank v)) (vid v)) s) g
                 in begin_service g))"

section \<open>A group of two\<close>

lemma accepted_view:
  assumes "client_id c = Some p"
  shows "accept_member c (start_group my_id my_ip) =
    \<lparr>vid = 0, members = [my_id, p], member_ips = [my_ip, remote_ip c], failed = [False, False], nFailed = 0,
     who = None, num_members = 2, my_rank = 0, IKnowIAmLeader = True\<rparr>"
  using assms by (simp add: accept_member_def start_group_def new_view_def)

lemma no_exceptions: "set_exceptions_for_removed_nodes [] g = Inr g"
proof -
  have "List.product (fulfilledList g) ([] :: node_id list) = []" by (induction "fulfilledList g") (auto simp: product_concat_map)
  then show ?thesis by (simp add: set_exceptions_for_removed_nodes_def)
qed

lemma begin_service_keeps:
  assumes "removed_members (members (curr_view g)) (butlast (members (curr_view g))) = []"
  shows "\<exists>g'. begin_service g = Inr g' \<and> curr_view g' = curr_view g \<and>
    curr_group g' = curr_group (upd_sst start_predicate_evaluation (register_predicates g))"
  using assms
  by (auto simp: begin_service_def run_view_upcalls_def no_exceptions gms_call_def register_predicates_def upd_sst_def
      Let_def)

lemma table_calls_inv:
  assumes "group_inv g" "rows s = rows (dg_sst g)" "local_index s = local_index (dg_sst g)"
  shows "group_inv (g\<lparr>dg_sst := s\<rparr>)"
  using assms(1)
  by (rule same_core_inv[rotated]) (simp add: same_core_def outgoing_def callback_seqs_def assms)

lemma new_group_runs:
  assumes "compute_max_msg_size (max_payload_size params) (dp_block_size params) = Inr m" "1 \<le> dp_window_size params"
    and "af = [] \<or> length ms \<le> length af"
  shows "\<exists>g. new_group ms me s bufs disp params files af ok = Inr g"
proof -
  have "\<exists>g'. start_dgroup af ok g = Inr g'" if "dg_members g = ms" for g :: "'a dgroup"
    by (rule start_dgroup_runs[of af g ok]) (use assms that in auto)
  then show ?thesis using assms by (simp add: new_group_def guardE_def Let_def)
qed

text \<open>
  The constructor that starts a group, when its parameters are valid and its first client
  answers with an id of its own: it succeeds, the view has the two of them, this node leads and
  knows it, the communication group satisfies the invariant of the step relation, and the five
  membership predicates are registered after the three of the group.
\<close>

lemma leader_of_two:
  assumes params: "compute_max_msg_size (max_payload_size params) (dp_block_size params) = Inr m"
      "1 \<le> dp_window_size params"
    and client: "client_id c = Some p" "p \<noteq> 0"
    and env: "2 \<le> length (new_rows env)" "2 \<le> N" "\<forall>r \<in> set (new_rows env). length (nReceived r) = N"
  shows "\<exists>g. managed_leader N env my_ip disp params c = Inr g \<and> view_wf (curr_view g) \<and>
    members (curr_view g) = [0, p] \<and> IAmLeader (curr_view g) \<and> IKnowIAmLeader (curr_view g) \<and>
    group_inv (curr_group g) \<and>
    preds (gms_sst g) = [Stability, Delivery, Sender, Suspected_changed, Start_join, Change_commit_ready,
      Leader_proposed, Leader_committed]"
proof -
  let ?v = "accept_member c (start_group 0 my_ip)"
  let ?r = "map (init_row N) (take 2 (new_rows env)) @ drop 2 (new_rows env)"
  let ?rs = "?r[0 := (?r ! 0)\<lparr>row_vid := 0\<rparr>]"
  let ?s = "\<lparr>rows = ?rs, local_index = 0, preds = [], calls = []\<rparr>"
  note v = accepted_view[OF client(1), of 0 my_ip]
  have "?rs ! 0 = init_row N (new_rows env ! 0)\<lparr>row_vid := 0\<rparr>" "new_rows env ! 0 \<in> set (new_rows env)"
    using env by (auto simp: nth_append intro!: nth_mem)
  then have "length (nReceived (?rs ! 0)) = N" using env(3) by (simp only: init_row_def init_row_vid_def) simp
  then have fits: "sst_fits (length [0, p]) (index_of [0, p] 0) ?s"
    using env by (simp add: sst_fits_def)
  let ?bufs = "top_up (buffers_wanted (dp_window_size params) N) m []"
  obtain dg where new: "new_group [0, p] 0 ?s ?bufs disp params (log_files env) [False, False] (rdmc_answers env) = Inr dg"
    by atomize_elim (rule new_group_runs[OF params], simp)
  note starts = new_group_starts[OF new fits, simplified]
  have made: "setup_derecho N env disp params ?v = Inr dg"
    using new params by (simp add: setup_derecho_def v Let_def)
  obtain cs g where g: "managed_leader N env my_ip disp params c = Inr g"
    "begin_service (upd_sst (\<lambda>s. sync_with_members (put s)) (new_managed N ?v dg params (state_file params) cs)) = Inr g"
    using made begin_service_keeps[of "upd_sst (\<lambda>s. sync_with_members (put s)) (new_managed N ?v dg params (state_file params) cs)" for cs]
    by (fastforce simp: managed_leader_def Let_def new_managed_def upd_sst_def v removed_members_def)
  have "curr_view g = ?v" and dg': "curr_group g = dg\<lparr>dg_sst := gms_sst g\<rparr>"
    "rows (gms_sst g) = rows (dg_sst dg)" "local_index (gms_sst g) = local_index (dg_sst dg)"
    "preds (gms_sst g) = preds (dg_sst dg) @ [Suspected_changed, Start_join, Change_commit_ready,
      Leader_proposed, Leader_committed]"
    using g(2) begin_service_keeps[of "upd_sst (\<lambda>s. sync_with_members (put s)) (new_managed N ?v dg params (state_file params) cs)"]
    by (auto simp: new_managed_def upd_sst_def v removed_members_def register_predicates_def start_predicate_evaluation_def
        sync_with_members_def put_def insert_pred_def)
  moreover have "group_inv (curr_group g)"
    using table_calls_inv[OF fresh_group_inv[OF starts(1)] dg'(2,3)] dg'(1) by simp
  moreover have "view_wf ?v" using client by (simp add: v view_wf_def)
  moreover have "IAmLeader ?v" by (simp add: v IAmLeader_def rank_of_leader_def scan_eq_int_iff[where r = 0, simplified])
  ultimately show ?thesis using g(1) starts(4) by (simp add: v)
qed

section \<open>What the first member is sent\<close>

lemma begin_service_calls:
  assumes "begin_service g = Inr g'"
  shows "curr_view g' = curr_view g" "\<exists>ms. mg_calls g' = mg_calls g @ [View_upcall (members (curr_view g)) ms]"
    "objects (dispatchers (curr_group g')) = objects (dispatchers (curr_group g))"
proof -
  let ?g = "upd_sst start_predicate_evaluation (register_predicates g)"
  have same: "curr_view ?g = curr_view g" "mg_calls ?g = mg_calls g"
    "objects (dispatchers (curr_group ?g)) = objects (dispatchers (curr_group g))"
    by (simp_all add: upd_sst_def register_predicates_def)
  have run: "run_view_upcalls (butlast (members (curr_view g))) ?g = Inr g'" using assms by (simp add: begin_service_def)
  then have "curr_view g' = curr_view ?g" by (auto simp: run_view_upcalls_def gms_call_def Let_def)
  with upcalls_keep[OF run] same show "curr_view g' = curr_view g"
    "\<exists>ms. mg_calls g' = mg_calls g @ [View_upcall (members (curr_view g)) ms]"
    "objects (dispatchers (curr_group g')) = objects (dispatchers (curr_group g))" by auto
qed

lemma setup_dispatchers: "setup_derecho N env disp params v = Inr dg \<Longrightarrow> dispatchers dg = disp"
  by (auto simp: setup_derecho_def Let_def dest: constructor_dispatcher(2))

lemma persist_sends_nothing: "bytes_to vs ps post cs c (persist_calls params v) = []"
  by (simp add: persist_calls_def)

text \<open>
  The constructor that starts a group hands its first member everything it needs: from
  the bytes written to that client, the joining constructor reads the serialised fields of the
  leader's view, its parameters, and the objects the leader's own group starts with.
\<close>

lemma first_member_gets_the_state:
  assumes "managed_leader N env my_ip disp params c = Inr g" and "can_send vs ps post cs (curr_view g) params (objects disp)"
  shows "join_existing vs ps cs (bytes_to vs ps post cs c (mg_calls g)) =
      Inr ((sent_view (curr_view g), params, objects disp), []) \<and>
    objects (dispatchers (curr_group g)) = objects disp"
proof -
  let ?v = "accept_member c (start_group 0 my_ip)"
  from assms(1) obtain dg cs0 where dg: "setup_derecho N env disp params ?v = Inr dg"
    and cs0: "cs0 = [Rdmc_sst_setup (get_member_ips_map (members (start_group 0 my_ip)) (member_ips (start_group 0 my_ip))
        (failed (start_group 0 my_ip))) 0, Send_view c ?v params, Send_objects c (objects disp),
        Add_connection (last (members ?v)) (remote_ip c)] @ persist_calls params ?v"
    and g: "begin_service (upd_sst (\<lambda>s. sync_with_members (put s)) (new_managed N ?v dg params (state_file params) cs0)) = Inr g"
    by (auto simp: managed_leader_def Let_def)
  note b = begin_service_calls[OF g]
  have v: "curr_view g = ?v" using b(1) by (simp add: upd_sst_def new_managed_def)
  have "bytes_to vs ps post cs c (mg_calls g) = join_bytes vs ps ?v params @ send_objects post cs (objects disp)"
    using b(2) by (auto simp: upd_sst_def new_managed_def cs0 persist_sends_nothing)
  with sent_state_arrives[where rest = "[]", OF assms(2)]
  show ?thesis using b(3) setup_dispatchers[OF dg] by (simp add: v upd_sst_def new_managed_def)
qed

text \<open>
  C38. The constructor that restarts a group from its saved view does not: a recovered leader
  sends its first member the view and the parameters but no objects, and the joining
  constructor, which always reads them, fails on the read when the leader's socket closes,
  with any serialisation library that reads back the serialised fields of that view and the
  parameters.
\<close>

theorem recovered_leader_sends_no_objects:
  assumes "managed_recover N env file my_id my_ip disp params (Some lv) joined c = Inr g"
    and "my_id = members lv ! nat (rank_of_leader lv)"
    and "v = accept_member c ((start_group my_id my_ip)\<lparr>vid := vid lv + 1\<rparr>)"
    and "reads_as vs v (sent_view v)" "reads_back ps params" "bytes_size vs v < 2 ^ 64" "bytes_size ps params < 2 ^ 64"
  shows "join_existing vs ps cs (bytes_to vs ps post cs c (mg_calls g)) = Inl (Assert ''success'')"
proof -
  let ?p = "params\<lparr>filename := file\<rparr>" and ?v = "v\<lparr>my_rank := rank_of v my_id\<rparr>"
  from assms(1,2) obtain dg s where g: "begin_service (new_managed N ?v dg ?p (file @ PAXOS_STATE_EXTENSION) [Send_view c v params]
      \<lparr>curr_group := dg\<lparr>dg_sst := s\<rparr>\<rparr>) = Inr g"
    unfolding managed_recover_def option.case assms(3)[symmetric]
    by (auto simp: Let_def upd_sst_def new_managed_def split: if_splits)
  with begin_service_calls(2)[OF g] have "bytes_to vs ps post cs c (mg_calls g) = join_bytes vs ps v params"
    by (auto simp: new_managed_def)
  with objects_missing[OF assms(4-7)] show ?thesis by simp
qed

text \<open>A leader whose one object is the counter 3, and a client that answers with id 5.\<close>

definition joiner :: client where
  "joiner = \<lparr>remote_ip = ''b'', client_id = Some 5\<rparr>"

definition counter_dispatcher :: "u64 list dispatcher" where
  "counter_dispatcher = \<lparr>nid = 0, invs = [], objects = [3]\<rparr>"

definition duo_env :: setup_env where
  "duo_env = \<lparr>new_rows = [duo_row, duo_row], log_files = ([], []), rdmc_answers = \<lambda>_. True\<rparr>"

lemma duo_params_valid: "compute_max_msg_size (max_payload_size duo_params) (dp_block_size duo_params) = Inr 32"
  "1 \<le> dp_window_size duo_params"
  by (simp_all add: compute_max_msg_size_def sizeof_header_def duo_params_def)

lemma first_member_gets_the_state_witness:
  "\<exists>g. managed_leader 2 duo_env ''a'' counter_dispatcher duo_params joiner = Inr g \<and>
     join_existing view_serial params_serial [u64_serial]
       (bytes_to view_serial params_serial post_size_t [u64_serial] joiner (mg_calls g)) =
     Inr ((sent_view (curr_view g), duo_params, [3]), [])"
proof -
  obtain g where g: "managed_leader 2 duo_env ''a'' counter_dispatcher duo_params joiner = Inr g"
    using leader_of_two[OF duo_params_valid, of joiner 5 duo_env 2 "''a''" counter_dispatcher]
    by (auto simp: joiner_def duo_env_def duo_row_def)
  then have v: "curr_view g = accept_member joiner (start_group 0 ''a'')"
    by (auto simp: managed_leader_def Let_def new_managed_def upd_sst_def dest!: begin_service_calls(1))
  have "can_send view_serial params_serial post_size_t [u64_serial] (curr_view g) duo_params [3]"
    by (rule can_send_one_counter)
       (simp_all add: v accepted_view joiner_def view_in_range_def in_int32_def view_serial_size)
  with first_member_gets_the_state[OF g, of view_serial params_serial post_size_t "[u64_serial]"] g
  show ?thesis by (simp add: counter_dispatcher_def)
qed

text \<open>The same leader restarts from a saved view in which it led.\<close>

definition saved_view :: view where
  "saved_view = (start_group 0 ''a'')\<lparr>vid := 4\<rparr>"

definition restarted_view :: view where
  "restarted_view = accept_member joiner ((start_group 0 ''a'')\<lparr>vid := vid saved_view + 1\<rparr>)"

lemma recovery_runs:
  "\<exists>g. managed_recover 2 duo_env ''f'' 0 ''a'' counter_dispatcher duo_params (Some saved_view) saved_view joiner = Inr g"
proof -
  let ?p = "duo_params\<lparr>filename := ''f''\<rparr>" and ?v = "restarted_view\<lparr>my_rank := 0\<rparr>"
  have ranks: "rank_of_leader saved_view = 0" "rank_of restarted_view 0 = 0" "members saved_view ! 0 = 0"
    "members restarted_view = [0, 5]" by code_simp+
  have valid: "compute_max_msg_size (max_payload_size ?p) (dp_block_size ?p) = Inr 32" "1 \<le> dp_window_size ?p"
    using duo_params_valid by simp_all
  have "length (members ?v) \<le> length (failed ?v)"
    by (simp add: restarted_view_def accept_member_def start_group_def new_view_def)
  then have "\<exists>dg. setup_derecho 2 duo_env counter_dispatcher ?p ?v = Inr dg"
    unfolding setup_derecho_def valid(1) bindE.simps Let_def by (intro new_group_runs[OF valid] disjI2)
  then obtain dg where dg: "setup_derecho 2 duo_env counter_dispatcher ?p ?v = Inr dg" ..
  define h where "h = (let g = upd_sst (\<lambda>s. sync_with_members (put s))
        (new_managed 2 ?v dg ?p (''f'' @ PAXOS_STATE_EXTENSION) [Send_view joiner restarted_view duo_params])
     in upd_sst (\<lambda>s. set_row 0 (init_row_vid 2 (rows s ! 0) (vid ?v)) s) g)"
  have "members (curr_view h) = [0, 5]" using ranks(4) by (simp add: h_def Let_def upd_sst_def new_managed_def)
  then have "removed_members (members (curr_view h)) (butlast (members (curr_view h))) = []"
    by (simp add: removed_members_def)
  then obtain g where "begin_service h = Inr g" using begin_service_keeps by blast
  then have "managed_recover 2 duo_env ''f'' 0 ''a'' counter_dispatcher duo_params (Some saved_view) saved_view joiner = Inr g"
    using dg by (simp add: managed_recover_def ranks h_def Let_def flip: restarted_view_def)
  then show ?thesis ..
qed

theorem recovered_leader_sends_no_objects_witness:
  "\<exists>g. managed_recover 2 duo_env ''f'' 0 ''a'' counter_dispatcher duo_params (Some saved_view) saved_view joiner = Inr g \<and>
     join_existing view_serial params_serial [u64_serial]
       (bytes_to view_serial params_serial post_size_t [u64_serial] joiner (mg_calls g)) =
     Inl (Assert ''success'')"
proof -
  obtain g where g: "managed_recover 2 duo_env ''f'' 0 ''a'' counter_dispatcher duo_params (Some saved_view) saved_view joiner = Inr g"
    using recovery_runs by blast
  have "0 = members saved_view ! nat (rank_of_leader saved_view)" by code_simp
  note * = recovered_leader_sends_no_objects[OF g this restarted_view_def]
  have "can_send view_serial params_serial post_size_t [u64_serial] restarted_view duo_params [3]"
    by (rule can_send_one_counter)
       (simp_all add: restarted_view_def saved_view_def accept_member_def start_group_def new_view_def joiner_def
          view_in_range_def in_int32_def view_serial_size)
  with *[of view_serial params_serial "[u64_serial]" post_size_t] g show ?thesis by (auto simp: can_send_def)
qed

end
