(* ===== verification/View_History.thy ===== *)
theory View_History
  imports Handover Managed_Start
begin

text \<open>
  The views of a group one after another, while its first leader leads. The states the
  members continue with, together with that of a client that joins, are again a start of
  the membership protocol, as are the states the constructors of two founders leave; so
  what the protocol guarantees in one view it guarantees in every view of the group's life.
\<close>

section \<open>The start of a view\<close>

text \<open>A row of a table nobody has written to yet.\<close>

definition fresh_row :: "nat \<Rightarrow> derecho_row \<Rightarrow> bool" where
  "fresh_row N r \<longleftrightarrow> length (changes r) = N \<and> nChanges r \<le> 0 \<and> nCommitted r \<le> 0 \<and> nAcked r \<le> 0 \<and> \<not> suspected r ! 0"

text \<open>
  What the copy of a row in a new table may hold, when \<open>pub\<close> is what the row's owner has
  published there: what the table had at first, a published row, or a torn mixture, each
  column from one or the other, where the list of changes and the joining address are from
  one publication and the count of changes is no newer.
\<close>

definition copied :: "nat \<Rightarrow> derecho_row list \<Rightarrow> derecho_row \<Rightarrow> bool" where
  "copied N pub row \<longleftrightarrow>
     (length (changes row) = N \<and> nChanges row \<le> 0 \<or>
      (\<exists>i < length pub. changes row = changes (pub ! i) \<and> joiner_ip row = joiner_ip (pub ! i) \<and>
         (nChanges row \<le> 0 \<or> nChanges row \<in> set (map nChanges (take (Suc i) pub))))) \<and>
     (nCommitted row \<le> 0 \<or> nCommitted row \<in> set (map nCommitted pub)) \<and>
     (nAcked row \<le> 0 \<or> nAcked row \<in> set (map nAcked pub)) \<and>
     (suspected row ! 0 \<longrightarrow> (\<exists>x \<in> set pub. suspected x ! 0))"

lemma copied_fresh: "fresh_row N row \<Longrightarrow> copied N pub row"
  by (simp add: copied_def fresh_row_def)

lemma copied_bound:
  assumes "copied N pub row" "\<forall>x \<in> set pub. nChanges x \<le> a \<and> nCommitted x \<le> b" "0 \<le> a" "0 \<le> b"
  shows "nChanges row \<le> a \<and> nCommitted row \<le> b"
  using assms by (fastforce simp: copied_def dest: in_set_takeD)

text \<open>
  A table of \<open>n\<close> rows in which this node has written its own row, and what it put first was
  fresh; any of the others may have been published by its owner in the state the owner has
  in \<open>D\<close>, and may have arrived.
\<close>

definition view_table :: "nat \<Rightarrow> nat \<Rightarrow> 'o gms_cluster \<Rightarrow> sst \<Rightarrow> bool" where
  "view_table N n D s \<longleftrightarrow> num_rows s = n \<and>
     (\<forall>q < n. q \<noteq> local_index s \<longrightarrow> copied N (put_rows (gms_sst (gnode D q))) (rows s ! q)) \<and>
     (put_rows s \<noteq> [] \<longrightarrow> fresh_row N (hd (put_rows s)))"

definition starts_view :: "nat \<Rightarrow> nat \<Rightarrow> view \<Rightarrow> nat \<Rightarrow> 'o managed \<Rightarrow> bool" where
  "starts_view N n V r h \<longleftrightarrow> in_view n 0 V r h \<and> next_view h = None \<and>
     length (changes (local_row (gms_sst h))) = N \<and> nChanges (local_row (gms_sst h)) = vid V \<and>
     nAcked (local_row (gms_sst h)) = vid V \<and>
     (\<exists>xs ys. put_rows (gms_sst h) = xs @ ys \<and> (\<forall>x \<in> set xs. fresh_row N x \<and> nChanges x = nChanges (hd xs)) \<and>
        (\<forall>x \<in> set ys. gms_cols x = gms_cols (local_row (gms_sst h))))"

lemma follows_level:
  assumes "length (changes x) = N" "nChanges x \<le> vid V" "vid V \<le> nChanges ld"
  shows "follows N V ld x"
  using assms by (auto simp: follows_def)

lemma copied_follows:
  assumes c: "copied N pub row"
    and pub: "\<forall>x \<in> set pub. follows N V ld x \<and> lags l r x z" "sorted (map nChanges pub)"
    and base: "0 \<le> vid V" "vid V \<le> nChanges ld" "0 \<le> nAcked z" "0 \<le> nChanges z" "r = l \<Longrightarrow> 0 \<le> nCommitted z"
  shows "follows N V ld row \<and> lags l r row z"
proof -
  have "follows N V ld row \<and> nChanges row \<le> nChanges z"
  proof (cases "nChanges row \<le> 0")
    case True
    have "length (changes row) = N" using c pub(1) by (auto simp: copied_def follows_def)
    with True base show ?thesis by (intro conjI follows_level) simp_all
  next
    case False
    with c obtain i where i: "i < length pub" "changes row = changes (pub ! i)" "joiner_ip row = joiner_ip (pub ! i)"
      and "nChanges row \<in> set (map nChanges (take (Suc i) pub))"
      by (auto simp: copied_def)
    then obtain j where j: "j < length (take (Suc i) pub)" "nChanges row = nChanges (take (Suc i) pub ! j)"
      unfolding in_set_conv_nth by auto
    then have "j \<le> i" "nChanges row = nChanges (pub ! j)" by auto
    with i(1) pub(2) have le: "nChanges row \<le> nChanges (pub ! i)" by (auto simp: sorted_iff_nth_mono)
    have "follows N V ld (pub ! i)" "lags l r (pub ! i) z" using pub(1) i(1) by simp_all
    with le i show ?thesis by (auto simp: follows_def lags_def)
  qed
  moreover have "nAcked row \<le> nAcked z" "r = l \<Longrightarrow> nCommitted row \<le> nCommitted z"
    using c pub(1) base(3,5) by (auto simp: copied_def lags_def)
  ultimately show ?thesis by (simp add: lags_def)
qed

lemma view_starts:
  assumes V: "view_wf V" "num_members V = int n" "0 < n" "n \<le> N" "0 \<le> vid V"
    and all: "\<And>r. r < n \<Longrightarrow> starts_view N n V r (gnode D r)"
    and copies: "\<And>r q. r < n \<Longrightarrow> q < n \<Longrightarrow> q \<noteq> r \<Longrightarrow>
      copied N (put_rows (gms_sst (gnode D q))) (rows (gms_sst (gnode D r)) ! q)"
    and lead: "0 \<le> nCommitted (own D 0)" "nCommitted (own D 0) \<le> vid V"
      "nFailed (curr_view (gnode D 0)) = 0" "joining_client (gnode D 0) = None"
    and none: "\<And>p. installed D p = None"
  shows "gms_start n N 0 V D"
proof -
  have at: "in_view n 0 V r (gnode D r)" "next_view (gnode D r) = None" "length (changes (own D r)) = N"
    "nChanges (own D r) = vid V" "nAcked (own D r) = vid V" if "r < n" for r
    using all[OF that] by (simp_all add: starts_view_def own_def)
  note l = at[OF V(3)]
  have own: "rows (gms_sst (gnode D r)) ! r = own D r" if "r < n" for r
    using at(1)[OF that] by (simp add: in_view_def own_def local_row_def)
  have fresh: "follows N V (own D 0) x \<and> lags 0 r x (own D r)" if "fresh_row N x" "r < n" for x r
    using that at[OF that(2)] l V(5) lead(1) by (auto simp: fresh_row_def lags_def intro!: follows_level)
  have mine: "follows N V (own D 0) x \<and> lags 0 r x (own D r)" if "gms_cols x = gms_cols (own D r)" "r < n" for x r
    using that(1) at[OF that(2)] l by (auto simp: gms_cols_cong lags_def intro!: follows_level)
  have pub: "(\<forall>x \<in> set (put_rows (gms_sst (gnode D r))). follows N V (own D 0) x \<and> lags 0 r x (own D r)) \<and>
      sorted (map nChanges (put_rows (gms_sst (gnode D r))))" if r: "r < n" for r
  proof -
    obtain xs ys where ps: "put_rows (gms_sst (gnode D r)) = xs @ ys"
      "\<forall>x \<in> set xs. fresh_row N x \<and> nChanges x = nChanges (hd xs)" "\<forall>x \<in> set ys. gms_cols x = gms_cols (own D r)"
      using all[OF r] by (auto simp: starts_view_def own_def)
    have counts: "map nChanges xs = replicate (length xs) (nChanges (hd xs))" "map nChanges ys = replicate (length ys) (vid V)"
      using ps(2,3) at(4)[OF r] by (auto simp: gms_cols_cong intro!: nth_equalityI)
    have "xs \<noteq> [] \<Longrightarrow> nChanges (hd xs) \<le> vid V" using ps(2) V(5) by (cases xs) (auto simp: fresh_row_def)
    then have "sorted (map nChanges (xs @ ys))" by (auto simp: counts sorted_append)
    with ps fresh[OF _ r] mine[OF _ r] show ?thesis by auto
  qed
  have "member_table n N 0 V D r" if r: "r < n" for r
  proof -
    have "follows N V (own D 0) (rows (gms_sst (gnode D r)) ! q) \<and> lags 0 q (rows (gms_sst (gnode D r)) ! q) (own D q)"
      if q: "q < n" for q
    proof (cases "q = r")
      case True
      with mine[OF refl r] own[OF r] show ?thesis by simp
    next
      case False
      have p: "\<forall>x \<in> set (put_rows (gms_sst (gnode D q))). follows N V (own D 0) x \<and> lags 0 q x (own D q)"
        "sorted (map nChanges (put_rows (gms_sst (gnode D q))))" using pub[OF q] by simp_all
      show ?thesis by (rule copied_follows[OF copies[OF r q False] p]) (use V(5) l(4) at[OF q] lead(1) in simp_all)
    qed
    with at[OF r] pub[OF r] show ?thesis by (simp add: member_table_def acked_ok_def)
  qed
  then have "gms_table n N 0 V D" by (simp add: gms_table_def)
  moreover have "gms_leader n N 0 V D"
    using V lead at l by (auto simp: gms_leader_def proposals_bound_def majority_lost_def in_view_def)
  ultimately show ?thesis using none at by (simp add: gms_start_def)
qed

section \<open>A member that remains\<close>

lemma made_in_leads:
  assumes made: "made_in V 0 p nv" and first: "members nv ! 0 = members V ! 0" "0 < size_of nv"
  shows "rank_of_leader nv = 0"
proof -
  from made obtain v c ip where v: "view_wf v" "members v = members V" "rank_of_leader v = int 0" and nv: "next_view_of v c ip = Inr nv"
    by (auto simp: made_in_def)
  note len = view_wf_lengths[OF v(1)]
  have lead: "0 < size_of v" "\<not> failed v ! 0" using v(3) unfolding rank_of_leader_eq_iff by blast+
  from nv obtain k where nv': "nv = (changed_view v c ip)\<lparr>my_rank := k\<rparr>"
    unfolding next_view_of_eq[OF v(1)] by (auto simp: Let_def split: if_splits)
  have "\<not> failed nv ! 0"
  proof (cases "c \<in> set (members v)")
    case False
    then have "rank_of v c = -1" using v(1) by (simp add: rank_of_None_iff)
    with lead len show ?thesis by (simp add: nv' changed_view_def kept_all nth_append)
  next
    case True
    with v(1) obtain r where r: "rank_of v c = int r" "r < size_of v" "members v ! r = c" by (rule rank_of_member)
    have mem: "members nv = removeAll c (members v)" using changed_view_members[OF v(1), of c ip] True by (simp add: nv')
    have "members nv \<noteq> []" using first(2) changed_view_lengths(1)[OF v(1), of c ip] by (auto simp: nv')
    then have "members nv ! 0 \<in> set (members nv)" by (cases "members nv") auto
    then have "members v ! 0 \<noteq> c" using first(1) v(2) by (auto simp: mem)
    with r(3) have "0 < r" by (cases r) auto
    with r lead len show ?thesis by (simp add: nv' changed_view_def kept_one nth_append)
  qed
  with first(2) have "rank_of_leader nv = int 0" by (simp only: rank_of_leader_eq_iff) simp
  then show ?thesis by simp
qed

text \<open>
  Nothing in the table \<open>s\<close> makes the first task of view \<open>nv\<close> change anything: another member
  sees that the first one is not suspected, and the first one finds nobody ahead of the row
  \<open>old\<close> it has brought along.
\<close>

definition calm :: "derecho_row \<Rightarrow> view \<Rightarrow> sst \<Rightarrow> bool" where
  "calm old nv s \<longleftrightarrow> (0 < my_rank nv \<longrightarrow> \<not> suspected (rows s ! 0) ! 0) \<and>
     (my_rank nv \<le> 0 \<longrightarrow> (\<forall>r. 0 < r \<and> r < size_of nv \<longrightarrow>
        nChanges (rows s ! r) \<le> nChanges old \<and> nCommitted (rows s ! r) \<le> nCommitted old))"

lemma entering_first_task:
  assumes h: "entering N old nv h" and calm: "calm old nv (gms_sst (first_task N h))"
    and nv: "\<not> failed nv ! 0" "nat (my_rank nv) < size_of nv"
  shows "quiet (gms_sst h) (gms_sst (first_task N h))"
proof -
  let ?s = "gms_sst h"
  have w: "own_writes ?s (gms_sst (first_task N h))" by (rule first_task_writes)
  then have other: "rows (gms_sst (first_task N h)) ! r = rows ?s ! r" if "r \<noteq> nat (my_rank nv)" for r
    using that h by (auto simp: own_writes_def entering_def)
  show ?thesis
  proof (cases "my_rank nv \<le> 0")
    case True
    have "ahead_of_all (size_of nv) ?s"
      unfolding ahead_of_all_def
    proof (intro allI impI)
      fix r assume r: "r < size_of nv"
      show "nChanges (rows ?s ! r) \<le> nChanges (local_row ?s) \<and> nCommitted (rows ?s ! r) \<le> nCommitted (local_row ?s)"
      proof (cases "r = 0")
        case False
        with True have "r \<noteq> nat (my_rank nv)" by simp
        from other[OF this] True False r calm
        have "nChanges (rows ?s ! r) \<le> nChanges old \<and> nCommitted (rows ?s ! r) \<le> nCommitted old"
          unfolding calm_def by (metis neq0_conv)
        with h show ?thesis by (simp add: entering_def carried_def)
      qed (use h True in \<open>simp add: entering_def local_row_def\<close>)
    qed
    with h nv show ?thesis by (intro first_task_quiet) (simp_all add: entering_def)
  next
    case False
    then have "\<not> suspected (rows ?s ! 0) ! 0" "0 \<in> set [0..<nat (my_rank nv)]" using other[of 0] calm by (simp_all add: calm_def)
    with nv(1) h have "\<not> fst (IAmTheNewLeader (curr_view h) ?s)"
      unfolding IAmTheNewLeader_def by (auto simp: list_ex_iff entering_def)
    then show ?thesis by (auto simp: first_task_def Let_def split: prod.splits)
  qed
qed

text \<open>What a member that goes on has published, calm or not.\<close>

lemma hands_over_published:
  fixes a :: "'o managed"
  assumes a: "hands_over N old nv a" and fresh: "put_rows (gms_sst a) \<noteq> [] \<longrightarrow> fresh_row N (hd (put_rows (gms_sst a)))" and N: "0 < N"
  shows "carried old (put_rows (gms_sst a) ! 1)" "\<forall>x \<in> set (put_rows (gms_sst a)). \<not> suspected x ! 0"
proof -
  obtain h :: "'o managed" where h: "entering N old nv h" "gms_sst a = gms_sst (first_task N h)"
    using a unfolding hands_over_def by blast
  then obtain blank new where pub: "put_rows (gms_sst a) = blank # local_row (gms_sst h) # new"
    "\<forall>x \<in> set new. suspected x = suspected (local_row (gms_sst h))"
    using first_task_writes[of h N] by (auto simp: entering_def own_writes_def)
  with h(1) show "carried old (put_rows (gms_sst a) ! 1)" by (simp add: entering_def)
  from pub h(1) fresh N show "\<forall>x \<in> set (put_rows (gms_sst a)). \<not> suspected x ! 0"
    by (auto simp: entering_def fresh_row_def)
qed

lemma hands_over_index:
  fixes a :: "'o managed"
  assumes "hands_over N old nv a"
  shows "local_index (gms_sst a) = nat (my_rank nv)"
proof -
  obtain h :: "'o managed" where "entering N old nv h" "gms_sst a = gms_sst (first_task N h)"
    using assms unfolding hands_over_def by blast
  with first_task_writes[of h N] show ?thesis by (simp add: entering_def own_writes_def)
qed

lemma hands_over_carried:
  fixes a :: "'o managed"
  assumes a: "hands_over N old nv a" and calm: "calm old nv (gms_sst a)" and nv: "view_wf nv" "rank_of_leader nv = 0"
  shows "carried old (local_row (gms_sst a))" "local_index (gms_sst a) = nat (my_rank nv)"
    "\<exists>blank ys. put_rows (gms_sst a) = blank # ys \<and> (\<forall>x \<in> set ys. gms_cols x = gms_cols (local_row (gms_sst a)))"
    "\<exists>b. curr_view a = nv\<lparr>IKnowIAmLeader := b\<rparr>"
proof -
  obtain h :: "'o managed" where h: "entering N old nv h" "gms_sst a = gms_sst (first_task N h)"
    "curr_view a = curr_view (first_task N h)"
    using a unfolding hands_over_def by blast
  have lead: "\<not> failed nv ! 0" using nv(2) rank_of_leader_eq_iff[of nv 0] by simp
  have i: "nat (my_rank nv) < size_of nv" using nv(1) unfolding view_wf_def by linarith
  from entering_first_task[OF h(1) _ lead i] calm h(2) have q: "quiet (gms_sst h) (gms_sst a)" by simp
  note c = quiet_cols[OF q]
  with h(1) show "carried old (local_row (gms_sst a))" by (simp add: entering_def carried_def gms_cols_cong)
  show "local_index (gms_sst a) = nat (my_rank nv)" using q h(1) by (simp add: quiet_def entering_def)
  from h(1) q obtain blank new where "put_rows (gms_sst a) = blank # local_row (gms_sst h) # new"
    "\<forall>x \<in> set new. gms_cols x = gms_cols (local_row (gms_sst h))"
    by (auto simp: entering_def quiet_def)
  with c show "\<exists>blank ys. put_rows (gms_sst a) = blank # ys \<and> (\<forall>x \<in> set ys. gms_cols x = gms_cols (local_row (gms_sst a)))"
    by (intro exI[of _ blank] exI[of _ "local_row (gms_sst h) # new"]) simp
  show "\<exists>b. curr_view a = nv\<lparr>IKnowIAmLeader := b\<rparr>" using first_task_view[of N h] h by (auto simp: entering_def)
qed

lemma hands_over_starts:
  fixes a :: "'o managed"
  assumes a: "hands_over N old nv a" and calm: "calm old nv (gms_sst a)" and table: "view_table N n D (gms_sst a)"
    and nv: "view_wf nv" "size_of nv = n" "rank_of_leader nv = 0"
    and old: "length (changes old) = N" "nChanges old = vid nv" "nAcked old = vid nv"
    and V: "vid V = vid nv" "members V = members nv" "member_ips V = member_ips nv" "my_rank nv = int r"
  shows "starts_view N n V r a"
proof -
  note c = hands_over_carried[OF a calm nv(1,3)]
  obtain b where view: "curr_view a = nv\<lparr>IKnowIAmLeader := b\<rparr>" using c(4) by blast
  have num: "num_members nv = int n" using nv(1,2) by (auto simp: view_wf_def)
  obtain blank ys where pub: "put_rows (gms_sst a) = [blank] @ ys" "\<forall>x \<in> set ys. gms_cols x = gms_cols (local_row (gms_sst a))"
    using c(3) by auto
  have "fresh_row N blank" using table pub(1) by (simp add: view_table_def)
  with pub have "\<exists>xs ys. put_rows (gms_sst a) = xs @ ys \<and> (\<forall>x \<in> set xs. fresh_row N x \<and> nChanges x = nChanges (hd xs)) \<and>
      (\<forall>x \<in> set ys. gms_cols x = gms_cols (local_row (gms_sst a)))"
    by (intro exI[of _ "[blank]"] exI[of _ ys]) auto
  moreover have "rank_of_leader (curr_view a) = 0" using nv(3) by (simp add: view rank_of_leader_def)
  moreover have "view_wf (curr_view a)" using nv(1) by (simp add: view view_wf_def)
  moreover have "next_view a = None" using a by (auto simp: hands_over_def)
  ultimately show ?thesis
    using c(1,2) old V view num table by (simp add: starts_view_def in_view_def carried_def view_table_def)
qed


section \<open>A member the constructors make\<close>

definition blank_row :: "nat \<Rightarrow> derecho_row \<Rightarrow> bool" where
  "blank_row N r \<longleftrightarrow> changes r = replicate N 0 \<and> nChanges r = 0 \<and> nCommitted r = 0 \<and> nAcked r = 0 \<and>
     suspected r = replicate N False"

lemma blank_is_fresh: "blank_row N r \<Longrightarrow> 0 < N \<Longrightarrow> fresh_row N r"
  by (simp add: blank_row_def fresh_row_def)

lemma blank_rows:
  "blank_row N (init_row N r)" "blank_row N (initialize_row n r) = blank_row N r" "blank_row N (r\<lparr>row_vid := x\<rparr>) = blank_row N r"
  by (simp_all add: blank_row_def init_row_def init_row_vid_def initialize_row_def)

lemma setup_table:
  assumes run: "setup_derecho N env disp params v = Inr dg" and len: "length (new_rows env) = size_of v"
    and i: "nat (my_rank v) < size_of v"
  shows "local_index (dg_sst dg) = nat (my_rank v)" "num_rows (dg_sst dg) = size_of v"
    "\<forall>r < size_of v. blank_row N (rows (dg_sst dg) ! r)" "put_rows (dg_sst dg) = [local_row (dg_sst dg)]"
proof -
  let ?i = "nat (my_rank v)" let ?r0 = "map (init_row N) (new_rows env)"
  let ?rs = "?r0[?i := (?r0 ! ?i)\<lparr>row_vid := vid v\<rparr>]"
  from run len obtain g af ok where g: "start_dgroup af ok g = Inr dg" "dg_members g = members v"
    "dg_sst g = \<lparr>rows = ?rs, local_index = ?i, preds = [], calls = []\<rparr>"
    by (auto simp: setup_derecho_def new_group_def Let_def)
  note k = start_dgroup_keeps[OF g(1)] start_dgroup_puts[OF g(1)]
  have rows: "rows (dg_sst dg) = map (initialize_row (length (members v))) (take (length (members v)) ?rs) @ drop (length (members v)) ?rs"
    using k g by (simp add: initialize_sst_row_def Let_def sst_simps)
  show "local_index (dg_sst dg) = ?i" "put_rows (dg_sst dg) = [local_row (dg_sst dg)]" using k g by (simp_all add: put_rows_def)
  show "num_rows (dg_sst dg) = size_of v" by (simp add: rows len)
  have "\<forall>r \<in> set ?rs. blank_row N r"
    using len i by (auto simp: in_set_conv_nth nth_list_update blank_rows)
  then have "\<forall>r \<in> set (rows (dg_sst dg)). blank_row N r"
    unfolding rows by (auto simp: blank_rows dest: in_set_takeD in_set_dropD)
  with \<open>num_rows (dg_sst dg) = size_of v\<close> show "\<forall>r < size_of v. blank_row N (rows (dg_sst dg) ! r)" by simp
qed

lemma begin_service_frame:
  assumes "begin_service g = Inr g'"
  shows "curr_view g' = curr_view g" "next_view g' = next_view g" "joining_client g' = joining_client g"
    "rows (gms_sst g') = rows (gms_sst g)" "local_index (gms_sst g') = local_index (gms_sst g)"
    "put_rows (gms_sst g') = put_rows (gms_sst g)"
proof -
  let ?g = "upd_sst start_predicate_evaluation (register_predicates g)"
  have run: "run_view_upcalls (butlast (members (curr_view g))) ?g = Inr g'" using assms by (simp add: begin_service_def)
  have "joining_client g' = joining_client ?g" using run by (auto simp: run_view_upcalls_def Let_def)
  moreover note upcalls_frame[OF run] upcalls_view[OF run]
  moreover have "curr_view ?g = curr_view g" "next_view ?g = next_view g" "joining_client ?g = joining_client g"
    "rows (gms_sst ?g) = rows (gms_sst g)" "local_index (gms_sst ?g) = local_index (gms_sst g)"
    "put_rows (gms_sst ?g) = put_rows (gms_sst g)"
    by (simp_all add: register_predicates_def sst_simps start_fields)
  ultimately show "curr_view g' = curr_view g" "next_view g' = next_view g" "joining_client g' = joining_client g"
    "rows (gms_sst g') = rows (gms_sst g)" "local_index (gms_sst g') = local_index (gms_sst g)"
    "put_rows (gms_sst g') = put_rows (gms_sst g)" by auto
qed

text \<open>
  The end of a constructor: its row, as set up, put several times, and perhaps then once
  more with the leader's counts.
\<close>

lemma constructed_starts:
  assumes dg: "setup_derecho N env disp params v = Inr dg" "length (new_rows env) = size_of v"
    and s: "local_index s = nat (my_rank v)"
      "num_rows s = size_of v" "put_rows s = replicate k (local_row (dg_sst dg)) @ ys" "\<forall>x \<in> set ys. gms_cols x = gms_cols (local_row s)"
      "length (changes (local_row s)) = N" "nChanges (local_row s) = vid v" "nAcked (local_row s) = vid v"
    and h: "gms_sst h = s" "curr_view h = v" "next_view h = None"
    and v: "view_wf v" "rank_of_leader v = 0" "0 < N"
    and V: "vid V = vid v" "members V = members v" "member_ips V = member_ips v" "my_rank v = int r"
  shows "starts_view N (size_of v) V r h"
proof -
  have num: "num_members v = int (size_of v)" using v(1) by (simp add: view_wf_def)
  have r: "r < size_of v" using v(1) V(4) unfolding view_wf_def by linarith
  note t = setup_table[OF dg]
  have "local_row (dg_sst dg) = rows (dg_sst dg) ! r" using t(1) r V(4) by (simp add: local_row_def)
  then have "fresh_row N (local_row (dg_sst dg))" using t(3) r V(4) blank_is_fresh v(3) by simp
  then have "\<exists>xs ys. put_rows s = xs @ ys \<and> (\<forall>x \<in> set xs. fresh_row N x \<and> nChanges x = nChanges (hd xs)) \<and>
      (\<forall>x \<in> set ys. gms_cols x = gms_cols (local_row s))"
    using s(3,4) by (intro exI[of _ "replicate k (local_row (dg_sst dg))"] exI[of _ ys]) auto
  with s h v V num r show ?thesis by (simp add: starts_view_def in_view_def)
qed

lemma new_managed_fields [simp]:
  "gms_sst (new_managed N v dg params file cs) = dg_sst dg" "curr_view (new_managed N v dg params file cs) = v"
  "next_view (new_managed N v dg params file cs) = None" "joining_client (new_managed N v dg params file cs) = None"
  by (simp_all add: new_managed_def)

lemma setup_own:
  assumes "setup_derecho N env disp params v = Inr dg" "length (new_rows env) = size_of v" "nat (my_rank v) < size_of v"
  shows "blank_row N (local_row (dg_sst dg))"
  using setup_table[OF assms] assms(3) by (simp add: local_row_def)

lemma founder_starts:
  assumes dg: "setup_derecho N env disp params v = Inr dg" "length (new_rows env) = size_of v"
    and g: "begin_service (upd_sst (\<lambda>s. sync_with_members (put s)) (new_managed N v dg params file cs)) = Inr h"
    and v: "view_wf v" "rank_of_leader v = 0" "0 < N" "vid v = 0"
    and V: "vid V = 0" "members V = members v" "member_ips V = member_ips v" "my_rank v = int r"
  shows "starts_view N (size_of v) V r h" "blank_row N (local_row (gms_sst h))" "curr_view h = v" "joining_client h = None"
    "\<forall>q < size_of v. fresh_row N (rows (gms_sst h) ! q)"
proof -
  have i: "nat (my_rank v) < size_of v" using v(1) unfolding view_wf_def by linarith
  note b = begin_service_frame[OF g] and t = setup_table[OF dg i]
  have own: "local_row (gms_sst h) = local_row (dg_sst dg)" using b(4,5) by (simp add: local_row_def sst_simps)
  with setup_own[OF dg i] show blank: "blank_row N (local_row (gms_sst h))" by simp
  show "curr_view h = v" "joining_client h = None" using b(1,3) by simp_all
  show "\<forall>q < size_of v. fresh_row N (rows (gms_sst h) ! q)" using t(3) b(4) blank_is_fresh v(3) by (simp add: sst_simps)
  have counts: "length (changes (local_row (gms_sst h))) = N" "nChanges (local_row (gms_sst h)) = vid v"
    "nAcked (local_row (gms_sst h)) = vid v"
    using blank v(4) by (simp_all add: blank_row_def)
  have pub: "put_rows (gms_sst h) = replicate 2 (local_row (dg_sst dg)) @ []" using b(6) t(4) by (simp add: numeral_2_eq_2)
  show "starts_view N (size_of v) V r h"
    by (rule constructed_starts[OF dg, where s = "gms_sst h", OF _ _ pub]) (use b t own counts v V in \<open>simp_all add: sst_simps\<close>)
qed

text \<open>The table of a node that has joined: its row is the leader's, the others are as they were set up.\<close>

lemma joiner_table:
  assumes run: "managed_join N env me disp rv params row = Inr h" and len: "length (new_rows env) = size_of rv"
    and rv: "view_wf (rv\<lparr>my_rank := int r\<rparr>)" "vid rv \<noteq> 0" "rank_of rv me = int r" "rank_of_leader rv = 0" "0 < N"
  shows "carried row (local_row (gms_sst h))"
    "\<exists>blank. fresh_row N blank \<and> put_rows (gms_sst h) = [blank, blank, local_row (gms_sst h)]"
    "\<forall>q < size_of rv. q \<noteq> r \<longrightarrow> fresh_row N (rows (gms_sst h) ! q)"
    "length (changes row) = N \<Longrightarrow> nChanges row = vid rv \<Longrightarrow> nAcked row = vid rv \<Longrightarrow> vid V = vid rv \<Longrightarrow>
     members V = members rv \<Longrightarrow> member_ips V = member_ips rv \<Longrightarrow> starts_view N (size_of rv) V r h"
proof -
  let ?v = "rv\<lparr>my_rank := int r\<rparr>" and ?put = "upd_sst (\<lambda>s. sync_with_members (put s))"
  have ranks: "rank_of_leader ?v = 0" using rv(4) by (simp add: rank_of_leader_def)
  from run obtain dg g cs where dg: "setup_derecho N env disp params ?v = Inr dg"
    and g: "adopt_leader_row N row (?put (new_managed N ?v dg params (state_file params) cs)) = Inr g" "begin_service g = Inr h"
    unfolding managed_join_def Let_def rv(3) by (auto split: if_splits)
  have lenv: "length (new_rows env) = size_of ?v" using len by simp
  have i: "nat (my_rank ?v) < size_of ?v" using rv(1) unfolding view_wf_def by auto
  note t = setup_table[OF dg lenv i] and b = begin_service_frame[OF g(2)]
  let ?own = "init_from_existing N (rows (dg_sst dg) ! r) row"
  have sst: "gms_sst g = put (set_row r ?own (sync_with_members (put (dg_sst dg))))"
    and view: "curr_view g = ?v" "next_view g = None"
    using g(1) rv(2) ranks by (auto simp: adopt_leader_row_def sst_simps split: if_splits)
  have own: "local_row (gms_sst h) = ?own" using b(4,5) t(1,2) i by (simp add: local_row_def sst sst_simps set_row_def)
  then show "carried row (local_row (gms_sst h))" by (simp add: carried_def init_from_existing_def)
  have "put_rows (gms_sst h) = replicate 2 (local_row (dg_sst dg)) @ [?own]"
    using b(6) t i by (simp add: sst numeral_2_eq_2 sst_simps local_row_def set_row_def)
  then have pub: "put_rows (gms_sst h) = replicate 2 (local_row (dg_sst dg)) @ [local_row (gms_sst h)]" unfolding own .
  have "fresh_row N (local_row (dg_sst dg))" using setup_own[OF dg lenv i] rv(5) by (rule blank_is_fresh)
  with pub show "\<exists>blank. fresh_row N blank \<and> put_rows (gms_sst h) = [blank, blank, local_row (gms_sst h)]"
    by (auto simp: numeral_2_eq_2)
  show "\<forall>q < size_of rv. q \<noteq> r \<longrightarrow> fresh_row N (rows (gms_sst h) ! q)"
    using t(3) b(4) blank_is_fresh rv(5) by (simp add: sst sst_simps set_row_def)
  assume row: "length (changes row) = N" "nChanges row = vid rv" "nAcked row = vid rv"
    and V: "vid V = vid rv" "members V = members rv" "member_ips V = member_ips rv"
  have "starts_view N (size_of ?v) V r h"
    by (rule constructed_starts[OF dg lenv, where s = "gms_sst h", OF _ _ pub])
      (use b t own row rv V view ranks in \<open>simp_all add: sst sst_simps set_row_def init_from_existing_def\<close>)
  then show "starts_view N (size_of rv) V r h" by simp
qed

section \<open>From one view to the next\<close>

text \<open>
  The member of rank \<open>p\<close> continues as \<open>h\<close>: the leader has not marked it failed, its new view
  is well formed, which it is when the member had seen the removed node marked, and the other
  rows of its new table are as the table had them at first or as their owners, in the states
  \<open>D\<close>, have published them.
\<close>

definition remains :: "nat \<Rightarrow> 'o gms_cluster \<Rightarrow> 'o gms_cluster \<Rightarrow> nat \<Rightarrow> 'o managed \<Rightarrow> bool" where
  "remains N C D p h \<longleftrightarrow> installed C p = Some h \<and> \<not> failed (curr_view (gnode C 0)) ! p \<and> view_wf (curr_view h) \<and>
     view_table N (size_of (curr_view h)) D (gms_sst h)"

text \<open>
  A client joins: the view it is sent is the one the leader has made, and the row it adopts
  has the columns of the one the leader put before the new table was synchronised.
\<close>

definition joins :: "nat \<Rightarrow> view \<Rightarrow> 'o managed \<Rightarrow> node_id \<Rightarrow> 'o managed \<Rightarrow> bool" where
  "joins N V leader me h \<longleftrightarrow> (\<exists>env disp params row. length (new_rows env) = size_of V \<and>
     gms_cols row = gms_cols (put_rows (gms_sst leader) ! 1) \<and>
     managed_join N env me disp (sent_view V) params row = Inr h)"

text \<open>The leader begins the view with no change pending and nobody failed.\<close>

definition settled :: "'o managed \<Rightarrow> bool" where
  "settled g \<longleftrightarrow> nFailed (curr_view g) = 0 \<and> joining_client g = None \<and> nChanges (local_row (gms_sst g)) = vid (curr_view g)"

text \<open>
  The members of the next view: those that have installed it, at the rank their id has there,
  and the client that joins, each in the state it has after its first task in the view. The
  leader has no other change pending; view changes that overlap are not composed.
\<close>

definition next_cluster :: "nat \<Rightarrow> nat \<Rightarrow> view \<Rightarrow> 'o gms_cluster \<Rightarrow> view \<Rightarrow> 'o gms_cluster \<Rightarrow> bool" where
  "next_cluster n N V C V' D \<longleftrightarrow> curr_view (gnode D 0) = V' \<and> remains N C D 0 (gnode D 0) \<and> settled (gnode D 0) \<and>
     size_of V' \<le> N \<and> (\<forall>p. installed D p = None) \<and>
     (\<forall>r < size_of V'. if members V' ! r \<in> set (members V)
        then \<exists>p < n. members V ! p = members V' ! r \<and> remains N C D p (gnode D r)
        else joins N V' (gnode D 0) (members V' ! r) (gnode D r))"


lemma next_view_first:
  assumes wf: "view_wf v" and run: "next_view_of v c ip = Inr nv" and me: "my_rank v = 0"
  shows "members nv ! 0 = members v ! 0" "my_rank nv = 0" "distinct (members nv)" "vid nv = vid v + 1"
proof -
  from wf me have "members v \<noteq> []" by (auto simp: view_wf_def)
  then obtain x xs where x: "members v = x # xs" by (cases "members v") auto
  have m: "members nv = (if c \<in> set (members v) then removeAll c (members v) else members v @ [c])" "c \<noteq> x" "vid nv = vid v + 1"
    using next_view_members[OF wf, of c ip] run x me by (auto split: if_splits)
  then show first: "members nv ! 0 = members v ! 0" by (auto simp: x)
  show d: "distinct (members nv)" using wf m(1) by (auto simp: view_wf_def distinct_removeAll)
  show "vid nv = vid v + 1" by (rule m(3))
  note r = next_view_my_rank[OF wf run]
  then have "members nv ! nat (my_rank nv) = members nv ! 0" "nat (my_rank nv) < length (members nv)" using first me by auto
  with d r show "my_rank nv = 0" by (subst (asm) nth_eq_iff_index_eq) auto
qed

lemma remaining_member:
  assumes run: "reachable (begins_view n N 0 V) (gms_step n N 0) C" and p: "remains N C D p h" "p < n"
  obtains nv b where "made_in V 0 p nv" "hands_over N (own C p) nv h" "curr_view h = nv\<lparr>IKnowIAmLeader := b\<rparr>" "view_wf nv"
    "agreed N V (own C 0) nv" "length (changes (own C p)) = N" "vid V < nCommitted (own C 0)"
    "nCommitted (own C 0) \<le> nAcked (own C p)" "nAcked (own C p) \<le> nChanges (own C p)"
    "nChanges (own C p) \<le> nChanges (own C 0)" "0 \<le> vid V" "view_wf V" "nCommitted (own C p) \<le> nCommitted (own C 0)"
proof -
  have inv: "gms_inv n N 0 V C" "handed n N 0 V C" "commits_lag n 0 C" using handover.inv_reachable[OF run] by simp_all
  note P = inv_parts[OF inv(1) p(2)]
  from P(3) p(1) obtain nv b where nv: "next_view (gnode C p) = Some nv" "curr_view h = nv\<lparr>IKnowIAmLeader := b\<rparr>"
    unfolding gms_decided_def remains_def by metis
  then have wf: "view_wf nv" using p(1) by (simp add: remains_def view_wf_def)
  have "num_rows (gms_sst h) = size_of nv" using p(1) nv(2) by (simp add: remains_def view_table_def)
  moreover have "nat (my_rank nv) < size_of nv" using wf unfolding view_wf_def by linarith
  ultimately have "made_in V 0 p nv" "hands_over N (own C p) nv h"
    using inv(2) p nv(1) unfolding handed_def remains_def by fastforce+
  moreover have "agreed N V (own C 0) nv" "vid V < nCommitted (own C 0)" "nCommitted (own C 0) \<le> nAcked (own C p)"
    using P(2,3) p nv(1) by (auto simp: gms_decided_def gms_leader_def remains_def)
  moreover have "length (changes (own C p)) = N" "nChanges (own C p) \<le> nChanges (own C 0)"
    using own_follows[OF P(1) p(2)] by (simp_all add: follows_def)
  moreover have "nAcked (own C p) \<le> nChanges (own C p)" using gms_tableD(2)[OF P(1) p(2)] by (simp add: acked_ok_def)
  moreover have "view_wf V" using P(2) by (simp add: gms_leader_def)
  moreover have "nCommitted (own C p) \<le> nCommitted (own C 0)" using inv(3) p(2) by (simp add: commits_lag_def)
  ultimately show thesis using nv(2) wf P(5) by (intro that)
qed


lemma rank_of_nth: "distinct (members v) \<Longrightarrow> length (members v) = size_of v \<Longrightarrow> r < size_of v \<Longrightarrow> rank_of v (members v ! r) = int r"
  unfolding rank_of_def scan_eq_int_iff by (auto simp: nth_eq_iff_index_eq)

lemma agreed_same:
  assumes "agreed N V ld a" "agreed N V ld b"
  shows "vid a = vid b \<and> members a = members b \<and> member_ips a = member_ips b \<and> num_members a = num_members b \<and> who a = who b"
  using assms by (simp add: agreed_def Let_def)

text \<open>
  The leader's side of the handover: its new view, and what it has published there before
  anyone could have changed the table.
\<close>

lemma leader_enters:
  assumes run: "reachable (begins_view n N 0 V) (gms_step n N 0) C" and nxt: "next_cluster n N V C V' D"
  shows "0 < n" "n \<le> N" "view_wf V" "view_wf V'" "0 \<le> vid V" "vid V' = vid V + 1" "agreed N V (own C 0) V'" "distinct (members V')"
    "members V' ! 0 = members V ! 0" "rank_of_leader V' = 0" "0 < size_of V'" "my_rank V' = 0"
    "vid V < nCommitted (own C 0)" "nCommitted (own C 0) \<le> nAcked (own C 0)" "nAcked (own C 0) \<le> nChanges (own C 0)"
    "carried (own C 0) (put_rows (gms_sst (gnode D 0)) ! 1)" "\<forall>x \<in> set (put_rows (gms_sst (gnode D 0))). \<not> suspected x ! 0"
    "\<exists>nv b. hands_over N (own C 0) nv (gnode D 0) \<and> V' = nv\<lparr>IKnowIAmLeader := b\<rparr>"
proof -
  have inv: "gms_inv n N 0 V C" using handover.inv_reachable[OF run] by simp
  then show n: "0 < n" and N: "n \<le> N" by (simp_all add: gms_inv_def gms_leader_def)
  from nxt have rem: "remains N C D 0 (gnode D 0)" and V': "curr_view (gnode D 0) = V'"
    by (auto simp: next_cluster_def)
  from run rem n obtain nv b where m: "made_in V 0 0 nv" "hands_over N (own C 0) nv (gnode D 0)"
    "curr_view (gnode D 0) = nv\<lparr>IKnowIAmLeader := b\<rparr>" "view_wf nv" "agreed N V (own C 0) nv"
    "vid V < nCommitted (own C 0)" "nCommitted (own C 0) \<le> nAcked (own C 0)" "nAcked (own C 0) \<le> nChanges (own C 0)"
    "0 \<le> vid V" "view_wf V"
    by (rule remaining_member)
  from m(1) obtain v c ip where v: "view_wf v" "vid v = vid V" "members v = members V" "my_rank v = 0" "next_view_of v c ip = Inr nv"
    by (auto simp: made_in_def)
  note f = next_view_first[OF v(1,5,4)]
  have pos: "0 < size_of nv" using m(4) unfolding view_wf_def by linarith
  have lead: "rank_of_leader nv = 0" by (rule made_in_leads[OF m(1) _ pos]) (simp add: f v)
  have eq: "V' = nv\<lparr>IKnowIAmLeader := b\<rparr>" using V' m(3) by simp
  have fresh: "put_rows (gms_sst (gnode D 0)) \<noteq> [] \<longrightarrow> fresh_row N (hd (put_rows (gms_sst (gnode D 0))))"
    using rem by (simp add: remains_def view_table_def)
  have "0 < N" using n N by simp
  from hands_over_published[OF m(2) fresh this]
  show "carried (own C 0) (put_rows (gms_sst (gnode D 0)) ! 1)" "\<forall>x \<in> set (put_rows (gms_sst (gnode D 0))). \<not> suspected x ! 0" .
  show "view_wf V" "0 \<le> vid V" "vid V < nCommitted (own C 0)" "nCommitted (own C 0) \<le> nAcked (own C 0)"
    "nAcked (own C 0) \<le> nChanges (own C 0)" by fact+
  show "view_wf V'" "agreed N V (own C 0) V'" "rank_of_leader V' = 0" "0 < size_of V'"
    using m(4,5) lead pos by (simp_all add: eq view_wf_def agreed_def rank_of_leader_def)
  show "vid V' = vid V + 1" "distinct (members V')" "members V' ! 0 = members V ! 0" "my_rank V' = 0" using f v by (simp_all add: eq)
  show "\<exists>nv b. hands_over N (own C 0) nv (gnode D 0) \<and> V' = nv\<lparr>IKnowIAmLeader := b\<rparr>" using m(2) eq by blast
qed

text \<open>Another member that goes on: its view, its rank there, and a first task that finds nothing to do.\<close>

lemma remaining_member_enters:
  assumes run: "reachable (begins_view n N 0 V) (gms_step n N 0) C" and nxt: "next_cluster n N V C V' D"
    and p: "p < n" "members V ! p = members V' ! r" "remains N C D p h" and r: "r < size_of V'"
  obtains nv where "hands_over N (own C p) nv h" "view_wf nv" "rank_of_leader nv = 0" "my_rank nv = int r"
    "vid nv = vid V'" "members nv = members V'" "member_ips nv = member_ips V'" "size_of nv = size_of V'"
    "0 < r \<longrightarrow> calm (own C p) nv (gms_sst h)" "r = 0 \<longleftrightarrow> p = 0"
proof -
  note L = leader_enters[OF run nxt]
  from run p(3,1) obtain nv b where m: "made_in V 0 p nv" "hands_over N (own C p) nv h" "curr_view h = nv\<lparr>IKnowIAmLeader := b\<rparr>"
    "view_wf nv" "agreed N V (own C 0) nv"
    by (rule remaining_member)
  from m(1) obtain v c ip where v: "view_wf v" "members v = members V" "my_rank v = int p" "next_view_of v c ip = Inr nv"
    by (auto simp: made_in_def)
  note same = agreed_same[OF m(5) L(7)]
  have size: "size_of nv = size_of V'" "length (members V') = size_of V'" using same L(4) by (simp_all add: view_wf_def)
  have lead: "rank_of_leader nv = 0" using L(11) by (intro made_in_leads[OF m(1)]) (simp_all add: same L(9))
  have k: "0 \<le> my_rank nv" "nat (my_rank nv) < size_of V'" "members V' ! nat (my_rank nv) = members V' ! r"
    using next_view_my_rank[OF v(1,4)] v(2,3) p(2) same by auto
  with L(8) r size have "nat (my_rank nv) = r" by (simp add: nth_eq_iff_index_eq)
  with k(1) have rank: "my_rank nv = int r" by simp
  have len: "n \<le> length (members V)" "distinct (members V)"
    using handover.inv_reachable[OF run] L(3) by (auto simp: gms_inv_def gms_leader_def view_wf_def)
  have zero: "r = 0 \<longleftrightarrow> p = 0"
  proof -
    have "r < length (members V')" "0 < length (members V')" "p < length (members V)" "0 < length (members V)"
      using r size(2) L(1) p(1) len(1) by linarith+
    then show ?thesis
      using nth_eq_iff_index_eq[OF len(2), of p 0] nth_eq_iff_index_eq[OF L(8), of r 0] p(2) L(9) by auto
  qed
  have "calm (own C p) nv (gms_sst h)" if "0 < r"
  proof -
    from hands_over_index[OF m(2)] have "copied N (put_rows (gms_sst (gnode D 0))) (rows (gms_sst h) ! 0)"
      using p(3) m(3) size L(11) that rank by (simp add: remains_def view_table_def)
    with L(17) have "\<not> suspected (rows (gms_sst h) ! 0) ! 0" by (auto simp: copied_def)
    with that show ?thesis by (simp add: calm_def rank)
  qed
  with m(2,4) lead rank same size(1) zero show thesis by (intro that[of nv]) simp_all
qed

text \<open>Nothing a member other than the leader has published in the new view is ahead of the leader.\<close>

lemma members_publish:
  assumes run: "reachable (begins_view n N 0 V) (gms_step n N 0) C" and nxt: "next_cluster n N V C V' D"
    and r: "0 < r" "r < size_of V'"
  shows "(\<forall>x \<in> set (put_rows (gms_sst (gnode D r))). nChanges x \<le> nChanges (own C 0) \<and> nCommitted x \<le> nCommitted (own C 0)) \<and>
    nCommitted (own D r) \<le> nCommitted (own C 0)"
proof -
  note L = leader_enters[OF run nxt]
  have pos: "0 \<le> nChanges (own C 0)" "0 \<le> nCommitted (own C 0)" using L(5,13-15) by linarith+
  obtain blanks ys where pub: "put_rows (gms_sst (gnode D r)) = blanks @ ys" "\<forall>x \<in> set blanks. fresh_row N x"
    "\<forall>x \<in> set ys. gms_cols x = gms_cols (own D r)"
    and own: "nChanges (own D r) \<le> nChanges (own C 0)" "nCommitted (own D r) \<le> nCommitted (own C 0)"
  proof (cases "members V' ! r \<in> set (members V)")
    case True
    with nxt r obtain p where p: "p < n" "members V ! p = members V' ! r" "remains N C D p (gnode D r)"
      unfolding next_cluster_def by meson
    obtain nv where "hands_over N (own C p) nv (gnode D r)" "view_wf nv" "rank_of_leader nv = 0"
      "0 < r \<longrightarrow> calm (own C p) nv (gms_sst (gnode D r))"
      by (rule remaining_member_enters[OF run nxt p r(2)])
    with r(1) have m: "hands_over N (own C p) nv (gnode D r)" "calm (own C p) nv (gms_sst (gnode D r))" "view_wf nv" "rank_of_leader nv = 0"
      by simp_all
    from run p(3,1) have le: "nChanges (own C p) \<le> nChanges (own C 0) \<and> nCommitted (own C p) \<le> nCommitted (own C 0)"
      by (rule remaining_member) simp
    from hands_over_carried[OF m] obtain blank ys where c: "carried (own C p) (own D r)"
      "put_rows (gms_sst (gnode D r)) = [blank] @ ys" "\<forall>x \<in> set ys. gms_cols x = gms_cols (own D r)" by (auto simp: own_def)
    have "fresh_row N blank" using p(3) c(2) by (simp add: remains_def view_table_def)
    with c le that[of "[blank]" ys] show thesis by (simp add: carried_def)
  next
    case False
    with nxt r have "joins N V' (gnode D 0) (members V' ! r) (gnode D r)" unfolding next_cluster_def by meson
    then obtain env disp params row where j: "length (new_rows env) = size_of (sent_view V')"
      "managed_join N env (members V' ! r) disp (sent_view V') params row = Inr (gnode D r)"
      "gms_cols row = gms_cols (put_rows (gms_sst (gnode D 0)) ! 1)"
      by (auto simp: joins_def)
    have "carried row (own D r)"
      "\<exists>blank. fresh_row N blank \<and> put_rows (gms_sst (gnode D r)) = [blank, blank, own D r]"
      unfolding own_def
      by (rule joiner_table[OF j(2,1)];
          use L(1,2,4-6,10) r rank_of_nth[OF L(8) _ r(2)] in \<open>simp add: view_wf_def\<close>)+
    with j(3) L(16) that[of "[_, _]" "[own D r]"] show thesis by (auto simp: carried_def gms_cols_cong)
  qed
  then show ?thesis using pos by (auto simp: fresh_row_def gms_cols_cong)
qed

lemma leader_calm:
  assumes run: "reachable (begins_view n N 0 V) (gms_step n N 0) C" and nxt: "next_cluster n N V C V' D"
  shows "calm (own C 0) V' (gms_sst (gnode D 0))"
proof -
  note L = leader_enters[OF run nxt]
  have pos: "0 \<le> nChanges (own C 0)" "0 \<le> nCommitted (own C 0)" using L(5,13-15) by linarith+
  obtain nv b where nv: "hands_over N (own C 0) nv (gnode D 0)" "V' = nv\<lparr>IKnowIAmLeader := b\<rparr>" using L(18) by blast
  from hands_over_index[OF nv(1)] have i: "local_index (gms_sst (gnode D 0)) = 0" using L(12) nv(2) by simp
  have "nChanges (rows (gms_sst (gnode D 0)) ! r) \<le> nChanges (own C 0) \<and> nCommitted (rows (gms_sst (gnode D 0)) ! r) \<le> nCommitted (own C 0)"
    if "0 < r" "r < size_of V'" for r
  proof (rule copied_bound)
    show "copied N (put_rows (gms_sst (gnode D r))) (rows (gms_sst (gnode D 0)) ! r)"
      using nxt that i by (auto simp: next_cluster_def remains_def view_table_def)
  qed (use members_publish[OF run nxt that] pos in auto)
  then show ?thesis by (simp add: calm_def L(12))
qed

lemma leader_hands_over:
  assumes run: "reachable (begins_view n N 0 V) (gms_step n N 0) C" and nxt: "next_cluster n N V C V' D"
  shows "carried (own C 0) (own D 0)" "nChanges (own C 0) = vid V'" "nAcked (own C 0) = vid V'" "nCommitted (own C 0) \<le> vid V'"
proof -
  note L = leader_enters[OF run nxt]
  obtain nv b where nv: "hands_over N (own C 0) nv (gnode D 0)" "V' = nv\<lparr>IKnowIAmLeader := b\<rparr>" using L(18) by blast
  have "calm (own C 0) nv (gms_sst (gnode D 0))" using leader_calm[OF run nxt] by (simp add: nv(2) calm_def)
  from hands_over_carried(1)[OF nv(1) this] L(4,10) show c: "carried (own C 0) (own D 0)"
    by (simp add: nv(2) view_wf_def rank_of_leader_def own_def)
  have "settled (gnode D 0)" "curr_view (gnode D 0) = V'" using nxt by (auto simp: next_cluster_def)
  with c L(6,13-15) show "nChanges (own C 0) = vid V'" "nAcked (own C 0) = vid V'" "nCommitted (own C 0) \<le> vid V'"
    by (simp_all add: settled_def carried_def own_def)
qed

text \<open>Every member of the next view, one that goes on or one that joins.\<close>

lemma member_starts:
  assumes run: "reachable (begins_view n N 0 V) (gms_step n N 0) C" and nxt: "next_cluster n N V C V' D" and r: "r < size_of V'"
  shows "starts_view N (size_of V') V' r (gnode D r)"
    "q < size_of V' \<Longrightarrow> q \<noteq> r \<Longrightarrow> copied N (put_rows (gms_sst (gnode D q))) (rows (gms_sst (gnode D r)) ! q)"
proof -
  note L = leader_enters[OF run nxt] and H = leader_hands_over[OF run nxt]
  have "starts_view N (size_of V') V' r (gnode D r) \<and>
    (q < size_of V' \<longrightarrow> q \<noteq> r \<longrightarrow> copied N (put_rows (gms_sst (gnode D q))) (rows (gms_sst (gnode D r)) ! q))"
  proof (cases "members V' ! r \<in> set (members V)")
    case True
    with nxt r obtain p where p: "p < n" "members V ! p = members V' ! r" "remains N C D p (gnode D r)"
      unfolding next_cluster_def by meson
    obtain nv where m: "hands_over N (own C p) nv (gnode D r)" "view_wf nv" "rank_of_leader nv = 0" "my_rank nv = int r"
      "vid nv = vid V'" "members nv = members V'" "member_ips nv = member_ips V'" "size_of nv = size_of V'"
      "0 < r \<longrightarrow> calm (own C p) nv (gms_sst (gnode D r))" "r = 0 \<longleftrightarrow> p = 0"
      by (rule remaining_member_enters[OF run nxt p r])
    have calm: "calm (own C p) nv (gms_sst (gnode D r))"
      using m(4,8-10) L(12) leader_calm[OF run nxt] by (cases "r = 0") (simp_all add: calm_def)
    from run p(3,1) obtain counts: "length (changes (own C p)) = N" "vid V < nCommitted (own C 0)" "nCommitted (own C 0) \<le> nAcked (own C p)"
      "nAcked (own C p) \<le> nChanges (own C p)" "nChanges (own C p) \<le> nChanges (own C 0)"
      by (rule remaining_member)
    have "size_of (curr_view (gnode D r)) = size_of V'"
      using hands_over_carried(4)[OF m(1) calm m(2,3)] m(8) by auto
    then have table: "view_table N (size_of V') D (gms_sst (gnode D r))" using p(3) by (simp add: remains_def)
    have at: "nChanges (own C p) = vid nv" "nAcked (own C p) = vid nv"
      using counts H(2) L(6) m(5) by linarith+
    have i: "local_index (gms_sst (gnode D r)) = r" using hands_over_carried(2)[OF m(1) calm m(2,3)] m(4) by simp
    have "starts_view N (size_of V') V' r (gnode D r)"
      by (rule hands_over_starts[OF m(1) calm table m(2,8,3) counts(1) at]) (simp_all add: m(4-7))
    with table i show ?thesis by (simp add: view_table_def)
  next
    case False
    with nxt r have "joins N V' (gnode D 0) (members V' ! r) (gnode D r)" unfolding next_cluster_def by meson
    then obtain env disp params row where j: "length (new_rows env) = size_of (sent_view V')"
      "managed_join N env (members V' ! r) disp (sent_view V') params row = Inr (gnode D r)"
      "gms_cols row = gms_cols (put_rows (gms_sst (gnode D 0)) ! 1)"
      by (auto simp: joins_def)
    have "length (changes (own C 0)) = N"
      using handover.inv_reachable[OF run] own_follows[of n N 0 V C 0] L(1) by (simp add: gms_inv_def follows_def)
    with j(3) L(16) H(2,3) have row: "length (changes row) = N" "nChanges row = vid V'" "nAcked row = vid V'"
      by (simp_all add: gms_cols_cong carried_def)
    have wf: "view_wf ((sent_view V')\<lparr>my_rank := int r\<rparr>)" using L(4) r by (simp add: view_wf_def)
    have len: "length (members V') = size_of V'" using L(4) by (simp add: view_wf_def)
    have rank: "vid (sent_view V') \<noteq> 0" "rank_of (sent_view V') (members V' ! r) = int r" "rank_of_leader (sent_view V') = 0" "0 < N"
      using L(1,2,5,6,10) rank_of_nth[OF L(8) len r] by simp_all
    note t = joiner_table[OF j(2,1) wf rank]
    have "starts_view N (size_of V') V' r (gnode D r)"
      by (rule t(4)[where V = V', unfolded sent_view_fields, OF row refl refl refl])
    moreover have "copied N pub (rows (gms_sst (gnode D r)) ! q)" if "q < size_of V'" "q \<noteq> r" for q pub
      using t(3) that by (simp add: copied_fresh)
    ultimately show ?thesis by blast
  qed
  then show "starts_view N (size_of V') V' r (gnode D r)"
    "q < size_of V' \<Longrightarrow> q \<noteq> r \<Longrightarrow> copied N (put_rows (gms_sst (gnode D q))) (rows (gms_sst (gnode D r)) ! q)" by simp_all
qed

lemma next_cluster_starts:
  assumes run: "reachable (begins_view n N 0 V) (gms_step n N 0) C" and nxt: "next_cluster n N V C V' D"
  shows "begins_view (size_of V') N 0 V' D"
proof -
  note L = leader_enters[OF run nxt] and H = leader_hands_over[OF run nxt]
  have num: "num_members V' = int (size_of V')" using L(4) by (simp add: view_wf_def)
  have D: "curr_view (gnode D 0) = V'" "settled (gnode D 0)" "size_of V' \<le> N" "\<And>p. installed D p = None"
    using nxt by (auto simp: next_cluster_def)
  have vid: "0 \<le> vid V'" and commit: "0 \<le> nCommitted (own D 0)" "nCommitted (own D 0) \<le> vid V'"
    using L(5,6,13) H by (simp_all add: carried_def)
  have "gms_start (size_of V') N 0 V' D"
    by (rule view_starts[OF L(4) num L(11) D(3) vid member_starts(1)[OF run nxt] member_starts(2)[OF run nxt] commit _ _ D(4)])
       (use D in \<open>simp_all add: settled_def\<close>)
  moreover have "nCommitted (own D r) \<le> nCommitted (own D 0)" if "r < size_of V'" for r
    using members_publish[OF run nxt, of r] that H(1) by (cases "r = 0") (simp_all add: carried_def)
  ultimately show ?thesis by (simp add: begins_view_def commits_lag_def)
qed

text \<open>
  C8. The next view starts the protocol again. Let a view have run from a start of the
  membership protocol in which nobody has committed more than the leader. Then the states in
  which its members go on, with the state in which a client that joins leaves its
  constructor, are such a start for the next view: rows, copies and published rows agree
  with the leader's, nothing is counted that is not acknowledged, and everyone has the
  leader's view at its own rank. A member's copies of the others' new rows may be as the
  memory was, with counts of zero or less, or be any rows the others have published by then,
  torn or not. The conditions (\<open>next_cluster\<close>): the leader of the old view goes on and leads
  the next one; every member of the next view is there, a client or a member that goes on,
  that the leader has not marked failed and whose own next view is well formed (see the
  claim on when it is); and the changes do not overlap: when the leader enters the next
  view, no other change is proposed, no client is being served and no member is marked.
\<close>

theorem next_view_starts_the_protocol:
  assumes run: "reachable (begins_view n N 0 V) (gms_step n N 0) C" and nxt: "next_cluster n N V C V' D"
  shows "begins_view (size_of V') N 0 V' D"
  by (rule next_cluster_starts[OF run nxt])


section \<open>Constructors that return\<close>

lemma managed_join_runs:
  assumes params: "compute_max_msg_size (max_payload_size params) (dp_block_size params) = Inr m" "1 \<le> dp_window_size params"
    and rv: "rank_of rv me = int r" "length (members rv) \<le> length (failed rv)" "rank_of_leader rv \<noteq> -1"
      "removed_members (members rv) (butlast (members rv)) = []"
  shows "\<exists>h. managed_join N env me disp rv params row = Inr h"
proof -
  let ?v = "rv\<lparr>my_rank := int r\<rparr>"
  obtain dg where dg: "setup_derecho N env disp params ?v = Inr dg"
    unfolding setup_derecho_def params(1) bindE.simps Let_def
    by atomize_elim (intro new_group_runs[OF params] disjI2, use rv(2) in simp)
  let ?g = "upd_sst (\<lambda>s. sync_with_members (put s)) (new_managed N ?v dg params (state_file params)
    (Rdmc_sst_setup (get_member_ips_map (members ?v) (member_ips ?v) (failed ?v)) (members ?v ! nat (my_rank ?v)) # persist_calls params ?v))"
  have "rank_of_leader ?v \<noteq> -1" using rv(3) by (simp add: rank_of_leader_def)
  then obtain g where g: "adopt_leader_row N row ?g = Inr g" "curr_view g = ?v"
    by (cases "vid ?v = 0") (simp_all add: adopt_leader_row_def)
  with rv(4) obtain h where "begin_service g = Inr h" using begin_service_keeps[of g] by auto
  then have "managed_join N env me disp rv params row = Inr h" using dg g rv(1) by (simp add: managed_join_def)
  then show ?thesis ..
qed

section \<open>The founders\<close>

lemma adopt_first: "vid (curr_view g) = 0 \<Longrightarrow> adopt_leader_row N row g = Inr g"
  by (simp add: adopt_leader_row_def)

text \<open>
  C37. The constructors start the protocol. When a founder's constructor has accepted its first
  client, and that client's constructor returns with the view it was sent, the two states are
  a start of the membership protocol of a view of two members, led by the founder, in which
  nobody has committed more than the leader.
\<close>

theorem founders_start_the_protocol:
  assumes lead: "managed_leader N env my_ip disp params c = Inr g" and c: "client_id c = Some p" "p \<noteq> 0"
    and join: "managed_join N env' p disp' ((curr_view g)\<lparr>IKnowIAmLeader := b\<rparr>) params' row = Inr h"
    and tables: "length (new_rows env) = 2" "length (new_rows env') = 2" "2 \<le> N"
    and D: "gnode D 0 = g" "gnode D 1 = h" "\<And>q. installed D q = None"
  shows "begins_view 2 N 0 (curr_view g) D"
proof -
  let ?v = "accept_member c (start_group 0 my_ip)"
  note v = accepted_view[OF c(1), of 0 my_ip]
  from lead obtain dg cs where dg: "setup_derecho N env disp params ?v = Inr dg"
    and g: "begin_service (upd_sst (\<lambda>s. sync_with_members (put s)) (new_managed N ?v dg params (state_file params) cs)) = Inr g"
    by (auto simp: managed_leader_def Let_def)
  have view: "curr_view g = ?v" using begin_service_frame(1)[OF g] by simp
  have wf: "view_wf ?v" using c(2) by (simp add: v view_wf_def)
  have leads: "rank_of_leader (?v\<lparr>my_rank := k, IKnowIAmLeader := e\<rparr>) = int 0" for k e
    unfolding rank_of_leader_eq_iff by (simp add: v)
  have lv: "rank_of_leader ?v = 0" using leads[where k = 0 and e = True] by (simp add: v)
  have sizes: "length (new_rows env) = size_of ?v" "0 < N" "vid ?v = 0" "my_rank ?v = int 0" using tables by (simp_all add: v)
  note G = founder_starts[OF dg sizes(1) g wf lv sizes(2,3) sizes(3) refl refl sizes(4)]
  let ?w = "?v\<lparr>my_rank := 1, IKnowIAmLeader := b\<rparr>"
  have rank: "rank_of (?v\<lparr>IKnowIAmLeader := b\<rparr>) p = int 1"
    unfolding rank_of_def scan_eq_int_iff using c(2) by (simp add: v)
  from join obtain dg' cs' where dg': "setup_derecho N env' disp' params' ?w = Inr dg'"
    and h: "begin_service (upd_sst (\<lambda>s. sync_with_members (put s)) (new_managed N ?w dg' params' (state_file params') cs')) = Inr h"
    unfolding managed_join_def Let_def view rank by (auto simp: adopt_first v)
  have wf': "view_wf ?w" using c(2) by (simp add: v view_wf_def)
  have sizes': "length (new_rows env') = size_of ?w" "rank_of_leader ?w = 0" "vid ?w = 0" "my_rank ?w = int 1"
    using leads[where k = 1 and e = b] tables by (simp_all add: v)
  note H = founder_starts[OF dg' sizes'(1) h wf' sizes'(2) sizes(2) sizes'(3), of ?v 1]
  have sameV: "vid ?v = 0" "members ?v = members ?w" "member_ips ?v = member_ips ?w" by (simp_all add: v)
  note H = H[OF sameV sizes'(4)]
  have all: "starts_view N 2 ?v r (gnode D r)" if "r < 2" for r
    using that G(1) H(1) D by (auto simp: less_2_cases_iff v)
  have copies: "copied N pub (rows (gms_sst (gnode D r)) ! q)" if "r < 2" "q < 2" for r q pub
    using that G(5) H(5) D by (auto simp: less_2_cases_iff v intro!: copied_fresh)
  have "gms_start 2 N 0 ?v D"
    by (rule view_starts[OF wf _ _ _ _ all copies]) (use G(2-4) D tables in \<open>simp_all add: v own_def blank_row_def\<close>)
  moreover have "nCommitted (own D r) \<le> nCommitted (own D 0)" if "r < 2" for r
    using that G(2) H(2) D by (auto simp: less_2_cases_iff own_def blank_row_def)
  ultimately show ?thesis by (simp add: view begins_view_def commits_lag_def)
qed

section \<open>The life of a group\<close>

text \<open>
  The views a group has left, the one it is in, and the states of that view's members. A
  life goes on by a step of the view's membership service or to the next view.
\<close>

type_synonym 'o life = "view list \<times> view \<times> 'o gms_cluster"

inductive life_step :: "nat \<Rightarrow> 'o life \<Rightarrow> 'o life \<Rightarrow> bool" for N where
  within: "gms_step (size_of V) N 0 C D \<Longrightarrow> life_step N (vs, V, C) (vs, V, D)"
| onward: "next_cluster (size_of V) N V C V' D \<Longrightarrow> life_step N (vs, V, C) (vs @ [V], V', D)"

fun life_start :: "nat \<Rightarrow> 'o life \<Rightarrow> bool" where
  "life_start N (vs, V, C) = (vs = [] \<and> begins_view (size_of V) N 0 V C)"

text \<open>One member more at the end, or one less.\<close>

definition one_change :: "view \<Rightarrow> view \<Rightarrow> bool" where
  "one_change v w \<longleftrightarrow> vid w = vid v + 1 \<and> members w ! 0 = members v ! 0 \<and>
     (\<exists>c. members w = (if c \<in> set (members v) then removeAll c (members v) else members v @ [c]))"

fun life_inv :: "nat \<Rightarrow> 'o life \<Rightarrow> bool" where
  "life_inv N (vs, V, C) = (reachable (begins_view (size_of V) N 0 V) (gms_step (size_of V) N 0) C \<and>
     successively one_change (vs @ [V]))"

lemma next_is_one_change:
  assumes "reachable (begins_view n N 0 V) (gms_step n N 0) C" and "next_cluster n N V C V' D"
  shows "one_change V V'"
proof -
  note L = leader_enters[OF assms]
  show ?thesis
    using L(6,7,9) changed_view_members[OF L(3), of "next_change N V (own C 0)" "joiner_ip (own C 0)"]
    by (auto simp: one_change_def agreed_def Let_def intro!: exI[of _ "next_change N V (own C 0)"])
qed

lemma life_inv_start: "life_start N s \<Longrightarrow> life_inv N s"
  by (cases s) (auto intro: reachable_init)

lemma life_inv_step: "life_inv N s \<Longrightarrow> life_step N s t \<Longrightarrow> life_inv N t"
proof (erule life_step.cases)
  fix V C D vs
  assume "life_inv N s" "s = (vs, V, C)" "t = (vs, V, D)" "gms_step (size_of V) N 0 C D"
  then show ?thesis by (auto intro: reachable_step)
next
  fix V C V' D vs
  assume inv: "life_inv N s" and s: "s = (vs, V, C)" "t = (vs @ [V], V', D)" and nxt: "next_cluster (size_of V) N V C V' D"
  then have run: "reachable (begins_view (size_of V) N 0 V) (gms_step (size_of V) N 0) C" and hist: "successively one_change (vs @ [V])"
    by simp_all
  have "reachable (begins_view (size_of V') N 0 V') (gms_step (size_of V') N 0) D"
    by (rule reachable_init) (rule next_cluster_starts[OF run nxt])
  moreover have "successively one_change ((vs @ [V]) @ [V'])"
    using hist next_is_one_change[OF run nxt] by (subst successively_append_iff) simp
  ultimately show ?thesis by (simp add: s)
qed

interpretation life: state_machine "life_start N" "life_step N" "life_inv N"
  for N
  by unfold_locales (fact life_inv_start, fact life_inv_step)

text \<open>
  C7. The life of a group whose first leader stays, unsuspected, and whose view changes do not overlap:
  each view has one member more than the one before, at the end, or one member less, and its
  number is one higher; in the current view every member has the group's view, at its own
  rank, with the founder as its leader; and all members that have gone on to the next view,
  and that the leader has not marked failed, have gone on to the same one. A life is any
  sequence of steps of the membership service and of passages to the next view
  (\<open>next_cluster\<close>), under the conditions of the passage: every member of the next view is a
  client that joins or a member that goes on, unmarked by the leader and with a well-formed
  next view; its copies of the others' new rows are as the memory was, with counts of zero or
  less, or as the others have published them by then; and when the leader enters that view,
  no other change is proposed, no client is being served and no member is marked. Changes that overlap are left out because of what the
  code does then: the address of a client that waits is lost (\<^verbatim>\<open>init_from_existing\<close>).
\<close>

theorem life_of_the_group:
  assumes life: "reachable (life_start N) (life_step N) (vs, V, C)"
  shows "successively one_change (vs @ [V]) \<and>
    (\<forall>p < size_of V. vid (curr_view (gnode C p)) = vid V \<and> members (curr_view (gnode C p)) = members V \<and>
       my_rank (curr_view (gnode C p)) = int p \<and> rank_of_leader (curr_view (gnode C p)) = 0) \<and>
    (\<forall>p q a b. p < size_of V \<and> q < size_of V \<and> \<not> failed (curr_view (gnode C 0)) ! p \<and> \<not> failed (curr_view (gnode C 0)) ! q \<and>
       installed C p = Some a \<and> installed C q = Some b \<longrightarrow>
       vid (curr_view a) = vid (curr_view b) \<and> members (curr_view a) = members (curr_view b) \<and>
       member_ips (curr_view a) = member_ips (curr_view b) \<and> who (curr_view a) = who (curr_view b))"
proof -
  have "life_inv N (vs, V, C)" using life by (rule life.inv_reachable)
  then have hist: "successively one_change (vs @ [V])" and inv: "gms_inv (size_of V) N 0 V C"
    using handover.inv_reachable[of "size_of V" N 0 V C] by auto
  have "vid (curr_view (gnode C p)) = vid V \<and> members (curr_view (gnode C p)) = members V \<and>
       my_rank (curr_view (gnode C p)) = int p \<and> rank_of_leader (curr_view (gnode C p)) = 0" if "p < size_of V" for p
    using inv_parts(6)[OF inv that] by (simp add: in_view_def)
  moreover have "vid (curr_view a) = vid (curr_view b) \<and> members (curr_view a) = members (curr_view b) \<and>
       member_ips (curr_view a) = member_ips (curr_view b) \<and> who (curr_view a) = who (curr_view b)"
    if "p < size_of V" "q < size_of V" "\<not> failed (curr_view (gnode C 0)) ! p" "\<not> failed (curr_view (gnode C 0)) ! q"
      "installed C p = Some a" "installed C q = Some b" for p q a b
    using agreed_same[OF installed_agreed[OF inv that(1,3,5)] installed_agreed[OF inv that(2,4,6)]] by simp
  ultimately show ?thesis using hist by blast
qed

section \<open>A group of two takes in a client\<close>

text \<open>
  The run in which client 40 joins the group of two, taken to the next view. The other
  member enters that view after the leader's row there has arrived.
\<close>

definition third_env :: setup_env where
  "third_env = \<lparr>new_rows = new_table, log_files = ([], []), rdmc_answers = \<lambda>_. True\<rparr>"

definition third_runs :: "unit managed result" where
  "third_runs = managed_join 3 third_env 40 \<lparr>nid = 0, invs = [], objects = ()\<rparr> (sent_view (curr_view lead_next)) duo_params
     (last_row lead_next)"

definition trio_next :: "unit gms_cluster" where
  "trio_next = \<lparr>gnode = (\<lambda>_. undefined)(0 := lead_next, 1 := memb_next, 2 := result_of third_runs), installed = \<lambda>_. None\<rparr>"

lemma trio_nodes:
  "gnode trio_next 0 = lead_next" "gnode trio_next (Suc 0) = memb_next" "gnode trio_next 2 = result_of third_runs"
  "installed trio_next q = None"
  by (simp_all add: trio_next_def)

lemma copied_published:
  assumes "x \<in> set pub" "gms_cols row = gms_cols x" "suspected row = suspected x"
  shows "copied N pub row"
proof -
  from assms(1) obtain i where "i < length pub" "pub ! i = x" by (auto simp: in_set_conv_nth)
  moreover from this have "x \<in> set (take (Suc i) pub)" by (auto simp: in_set_conv_nth)
  ultimately show ?thesis using assms by (auto simp: copied_def gms_cols_cong)
qed

lemma lead_next_view: "curr_view lead_next = lead_view"
  by code_simp

lemma lead_next_settled: "settled lead_next"
  by code_simp

text \<open>What the two tables hold, each evaluated once.\<close>

definition lead_table_ok :: "sst \<Rightarrow> bool" where
  "lead_table_ok s \<longleftrightarrow> num_rows s = 3 \<and> local_index s = 0 \<and> fresh_row 3 (hd (put_rows s)) \<and> fresh_row 3 (rows s ! 1) \<and>
     fresh_row 3 (rows s ! 2) \<and> put_rows s \<noteq> [] \<and> gms_cols (last (put_rows s)) = gms_cols (put_rows s ! 1)"

definition memb_table_ok :: "derecho_row \<Rightarrow> sst \<Rightarrow> bool" where
  "memb_table_ok lead s \<longleftrightarrow> num_rows s = 3 \<and> local_index s = 1 \<and> fresh_row 3 (hd (put_rows s)) \<and> fresh_row 3 (rows s ! 2) \<and>
     gms_cols (rows s ! 0) = gms_cols lead \<and> suspected (rows s ! 0) = suspected lead"

lemma tables_ok: "lead_table_ok (gms_sst lead_next)" "memb_table_ok (last_row lead_next) (gms_sst memb_next)"
  by code_simp+

lemma memb_next_wf: "view_wf (curr_view memb_next) \<and> size_of (curr_view memb_next) = 3"
  by code_simp

lemma lead_next_rows:
  "num_rows (gms_sst lead_next) = 3" "local_index (gms_sst lead_next) = 0" "fresh_row 3 (hd (put_rows (gms_sst lead_next)))"
  "fresh_row 3 (rows (gms_sst lead_next) ! 1)" "fresh_row 3 (rows (gms_sst lead_next) ! 2)"
  "gms_cols (last_row lead_next) = gms_cols (put_rows (gms_sst lead_next) ! 1)" "put_rows (gms_sst lead_next) \<noteq> []"
  using tables_ok(1) unfolding lead_table_ok_def last_row_def by blast+

lemma memb_next_rows:
  "num_rows (gms_sst memb_next) = 3" "local_index (gms_sst memb_next) = 1" "fresh_row 3 (hd (put_rows (gms_sst memb_next)))"
  "gms_cols (rows (gms_sst memb_next) ! 0) = gms_cols (last_row lead_next)"
  "suspected (rows (gms_sst memb_next) ! 0) = suspected (last_row lead_next)"
  "fresh_row 3 (rows (gms_sst memb_next) ! 2)"
  using tables_ok(2) unfolding memb_table_ok_def by blast+

lemma lead_next_table: "view_table 3 3 trio_next (gms_sst lead_next)"
proof -
  have "copied 3 pub (rows (gms_sst lead_next) ! q)" if "q < 3" "q \<noteq> 0" for q pub
  proof -
    from that consider "q = 1" | "q = 2" by linarith
    then show ?thesis by cases (simp_all only: copied_fresh lead_next_rows)
  qed
  then show ?thesis by (simp add: view_table_def lead_next_rows)
qed

lemma memb_next_table: "view_table 3 3 trio_next (gms_sst memb_next)"
proof -
  have lead: "copied 3 (put_rows (gms_sst lead_next)) (rows (gms_sst memb_next) ! 0)"
    by (rule copied_published[OF _ memb_next_rows(4,5)]) (simp add: last_row_def lead_next_rows(7))
  have "copied 3 (put_rows (gms_sst (gnode trio_next q))) (rows (gms_sst memb_next) ! q)" if "q < 3" "q \<noteq> 1" for q
  proof -
    from that consider "q = 0" | "q = 2" by linarith
    then show ?thesis by cases (simp_all only: trio_nodes lead copied_fresh memb_next_rows)
  qed
  then show ?thesis by (simp add: view_table_def memb_next_rows)
qed

lemma third_joins: "third_runs = Inr (result_of third_runs)"
proof -
  have "rank_of lead_view 40 = int 2" "rank_of_leader lead_view \<noteq> -1" by code_simp+
  then have "\<exists>h. third_runs = Inr h"
    unfolding third_runs_def lead_next_view
    by (intro managed_join_runs[OF duo_params_valid]) (simp_all, simp_all add: lead_view_def removed_members_def)
  then obtain h where h: "third_runs = Inr h" ..
  show ?thesis unfolding h result_of_def sum.case ..
qed

lemma trio_next_cluster: "next_cluster 2 3 twin_view twin_end lead_view trio_next"
proof -
  have "view_wf lead_view" by (simp add: lead_view_def view_wf_def)
  then have lead: "remains 3 twin_end trio_next 0 lead_next"
    using lead_next_table by (simp add: remains_def twin_end_fields lead7_view lead_next_view) (simp add: lead_view_def)
  have memb: "remains 3 twin_end trio_next (Suc 0) memb_next"
    using memb_next_table memb_next_wf by (simp add: remains_def twin_end_fields lead7_view)
  from third_joins have third: "joins 3 lead_view lead_next 40 (result_of third_runs)"
    unfolding joins_def third_runs_def lead_next_view
    by (intro exI[of _ third_env] exI[of _ "\<lparr>nid = 0, invs = [], objects = ()\<rparr>"] exI[of _ duo_params] exI[of _ "last_row lead_next"])
       (simp add: third_env_def new_table_def lead_next_rows(6), simp add: lead_view_def)
  have "if members lead_view ! r \<in> set (members twin_view)
      then \<exists>p < 2. members twin_view ! p = members lead_view ! r \<and> remains 3 twin_end trio_next p (gnode trio_next r)
      else joins 3 lead_view (gnode trio_next 0) (members lead_view ! r) (gnode trio_next r)" if r: "r < 3" for r
  proof -
    have ms: "members lead_view = [10, 20, 40]" "members twin_view = [10, 20]" by (simp_all add: lead_view_def twin_view_def)
    consider "r = 0" | "r = Suc 0" | "r = 2" using r by linarith
    then show ?thesis
    proof cases
      case 1
      with lead show ?thesis by (auto simp: ms trio_nodes intro!: exI[of _ 0])
    next
      case 2
      with memb show ?thesis by (auto simp: ms trio_nodes intro!: exI[of _ "Suc 0"])
    next
      case 3
      with third show ?thesis by (simp add: ms trio_nodes)
    qed
  qed
  moreover have "num_members lead_view = 3" by (simp add: lead_view_def)
  ultimately show ?thesis
    unfolding next_cluster_def trio_nodes lead_next_view using lead lead_next_settled by auto
qed

lemma twin_begins: "begins_view 2 3 0 twin_view (twin (twin_start 0) (twin_start 1) None None)"
  using twin_starts by (auto simp: begins_view_def commits_lag_def less_2_cases_iff own_def local_row_def twin_start_def)

lemma twin_life_runs: "reachable (begins_view 2 3 0 twin_view) (gms_step 2 3 0) twin_end"
  using twin_runs by (rule reachable_steps) (rule reachable_init, rule twin_begins)

theorem next_view_starts_the_protocol_witness: "begins_view 3 3 0 lead_view trio_next"
  using next_view_starts_the_protocol[OF twin_life_runs trio_next_cluster] by (simp add: lead_view_def)

lemma twin_life: "reachable (life_start 3) (life_step 3) ([twin_view], lead_view, trio_next)"
proof -
  have size: "size_of twin_view = 2" by (simp add: twin_view_def)
  have "reachable (life_start 3) (life_step 3) ([], twin_view, C)"
    if "reachable (begins_view 2 3 0 twin_view) (gms_step 2 3 0) C" for C
    using that
  proof (induction rule: reachable.induct)
    case (reachable_init C)
    then show ?case by (intro reachable.reachable_init) (simp add: size)
  next
    case (reachable_step C D)
    then show ?case by (intro reachable.reachable_step[OF reachable_step.IH] within) (simp add: size)
  qed
  from reachable_step[OF this[OF twin_life_runs] onward] show ?thesis using trio_next_cluster by (simp add: size)
qed

theorem life_of_the_group_witness:
  "vid lead_view = vid twin_view + 1 \<and> members (curr_view (gnode trio_next 2)) = [10, 20, 40]"
  using life_of_the_group[OF twin_life] by (auto simp: one_change_def lead_view_def)

theorem founders_start_the_protocol_witness:
  "\<exists>g h (D :: u64 list gms_cluster). managed_leader 2 duo_env ''a'' counter_dispatcher duo_params joiner = Inr g \<and>
     managed_join 2 duo_env 5 counter_dispatcher (curr_view g) duo_params duo_row = Inr h \<and> begins_view 2 2 0 (curr_view g) D"
proof -
  obtain g where g: "managed_leader 2 duo_env ''a'' counter_dispatcher duo_params joiner = Inr g"
    using leader_of_two[OF duo_params_valid, of joiner 5 duo_env 2 "''a''" counter_dispatcher]
    by (auto simp: joiner_def duo_env_def duo_row_def)
  then have v: "curr_view g = accept_member joiner (start_group 0 ''a'')" by (auto simp: managed_leader_def Let_def dest!: begin_service_frame(1))
  have "rank_of (curr_view g) 5 = int 1" "rank_of_leader (curr_view g) \<noteq> -1" unfolding v by code_simp+
  then obtain h where h: "managed_join 2 duo_env 5 counter_dispatcher (curr_view g) duo_params duo_row = Inr h"
    using managed_join_runs[OF duo_params_valid, of "curr_view g" 5 1 2 duo_env counter_dispatcher duo_row]
    by (auto simp: v accepted_view joiner_def removed_members_def)
  let ?D = "\<lparr>gnode = (\<lambda>_. undefined)(0 := g, 1 := h), installed = \<lambda>_. None\<rparr>"
  have "begins_view 2 2 0 (curr_view g) ?D"
    using founders_start_the_protocol[OF g, of 5 duo_env counter_dispatcher "IKnowIAmLeader (curr_view g)" duo_params duo_row h ?D] h
    by (simp add: joiner_def duo_env_def)
  with g h show ?thesis by blast
qed

end
