(* ===== verification/Rpc_Calls.thy ===== *)
theory Rpc_Calls
  imports Group_Life
begin

text \<open>
  Calls from one node to another: what a call does on the callee, that its reply resolves
  the caller's promise, and what a view change does to the callers of removed nodes.
\<close>

section \<open>One call between two dispatchers\<close>

text \<open>The same program runs on both nodes: the opcodes agree, position by position.\<close>

definition same_program :: "'o dispatcher \<Rightarrow> 'o dispatcher \<Rightarrow> bool" where
  "same_program d e \<longleftrightarrow> map (\<lambda>h. (invoke_id h, reply_id h, is_void h)) (invs d) =
     map (\<lambda>h. (invoke_id h, reply_id h, is_void h)) (invs e)"

lemma same_program_at:
  assumes "same_program d e" "k < length (invs d)"
  shows "k < length (invs e)" "invoke_id (invs e ! k) = invoke_id (invs d ! k)"
    "reply_id (invs e ! k) = reply_id (invs d ! k)" "is_void (invs e ! k) = is_void (invs d ! k)"
proof -
  have len: "length (invs e) = length (invs d)" using assms(1) map_eq_imp_length_eq by (force simp: same_program_def)
  then show "k < length (invs e)" using assms(2) by simp
  have "map (\<lambda>h. (invoke_id h, reply_id h, is_void h)) (invs d) ! k =
      map (\<lambda>h. (invoke_id h, reply_id h, is_void h)) (invs e) ! k"
    using assms(1) by (simp add: same_program_def)
  then show "invoke_id (invs e ! k) = invoke_id (invs d ! k)" "reply_id (invs e ! k) = reply_id (invs d ! k)"
    "is_void (invs e ! k) = is_void (invs d ! k)" using assms(2) len by simp_all
qed

lemma map_update_same: "f h = f (xs ! k) \<Longrightarrow> map f (xs[k := h]) = map f xs"
  by (metis list_update_id map_update)

lemma update_inv_wf:
  assumes "dispatcher_wf d" "k < length (invs d)" "sm_wf (ret h)" "\<forall>(i, pr) \<in> set (ret h). pr_wf pr"
    and "invoke_id h = invoke_id (invs d ! k)" "reply_id h = reply_id (invs d ! k)"
  shows "dispatcher_wf (d\<lparr>invs := (invs d)[k := h]\<rparr>)"
proof -
  have "map invoke_id ((invs d)[k := h]) = map invoke_id (invs d)" "map reply_id ((invs d)[k := h]) = map reply_id (invs d)"
    using assms(5,6) by (simp_all add: map_update_same)
  then show ?thesis
    using assms(1-4) by (auto simp: dispatcher_wf_def opcodes_def dest!: set_update_subset_insert[THEN subsetD])
qed

text \<open>A call that fits its buffer is sent with a fresh pending result.\<close>

lemma call_sent:
  assumes wf: "dispatcher_wf d" and k: "k < length (invs d)"
    and fresh: "sm_find (ret (invs d ! k)) inv_id = None" and room: "int_alloc alloc (8 + sum_list (map length args) + header_space)"
  shows "\<exists>d1. dispatcher_send d k inv_id args alloc = Inr (d1,
      populate_header (replicate header_space 0 @ enc64 inv_id @ concat args)
        (word_of_nat (8 + sum_list (map length args))) (invoke_id (invs d ! k)) (nid d)) \<and>
    dispatcher_wf d1 \<and> same_program d d1 \<and> nid d1 = nid d \<and> objects d1 = objects d \<and>
    pending_at d1 (k, inv_id) = Some (new_pending\<lparr>map_taken := True\<rparr>)"
proof -
  let ?h = "invs d ! k"
  let ?h' = "?h\<lparr>ret := sm_assign inv_id (new_pending\<lparr>map_taken := True\<rparr>) (ret ?h)\<rparr>"
  have len: "length (enc64 inv_id @ concat args) = 8 + sum_list (map length args)"
    by (simp add: u64_codec.enc_length length_concat)
  have "invocable_send ?h inv_id args (\<lambda>size. int_alloc alloc (size + header_space)) = Inr (?h', enc64 inv_id @ concat args)"
    using room fresh len by (simp add: invocable_send_def Let_def pr_get_future_def new_pending_def)
  moreover have "sm_wf (ret ?h)" "\<forall>(i, pr) \<in> set (ret ?h). pr_wf pr"
    using wf k by (auto simp: dispatcher_wf_def)
  moreover have "pr_wf (new_pending\<lparr>map_taken := True\<rparr>)"
    by (simp add: pr_wf_def new_pending_def promise_of_def new_promise_def)
  ultimately have "dispatcher_wf (d\<lparr>invs := (invs d)[k := ?h']\<rparr>)"
    using wf k by (intro update_inv_wf) (auto simp: sm_wf_assign dest!: set_assign_subset[THEN subsetD])
  then show ?thesis
    using k len \<open>sm_wf (ret ?h)\<close> \<open>invocable_send ?h _ _ _ = _\<close>
    by (auto simp: dispatcher_send_def same_program_def pending_at_def sm_find_assign map_update_same
        length_concat u64_codec.enc_length)
qed

text \<open>
  The callee runs the function once and builds the reply: the result, or the mark of an
  exception.
\<close>

definition reply_payload :: "u64 \<Rightarrow> bytes option \<Rightarrow> bytes" where
  "reply_payload inv_id r = (case r of None \<Rightarrow> enc_bool True @ enc64 inv_id
     | Some res \<Rightarrow> enc_bool False @ enc64 inv_id @ res)"

lemma call_handled:
  assumes wf: "dispatcher_wf e" and k: "k < length (invs e)" and ret: "\<not> is_void (invs e ! k)" and size: "len \<noteq> 0"
    and run: "fn (invs e ! k) (objects e) args = (obj', r)"
    and room: "int_alloc alloc (length (reply_payload inv_id r) + header_space)"
  shows "handle_receive e (invoke_id (invs e ! k)) from (enc64 inv_id @ args) len alloc =
    Inr (e\<lparr>objects := obj'\<rparr>, populate_header (replicate header_space 0 @ reply_payload inv_id r)
      (word_of_nat (length (reply_payload inv_id r))) (reply_id (invs e ! k)) (nid e))"
  using assms route_invoke[OF wf k]
  by (auto simp: handle_receive_def receive_call_def Let_def u64_codec.dec_enc u64_codec.enc_length reply_payload_def
      split: option.splits)

text \<open>The reply resolves the promise of the callee, and no other.\<close>

definition answer :: "u64 \<Rightarrow> bytes option \<Rightarrow> outcome" where
  "answer n r = (case r of None \<Rightarrow> Exception (Remote_exception n) | Some res \<Rightarrow> Value res)"

lemma reply_handled:
  assumes wf: "dispatcher_wf d" and k: "k < length (invs d)" and ret: "\<not> is_void (invs d ! k)" and size: "len \<noteq> 0"
    and pr: "pending_at d (k, inv_id) = Some pr" and open': "n \<notin> set_nodes pr"
  shows "\<exists>d' pr'. handle_receive d (reply_id (invs d ! k)) n (reply_payload inv_id r) len alloc = Inr (d', []) \<and>
    pending_at d' (k, inv_id) = Some pr' \<and> outcome (promise_of pr' n) = answer n r \<and>
    (\<forall>m. m \<noteq> n \<longrightarrow> promise_of pr' m = promise_of pr m) \<and> dest_nodes pr' = dest_nodes pr \<and>
    pr_wf pr' \<and> map_fulfilled pr' = map_fulfilled pr \<and> (\<forall>p. p \<noteq> (k, inv_id) \<longrightarrow> pending_at d' p = pending_at d p)"
proof -
  let ?h = "invs d ! k"
  have prwf: "pr_wf pr" by (rule dispatcher_wf_pending[OF wf pr])
  have rwf: "sm_wf (ret ?h)" and found: "sm_find (ret ?h) inv_id = Some pr"
    using wf k pr by (auto simp: dispatcher_wf_def pending_at_def)
  obtain pr' where pr': "(case r of None \<Rightarrow> pr_set_exception n (Remote_exception n) pr
      | Some res \<Rightarrow> pr_set_value n res pr) = Inr pr'"
    "outcome (promise_of pr' n) = answer n r" "\<forall>m. m \<noteq> n \<longrightarrow> promise_of pr' m = promise_of pr m"
    "dest_nodes pr' = dest_nodes pr" "pr_wf pr'" "map_fulfilled pr' = map_fulfilled pr"
  proof (cases r)
    case None
    with pr_set_exception_ok[OF prwf open', of "Remote_exception n"] show thesis using that by (auto simp: answer_def)
  next
    case (Some res)
    with pr_set_value_ok[OF prwf open', of res] show thesis using that by (auto simp: answer_def)
  qed
  let ?h' = "?h\<lparr>ret := sm_assign inv_id pr' (ret ?h)\<rparr>"
  have "receive_response ?h n (reply_payload inv_id r) = Inr ?h'"
    using pr'(1) found ret
    by (cases r) (simp_all add: receive_response_def reply_payload_def Let_def bool_codec.dec_enc bool_codec.enc_length
        u64_codec.dec_enc u64_codec.enc_length u64_codec.dec_exact)
  then have "handle_receive d (reply_id ?h) n (reply_payload inv_id r) len alloc =
      Inr (d\<lparr>invs := (invs d)[k := ?h']\<rparr>, [])"
    using route_reply[OF wf k] route_invoke_of_reply[OF wf k] size by (simp add: handle_receive_def Let_def)
  then show ?thesis using pr' rwf k
    by (intro exI[of _ "d\<lparr>invs := (invs d)[k := ?h']\<rparr>"] exI[of _ pr'])
       (auto simp: pending_at_def sm_find_assign nth_list_update)
qed

lemma second_reply_raises:
  assumes wf: "dispatcher_wf d" and k: "k < length (invs d)" and ret: "\<not> is_void (invs d ! k)" and size: "len \<noteq> 0"
    and pr: "pending_at d (k, inv_id) = Some pr" and closed: "n \<in> set_nodes pr"
  shows "handle_receive d (reply_id (invs d ! k)) n (reply_payload inv_id r) len alloc =
    Inl (Throw ''promise_already_satisfied'')"
proof -
  let ?h = "invs d ! k"
  have prwf: "pr_wf pr" by (rule dispatcher_wf_pending[OF wf pr])
  have found: "sm_find (ret ?h) inv_id = Some pr" using k pr by (auto simp: pending_at_def)
  have "receive_response ?h n (reply_payload inv_id r) = Inl (Throw ''promise_already_satisfied'')"
    using found ret closed prwf
    by (cases r) (simp_all add: receive_response_def reply_payload_def Let_def bool_codec.dec_enc bool_codec.enc_length
        u64_codec.dec_enc u64_codec.enc_length u64_codec.dec_exact pr_set_value_def pr_set_exception_def satisfy_def pr_wf_def)
  then show ?thesis
    using route_reply[OF wf k] route_invoke_of_reply[OF wf k] size by (simp add: handle_receive_def Let_def)
qed

section \<open>A point-to-point query\<close>

lemma update_pending_ok:
  assumes wf: "dispatcher_wf d" and pr: "pending_at d p = Some pr" and f: "f pr = Inr pr'" "pr_wf pr'"
  shows "\<exists>d'. update_pending f p d = Inr d' \<and> dispatcher_wf d' \<and> same_program d d' \<and> nid d' = nid d \<and>
    objects d' = objects d \<and> pending_at d' p = Some pr' \<and> (\<forall>q. q \<noteq> p \<longrightarrow> pending_at d' q = pending_at d q)"
proof -
  let ?h = "invs d ! fst p"
  let ?h' = "?h\<lparr>ret := sm_assign (snd p) pr' (ret ?h)\<rparr>"
  from pr have k: "fst p < length (invs d)" by (auto simp: pending_at_def split: if_splits)
  with wf have rwf: "sm_wf (ret ?h)" "\<forall>(i, pr) \<in> set (ret ?h). pr_wf pr" by (auto simp: dispatcher_wf_def)
  then have "dispatcher_wf (d\<lparr>invs := (invs d)[fst p := ?h']\<rparr>)"
    using wf k f(2) by (intro update_inv_wf) (auto simp: sm_wf_assign dest!: set_assign_subset[THEN subsetD])
  moreover have "pending_at (d\<lparr>invs := (invs d)[fst p := ?h']\<rparr>) q = (if q = p then Some pr' else pending_at d q)" for q
    using k rwf(1) by (cases p; cases q) (auto simp: pending_at_def sm_find_assign nth_list_update)
  ultimately show ?thesis
    using f(1) pr k by (intro exI[of _ "d\<lparr>invs := (invs d)[fst p := ?h']\<rparr>"])
      (auto simp: update_pending_def same_program_def map_update_same Let_def)
qed

text \<open>The buffer a group reads and writes remote calls in holds \<open>n\<close> bytes after the header.\<close>

definition rpc_room :: "nat \<Rightarrow> 'o dgroup \<Rightarrow> bool" where
  "rpc_room n g \<longleftrightarrow> n + header_space < 2 ^ 31 \<and> n + header_space \<le> unat (max_msg_size g - word_of_nat sizeof_header)"

lemma rpc_room_small: "rpc_room n g \<Longrightarrow> n < 2 ^ 64" "rpc_room n g \<Longrightarrow> n + header_space < 2 ^ 64"
  using unsigned_less[where ?'a = nat, of "max_msg_size g - word_of_nat sizeof_header"] by (auto simp: rpc_room_def)

lemma query_sent:
  assumes wf: "dispatcher_wf (dispatchers g)" and k: "k < length (invs (dispatchers g))"
    and fresh: "sm_find (ret (invs (dispatchers g) ! k)) inv_id = None" and other: "b \<noteq> dg_members g ! member_index g"
    and room: "rpc_room (8 + sum_list (map length args)) g"
      "8 + sum_list (map length args) + header_space \<le> unat (reply_buffer_size g)"
  shows "\<exists>g' pr. tcpSend b k inv_id args g = Inr g' \<and>
    dg_calls g' = dg_calls g @ [Tcp_write b (populate_header (replicate header_space 0 @ enc64 inv_id @ concat args)
        (word_of_nat (8 + sum_list (map length args))) (invoke_id (invs (dispatchers g) ! k)) (nid (dispatchers g)))] \<and>
    max_msg_size g' = max_msg_size g \<and> fulfilledList g' = fulfilledList g @ [(k, inv_id)] \<and>
    dispatcher_wf (dispatchers g') \<and> same_program (dispatchers g) (dispatchers g') \<and>
    pending_at (dispatchers g') (k, inv_id) = Some pr \<and> map_fulfilled pr \<and> dest_nodes pr = {ucast b} \<and> set_nodes pr = {}"
proof -
  let ?d = "dispatchers g" and ?n = "8 + sum_list (map length args)"
  let ?call = "populate_header (replicate header_space 0 @ enc64 inv_id @ concat args)
        (word_of_nat ?n) (invoke_id (invs ?d ! k)) (nid ?d)"
  have len: "length ?call = ?n + header_space" by (simp add: u64_codec.enc_length length_concat)
  obtain d1 where d1: "dispatcher_send ?d k inv_id args (\<lambda>s. s \<le> unat (max_msg_size g - word_of_nat sizeof_header)) = Inr (d1, ?call)"
    "dispatcher_wf d1" "same_program ?d d1" "pending_at d1 (k, inv_id) = Some (new_pending\<lparr>map_taken := True\<rparr>)"
    using call_sent[OF wf k fresh, of "\<lambda>s. s \<le> unat (max_msg_size g - word_of_nat sizeof_header)" args] room(1)
    by (auto simp: rpc_room_def int_alloc_def)
  have new: "pr_wf (new_pending\<lparr>map_taken := True\<rparr>)" "\<not> map_fulfilled (new_pending\<lparr>map_taken := True\<rparr>)"
    "set_nodes (new_pending\<lparr>map_taken := True\<rparr>) = {}"
    by (simp_all add: pr_wf_def new_pending_def promise_of_def new_promise_def)
  obtain pr where pr: "fulfill_map (map ucast [b]) (new_pending\<lparr>map_taken := True\<rparr>) = Inr pr" "pr_wf pr"
    "map_fulfilled pr" "dest_nodes pr = {ucast b}" "set_nodes pr = {}"
    using fulfill_map_ok[OF new(1,2), of "map ucast [b]"] new(3) by auto
  obtain d2 where d2: "pending_fulfill_map [b] (k, inv_id) d1 = Inr d2" "dispatcher_wf d2" "same_program d1 d2"
    "pending_at d2 (k, inv_id) = Some pr"
    using update_pending_ok[where f = "fulfill_map (map ucast [b])", OF d1(2,4) pr(1,2)] by (auto simp: pending_fulfill_map_def)
  let ?g = "call (Tcp_write b ?call) (g\<lparr>dispatchers := d1\<rparr>)\<lparr>dispatchers := d2, fulfilledList := fulfilledList g @ [(k, inv_id)]\<rparr>"
  have "tcpSend b k inv_id args g = Inr ?g"
    using other d1(1) d2(1) room(2) len by (simp add: tcpSend_def guardE_def Let_def call_def)
  moreover have "same_program ?d d2" using d1(3) d2(3) by (simp add: same_program_def)
  ultimately show ?thesis using d2 pr by (intro exI[of _ ?g] exI[of _ pr]) (simp add: call_def)
qed

lemma populate_header_not_empty: "populate_header buf n op from \<noteq> []"
  using u64_codec.enc_length[of n] by (cases "enc64 n") (simp_all add: populate_header_def)

lemma word_of_nat_exact: "n < 2 ^ 64 \<Longrightarrow> unat (word_of_nat n :: u64) = n"
  by (simp add: unat_of_nat)

lemma message_processed:
  assumes "retrieve_header msg = (word_of_nat n, op, from)" "n < 2 ^ 64" "rpc_room n g"
    and "handle_receive (dispatchers g) op from (drop header_space msg) (word_of_nat n)
      (\<lambda>size. size \<le> unat (max_msg_size g - word_of_nat sizeof_header)) = Inr (d, reply)"
  shows "rpc_process_one msg g = Inr (if reply = [] then g\<lparr>dispatchers := d\<rparr>
    else call (Tcp_write (ucast from) reply) (g\<lparr>dispatchers := d\<rparr>))"
proof -
  have "unat (word_of_nat n :: u64) = n" using assms(2) by (rule word_of_nat_exact)
  with assms(3) have "\<not> unat (max_msg_size g - word_of_nat sizeof_header) < header_space + unat (word_of_nat n :: u64)"
    by (simp only: rpc_room_def not_less add.commute)
  then show ?thesis by (simp only: rpc_process_one_def Let_def assms(1) prod.case if_False assms(4) bindE.simps)
qed

lemma ucast_ucast_node: "ucast (ucast (a :: node_id) :: u64) = a"
  by (rule bit_word_eqI) (simp add: bit_ucast_iff)

text \<open>
  C23. A point-to-point query, end to end. When the caller's call and the callee's reply fit
  the buffers, and their sizes an \<^verbatim>\<open>int\<close>, the call the caller writes to its socket makes the callee run the function on
  exactly the arguments sent, once; the callee writes back one reply, to the caller; and
  that reply resolves the caller's future for that callee with the result, or with an
  exception if the function raised one.
\<close>

theorem p2p_query_gets_its_answer:
  assumes wf: "dispatcher_wf (dispatchers ga)" "dispatcher_wf (dispatchers gb)"
      "same_program (dispatchers ga) (dispatchers gb)"
    and k: "k < length (invs (dispatchers ga))" "\<not> is_void (invs (dispatchers ga) ! k)"
    and ids: "nid (dispatchers ga) = ucast a" "nid (dispatchers gb) = ucast b" "b \<noteq> dg_members ga ! member_index ga"
    and fresh: "sm_find (ret (invs (dispatchers ga) ! k)) inv_id = None"
    and run: "fn (invs (dispatchers gb) ! k) (objects (dispatchers gb)) (concat args) = (obj', r)"
    and room: "rpc_room (8 + length (concat args)) ga" "8 + length (concat args) + header_space \<le> unat (reply_buffer_size ga)"
      "rpc_room (8 + length (concat args)) gb" "rpc_room (length (reply_payload inv_id r)) gb"
      "rpc_room (length (reply_payload inv_id r)) ga"
  shows "\<exists>ga1 call gb1 reply ga2 pr q. tcpSend b k inv_id args ga = Inr ga1 \<and> dg_calls ga1 = dg_calls ga @ [Tcp_write b call] \<and>
    rpc_process_one call gb = Inr gb1 \<and> objects (dispatchers gb1) = obj' \<and> dg_calls gb1 = dg_calls gb @ [Tcp_write a reply] \<and>
    rpc_process_one reply ga1 = Inr ga2 \<and> pending_at (dispatchers ga2) (k, inv_id) = Some pr \<and>
    reply_get pr new_query (ucast b) = Some (Inr (answer (ucast b) r, q))"
proof -
  let ?da = "dispatchers ga" and ?db = "dispatchers gb"
  let ?n = "8 + length (concat args)" and ?m = "length (reply_payload inv_id r)"
  have sum: "8 + sum_list (map length args) = ?n" by (simp add: length_concat)
  let ?call = "populate_header (replicate header_space 0 @ enc64 inv_id @ concat args) (word_of_nat ?n) (invoke_id (invs ?da ! k)) (nid ?da)"
  let ?reply = "populate_header (replicate header_space 0 @ reply_payload inv_id r) (word_of_nat ?m) (reply_id (invs ?da ! k)) (nid ?db)"
  obtain ga1 pr where ga1: "tcpSend b k inv_id args ga = Inr ga1" "dg_calls ga1 = dg_calls ga @ [Tcp_write b ?call]"
    "max_msg_size ga1 = max_msg_size ga" "dispatcher_wf (dispatchers ga1)" "same_program ?da (dispatchers ga1)"
    "pending_at (dispatchers ga1) (k, inv_id) = Some pr" "map_fulfilled pr" "dest_nodes pr = {ucast b}" "set_nodes pr = {}"
    using query_sent[OF wf(1) k(1) fresh ids(3), of args, unfolded sum, OF room(1,2)] by blast
  note at_b = same_program_at[OF wf(3) k(1)] and at_a1 = same_program_at[OF ga1(5) k(1)]
  have "unat (word_of_nat ?n :: u64) = ?n" "unat (word_of_nat ?m :: u64) = ?m"
    by (rule word_of_nat_exact[OF rpc_room_small(1)[OF room(1)]], rule word_of_nat_exact[OF rpc_room_small(1)[OF room(4)]])
  moreover have "0 < ?n" "0 < ?m"
    by (simp_all add: reply_payload_def enc_bool_def split: option.splits)
  ultimately have pos: "(word_of_nat ?n :: u64) \<noteq> 0" "(word_of_nat ?m :: u64) \<noteq> 0"
    using unat_0[where ?'a = 64] by (metis less_irrefl)+
  have "handle_receive ?db (invoke_id (invs ?db ! k)) (ucast a) (enc64 inv_id @ concat args) (word_of_nat ?n)
      (\<lambda>size. size \<le> unat (max_msg_size gb - word_of_nat sizeof_header)) =
    Inr (?db\<lparr>objects := obj'\<rparr>, populate_header (replicate header_space 0 @ reply_payload inv_id r)
      (word_of_nat ?m) (reply_id (invs ?db ! k)) (nid ?db))"
    by (rule call_handled[OF wf(2) at_b(1) _ pos(1) run]) (use k(2) at_b(4) room(4) in \<open>simp_all add: rpc_room_def int_alloc_def\<close>)
  moreover have "?reply \<noteq> []" by (rule populate_header_not_empty)
  ultimately have gb1: "rpc_process_one ?call gb = Inr (call (Tcp_write (ucast (ucast a :: u64)) ?reply) (gb\<lparr>dispatchers := ?db\<lparr>objects := obj'\<rparr>\<rparr>))"
    using message_processed[of ?call ?n "invoke_id (invs ?da ! k)" "ucast a" gb] rpc_room_small(1)[OF room(3)] room(3)
    by (simp add: header_roundtrip ids(1) at_b)
  have "rpc_room ?m ga1" using room(5) ga1(3) by (simp add: rpc_room_def)
  moreover obtain d2 pr2 where d2: "handle_receive (dispatchers ga1) (reply_id (invs (dispatchers ga1) ! k)) (ucast b)
      (reply_payload inv_id r) (word_of_nat ?m) (\<lambda>size. size \<le> unat (max_msg_size ga1 - word_of_nat sizeof_header)) = Inr (d2, [])"
    "pending_at d2 (k, inv_id) = Some pr2" "outcome (promise_of pr2 (ucast b)) = answer (ucast b) r"
    "dest_nodes pr2 = {ucast b}" "pr_wf pr2" "map_fulfilled pr2"
    using reply_handled[OF ga1(4) at_a1(1) _ pos(2) ga1(6), of "ucast b" r
        "\<lambda>size. size \<le> unat (max_msg_size ga1 - word_of_nat sizeof_header)"] at_a1(4) k(2) ga1(7,8,9) by auto
  ultimately have ga2: "rpc_process_one ?reply ga1 = Inr (ga1\<lparr>dispatchers := d2\<rparr>)"
    using message_processed[of ?reply ?m "reply_id (invs ?da ! k)" "ucast b" ga1] rpc_room_small(1)[OF room(5)]
    by (simp add: header_roundtrip ids(2) at_a1)
  obtain ks where "pending_map pr2 = Some ks" "set ks = {ucast b}" using d2(4,5,6) by (auto simp: pr_wf_def split: option.splits)
  then have "\<exists>q. reply_get pr2 new_query (ucast b) = Some (Inr (answer (ucast b) r, q))"
    using d2(3) by (cases ks) (auto simp: reply_get_def query_wait_def new_query_def answer_def split: option.splits)
  then obtain q where q: "reply_get pr2 new_query (ucast b) = Some (Inr (answer (ucast b) r, q))" by blast
  show ?thesis
    by (intro exI[of _ ga1] exI[of _ ?call] exI[of _ ?reply] exI[of _ pr2] exI[of _ q] exI[of _ "ga1\<lparr>dispatchers := d2\<rparr>"]
        exI[of _ "call (Tcp_write (ucast (ucast a :: u64)) ?reply) (gb\<lparr>dispatchers := ?db\<lparr>objects := obj'\<rparr>\<rparr>)"])
       (use ga1(1,2) gb1 ga2 d2(2) q in \<open>simp add: call_def ucast_ucast_node\<close>)
qed

text \<open>Nodes 7 and 8, each with a function that returns its argument.\<close>

definition echo_group :: "node_id \<Rightarrow> nat \<Rightarrow> unit dgroup" where
  "echo_group p i = solo_group\<lparr>dg_members := [7, 8], member_index := i, max_msg_size := 109, reply_buffer_size := 100,
     dispatchers := \<lparr>nid = ucast p, invs = [\<lparr>invoke_id = 1, reply_id = 2, is_void = False,
       fn = (\<lambda>o' args. (o', if args = [] then None else Some args)), ret = []\<rparr>], objects = ()\<rparr>\<rparr>"

lemma echo_facts:
  "dispatcher_wf (dispatchers (echo_group p i))" "same_program (dispatchers (echo_group p i)) (dispatchers (echo_group q j))"
  "invs (dispatchers (echo_group p i)) = [\<lparr>invoke_id = 1, reply_id = 2, is_void = False,
       fn = (\<lambda>o' args. (o', if args = [] then None else Some args)), ret = []\<rparr>]"
  "nid (dispatchers (echo_group p i)) = ucast p" "objects (dispatchers (echo_group p i)) = ()"
  "dg_members (echo_group p i) = [7, 8]" "member_index (echo_group p i) = i" "reply_buffer_size (echo_group p i) = 100"
  "fulfilledList (echo_group p i) = []"
  by (simp_all add: echo_group_def solo_group_def dispatcher_wf_def opcodes_def same_program_def)

lemma echo_room: "rpc_room n (echo_group p i) \<longleftrightarrow> n + header_space \<le> 100"
  by (auto simp: rpc_room_def echo_group_def solo_group_def sizeof_header_def)

theorem p2p_query_gets_its_answer_witness:
  "\<exists>ga1 call gb1 reply ga2 pr q. tcpSend 8 0 55 [[1, 2], [3]] (echo_group 7 0) = Inr ga1 \<and>
     dg_calls ga1 = dg_calls (echo_group 7 0) @ [Tcp_write 8 call] \<and>
     rpc_process_one call (echo_group 8 1) = Inr gb1 \<and> objects (dispatchers gb1) = () \<and>
     dg_calls gb1 = dg_calls (echo_group 8 1) @ [Tcp_write 7 reply] \<and>
     rpc_process_one reply ga1 = Inr ga2 \<and> pending_at (dispatchers ga2) (0, 55) = Some pr \<and>
     reply_get pr new_query (ucast (8 :: node_id)) = Some (Inr (answer (ucast (8 :: node_id)) (Some [1, 2, 3]), q))"
  by (rule p2p_query_gets_its_answer[where a = 7])
     (simp_all add: echo_facts echo_room reply_payload_def enc_bool_def u64_codec.enc_length header_space_def)

section \<open>Removed members and late replies\<close>

text \<open>What \<^verbatim>\<open>set_exceptions_for_removed_nodes\<close> may rely on: every listed result is fulfilled.\<close>

definition all_fulfilled :: "pref list \<Rightarrow> 'o dispatcher \<Rightarrow> bool" where
  "all_fulfilled ps d \<longleftrightarrow> dispatcher_wf d \<and> (\<forall>p \<in> set ps. \<exists>pr. pending_at d p = Some pr \<and> map_fulfilled pr)"

text \<open>One pending result before and after: nothing answered is changed, no destination dropped.\<close>

definition keeps_answers :: "pending_results \<Rightarrow> pending_results \<Rightarrow> bool" where
  "keeps_answers pr pr' \<longleftrightarrow> dest_nodes pr' = dest_nodes pr \<and> set_nodes pr \<subseteq> set_nodes pr' \<and>
     (\<forall>m \<in> set_nodes pr. promise_of pr' m = promise_of pr m)"

lemma keeps_answers_trans: "keeps_answers a b \<Longrightarrow> keeps_answers b c \<Longrightarrow> keeps_answers a c"
  unfolding keeps_answers_def by (metis subsetD subset_trans)

lemma keeps_answers_refl: "keeps_answers a a"
  by (simp add: keeps_answers_def)

lemma set_removed_step:
  assumes "dispatcher_wf d" "pending_at d p = Some pr" "map_fulfilled pr"
  shows "\<exists>d' pr'. pending_set_removed n p d = Inr d' \<and> dispatcher_wf d' \<and> pending_at d' p = Some pr' \<and> map_fulfilled pr' \<and>
    keeps_answers pr pr' \<and> (ucast n \<in> dest_nodes pr \<longrightarrow> ucast n \<in> set_nodes pr') \<and>
    (\<forall>q. q \<noteq> p \<longrightarrow> pending_at d' q = pending_at d q)"
proof -
  note wf = dispatcher_wf_pending[OF assms(1,2)]
  obtain pr' where pr': "set_exception_for_removed_node (ucast n) pr = Inr pr'" "pr_wf pr'" "map_fulfilled pr'"
    "dest_nodes pr' = dest_nodes pr" "ucast n \<in> dest_nodes pr \<longrightarrow> ucast n \<in> set_nodes pr'"
    "set_nodes pr \<subseteq> set_nodes pr'" "\<forall>m \<in> set_nodes pr. promise_of pr' m = promise_of pr m"
    using set_exception_for_removed_node_ok[OF wf assms(3)] by metis
  with update_pending_ok[where f = "set_exception_for_removed_node (ucast n)", OF assms(1,2) pr'(1,2)] show ?thesis
    unfolding pending_set_removed_def keeps_answers_def by blast
qed

lemma set_exceptions_ok:
  assumes "dispatcher_wf d" "\<forall>(p, n) \<in> set ps. \<exists>pr. pending_at d p = Some pr \<and> map_fulfilled pr"
  shows "\<exists>d'. set_exceptions_for ps d = Inr d' \<and> dispatcher_wf d' \<and>
    (\<forall>p pr. pending_at d p = Some pr \<longrightarrow> (\<exists>pr'. pending_at d' p = Some pr' \<and> keeps_answers pr pr' \<and>
       (\<forall>n. (p, n) \<in> set ps \<longrightarrow> ucast n \<in> dest_nodes pr \<longrightarrow> ucast n \<in> set_nodes pr')))"
  using assms
proof (induction ps arbitrary: d)
  case (Cons e ps)
  obtain p n where e: "e = (p, n)" by fastforce
  from Cons.prems(2) obtain pr where pr: "pending_at d p = Some pr" "map_fulfilled pr" by (auto simp: e)
  obtain d1 pr1 where d1: "pending_set_removed n p d = Inr d1" "dispatcher_wf d1" "pending_at d1 p = Some pr1"
    "map_fulfilled pr1" "keeps_answers pr pr1" "ucast n \<in> dest_nodes pr \<longrightarrow> ucast n \<in> set_nodes pr1"
    "\<forall>q. q \<noteq> p \<longrightarrow> pending_at d1 q = pending_at d q"
    using set_removed_step[OF Cons.prems(1) pr] by metis
  have "\<forall>(q, m) \<in> set ps. \<exists>pr. pending_at d1 q = Some pr \<and> map_fulfilled pr"
    using Cons.prems(2) d1(3,4,7) by (fastforce simp: e)
  from Cons.IH[OF d1(2) this] obtain d' where d': "set_exceptions_for ps d1 = Inr d'" "dispatcher_wf d'"
    and each: "\<And>q prq. pending_at d1 q = Some prq \<Longrightarrow> \<exists>pr'. pending_at d' q = Some pr' \<and> keeps_answers prq pr' \<and>
       (\<forall>n. (q, n) \<in> set ps \<longrightarrow> ucast n \<in> dest_nodes prq \<longrightarrow> ucast n \<in> set_nodes pr')" by blast
  have "\<exists>pr'. pending_at d' q = Some pr' \<and> keeps_answers prq pr' \<and>
      (\<forall>m. (q, m) \<in> set (e # ps) \<longrightarrow> ucast m \<in> dest_nodes prq \<longrightarrow> ucast m \<in> set_nodes pr')"
    if q: "pending_at d q = Some prq" for q prq
  proof (cases "q = p")
    case True
    with q pr have "prq = pr" by simp
    from each[OF d1(3)] obtain pr' where "pending_at d' p = Some pr'" "keeps_answers pr1 pr'"
      "\<forall>m. (p, m) \<in> set ps \<longrightarrow> ucast m \<in> dest_nodes pr1 \<longrightarrow> ucast m \<in> set_nodes pr'" by blast
    moreover from this have "ucast n \<in> dest_nodes pr \<longrightarrow> ucast n \<in> set_nodes pr'" "dest_nodes pr1 = dest_nodes pr"
      using d1(5,6) by (auto simp: keeps_answers_def)
    ultimately show ?thesis using True \<open>prq = pr\<close> keeps_answers_trans[OF d1(5)] by (auto simp: e)
  next
    case False
    with each[of q prq] d1(7) q show ?thesis by (auto simp: e)
  qed
  then show ?case using d1(1) d' by (auto simp: e)
qed (auto intro: keeps_answers_refl)

text \<open>
  \<^verbatim>\<open>set_exceptions_for_removed_nodes\<close>: for every query in \<^verbatim>\<open>fulfilledList\<close>, the future of each
  listed destination has a value or an exception afterwards, and every answer that had arrived
  before is still there.
\<close>

lemma removed_are_resolved:
  assumes "all_fulfilled (fulfilledList g) (dispatchers g)"
  shows "\<exists>g'. set_exceptions_for_removed_nodes removed g = Inr g' \<and>
    (\<forall>p \<in> set (fulfilledList g). \<forall>pr. pending_at (dispatchers g) p = Some pr \<longrightarrow>
      (\<exists>pr'. pending_at (dispatchers g') p = Some pr' \<and>
        (\<forall>n \<in> set removed. ucast n \<in> dest_nodes pr \<longrightarrow> outcome (promise_of pr' (ucast n)) \<noteq> Unset) \<and>
        (\<forall>m. outcome (promise_of pr m) \<noteq> Unset \<longrightarrow> promise_of pr' m = promise_of pr m)))"
proof -
  from assms have wf: "dispatcher_wf (dispatchers g)"
    and all: "\<forall>(p, n) \<in> set (List.product (fulfilledList g) removed). \<exists>pr. pending_at (dispatchers g) p = Some pr \<and> map_fulfilled pr"
    by (auto simp: all_fulfilled_def)
  obtain d' where d': "set_exceptions_for (List.product (fulfilledList g) removed) (dispatchers g) = Inr d'"
    "dispatcher_wf d'" and each: "\<And>p pr. pending_at (dispatchers g) p = Some pr \<Longrightarrow>
      \<exists>pr'. pending_at d' p = Some pr' \<and> keeps_answers pr pr' \<and>
       (\<forall>n. (p, n) \<in> set (List.product (fulfilledList g) removed) \<longrightarrow> ucast n \<in> dest_nodes pr \<longrightarrow> ucast n \<in> set_nodes pr')"
    using set_exceptions_ok[OF wf all] by metis
  have "\<exists>pr'. pending_at d' p = Some pr' \<and>
        (\<forall>n \<in> set removed. ucast n \<in> dest_nodes pr \<longrightarrow> outcome (promise_of pr' (ucast n)) \<noteq> Unset) \<and>
        (\<forall>m. outcome (promise_of pr m) \<noteq> Unset \<longrightarrow> promise_of pr' m = promise_of pr m)"
    if p: "p \<in> set (fulfilledList g)" "pending_at (dispatchers g) p = Some pr" for p pr
  proof -
    from each[OF p(2)] obtain pr' where pr': "pending_at d' p = Some pr'" "keeps_answers pr pr'"
      "\<forall>n \<in> set removed. ucast n \<in> dest_nodes pr \<longrightarrow> ucast n \<in> set_nodes pr'" using p(1) by auto
    with dispatcher_wf_pending[OF wf p(2)] dispatcher_wf_pending[OF d'(2) pr'(1)] show ?thesis
      by (intro exI[of _ pr']) (auto simp: pr_wf_def keeps_answers_def)
  qed
  with d'(1) show ?thesis
    by (intro exI[of _ "g\<lparr>dispatchers := d'\<rparr>"]) (simp add: set_exceptions_for_removed_nodes_def)
qed

text \<open>Node 7 with a query to node 8 under way.\<close>

definition asked_pending :: pending_results where
  "asked_pending = \<lparr>pending_map = Some [8], map_taken = True,
     populated_promises = [(8, \<lparr>future_taken = True, outcome = Unset\<rparr>)], map_fulfilled = True, dest_nodes = {8}, set_nodes = {}\<rparr>"

definition asked_echo :: "unit dgroup" where
  "asked_echo = (echo_group 7 0)\<lparr>fulfilledList := [(0, 55)], dispatchers := \<lparr>nid = 7,
     invs = [(invs (dispatchers (echo_group 7 0)) ! 0)\<lparr>ret := [(55, asked_pending)]\<rparr>], objects = ()\<rparr>\<rparr>"

lemma asked_pending_wf: "pr_wf asked_pending"
  by (auto simp: pr_wf_def asked_pending_def promise_of_def new_promise_def)

lemma asked_echo_facts:
  "dispatcher_wf (dispatchers asked_echo)" "pending_at (dispatchers asked_echo) (0, 55) = Some asked_pending"
  "fulfilledList asked_echo = [(0, 55)]" "all_fulfilled (fulfilledList asked_echo) (dispatchers asked_echo)"
proof -
  show "dispatcher_wf (dispatchers asked_echo)" using asked_pending_wf
    by (simp add: asked_echo_def echo_facts dispatcher_wf_def opcodes_def)
  then show "pending_at (dispatchers asked_echo) (0, 55) = Some asked_pending" "fulfilledList asked_echo = [(0, 55)]"
    "all_fulfilled (fulfilledList asked_echo) (dispatchers asked_echo)"
    by (simp_all add: asked_echo_def pending_at_def all_fulfilled_def asked_pending_def)
qed

text \<open>
  A reply that arrives after its sender's promise was resolved, by an earlier reply or by
  the sender's removal from the group, raises out of the receiving loop, which catches
  nothing: the promise cannot be set twice.
\<close>

lemma late_reply_raises:
  assumes "dispatcher_wf (dispatchers g)" "k < length (invs (dispatchers g))" "\<not> is_void (invs (dispatchers g) ! k)"
    and "pending_at (dispatchers g) (k, inv_id) = Some pr" "outcome (promise_of pr n) \<noteq> Unset"
    and "rpc_room (length (reply_payload inv_id r)) g"
  shows "rpc_process_one (populate_header (replicate header_space 0 @ reply_payload inv_id r)
      (word_of_nat (length (reply_payload inv_id r))) (reply_id (invs (dispatchers g) ! k)) n) g =
    Inl (Throw ''promise_already_satisfied'')"
proof -
  let ?m = "length (reply_payload inv_id r)"
  have m: "unat (word_of_nat ?m :: u64) = ?m" by (rule word_of_nat_exact[OF rpc_room_small(1)[OF assms(6)]])
  moreover have "0 < ?m" by (simp add: reply_payload_def enc_bool_def split: option.splits)
  ultimately have pos: "(word_of_nat ?m :: u64) \<noteq> 0" using unat_0[where ?'a = 64] by (metis less_irrefl)
  have "n \<in> set_nodes pr" using dispatcher_wf_pending[OF assms(1,4)] assms(5) by (simp add: pr_wf_def)
  note raises = second_reply_raises[OF assms(1,2,3) pos assms(4) this]
  have "\<not> unat (max_msg_size g - word_of_nat sizeof_header) < header_space + unat (word_of_nat ?m :: u64)"
    using assms(6) unfolding m by (simp only: rpc_room_def not_less add.commute)
  then show ?thesis
    unfolding rpc_process_one_def header_roundtrip by (simp add: raises)
qed

theorem late_reply_raises_witness:
  "\<exists>g'. set_exceptions_for_removed_nodes [8] asked_echo = Inr g' \<and>
     rpc_process_one (populate_header (replicate header_space 0 @ reply_payload 55 (Some [1])) 10 2 8) g' =
       Inl (Throw ''promise_already_satisfied'')"
proof -
  obtain d' pr' where d': "pending_set_removed 8 (0, 55) (dispatchers asked_echo) = Inr d'" "dispatcher_wf d'"
    "pending_at d' (0, 55) = Some pr'" "keeps_answers asked_pending pr'" "8 \<in> set_nodes pr'"
    using set_removed_step[OF asked_echo_facts(1,2), of 8] by (auto simp: asked_pending_def)
  have run: "set_exceptions_for_removed_nodes [8] asked_echo = Inr (asked_echo\<lparr>dispatchers := d'\<rparr>)"
    using d'(1) by (simp add: set_exceptions_for_removed_nodes_def asked_echo_facts(3))
  have inv: "0 < length (invs d')" "\<not> is_void (invs d' ! 0)" "reply_id (invs d' ! 0) = 2"
    using d'(1) asked_echo_facts(2)
    by (auto simp: pending_set_removed_def update_pending_def asked_echo_def Let_def echo_facts)
  have "outcome (promise_of pr' 8) \<noteq> Unset" using dispatcher_wf_pending[OF d'(2,3)] d'(5) by (simp add: pr_wf_def)
  then have "rpc_process_one (populate_header (replicate header_space 0 @ reply_payload 55 (Some [1]))
      (word_of_nat (length (reply_payload 55 (Some [1])))) (reply_id (invs (dispatchers (asked_echo\<lparr>dispatchers := d'\<rparr>)) ! 0)) 8)
      (asked_echo\<lparr>dispatchers := d'\<rparr>) = Inl (Throw ''promise_already_satisfied'')"
    using d'(2,3) inv by (intro late_reply_raises)
      (simp_all add: rpc_room_def asked_echo_def echo_group_def solo_group_def sizeof_header_def reply_payload_def enc_bool_def
        u64_codec.enc_length header_space_def)
  then show ?thesis using run inv(3) by (simp add: reply_payload_def enc_bool_def u64_codec.enc_length)
qed

end
