(* ===== verification/Removed_Callers.thy ===== *)
theory Removed_Callers
  imports Handover Join_Protocol Rpc_Calls
begin

text \<open>
  What a view change does to the callers of the nodes it removes: the whole of
  \<^verbatim>\<open>globalMin_ready_continuation\<close>, down to the upcall with which the constructors of the
  managed group have the removed members' futures resolved.
\<close>

section \<open>The list of removed members\<close>

text \<open>
  An element leaves the first range of \<^verbatim>\<open>std::set_difference\<close> only against an equal element of
  the second, so whatever the order of the two ranges no removed member is missed; a member
  that stays can be listed as removed, though, when they are not sorted.
\<close>

lemma set_difference_covers: "set xs - set ys \<subseteq> set (set_difference xs ys)"
  by (induction xs ys rule: set_difference.induct) auto

lemma removed_members_listed: "n \<in> set old \<Longrightarrow> n \<notin> set new \<Longrightarrow> n \<in> set (removed_members new old)"
  using set_difference_covers[of old new] by (auto simp: removed_members_def)

lemma remaining_member_listed: "removed_members [10, 5] [10, 20, 5] = [20, 5]"
  by (simp add: removed_members_def)

section \<open>The view change\<close>

lemma transition_pending:
  assumes "transition_sst_and_rdmc N rs ok u nv g = Inr dg"
  shows "dispatchers dg = dispatchers (curr_group g)" "fulfilledList dg = fulfilledList (curr_group g)"
  using assms by (auto simp: transition_sst_and_rdmc_def Let_def dest: constructor_dispatcher(1,3))

lemma make_way_group:
  "dispatchers (curr_group (make_way nv g)) = dispatchers (curr_group g)"
  "fulfilledList (curr_group (make_way nv g)) = fulfilledList (curr_group g)"
  by (simp_all add: make_way_def Let_def upd_sst_def gms_call_def)

lemma enter_group:
  "dispatchers (curr_group (enter N nv dg g)) = dispatchers dg" "fulfilledList (curr_group (enter N nv dg g)) = fulfilledList dg"
  "members (curr_view (enter N nv dg g)) = members nv"
proof -
  show "dispatchers (curr_group (enter N nv dg g)) = dispatchers dg"
    "fulfilledList (curr_group (enter N nv dg g)) = fulfilledList dg"
    by (simp_all add: enter_def Let_def upd_sst_def gms_call_def install_view_def register_predicates_def first_task_def
        split: prod.split)
  obtain h where h: "enter N nv dg g = first_task N h" "curr_view h = nv" by (rule enter_first_task)
  with first_task_view[of N h] show "members (curr_view (enter N nv dg g)) = members nv" by auto
qed

lemma commit_join_group: "(if b then commit_join nv g else Inr g) = Inr g' \<Longrightarrow> curr_group g' = curr_group g"
  by (auto simp: commit_join_def gms_call_def split: if_splits option.splits)

text \<open>
  C30. After a view change no caller waits for a removed member. Take any view change that
  runs to its end, from \<^verbatim>\<open>globalMin_ready_continuation\<close> with the old view to the upcalls of the
  new one. For every query that is in \<^verbatim>\<open>fulfilledList\<close> when the last messages of the old view
  have been delivered, the future of each destination that is a member of the old view and not
  of the new one has a value or an exception, and every answer that had arrived is still
  there. This needs neither member list to be sorted, as \<^verbatim>\<open>std::set_difference\<close> asks. Results
  that still wait in \<^verbatim>\<open>toFulfillQueue\<close> for their message to be delivered are not in the list.
\<close>

theorem no_query_waits_for_a_removed_member:
  assumes "globalMin_ready_continuation N rs ok u b g = Inr g'" and "next_view g = Some nv"
    and "ragged_edge_cleanup g = Inr ga" and "all_fulfilled (fulfilledList (curr_group ga)) (dispatchers (curr_group ga))"
  shows "\<forall>p \<in> set (fulfilledList (curr_group ga)). \<forall>pr. pending_at (dispatchers (curr_group ga)) p = Some pr \<longrightarrow>
      (\<exists>pr'. pending_at (dispatchers (curr_group g')) p = Some pr' \<and>
        (\<forall>n \<in> set (members (curr_view g)) - set (members nv).
           ucast n \<in> dest_nodes pr \<longrightarrow> outcome (promise_of pr' (ucast n)) \<noteq> Unset) \<and>
        (\<forall>m. outcome (promise_of pr m) \<noteq> Unset \<longrightarrow> promise_of pr' m = promise_of pr m))"
proof -
  obtain a gb dg x where a: "ragged_edge_cleanup g = Inr a"
    and gb: "(if IAmLeader (curr_view a) \<and> \<not> b then commit_join nv a else Inr a) = Inr gb"
    and dg: "transition_sst_and_rdmc N rs ok u nv (make_way nv gb) = Inr dg"
    and x: "run_view_upcalls (members (curr_view (make_way nv gb))) (enter N nv dg (make_way nv gb)) = Inr x"
    and g': "g' = gms_call Notify_view_change x"
    by (rule continuation_steps[OF assms(1,2)])
  have [simp]: "a = ga" using a assms(3) by simp
  let ?e = "enter N nv dg (make_way nv gb)" and ?removed = "removed_members (members nv) (members (curr_view g))"
  have old: "curr_view (make_way nv gb) = curr_view g"
    using make_way_frame(2)[of nv gb] commit_join_frame[OF gb] ragged_edge_keeps(1)[OF assms(3)] by simp
  have carried: "dispatchers (curr_group ?e) = dispatchers (curr_group ga)"
    "fulfilledList (curr_group ?e) = fulfilledList (curr_group ga)"
    by (simp_all add: enter_group transition_pending[OF dg] make_way_group commit_join_group[OF gb])
  obtain g2 where "set_exceptions_for_removed_nodes ?removed (curr_group ?e) = Inr g2" and
    each: "\<And>p pr. p \<in> set (fulfilledList (curr_group ga)) \<Longrightarrow> pending_at (dispatchers (curr_group ga)) p = Some pr \<Longrightarrow>
      \<exists>pr'. pending_at (dispatchers g2) p = Some pr' \<and>
        (\<forall>n \<in> set ?removed. ucast n \<in> dest_nodes pr \<longrightarrow> outcome (promise_of pr' (ucast n)) \<noteq> Unset) \<and>
        (\<forall>m. outcome (promise_of pr m) \<noteq> Unset \<longrightarrow> promise_of pr' m = promise_of pr m)"
    using removed_are_resolved[of "curr_group ?e" ?removed] assms(4) unfolding carried by blast
  then have "curr_group g' = g2"
    using x by (auto simp: g' run_view_upcalls_def gms_call_def enter_group(3) old Let_def)
  with each show ?thesis by (metis DiffD1 DiffD2 removed_members_listed)
qed

text \<open>Node 7, with its query to node 8 still open, as the view that drops node 8 is ready.\<close>

definition parting_view :: view where
  "parting_view = host_view\<lparr>members := [7, 8], member_ips := [''a'', ''b''], failed := [False, True], nFailed := 1,
     num_members := 2\<rparr>"

definition parted_view :: view where
  "parted_view = host_view\<lparr>vid := 1, who := Some 8\<rparr>"

definition parting :: "unit managed" where
  "parting = \<lparr>curr_view = parting_view, curr_group = asked_echo\<lparr>dg_sst := duo_sst\<rparr>, next_view = Some parted_view, pending_joins = [],
     joining_client = None, last_suspected = [False, True], mg_shutdown = False, view_file_name = [],
     old_views = [], mg_params = duo_params, mg_calls = []\<rparr>"

definition parting_delivered :: "unit managed" where
  "parting_delivered = result_of (ragged_edge_cleanup parting)"

definition parted_group :: "unit dgroup" where
  "parted_group = result_of (transition_sst_and_rdmc 2 [duo_row] (\<lambda>_. True) 1 parted_view (make_way parted_view parting_delivered))"

definition parted :: "unit managed" where
  "parted = gms_call Notify_view_change (result_of (run_view_upcalls [7, 8] (enter 2 parted_view parted_group
     (make_way parted_view parting_delivered))))"

lemma parting_stages:
  "of_result (\<lambda>g. members (curr_view g)) (ragged_edge_cleanup parting) = Some [7, 8]"
  "of_result (\<lambda>g. ()) (transition_sst_and_rdmc 2 [duo_row] (\<lambda>_. True) 1 parted_view (make_way parted_view parting_delivered)) = Some ()"
  "members (curr_view (make_way parted_view parting_delivered)) = [7, 8]"
  "IAmLeader parting_view"
  by code_simp+

lemma parting_upcalls:
  "of_result (\<lambda>g. ()) (run_view_upcalls [7, 8] (enter 2 parted_view parted_group (make_way parted_view parting_delivered))) = Some ()"
  by code_simp

lemma deliver_range_nothing: "locally_stable_messages g = [] \<Longrightarrow> deliver_range ks g = Inr g"
  by (induction ks) auto

lemma cleanup_nothing:
  assumes "ragged_edge_cleanup g = Inr g'" "locally_stable_messages (curr_group g) = []"
  shows "dispatchers (curr_group g') = dispatchers (curr_group g) \<and> fulfilledList (curr_group g') = fulfilledList (curr_group g)"
proof -
  have deliver: "dispatchers (curr_group y) = dispatchers (curr_group x) \<and> fulfilledList (curr_group y) = fulfilledList (curr_group x)"
    if "deliver_in_order l x = Inr y" "locally_stable_messages (curr_group x) = []" for l and x y :: "'a managed"
    using that by (auto simp: deliver_in_order_def deliver_messages_upto_def deliver_range_nothing Let_def split: if_splits)
  show ?thesis
    using assms deliver
    by (fastforce simp: ragged_edge_cleanup_def leader_ragged_edge_cleanup_def follower_ragged_edge_cleanup_def upd_sst_def Let_def
        split: if_splits)
qed

lemma parting_runs:
  "globalMin_ready_continuation 2 [duo_row] (\<lambda>_. True) 1 True parting = Inr parted"
  "ragged_edge_cleanup parting = Inr parting_delivered"
proof -
  note s = parting_stages
  show cleanup: "ragged_edge_cleanup parting = Inr parting_delivered"
    using of_result_Some[OF s(1)] by (simp add: parting_delivered_def)
  show "globalMin_ready_continuation 2 [duo_row] (\<lambda>_. True) 1 True parting = Inr parted"
    unfolding parted_def
    using s(3) of_result_Some[OF s(2)] of_result_Some[OF parting_upcalls] cleanup
    by (intro continuation_by_steps[where ga = parting_delivered and nv = parted_view and gb = parting_delivered and dg = parted_group])
       (simp_all add: parted_group_def parting_def)
qed

lemma parting_query:
  "dispatchers (curr_group parting_delivered) = dispatchers asked_echo"
  "fulfilledList (curr_group parting_delivered) = [(0, 55)]"
proof -
  have "locally_stable_messages asked_echo = []" by (simp add: asked_echo_def echo_group_def solo_group_def)
  with cleanup_nothing[OF parting_runs(2)] have "dispatchers (curr_group parting_delivered) = dispatchers asked_echo \<and>
      fulfilledList (curr_group parting_delivered) = fulfilledList asked_echo" by (simp add: parting_def)
  then show "dispatchers (curr_group parting_delivered) = dispatchers asked_echo"
    "fulfilledList (curr_group parting_delivered) = [(0, 55)]" by (simp_all add: asked_echo_facts(3))
qed

theorem no_query_waits_for_a_removed_member_witness:
  "\<exists>pr'. pending_at (dispatchers (curr_group parted)) (0, 55) = Some pr' \<and> outcome (promise_of pr' 8) \<noteq> Unset"
proof -
  have v: "members (curr_view parting) = [7, 8]" "members parted_view = [7]" "next_view parting = Some parted_view"
    by (simp_all add: parting_def parting_view_def parted_view_def host_view_def)
  show ?thesis
    using no_query_waits_for_a_removed_member[OF parting_runs(1) v(3) parting_runs(2)] asked_echo_facts
    by (simp add: parting_query v) (auto simp: asked_pending_def)
qed

end
