(* ===== verification/Rpc_Setup.thy ===== *)
theory Rpc_Setup
  imports Join_Protocol Rpc_Calls Cluster
begin

text \<open>
  How a dispatcher is built (\<^verbatim>\<open>derecho_caller.h\<close>): every class registers its member
  functions, each of which becomes a \<^verbatim>\<open>RemoteInvocable\<close> that enters itself in the map
  \<^verbatim>\<open>receivers\<close> under its two opcodes; and what a received call then runs. The opcodes are
  static members of the template, numbered by another library's \<^verbatim>\<open>gensym\<close>: one pair for
  each tag and function type, the parameter \<open>gensym\<close>. Objects are cells, reached by the
  registered functions through their position when they are called.
\<close>

section \<open>Member functions\<close>

text \<open>The tag and the function type that choose the class \<^verbatim>\<open>RemoteInvocable<tag, Ret(Args...)>\<close>.\<close>

type_synonym signature = "u64 \<times> string"

text \<open>
  A member function before it is bound to an object (\<^verbatim>\<open>partial_wrapped\<close>), with the
  serialisers of its argument types and of its result; \<open>None\<close> is \<^verbatim>\<open>void\<close>. The method
  returns \<open>None\<close> when it throws.
\<close>

record ('c, 'v) partial_wrapped =
  psig :: signature
  mfun :: "'c \<Rightarrow> 'v list \<Rightarrow> 'c \<times> 'v option"
  arg_types :: "'v serial list"
  res_type :: "'v serial option"

text \<open>The same after binding (\<^verbatim>\<open>wrapped\<close>): a function of all cells.\<close>

record ('c, 'v) wrapped =
  wsig :: signature
  wfun :: "'c list \<Rightarrow> 'v list \<Rightarrow> 'c list \<times> 'v option"
  warg_types :: "'v serial list"
  wres_type :: "'v serial option"

definition wrap :: "'c option list \<Rightarrow> nat \<Rightarrow> ('c, 'v) partial_wrapped \<Rightarrow> ('c, 'v) wrapped result" where
  "wrap cells c p =
     bindE (guardE (c < length cells) (Assert ''_this'')) (\<lambda>_.
     bindE (guardE (cells ! c \<noteq> None) (Assert ''_this->get()'')) (\<lambda>_.
       Inr \<lparr>wsig = psig p,
            wfun = (\<lambda>objs args. let (obj', r) = mfun p (objs ! c) args in (objs[c := obj'], r)),
            warg_types = arg_types p, wres_type = res_type p\<rparr>))"

text \<open>\<^verbatim>\<open>_deserialize\<close>: each argument is read where the one before it ends.\<close>

fun deserialize :: "'v serial list \<Rightarrow> bytes \<Rightarrow> 'v list" where
  "deserialize [] buf = []"
| "deserialize (t # ts) buf = (let ds = from_bytes t buf in ds # deserialize ts (drop (bytes_size t ds) buf))"

text \<open>The bound function on serialised arguments, as \<^verbatim>\<open>receive_call\<close> runs it.\<close>

definition call_fun :: "('c, 'v) wrapped \<Rightarrow> 'c list \<Rightarrow> bytes \<Rightarrow> 'c list \<times> bytes option" where
  "call_fun w objs buf =
     (let (objs', r) = wfun w objs (deserialize (warg_types w) buf)
      in (objs', map_option (\<lambda>v. case wres_type w of None \<Rightarrow> [] | Some t \<Rightarrow> to_bytes t v) r))"

section \<open>Registering\<close>

datatype receive_fun = Receive_call nat | Receive_response nat

type_synonym receivers = "(u64, receive_fun) smap"

text \<open>
  The constructor of a \<^verbatim>\<open>RemoteInvocable\<close>: it takes the next position in the list of
  invocables and writes both map entries, whatever they held.
\<close>

definition remote_invocable ::
  "(signature \<Rightarrow> u64 \<times> u64) \<Rightarrow> ('c, 'v) wrapped \<Rightarrow> receivers \<times> 'c list invocable list \<Rightarrow> receivers \<times> 'c list invocable list" where
  "remote_invocable gensym w s =
     (let (rvrs, hs) = s; (inv, rep) = gensym (wsig w)
      in (sm_assign rep (Receive_response (length hs)) (sm_assign inv (Receive_call (length hs)) rvrs),
          hs @ [\<lparr>invoke_id = inv, reply_id = rep, is_void = (wres_type w = None), fn = call_fun w, ret = []\<rparr>]))"

fun remote_invocable_pairs ::
  "(signature \<Rightarrow> u64 \<times> u64) \<Rightarrow> ('c, 'v) wrapped list \<Rightarrow> receivers \<times> 'c list invocable list \<Rightarrow> receivers \<times> 'c list invocable list" where
  "remote_invocable_pairs gensym [] s = s"
| "remote_invocable_pairs gensym (q # rest) s = remote_invocable_pairs gensym rest (remote_invocable gensym q s)"

fun wrap_all :: "'c option list \<Rightarrow> nat \<Rightarrow> ('c, 'v) partial_wrapped list \<Rightarrow> ('c, 'v) wrapped list result" where
  "wrap_all cells c [] = Inr []"
| "wrap_all cells c (f # fs) = bindE (wrap cells c f) (\<lambda>w. bindE (wrap_all cells c fs) (\<lambda>ws. Inr (w # ws)))"

definition register_functions ::
  "(signature \<Rightarrow> u64 \<times> u64) \<Rightarrow> 'c option list \<Rightarrow> nat \<Rightarrow> ('c, 'v) partial_wrapped list \<Rightarrow>
   receivers \<times> 'c list invocable list \<Rightarrow> (receivers \<times> 'c list invocable list) result" where
  "register_functions gensym cells c fs s =
     bindE (wrap_all cells c fs) (\<lambda>ws. Inr (remote_invocable_pairs gensym ws s))"

text \<open>
  The classes register as the arguments of one function call, in an order the language
  leaves open: a list of cells with their functions, in the order they happen to run.
\<close>

fun register_all ::
  "(signature \<Rightarrow> u64 \<times> u64) \<Rightarrow> 'c option list \<Rightarrow> (nat \<times> ('c, 'v) partial_wrapped list) list \<Rightarrow>
   receivers \<times> 'c list invocable list \<Rightarrow> (receivers \<times> 'c list invocable list) result" where
  "register_all gensym cells [] s = Inr s"
| "register_all gensym cells ((c, fs) # cs) s =
     bindE (register_functions gensym cells c fs s) (\<lambda>s'. register_all gensym cells cs s')"

text \<open>The objects are built from the tuples of constructor arguments, one of each class.\<close>

definition construct_objects :: "('a \<Rightarrow> 'c) list \<Rightarrow> 'a list \<Rightarrow> 'c option list" where
  "construct_objects ctors args = map2 (\<lambda>mk a. Some (mk a)) ctors args"

definition dispatcher_ctor ::
  "(signature \<Rightarrow> u64 \<times> u64) \<Rightarrow> u64 \<Rightarrow> ('a \<Rightarrow> 'c) list \<Rightarrow> 'a list \<Rightarrow> (nat \<times> ('c, 'v) partial_wrapped list) list \<Rightarrow>
   (receivers \<times> 'c list dispatcher) result" where
  "dispatcher_ctor gensym n ctors args classes =
     (let cells = construct_objects ctors args
      in bindE (register_all gensym cells classes ([], []))
           (\<lambda>(rvrs, hs). Inr (rvrs, \<lparr>nid = n, invs = hs, objects = map the cells\<rparr>)))"

section \<open>Receiving through the map\<close>

text \<open>\<^verbatim>\<open>handle_receive\<close> with the map it looks the opcode up in.\<close>

definition handle_receive_at ::
  "receivers \<Rightarrow> 'o dispatcher \<Rightarrow> u64 \<Rightarrow> u64 \<Rightarrow> bytes \<Rightarrow> u64 \<Rightarrow> (nat \<Rightarrow> bool) \<Rightarrow> ('o dispatcher \<times> bytes) result" where
  "handle_receive_at rvrs d indx received_from buf payload_size out_alloc =
     bindE (guardE (payload_size \<noteq> 0) (Assert ''payload_size'')) (\<lambda>_.
       case sm_find rvrs indx of
         None \<Rightarrow> Inl (Throw ''out_of_range'')
       | Some (Receive_call k) \<Rightarrow>
           bindE (receive_call (invs d ! k) (objects d) buf (\<lambda>size. int_alloc out_alloc (size + header_space)))
             (\<lambda>(obj', reply). Inr (d\<lparr>objects := obj'\<rparr>,
                case reply of None \<Rightarrow> []
                | Some out \<Rightarrow> populate_header (replicate header_space 0 @ out)
                    (word_of_nat (length out)) (reply_id (invs d ! k)) (nid d)))
       | Some (Receive_response k) \<Rightarrow>
           bindE (receive_response (invs d ! k) received_from buf)
             (\<lambda>h'. Inr (d\<lparr>invs := (invs d)[k := h']\<rparr>, [])))"

section \<open>What the map holds\<close>

text \<open>
  The numbers \<^verbatim>\<open>gensym\<close> gives to a set of signatures are all different. Signatures may
  repeat among the registered functions; \<open>newest\<close> says that position \<open>k\<close> is the last with
  its signature.
\<close>

definition fresh_opcodes :: "(signature \<Rightarrow> u64 \<times> u64) \<Rightarrow> signature set \<Rightarrow> bool" where
  "fresh_opcodes gensym S \<longleftrightarrow> inj_on (\<lambda>s. fst (gensym s)) S \<and> inj_on (\<lambda>s. snd (gensym s)) S \<and>
     (\<lambda>s. fst (gensym s)) ` S \<inter> (\<lambda>s. snd (gensym s)) ` S = {}"

lemma fresh_opcodesD:
  assumes "fresh_opcodes gensym S" "a \<in> S" "b \<in> S"
  shows "fst (gensym a) = fst (gensym b) \<longleftrightarrow> a = b" "snd (gensym a) = snd (gensym b) \<longleftrightarrow> a = b"
    "fst (gensym a) \<noteq> snd (gensym b)"
proof -
  have "inj_on (\<lambda>s. fst (gensym s)) S" "inj_on (\<lambda>s. snd (gensym s)) S"
    "(\<lambda>s. fst (gensym s)) ` S \<inter> (\<lambda>s. snd (gensym s)) ` S = {}"
    using assms(1) by (simp_all add: fresh_opcodes_def)
  with assms(2,3) show "fst (gensym a) = fst (gensym b) \<longleftrightarrow> a = b" "snd (gensym a) = snd (gensym b) \<longleftrightarrow> a = b"
    "fst (gensym a) \<noteq> snd (gensym b)"
    by (auto dest: inj_on_eq_iff)
qed

definition newest :: "signature list \<Rightarrow> nat \<Rightarrow> bool" where
  "newest sigs k \<longleftrightarrow> k < length sigs \<and> sigs ! k \<notin> set (drop (Suc k) sigs)"

lemma newest_snoc:
  "newest (sigs @ [s]) k \<longleftrightarrow> k = length sigs \<or> newest sigs k \<and> sigs ! k \<noteq> s"
  by (cases "k < length sigs") (auto simp: newest_def nth_append)

lemma ex_newest_snoc:
  "(\<exists>k. newest (sigs @ [s]) k \<and> P ((sigs @ [s]) ! k) k) \<longleftrightarrow>
   P s (length sigs) \<or> (\<exists>k. newest sigs k \<and> sigs ! k \<noteq> s \<and> P (sigs ! k) k)"
proof -
  have at: "newest sigs k \<Longrightarrow> (sigs @ [s]) ! k = sigs ! k" for k by (simp add: newest_def nth_append)
  have split: "(\<exists>k. (k = length sigs \<or> newest sigs k \<and> sigs ! k \<noteq> s) \<and> Q k) \<longleftrightarrow>
      Q (length sigs) \<or> (\<exists>k. newest sigs k \<and> sigs ! k \<noteq> s \<and> Q k)" for Q by blast
  show ?thesis unfolding newest_snoc split by (simp add: at cong: conj_cong)
qed

lemma newest_distinct: "distinct sigs \<Longrightarrow> newest sigs k \<longleftrightarrow> k < length sigs"
  by (auto simp: newest_def in_set_conv_nth nth_eq_iff_index_eq)

definition entries :: "(signature \<Rightarrow> u64 \<times> u64) \<Rightarrow> signature list \<Rightarrow> receivers \<Rightarrow> bool" where
  "entries gensym sigs rvrs \<longleftrightarrow> sm_wf rvrs \<and> (\<forall>op f. sm_find rvrs op = Some f \<longleftrightarrow>
     (\<exists>k. newest sigs k \<and> (op = fst (gensym (sigs ! k)) \<and> f = Receive_call k \<or>
                            op = snd (gensym (sigs ! k)) \<and> f = Receive_response k)))"

lemma entries_snoc:
  assumes ent: "entries gensym sigs rvrs" and fresh: "fresh_opcodes gensym (insert s (set sigs))"
  shows "entries gensym (sigs @ [s]) (sm_assign (snd (gensym s)) (Receive_response (length sigs))
    (sm_assign (fst (gensym s)) (Receive_call (length sigs)) rvrs))"
proof -
  let ?i = "fst (gensym s)" and ?r = "snd (gensym s)" and ?n = "length sigs"
  have wf: "sm_wf rvrs" using ent by (simp add: entries_def)
  have other: "fst (gensym (sigs ! k)) = ?i \<longleftrightarrow> sigs ! k = s" "snd (gensym (sigs ! k)) = ?r \<longleftrightarrow> sigs ! k = s"
    "fst (gensym (sigs ! k)) \<noteq> ?r" "snd (gensym (sigs ! k)) \<noteq> ?i" "?i \<noteq> ?r" if "newest sigs k" for k
  proof -
    have "sigs ! k \<in> insert s (set sigs)" "s \<in> insert s (set sigs)" using that by (auto simp: newest_def)
    note d = fresh_opcodesD[OF fresh this] fresh_opcodesD(3)[OF fresh this(2,1)] fresh_opcodesD(3)[OF fresh this(2,2)]
    show "fst (gensym (sigs ! k)) = ?i \<longleftrightarrow> sigs ! k = s" by (rule d(1))
    show "snd (gensym (sigs ! k)) = ?r \<longleftrightarrow> sigs ! k = s" by (rule d(2))
    show "fst (gensym (sigs ! k)) \<noteq> ?r" by (rule d(3))
    show "snd (gensym (sigs ! k)) \<noteq> ?i" by (rule d(4)[symmetric])
    show "?i \<noteq> ?r" by (rule d(5))
  qed
  have ir: "?i \<noteq> ?r" by (rule fresh_opcodesD(3)[OF fresh]) simp_all
  show ?thesis
    unfolding entries_def
  proof (intro conjI allI)
    show "sm_wf (sm_assign ?r (Receive_response ?n) (sm_assign ?i (Receive_call ?n) rvrs))"
      using wf by (intro sm_wf_assign)
    fix op f
    have "sm_find (sm_assign ?r (Receive_response ?n) (sm_assign ?i (Receive_call ?n) rvrs)) op = Some f \<longleftrightarrow>
        (if op = ?r then f = Receive_response ?n else if op = ?i then f = Receive_call ?n else sm_find rvrs op = Some f)"
      using wf by (auto simp: sm_find_assign sm_wf_assign)
    also have "\<dots> \<longleftrightarrow> (op = ?i \<and> f = Receive_call ?n \<or> op = ?r \<and> f = Receive_response ?n \<or>
        (\<exists>k. newest sigs k \<and> sigs ! k \<noteq> s \<and> (op = fst (gensym (sigs ! k)) \<and> f = Receive_call k \<or>
                            op = snd (gensym (sigs ! k)) \<and> f = Receive_response k)))"
    proof -
      have old: "sm_find rvrs op = Some f \<longleftrightarrow> (\<exists>k. newest sigs k \<and> (op = fst (gensym (sigs ! k)) \<and> f = Receive_call k \<or>
          op = snd (gensym (sigs ! k)) \<and> f = Receive_response k))"
        using ent by (simp add: entries_def)
      show ?thesis
      proof (cases "op = ?r \<or> op = ?i")
        case True
        then have no: "(\<exists>k. newest sigs k \<and> sigs ! k \<noteq> s \<and> (op = fst (gensym (sigs ! k)) \<and> f = Receive_call k \<or>
            op = snd (gensym (sigs ! k)) \<and> f = Receive_response k)) = False"
          using other(1-4) by (metis (no_types, lifting))
        from True show ?thesis
        proof (elim disjE)
          assume "op = ?r" then show ?thesis using ir unfolding no by simp
        next
          assume "op = ?i" then show ?thesis using ir unfolding no by simp
        qed
      next
        case False
        then have "(newest sigs k \<and> sigs ! k \<noteq> s \<and> (op = fst (gensym (sigs ! k)) \<and> f = Receive_call k \<or>
            op = snd (gensym (sigs ! k)) \<and> f = Receive_response k)) \<longleftrightarrow>
          (newest sigs k \<and> (op = fst (gensym (sigs ! k)) \<and> f = Receive_call k \<or>
            op = snd (gensym (sigs ! k)) \<and> f = Receive_response k))" for k by auto
        then show ?thesis using old False by simp
      qed
    qed
    also have "\<dots> \<longleftrightarrow> (\<exists>k. newest (sigs @ [s]) k \<and> (op = fst (gensym ((sigs @ [s]) ! k)) \<and> f = Receive_call k \<or>
                            op = snd (gensym ((sigs @ [s]) ! k)) \<and> f = Receive_response k))"
    by (subst ex_newest_snoc[where P = "\<lambda>sg k. op = fst (gensym sg) \<and> f = Receive_call k \<or>
          op = snd (gensym sg) \<and> f = Receive_response k"]) simp
    finally show "sm_find (sm_assign ?r (Receive_response ?n) (sm_assign ?i (Receive_call ?n) rvrs)) op = Some f \<longleftrightarrow>
      (\<exists>k. newest (sigs @ [s]) k \<and> (op = fst (gensym ((sigs @ [s]) ! k)) \<and> f = Receive_call k \<or>
                            op = snd (gensym ((sigs @ [s]) ! k)) \<and> f = Receive_response k))" .
  qed
qed

section \<open>A built dispatcher\<close>

text \<open>All functions of a program in the order of their registration, each with its cell.\<close>

definition registered :: "(nat \<times> ('c, 'v) partial_wrapped list) list \<Rightarrow> (nat \<times> ('c, 'v) partial_wrapped) list" where
  "registered classes = concat (map (\<lambda>(c, fs). map (Pair c) fs) classes)"

definition signatures :: "(nat \<times> ('c, 'v) partial_wrapped list) list \<Rightarrow> signature list" where
  "signatures classes = map (psig \<circ> snd) (registered classes)"

definition bound :: "nat \<times> ('c, 'v) partial_wrapped \<Rightarrow> ('c, 'v) wrapped" where
  "bound f = (case f of (c, p) \<Rightarrow> \<lparr>wsig = psig p,
     wfun = (\<lambda>objs args. let (obj', r) = mfun p (objs ! c) args in (objs[c := obj'], r)),
     warg_types = arg_types p, wres_type = res_type p\<rparr>)"

definition invocable_of :: "(signature \<Rightarrow> u64 \<times> u64) \<Rightarrow> nat \<times> ('c, 'v) partial_wrapped \<Rightarrow> 'c list invocable" where
  "invocable_of gensym f = \<lparr>invoke_id = fst (gensym (psig (snd f))), reply_id = snd (gensym (psig (snd f))),
     is_void = (res_type (snd f) = None), fn = call_fun (bound f), ret = []\<rparr>"

lemma remote_invocable_bound:
  "remote_invocable gensym (bound f) (rvrs, hs) =
     (sm_assign (snd (gensym (psig (snd f)))) (Receive_response (length hs))
       (sm_assign (fst (gensym (psig (snd f)))) (Receive_call (length hs)) rvrs), hs @ [invocable_of gensym f])"
  by (simp add: remote_invocable_def bound_def invocable_of_def split: prod.splits)

lemma wrap_all_bound:
  "c < length cells \<Longrightarrow> cells ! c \<noteq> None \<Longrightarrow> wrap_all cells c fs = Inr (map (\<lambda>p. bound (c, p)) fs)"
  by (induction fs) (simp_all add: wrap_def bound_def)

lemma pairs_append:
  "remote_invocable_pairs gensym (ws @ qs) s = remote_invocable_pairs gensym qs (remote_invocable_pairs gensym ws s)"
  by (induction ws arbitrary: s) simp_all

lemma register_all_bound:
  assumes "\<forall>(c, fs) \<in> set classes. c < length cells \<and> cells ! c \<noteq> None"
  shows "register_all gensym cells classes s = Inr (remote_invocable_pairs gensym (map bound (registered classes)) s)"
  using assms
proof (induction classes arbitrary: s)
  case (Cons cl classes)
  obtain c fs where cl: "cl = (c, fs)" by (cases cl)
  have "registered (cl # classes) = map (Pair c) fs @ registered classes" by (simp add: registered_def cl)
  moreover have "wrap_all cells c fs = Inr (map bound (map (Pair c) fs))"
    using Cons.prems wrap_all_bound[of c cells fs] by (simp add: cl comp_def)
  ultimately show ?case using Cons by (simp add: cl register_functions_def pairs_append del: map_map)
qed (simp add: registered_def)

lemma pairs_entries:
  assumes "fresh_opcodes gensym (set (map (psig \<circ> snd) fs))"
  shows "entries gensym (map (psig \<circ> snd) fs) (fst (remote_invocable_pairs gensym (map bound fs) ([], []))) \<and>
    snd (remote_invocable_pairs gensym (map bound fs) ([], [])) = map (invocable_of gensym) fs"
  using assms
proof (induction fs rule: rev_induct)
  case Nil
  then show ?case by (simp add: entries_def newest_def)
next
  case (snoc f fs)
  obtain rvrs hs where s: "remote_invocable_pairs gensym (map bound fs) ([], []) = (rvrs, hs)" by fastforce
  have "fresh_opcodes gensym (set (map (psig \<circ> snd) fs))"
    using snoc.prems by (auto simp: fresh_opcodes_def inj_on_insert)
  with snoc.IH s have "entries gensym (map (psig \<circ> snd) fs) rvrs" "hs = map (invocable_of gensym) fs" by (simp_all add: comp_def)
  with entries_snoc[of gensym "map (psig \<circ> snd) fs" rvrs "psig (snd f)"] snoc.prems s
  show ?case by (simp add: pairs_append remote_invocable_bound comp_def)
qed

text \<open>Every class has its object.\<close>

definition program_ok :: "(signature \<Rightarrow> u64 \<times> u64) \<Rightarrow> nat \<Rightarrow> (nat \<times> ('c, 'v) partial_wrapped list) list \<Rightarrow> bool" where
  "program_ok gensym n classes \<longleftrightarrow> (\<forall>(c, fs) \<in> set classes. c < n) \<and> fresh_opcodes gensym (set (signatures classes))"

lemma dispatcher_built:
  assumes "program_ok gensym (length args) classes" "length ctors = length args"
  shows "\<exists>rvrs. dispatcher_ctor gensym n ctors args classes =
      Inr (rvrs, \<lparr>nid = n, invs = map (invocable_of gensym) (registered classes), objects = map2 (\<lambda>mk a. mk a) ctors args\<rparr>) \<and>
    entries gensym (signatures classes) rvrs"
proof -
  have "register_all gensym (construct_objects ctors args) classes ([], []) =
      Inr (remote_invocable_pairs gensym (map bound (registered classes)) ([], []))"
    using assms by (intro register_all_bound) (fastforce simp: program_ok_def construct_objects_def)
  moreover have "map the (construct_objects ctors args) = map2 (\<lambda>mk a. mk a) ctors args"
    by (simp add: construct_objects_def comp_def case_prod_unfold)
  ultimately show ?thesis
    using assms(1) pairs_entries[of gensym "registered classes"]
    by (auto simp: dispatcher_ctor_def Let_def program_ok_def signatures_def split: prod.splits)
qed

lemma route_cases:
  "route P op d = -1 \<and> (\<forall>k < length (invs d). \<not> P op (invs d ! k)) \<or>
   (\<exists>k < length (invs d). route P op d = int k \<and> P op (invs d ! k))"
  using scan_SomeD[of "\<lambda>k. P op (invs d ! k)" "length (invs d)"] scan_None_iff unfolding route_def by metis

lemma find_is_route:
  assumes ent: "entries gensym sigs rvrs" and dist: "distinct sigs" and len: "length (invs d) = length sigs"
    and ids: "\<And>k. k < length sigs \<Longrightarrow> invoke_id (invs d ! k) = fst (gensym (sigs ! k)) \<and> reply_id (invs d ! k) = snd (gensym (sigs ! k))"
  shows "sm_find rvrs op =
    (let k = route (\<lambda>op h. op = invoke_id h) op d; j = route (\<lambda>op h. op = reply_id h) op d
     in if k \<noteq> -1 then Some (Receive_call (nat k)) else if j \<noteq> -1 then Some (Receive_response (nat j)) else None)"
proof -
  have find: "sm_find rvrs op = Some f \<longleftrightarrow> (\<exists>k < length sigs. op = invoke_id (invs d ! k) \<and> f = Receive_call k \<or>
      op = reply_id (invs d ! k) \<and> f = Receive_response k)" for f
    using ent ids unfolding entries_def newest_distinct[OF dist] by (metis (no_types, lifting))
  note call = route_cases[of "\<lambda>op h. op = invoke_id h" op d] and response = route_cases[of "\<lambda>op h. op = reply_id h" op d]
  show ?thesis
  proof (cases "sm_find rvrs op")
    case None
    then have "\<forall>k < length sigs. op \<noteq> invoke_id (invs d ! k) \<and> op \<noteq> reply_id (invs d ! k)" using find by (metis option.distinct(1))
    then have "route (\<lambda>op h. op = invoke_id h) op d = -1" "route (\<lambda>op h. op = reply_id h) op d = -1"
      using call response unfolding len by blast+
    with None show ?thesis by simp
  next
    case (Some f)
    show ?thesis
    proof (cases f)
      case (Receive_call k)
      then have "k < length sigs" "op = invoke_id (invs d ! k)" using find Some by auto
      moreover have "j = k" if "j < length sigs" "op = invoke_id (invs d ! j)" for j
        using find[of "Receive_call j"] that Some Receive_call by auto
      ultimately have "route (\<lambda>op h. op = invoke_id h) op d = int k" using call unfolding len by blast
      then show ?thesis using Some Receive_call by simp
    next
      case (Receive_response k)
      then have "k < length sigs" "op = reply_id (invs d ! k)" using find Some by auto
      moreover have "j = k" if "j < length sigs" "op = reply_id (invs d ! j)" for j
        using find[of "Receive_response j"] that Some Receive_response by auto
      moreover have "op \<noteq> invoke_id (invs d ! j)" if "j < length sigs" for j
        using find[of "Receive_call j"] that Some Receive_response by auto
      ultimately have "route (\<lambda>op h. op = invoke_id h) op d = -1" "route (\<lambda>op h. op = reply_id h) op d = int k"
        using call response unfolding len by blast+
      then show ?thesis using Some Receive_response by simp
    qed
  qed
qed

lemma handle_receive_at_route:
  assumes "sm_find rvrs indx =
    (let k = route (\<lambda>op h. op = invoke_id h) indx d; j = route (\<lambda>op h. op = reply_id h) indx d
     in if k \<noteq> -1 then Some (Receive_call (nat k)) else if j \<noteq> -1 then Some (Receive_response (nat j)) else None)"
  shows "handle_receive_at rvrs d indx from buf n alloc = handle_receive d indx from buf n alloc"
  unfolding handle_receive_at_def handle_receive_def assms Let_def
  by (auto split: option.splits intro!: bindE_cong)

lemma ctor_facts:
  assumes ok: "program_ok gensym (length args) classes" "length ctors = length args"
    and ctor: "dispatcher_ctor gensym n ctors args classes = Inr (rvrs, d0)"
  shows "entries gensym (signatures classes) rvrs" "invs d0 = map (invocable_of gensym) (registered classes)"
    "objects d0 = map2 (\<lambda>mk a. mk a) ctors args" "nid d0 = n"
  using dispatcher_built[OF ok, of n] ctor by auto

lemma program_at:
  assumes "program d = program d0" "invs d0 = map (invocable_of gensym) fs"
  shows "length (invs d) = length fs" "k < length fs \<Longrightarrow> invoke_id (invs d ! k) = fst (gensym (psig (snd (fs ! k)))) \<and>
    reply_id (invs d ! k) = snd (gensym (psig (snd (fs ! k)))) \<and> is_void (invs d ! k) = (res_type (snd (fs ! k)) = None) \<and>
    fn (invs d ! k) = call_fun (bound (fs ! k))"
proof -
  let ?P = "\<lambda>h. (invoke_id h, reply_id h, is_void h, fn h)"
  have eq: "map ?P (invs d) = map (?P \<circ> invocable_of gensym) fs" using assms by (simp add: program_def)
  then show len: "length (invs d) = length fs" using map_eq_imp_length_eq[OF eq] by simp
  show "k < length fs \<Longrightarrow> invoke_id (invs d ! k) = fst (gensym (psig (snd (fs ! k)))) \<and>
    reply_id (invs d ! k) = snd (gensym (psig (snd (fs ! k)))) \<and> is_void (invs d ! k) = (res_type (snd (fs ! k)) = None) \<and>
    fn (invs d ! k) = call_fun (bound (fs ! k))"
    using arg_cong[OF eq, of "\<lambda>xs. xs ! k"] len by (simp add: invocable_of_def)
qed

text \<open>A dispatcher of the program in any of its states, with the map its constructor filled.\<close>

definition built ::
  "(signature \<Rightarrow> u64 \<times> u64) \<Rightarrow> (nat \<times> ('c, 'v) partial_wrapped list) list \<Rightarrow> receivers \<Rightarrow> 'c list dispatcher \<Rightarrow> bool" where
  "built gensym classes rvrs d \<longleftrightarrow> (\<exists>me (ctors :: (unit \<Rightarrow> 'c) list) args d0. program_ok gensym (length args) classes \<and>
     length ctors = length args \<and> dispatcher_ctor gensym me ctors args classes = Inr (rvrs, d0) \<and> program d = program d0)"

lemma builtD:
  assumes "built gensym classes rvrs d"
  obtains d0 where "entries gensym (signatures classes) rvrs" "invs d0 = map (invocable_of gensym) (registered classes)"
    "program d = program d0"
  using assms ctor_facts unfolding built_def by blast

section \<open>Dispatching\<close>

text \<open>
  A program of two classes with one member function each, a counter and an account; \<open>t\<close> is
  the tag of the second. Tags are numbered by their value.
\<close>

definition number_tag :: "signature \<Rightarrow> u64 \<times> u64" where
  "number_tag s = (2 * fst s + 1, 2 * fst s + 2)"

definition add_method :: "(u64, u64) partial_wrapped" where
  "add_method = \<lparr>psig = (0, ''uint64(uint64)''), mfun = (\<lambda>x vs. case vs of [v] \<Rightarrow> (x + v, Some (x + v)) | _ \<Rightarrow> (x, None)),
     arg_types = [u64_serial], res_type = Some u64_serial\<rparr>"

definition withdraw_method :: "u64 \<Rightarrow> (u64, u64) partial_wrapped" where
  "withdraw_method t = \<lparr>psig = (t, ''uint64(uint64)''),
     mfun = (\<lambda>x vs. case vs of [v] \<Rightarrow> if v \<le> x then (x - v, Some (x - v)) else (x, None) | _ \<Rightarrow> (x, None)),
     arg_types = [u64_serial], res_type = Some u64_serial\<rparr>"

definition bank :: "u64 \<Rightarrow> (nat \<times> (u64, u64) partial_wrapped list) list" where
  "bank t = [(0, [add_method]), (1, [withdraw_method t])]"

definition bank_node :: "u64 \<Rightarrow> u64 \<Rightarrow> receivers \<times> u64 list dispatcher" where
  "bank_node t me = result_of (dispatcher_ctor number_tag me [\<lambda>(). 10, \<lambda>(). 100] [(), ()] (bank t))"

lemma bank_functions: "registered (bank t) = [(0, add_method), (1, withdraw_method t)]"
    "signatures (bank t) = [(0, ''uint64(uint64)''), (t, ''uint64(uint64)'')]"
  by (simp_all add: registered_def signatures_def bank_def add_method_def withdraw_method_def)

lemma bank_built:
  assumes "t \<in> {0, 1}"
  shows "built number_tag (bank t) (fst (bank_node t me)) (snd (bank_node t me))"
    "objects (snd (bank_node t me)) = [10, 100]" "nid (snd (bank_node t me)) = me"
    "invs (snd (bank_node t me)) = map (invocable_of number_tag) [(0, add_method), (1, withdraw_method t)]"
proof -
  have ok: "program_ok number_tag (length [(), ()]) (bank t)"
    unfolding program_ok_def
  proof
    show "\<forall>(c, fs) \<in> set (bank t). c < length [(), ()]" by (simp add: bank_def)
    show "fresh_opcodes number_tag (set (signatures (bank t)))"
      using assms unfolding bank_functions by (auto simp: fresh_opcodes_def number_tag_def)
  qed
  obtain rvrs where "dispatcher_ctor number_tag me [\<lambda>(). 10, \<lambda>(). 100] [(), ()] (bank t) =
      Inr (rvrs, \<lparr>nid = me, invs = map (invocable_of number_tag) [(0, add_method), (1, withdraw_method t)], objects = [10, 100]\<rparr>)"
    using dispatcher_built[OF ok, of "[\<lambda>(). 10, \<lambda>(). 100]" me] by (auto simp: bank_functions)
  moreover from this have "bank_node t me =
      (rvrs, \<lparr>nid = me, invs = map (invocable_of number_tag) [(0, add_method), (1, withdraw_method t)], objects = [10, 100]\<rparr>)"
    by (simp add: bank_node_def)
  ultimately show "built number_tag (bank t) (fst (bank_node t me)) (snd (bank_node t me))"
    "objects (snd (bank_node t me)) = [10, 100]" "nid (snd (bank_node t me)) = me"
    "invs (snd (bank_node t me)) = map (invocable_of number_tag) [(0, add_method), (1, withdraw_method t)]"
    using ok unfolding built_def
    by (fastforce intro!: exI[of _ me] exI[of _ "[\<lambda>(). 10, \<lambda>(). 100]"] exI[of _ "[(), ()]"])+
qed

text \<open>
  C25. The dispatcher's search agrees with the code's map: when no two registered functions
  share tag and type, looking an opcode up in the map the constructors filled is the same,
  in every later state of the dispatcher, as finding the one function with that opcode,
  which is how the other theories describe \<^verbatim>\<open>handle_receive\<close>.
\<close>

theorem dispatch_is_route:
  assumes "built gensym classes rvrs d" "distinct (signatures classes)"
  shows "handle_receive_at rvrs d indx from buf n alloc = handle_receive d indx from buf n alloc"
proof -
  obtain d0 where d0: "entries gensym (signatures classes) rvrs" "invs d0 = map (invocable_of gensym) (registered classes)"
    "program d = program d0" using assms(1) by (rule builtD)
  note at = program_at[OF d0(3,2)]
  have "invoke_id (invs d ! k) = fst (gensym (signatures classes ! k)) \<and> reply_id (invs d ! k) = snd (gensym (signatures classes ! k))"
    if "k < length (signatures classes)" for k using at(2)[of k] that by (simp add: signatures_def)
  with find_is_route[OF d0(1) assms(2), of d] at(1) show ?thesis
    by (intro handle_receive_at_route) (simp add: signatures_def)
qed

theorem dispatch_is_route_witness:
  "handle_receive_at (fst (bank_node 1 7)) (snd (bank_node 1 7)) 3 8 [1] 9 (\<lambda>_. True) =
   handle_receive (snd (bank_node 1 7)) 3 8 [1] 9 (\<lambda>_. True)"
  by (rule dispatch_is_route[where gensym = number_tag and classes = "bank 1"]) (simp_all add: bank_built bank_functions)

section \<open>What a call runs\<close>

lemma deserialize_arguments:
  "list_all2 reads_back ts vs \<Longrightarrow> deserialize ts (concat (map2 to_bytes ts vs) @ rest) = vs"
  by (induction ts vs rule: list_all2_induct) (simp_all add: reads_backD)

lemma send_message:
  assumes "dispatcher_send e k inv_id args alloc = Inr (e', msg)"
  shows "msg = populate_header (replicate header_space 0 @ enc64 inv_id @ concat args)
    (word_of_nat (8 + length (concat args))) (invoke_id (invs e ! k)) (nid e)"
  using assms by (auto simp: dispatcher_send_def invocable_send_def Let_def length_concat u64_codec.enc_length split: if_splits)

text \<open>The bytes of a method's result; a \<^verbatim>\<open>void\<close> method has none.\<close>

definition result_bytes :: "('c, 'v) partial_wrapped \<Rightarrow> 'v option \<Rightarrow> bytes option" where
  "result_bytes p r = map_option (\<lambda>v. case res_type p of None \<Rightarrow> [] | Some t \<Rightarrow> to_bytes t v) r"

text \<open>The reply to an invocation: none for \<^verbatim>\<open>void\<close>.\<close>

definition reply_of :: "('c, 'v) partial_wrapped \<Rightarrow> u64 \<Rightarrow> 'v option \<Rightarrow> u64 \<Rightarrow> u64 \<Rightarrow> bytes" where
  "reply_of p inv_id r opcode n = (if res_type p = None then []
     else populate_header (replicate header_space 0 @ reply_payload inv_id (result_bytes p r))
       (word_of_nat (length (reply_payload inv_id (result_bytes p r)))) opcode n)"

lemma bound_call:
  assumes "list_all2 reads_back (arg_types p) vs" "mfun p (objs ! c) vs = (obj', r)"
  shows "call_fun (bound (c, p)) objs (concat (map2 to_bytes (arg_types p) vs)) = (objs[c := obj'], result_bytes p r)"
  using deserialize_arguments[OF assms(1), of "[]"] assms(2)
  by (simp add: call_fun_def bound_def result_bytes_def)

text \<open>The function that runs is the newest with the signature of the one called.\<close>

lemma call_runs_the_newest:
  assumes ent: "entries gensym (map (psig \<circ> snd) fs) rvrs" and d0: "invs d0 = map (invocable_of gensym) fs" "program d = program d0"
    and k: "k < length fs" and j: "newest (map (psig \<circ> snd) fs) j" "psig (snd (fs ! j)) = psig (snd (fs ! k))"
    and q: "fs ! j = (c, q)" and vs: "list_all2 reads_back (arg_types q) vs" and run: "mfun q (objects d ! c) vs = (obj', r)"
    and returns: "res_type q \<noteq> None \<or> r \<noteq> None" and len: "n \<noteq> 0"
    and room: "int_alloc alloc (length (reply_payload inv_id (result_bytes q r)) + header_space)"
  shows "handle_receive_at rvrs d (fst (gensym (psig (snd (fs ! k))))) from
      (enc64 inv_id @ concat (map2 to_bytes (arg_types q) vs)) n alloc =
    Inr (d\<lparr>objects := (objects d)[c := obj']\<rparr>, reply_of q inv_id r (snd (gensym (psig q))) (nid d))"
proof -
  have jl: "j < length fs" using j(1) by (simp add: newest_def)
  note at = program_at(2)[OF d0(2,1) jl]
  have "sm_find rvrs (fst (gensym (psig (snd (fs ! k))))) = Some (Receive_call j)"
    using ent j jl unfolding entries_def by (metis (no_types, lifting) comp_apply nth_map)
  moreover have "receive_call (invs d ! j) (objects d) (enc64 inv_id @ concat (map2 to_bytes (arg_types q) vs))
      (\<lambda>size. int_alloc alloc (size + header_space)) =
    Inr ((objects d)[c := obj'], if res_type q = None then None else Some (reply_payload inv_id (result_bytes q r)))"
    using at q bound_call[OF vs run] returns room
    by (cases r) (auto simp: receive_call_def u64_codec.dec_enc u64_codec.enc_length reply_payload_def result_bytes_def Let_def)
  ultimately show ?thesis
    using len at q by (simp add: handle_receive_at_def reply_of_def)
qed

lemma sent_call_runs_newest:
  assumes e: "built gensym classes rvrs' e" and d: "built gensym classes rvrs d"
    and k: "k < length (registered classes)" and j: "newest (signatures classes) j" "signatures classes ! j = signatures classes ! k"
    and q: "registered classes ! j = (c, q)" and vs: "list_all2 reads_back (arg_types q) vs"
    and sent: "dispatcher_send e k inv_id (map2 to_bytes (arg_types q) vs) out_alloc = Inr (e', msg)"
    and short: "8 + length (concat (map2 to_bytes (arg_types q) vs)) < 2 ^ 64"
    and run: "mfun q (objects d ! c) vs = (obj', r)" and returns: "res_type q \<noteq> None \<or> r \<noteq> None"
    and room: "int_alloc alloc (length (reply_payload inv_id (result_bytes q r)) + header_space)"
  shows "(case retrieve_header msg of (n, opcode, from) \<Rightarrow> handle_receive_at rvrs d opcode from (drop header_space msg) n alloc) =
    Inr (d\<lparr>objects := (objects d)[c := obj']\<rparr>, reply_of q inv_id r (snd (gensym (psig q))) (nid d))"
proof -
  obtain d0 where d0: "entries gensym (signatures classes) rvrs" "invs d0 = map (invocable_of gensym) (registered classes)"
    "program d = program d0" using d by (rule builtD)
  obtain e0 where e0: "invs e0 = map (invocable_of gensym) (registered classes)" "program e = program e0" using e by (rule builtD)
  let ?n = "8 + length (concat (map2 to_bytes (arg_types q) vs))"
  have "unat (word_of_nat ?n :: u64) = ?n" using short by (rule word_of_nat_exact)
  then have n: "(word_of_nat ?n :: u64) \<noteq> 0" by (metis add_is_0 unat_0 zero_neq_numeral)
  have "invoke_id (invs e ! k) = fst (gensym (psig (snd (registered classes ! k))))"
    using program_at(2)[OF e0(2,1) k] by simp
  with send_message[OF sent] have msg: "retrieve_header msg = (word_of_nat ?n, fst (gensym (psig (snd (registered classes ! k)))), nid e)"
    "drop header_space msg = enc64 inv_id @ concat (map2 to_bytes (arg_types q) vs)"
    by (simp_all add: header_roundtrip)
  have jl: "j < length (registered classes)" using j(1) by (simp add: newest_def signatures_def)
  then have same: "psig (snd (registered classes ! j)) = psig (snd (registered classes ! k))"
    using j(2) k by (simp add: signatures_def)
  show ?thesis unfolding msg prod.case
    by (rule call_runs_the_newest[where alloc = alloc, OF d0(1)[unfolded signatures_def] d0(2,3) k j(1)[unfolded signatures_def] same q vs run returns n room])
qed

text \<open>Node 7 of the bank calls the counter with 5, with random number 55.\<close>

lemma bank_sends:
  assumes "t \<in> {0, 1}"
  shows "\<exists>e' msg. dispatcher_send (snd (bank_node t 7)) 0 55 (map2 to_bytes (arg_types (withdraw_method t)) [5]) (\<lambda>_. True) = Inr (e', msg)"
  using assms
  by (simp add: dispatcher_send_def invocable_send_def bank_built(4) invocable_of_def pr_get_future_def new_pending_def
      u64_codec.enc_length u64_serial_def withdraw_method_def int_alloc_def header_space_def)

lemma bank_argument: "list_all2 reads_back [u64_serial] [5]"
  using u64_object.value_read_back by simp

text \<open>
  C24. Remote calls reach the method they name: when no two registered functions share tag
  and type, the message that a node of the program sends for a member function makes the
  receiving dispatcher run that method, once, on its own object of the class and on the
  arguments that were serialised, whatever state both dispatchers are in; it stores the
  object the method leaves and returns the reply with the serialised result.
\<close>

theorem remote_call_runs_the_method:
  assumes "built gensym classes rvrs' e" "built gensym classes rvrs d" "distinct (signatures classes)"
    and "k < length (registered classes)" "registered classes ! k = (c, p)" "list_all2 reads_back (arg_types p) vs"
    and "dispatcher_send e k inv_id (map2 to_bytes (arg_types p) vs) out_alloc = Inr (e', msg)"
    and "8 + length (concat (map2 to_bytes (arg_types p) vs)) < 2 ^ 64"
    and "mfun p (objects d ! c) vs = (obj', r)" "res_type p \<noteq> None \<or> r \<noteq> None"
    and "int_alloc alloc (length (reply_payload inv_id (result_bytes p r)) + header_space)"
  shows "(case retrieve_header msg of (n, opcode, from) \<Rightarrow> handle_receive_at rvrs d opcode from (drop header_space msg) n alloc) =
    Inr (d\<lparr>objects := (objects d)[c := obj']\<rparr>, reply_of p inv_id r (snd (gensym (psig p))) (nid d))"
  by (rule sent_call_runs_newest[where alloc = alloc, OF assms(1,2,4) _ refl assms(5-11)])
     (use assms(3,4) in \<open>simp add: newest_distinct signatures_def\<close>)

theorem remote_call_runs_the_method_witness:
  "\<exists>e' msg. dispatcher_send (snd (bank_node 1 7)) 0 55 [enc64 5] (\<lambda>_. True) = Inr (e', msg) \<and>
     (case retrieve_header msg of (n, opcode, from) \<Rightarrow>
        handle_receive_at (fst (bank_node 1 8)) (snd (bank_node 1 8)) opcode from (drop header_space msg) n (\<lambda>_. True)) =
     Inr (snd (bank_node 1 8)\<lparr>objects := [15, 100]\<rparr>, reply_of add_method 55 (Some 15) 2 8)"
proof -
  obtain e' msg where sent: "dispatcher_send (snd (bank_node 1 7)) 0 55 (map2 to_bytes (arg_types add_method) [5]) (\<lambda>_. True) = Inr (e', msg)"
    using bank_sends[of 1] by (auto simp: withdraw_method_def add_method_def)
  have "(case retrieve_header msg of (n, opcode, from) \<Rightarrow>
      handle_receive_at (fst (bank_node 1 8)) (snd (bank_node 1 8)) opcode from (drop header_space msg) n (\<lambda>_. True)) =
    Inr (snd (bank_node 1 8)\<lparr>objects := (objects (snd (bank_node 1 8)))[0 := 15]\<rparr>,
      reply_of add_method 55 (Some 15) (snd (number_tag (psig add_method))) (nid (snd (bank_node 1 8))))"
    by (rule remote_call_runs_the_method[OF bank_built(1) bank_built(1) _ _ _ _ sent])
       (use bank_argument in \<open>simp_all add: bank_functions bank_built(2) add_method_def u64_serial_def u64_codec.enc_length int_alloc_def reply_payload_def result_bytes_def enc_bool_def header_space_def\<close>)
  with sent show ?thesis
    by (intro exI[of _ e'] exI[of _ msg])
       (simp add: bank_built(2,3) add_method_def u64_serial_def number_tag_def)
qed

text \<open>
  C26. Two functions of one tag and type get the same opcodes, even in different classes, and
  the one registered last takes both: a call of the first, sent and received as before, runs
  the other class's method, on the other class's object, and leaves its own object alone.
\<close>

theorem same_signature_runs_the_last:
  assumes "built gensym classes rvrs' e" "built gensym classes rvrs d"
    and "k < length (registered classes)" "registered classes ! k = (c, p)"
    and "newest (signatures classes) j" "registered classes ! j = (c', q)" "psig q = psig p" "arg_types q = arg_types p" "c' \<noteq> c"
    and "list_all2 reads_back (arg_types p) vs"
    and "dispatcher_send e k inv_id (map2 to_bytes (arg_types p) vs) out_alloc = Inr (e', msg)"
    and "8 + length (concat (map2 to_bytes (arg_types p) vs)) < 2 ^ 64"
    and "mfun q (objects d ! c') vs = (obj', r)" "res_type q \<noteq> None \<or> r \<noteq> None"
    and "int_alloc alloc (length (reply_payload inv_id (result_bytes q r)) + header_space)"
  shows "\<exists>d' reply. (case retrieve_header msg of (n, opcode, from) \<Rightarrow> handle_receive_at rvrs d opcode from (drop header_space msg) n alloc) =
    Inr (d', reply) \<and> objects d' = (objects d)[c' := obj'] \<and> objects d' ! c = objects d ! c"
proof -
  have "j < length (registered classes)" using assms(5) by (simp add: newest_def signatures_def)
  then have "signatures classes ! j = signatures classes ! k"
    using assms(3,4,6,7) by (simp add: signatures_def)
  from sent_call_runs_newest[OF assms(1-3,5) this assms(6), of vs inv_id out_alloc e' msg obj' r alloc] assms(8-)
  show ?thesis by simp
qed

theorem same_signature_runs_the_last_witness:
  "\<exists>e' msg d' reply. dispatcher_send (snd (bank_node 0 7)) 0 55 [enc64 5] (\<lambda>_. True) = Inr (e', msg) \<and>
     (case retrieve_header msg of (n, opcode, from) \<Rightarrow>
        handle_receive_at (fst (bank_node 0 8)) (snd (bank_node 0 8)) opcode from (drop header_space msg) n (\<lambda>_. True)) =
     Inr (d', reply) \<and> objects d' = [10, 95]"
proof -
  obtain e' msg where sent: "dispatcher_send (snd (bank_node 0 7)) 0 55 (map2 to_bytes (arg_types add_method) [5]) (\<lambda>_. True) = Inr (e', msg)"
    using bank_sends[of 0] by (auto simp: withdraw_method_def add_method_def)
  have "\<exists>d' reply. (case retrieve_header msg of (n, opcode, from) \<Rightarrow>
      handle_receive_at (fst (bank_node 0 8)) (snd (bank_node 0 8)) opcode from (drop header_space msg) n (\<lambda>_. True)) =
    Inr (d', reply) \<and> objects d' = (objects (snd (bank_node 0 8)))[1 := 95] \<and> objects d' ! 0 = objects (snd (bank_node 0 8)) ! 0"
    by (rule same_signature_runs_the_last[OF bank_built(1) bank_built(1) _ _ _ _ _ _ _ _ sent, where j = 1 and q = "withdraw_method 0" and r = "Some 95"])
       (use bank_argument in \<open>simp_all add: bank_functions bank_built(2) add_method_def withdraw_method_def newest_def
          u64_serial_def u64_codec.enc_length int_alloc_def reply_payload_def result_bytes_def enc_bool_def header_space_def\<close>)
  with sent show ?thesis
    by (auto simp: bank_built(2) add_method_def u64_serial_def)
qed

end
