(* ===== verification/Log_Recovery.thy ===== *)
theory Log_Recovery
  imports Persistence
begin

text \<open>
  What the two recovery tools compute on a log the file writer wrote: \<^verbatim>\<open>latest_logged_message\<close>
  names the last message, \<^verbatim>\<open>log_tail_length\<close> measures what follows a message, and a log that
  is a prefix of another is completed by the other's tail.
\<close>

section \<open>A log written from empty files\<close>

abbreviation logged :: "(metadata \<Rightarrow> bytes) \<Rightarrow> file_writer \<Rightarrow> bool" where
  "logged tb \<equiv> reachable (fresh_writer [] []) (fw_step tb)"

lemma logged_files:
  assumes "logged tb fw" "written fw \<noteq> []"
  shows "data_file fw = payloads (written fw)" "metadata_file fw = file_header @ records tb 0 (written fw)"
    "\<forall>m \<in> set (written fw). readable m"
  using reachable_log[OF assms] by simp_all

lemma length_records: "fixed_codec tb fb w \<Longrightarrow> length (records tb off ms) = length ms * w"
  by (induction off ms rule: metas.induct) (auto simp: records_def fixed_codec.enc_length)

lemma m_key_first:
  assumes "distinct (map m_key ms)" "i < length ms"
  shows "\<forall>k < i. m_key (ms ! k) \<noteq> m_key (ms ! i)"
proof (intro allI impI)
  fix k assume "k < i"
  with assms nth_eq_iff_index_eq[of "map m_key ms" k i] show "m_key (ms ! k) \<noteq> m_key (ms ! i)" by auto
qed

text \<open>The state of the scan when it stops at message \<open>i\<close>.\<close>

lemma tail_length_at:
  assumes log: "logged tb fw" and codec: "fixed_codec tb fb w" and w: "0 < w"
    and i: "i < length (written fw)" and dist: "distinct (map m_key (written fw))"
    and key: "m_key (written fw ! i) \<noteq> (0, 0, 0)"
  shows "log_tail_length fb w False (data_file fw) (metadata_file fw) (m_key (written fw ! i)) =
      word_of_nat (length (data_file fw)) - (end_offset 0 (take i (written fw)) + m_length (written fw ! i))"
    and "log_tail_length fb w True (data_file fw) (metadata_file fw) (m_key (written fw ! i)) =
      word_of_nat (length (metadata_file fw)) - word_of_nat (length file_header + (i + 2) * w)"
proof -
  from i have ne: "written fw \<noteq> []" by auto
  let ?st = "\<lparr>ts_key = (0, 0, 0), ts_ok = True, ts_buffer = replicate w 0, ts_pos = length file_header,
     ts_offset = 0, ts_size = 0\<rparr>"
  have f: "\<exists>st'. tail_loop fb w pm (metadata_file fw) (m_key (written fw ! i)) ?st = st' \<and> ts_ok st' \<and>
      ts_offset st' = (if pm then word_of_nat (length file_header + Suc i * w) else md_offset (metas 0 (written fw) ! i)) \<and>
      ts_size st' = (if pm then 0 else md_length (metas 0 (written fw) ! i))" for pm
    using tail_loop_finds[OF codec w i m_key_first[OF dist i], of ?st 0 pm] key logged_files(2)[OF log ne] by auto
  have ok: "length file_header \<le> length (metadata_file fw)" using logged_files(2)[OF log ne] by simp
  show "log_tail_length fb w False (data_file fw) (metadata_file fw) (m_key (written fw ! i)) =
      word_of_nat (length (data_file fw)) - (end_offset 0 (take i (written fw)) + m_length (written fw ! i))"
    using f[of False] i ok by (simp add: log_tail_length_def Let_def metas_nth metadata_of_def)
  show "log_tail_length fb w True (data_file fw) (metadata_file fw) (m_key (written fw ! i)) =
      word_of_nat (length (metadata_file fw)) - word_of_nat (length file_header + (i + 2) * w)"
    using f[of True] ok by (simp add: log_tail_length_def Let_def algebra_simps)
qed

lemma tail_of_data:
  assumes log: "logged tb fw" and codec: "fixed_codec tb fb w" "0 < w"
    and i: "i < length (written fw)" and dist: "distinct (map m_key (written fw))"
    and key: "m_key (written fw ! i) \<noteq> (0, 0, 0)" and size: "length (data_file fw) < 2 ^ 64"
  shows "unat (log_tail_length fb w False (data_file fw) (metadata_file fw) (m_key (written fw ! i))) =
      length (payloads (drop (Suc i) (written fw)))"
proof -
  let ?ws = "written fw"
  from i have ne: "?ws \<noteq> []" by auto
  have split: "payloads ?ws = payloads (take (Suc i) ?ws) @ payloads (drop (Suc i) ?ws)"
    by (metis append_take_drop_id payloads_append)
  have all: "\<forall>m \<in> set (take (Suc i) ?ws). readable m" using logged_files(3)[OF log ne] by (auto dest: in_set_takeD)
  have len: "length (payloads (take (Suc i) ?ws)) < 2 ^ 64" "length (payloads ?ws) < 2 ^ 64"
    using size split logged_files(1)[OF log ne] by simp_all
  have off: "end_offset 0 (take i ?ws) + m_length (?ws ! i) = word_of_nat (length (payloads (take (Suc i) ?ws)))"
  proof -
    have "end_offset 0 (take (Suc i) ?ws) = word_of_nat (unat (end_offset 0 (take (Suc i) ?ws)))" by simp
    then show ?thesis
      unfolding unat_end_offset[OF all len(1)] using i by (simp add: take_Suc_conv_app_nth end_offset_def)
  qed
  have "word_of_nat (length (payloads ?ws)) =
      word_of_nat (length (payloads (take (Suc i) ?ws))) + (word_of_nat (length (payloads (drop (Suc i) ?ws))) :: u64)"
    by (subst split) simp
  then have "log_tail_length fb w False (data_file fw) (metadata_file fw) (m_key (?ws ! i)) =
      word_of_nat (length (payloads (drop (Suc i) ?ws)))"
    using tail_length_at(1)[OF log codec i dist key] off logged_files(1)[OF log ne] by simp
  moreover have "length (payloads (drop (Suc i) ?ws)) < 2 ^ 64"
    using len(2) arg_cong[OF split, of length] by (simp only: length_append)
  ultimately show ?thesis by (simp add: unat_of_nat)
qed

section \<open>The log locates its messages\<close>

text \<open>A writer that logged two messages, the second cut out of a larger buffer.\<close>

definition logged_message :: pmessage where
  "logged_message = \<lparr>m_data = [7, 8, 9], m_length = 2, m_view_id = 1, m_sender = 0, m_index = 0, m_cooked = False\<rparr>"

definition second_message :: pmessage where
  "second_message = logged_message\<lparr>m_length := 3, m_index := 1\<rparr>"

definition two_logged :: file_writer where
  "two_logged = (case writer_wake enc_metadata (write_message second_message (write_message logged_message
     (writer_start (new_file_writer 0 [] [])))) of Inr fw \<Rightarrow> fw)"

lemma two_logged_steps: "logged enc_metadata two_logged"
proof -
  let ?a = "new_file_writer 0 [] []"
  let ?b = "writer_start ?a"
  let ?c = "write_message logged_message ?b"
  let ?d = "write_message second_message ?c"
  have "logged enc_metadata ?a" by (rule reachable_init) (auto simp: fresh_writer_def)
  then have "logged enc_metadata ?b" by (rule reachable_step) (auto simp: new_file_writer_def intro: fw_step.fw_start)
  then have "logged enc_metadata ?c" by (rule reachable_step) (auto simp: logged_message_def intro: fw_step.fw_write)
  then have d: "logged enc_metadata ?d"
    by (rule reachable_step) (auto simp: logged_message_def second_message_def intro: fw_step.fw_write)
  have "\<forall>m \<in> set (pending_writes ?d). readable m"
    by (auto simp: write_message_def writer_start_def new_file_writer_def readable_def logged_message_def second_message_def)
  then obtain fw where fw: "writer_wake enc_metadata ?d = Inr fw" using writer_wake_spec by blast
  have "fw_step enc_metadata ?d fw"
    by (rule fw_step.fw_wake[OF _ fw]) (simp add: write_message_def writer_start_def new_file_writer_def notify_def loop_or_exit_def)
  with d have "logged enc_metadata fw" by (rule reachable_step)
  with fw show ?thesis by (simp add: two_logged_def)
qed

lemma two_logged_written: "written two_logged = [logged_message, second_message]" "length (data_file two_logged) = 5"
  by (simp_all add: two_logged_def writer_wake_def write_message_def writer_start_def new_file_writer_def write_one_def
      logged_message_def second_message_def written_def)

text \<open>
  C32. However the writer's threads were scheduled, the record of the \<open>i\<close>-th message logged
  since the writer started is the \<open>i\<close>-th after the new header, it names that message, and its
  offset and length cut exactly the message's bytes out of the data file, counted from where
  the file ended when the writer started: a writer that continues an old file counts from
  zero again.
\<close>

theorem log_record_locates_its_message:
  assumes "reachable (fresh_writer data0 meta0) (fw_step tb) fw" "i < length (written fw)"
    and "fixed_codec tb fb w" "length (data_file fw) < 2 ^ 64"
  shows "let md = fb (drop (length meta0 + length file_header + i * w) (metadata_file fw)) in
    md_key md = m_key (written fw ! i) \<and> md_is_cooked md = m_cooked (written fw ! i) \<and>
    take (unat (md_length md)) (drop (length data0 + unat (md_offset md)) (data_file fw)) =
      take (unat (m_length (written fw ! i))) (m_data (written fw ! i))"
  using log_slice[OF assms] assms(2) md_key_metas[OF assms(2), of 0]
  by (simp add: metas_nth metadata_of_def payload_def)

theorem log_record_locates_its_message_witness:
  "take 3 (drop 2 (data_file two_logged)) = [7, 8, 9] \<and>
   md_offset (dec_metadata (drop 52 (metadata_file two_logged))) = 2"
proof -
  have "fixed_codec enc_metadata dec_metadata 40" by (rule metadata_codec.fixed_codec_axioms)
  from log_record_locates_its_message[OF two_logged_steps _ this, of 1]
  have "take (unat (md_length (dec_metadata (drop 52 (metadata_file two_logged)))))
      (drop (unat (md_offset (dec_metadata (drop 52 (metadata_file two_logged))))) (data_file two_logged)) = [7, 8, 9]"
    by (simp add: two_logged_written file_header_def MAGIC_NUMBER_def enc32_def second_message_def logged_message_def Let_def)
  moreover have "md_offset (dec_metadata (drop 52 (metadata_file two_logged))) = 2"
    "md_length (dec_metadata (drop 52 (metadata_file two_logged))) = 3"
    by (code_simp, code_simp)
  ultimately show ?thesis by simp
qed

section \<open>Completing a log\<close>

text \<open>\<^verbatim>\<open>tail -c\<close>, which the recovery script runs with the length the tool printed.\<close>

definition tail_bytes :: "u64 \<Rightarrow> bytes \<Rightarrow> bytes" where
  "tail_bytes n bs = drop (length bs - unat n) bs"

lemma latest_is_last:
  assumes log: "logged tb fw" and codec: "fixed_codec tb fb w" and ne: "written fw \<noteq> []"
  shows "latest_logged_message fb w (metadata_file fw) = m_key (last (written fw))"
proof -
  let ?ws = "written fw" and ?i = "length (written fw) - 1"
  from ne have i: "?i < length ?ws" by simp
  obtain rest where rest: "drop (?i * w) (records tb 0 ?ws) = tb (metas 0 ?ws ! ?i) @ rest"
    using record_at[OF codec i] by blast
  have "length (metadata_file fw) - w = length file_header + ?i * w"
    using ne logged_files(2)[OF log ne] length_records[OF codec, of 0 ?ws] by (cases ?ws) auto
  then have "drop (length (metadata_file fw) - w) (metadata_file fw) = tb (metas 0 ?ws ! ?i) @ rest"
    using logged_files(2)[OF log ne] rest by simp
  then show ?thesis
    using md_key_metas[OF i, of 0] ne fixed_codec.dec_enc[OF codec]
    by (simp add: latest_logged_message_def Let_def md_key_def last_conv_nth)
qed

lemma prefix_log:
  assumes "written a = take k (written b)" "0 < k" "k \<le> length (written b)"
  shows "last (written a) = written b ! (k - 1)" "written a \<noteq> []" "written b \<noteq> []" "k - 1 < length (written b)"
proof -
  have ne: "take k (written b) \<noteq> []" using assms by auto
  with assms show "last (written a) = written b ! (k - 1)" by (simp add: last_conv_nth min_absorb2)
  show "written a \<noteq> []" "written b \<noteq> []" "k - 1 < length (written b)" using ne assms by auto
qed

text \<open>
  C33. A log that stopped earlier than another's is completed by the other's tail, for logs that
  one writer wrote from empty files: when the messages of the shorter log, at least one, are
  the first of the longer one's and no message of the longer one is logged twice, the last
  message of the shorter log, looked up in the longer one, gives the exact number of data bytes
  that the shorter one lacks, so appending that tail yields the longer data file. It is assumed
  that this last message is not number (0, 0, 0), at which the scan would stop before it starts.
  A writer that was restarted on its files is excluded: it appends a second header and counts
  offsets from zero again, and the tools expect neither.
\<close>

theorem data_tail_completes_the_log:
  assumes "logged tb a" "logged tb b" "fixed_codec tb fb w" "0 < w"
    and "written a = take k (written b)" "0 < k" "k \<le> length (written b)"
    and "distinct (map m_key (written b))" "m_key (last (written a)) \<noteq> (0, 0, 0)" "length (data_file b) < 2 ^ 64"
  shows "data_file a @ tail_bytes (log_tail_length fb w False (data_file b) (metadata_file b)
      (latest_logged_message fb w (metadata_file a))) (data_file b) = data_file b"
proof -
  note p = prefix_log[OF assms(5,6,7)]
  have "unat (log_tail_length fb w False (data_file b) (metadata_file b) (m_key (written b ! (k - 1)))) =
      length (payloads (drop (Suc (k - 1)) (written b)))"
    by (rule tail_of_data[OF assms(2,3,4) p(4) assms(8) _ assms(10)]) (use assms(9) p(1) in simp)
  moreover have "payloads (written b) = payloads (take k (written b)) @ payloads (drop k (written b))"
    by (metis append_take_drop_id payloads_append)
  ultimately show ?thesis
    using latest_is_last[OF assms(1,3) p(2)] p(1) assms(5,6) logged_files(1)[OF assms(1) p(2)]
      logged_files(1)[OF assms(2) p(3)]
    by (simp add: tail_bytes_def)
qed

definition one_logged :: file_writer where
  "one_logged = (case writer_wake enc_metadata (write_message logged_message
     (writer_start (new_file_writer 0 [] []))) of Inr fw \<Rightarrow> fw)"

lemma one_logged_steps: "logged enc_metadata one_logged"
proof -
  let ?a = "new_file_writer 0 [] []"
  let ?b = "writer_start ?a"
  let ?c = "write_message logged_message ?b"
  have "logged enc_metadata ?a" by (rule reachable_init) (auto simp: fresh_writer_def)
  then have "logged enc_metadata ?b" by (rule reachable_step) (auto simp: new_file_writer_def intro: fw_step.fw_start)
  then have c: "logged enc_metadata ?c" by (rule reachable_step) (auto simp: logged_message_def intro: fw_step.fw_write)
  have "\<forall>m \<in> set (pending_writes ?c). readable m"
    by (auto simp: write_message_def writer_start_def new_file_writer_def readable_def logged_message_def)
  then obtain fw where fw: "writer_wake enc_metadata ?c = Inr fw" using writer_wake_spec by blast
  have "fw_step enc_metadata ?c fw"
    by (rule fw_step.fw_wake[OF _ fw]) (simp add: write_message_def writer_start_def new_file_writer_def notify_def loop_or_exit_def)
  with c have "logged enc_metadata fw" by (rule reachable_step)
  with fw show ?thesis by (simp add: one_logged_def)
qed

lemma one_logged_written: "written one_logged = [logged_message]"
  by (simp add: one_logged_def writer_wake_def write_message_def writer_start_def new_file_writer_def write_one_def
      logged_message_def written_def)

lemmas two_logs = one_logged_steps two_logged_steps metadata_codec.fixed_codec_axioms

lemma two_logs_agree:
  "written one_logged = take 1 (written two_logged)" "distinct (map m_key (written two_logged))"
  "m_key (last (written one_logged)) \<noteq> (0, 0, 0)"
  by (simp_all add: one_logged_written two_logged_written m_key_def logged_message_def second_message_def)

theorem data_tail_completes_the_log_witness:
  "data_file one_logged @ tail_bytes (log_tail_length dec_metadata 40 False (data_file two_logged)
     (metadata_file two_logged) (latest_logged_message dec_metadata 40 (metadata_file one_logged))) (data_file two_logged) =
   data_file two_logged"
  by (rule data_tail_completes_the_log[OF two_logs _ two_logs_agree(1) _ _ two_logs_agree(2,3)])
     (simp_all add: two_logged_written)

text \<open>
  C34. The metadata file is not completed: with \<^verbatim>\<open>-m\<close> the tool counts the size of the
  target's record twice, so the tail begins one record late and the record of the first
  missing message is lost.
\<close>

theorem metadata_tail_loses_a_record:
  assumes "logged tb a" "logged tb b" "fixed_codec tb fb w" "0 < w"
    and "written a = take k (written b)" "0 < k" "k < length (written b)"
    and "distinct (map m_key (written b))" "m_key (last (written a)) \<noteq> (0, 0, 0)" "length (metadata_file b) < 2 ^ 64"
  shows "metadata_file a @ tail_bytes (log_tail_length fb w True (data_file b) (metadata_file b)
      (latest_logged_message fb w (metadata_file a))) (metadata_file b) =
    file_header @ concat (map tb (take k (metas 0 (written b)) @ drop (Suc k) (metas 0 (written b))))"
proof -
  let ?ws = "written b"
  note p = prefix_log[OF assms(5,6) less_imp_le[OF assms(7)]]
  have len: "length (metadata_file b) = length file_header + length ?ws * w"
    using logged_files(2)[OF assms(2) p(3)] length_records[OF assms(3)] by simp
  have "log_tail_length fb w True (data_file b) (metadata_file b) (m_key (?ws ! (k - 1))) =
      word_of_nat (length (metadata_file b)) - word_of_nat (length file_header + (k - 1 + 2) * w)"
    by (rule tail_length_at(2)[OF assms(2,3,4) p(4) assms(8)]) (use assms(9) p(1) in simp)
  moreover have "length (metadata_file b) = (length file_header + (k - 1 + 2) * w) + (length ?ws - Suc k) * w"
  proof -
    have "length ?ws = (k - 1 + 2) + (length ?ws - Suc k)" using assms(6,7) by simp
    with len show ?thesis by (metis add.assoc add_mult_distrib)
  qed
  ultimately have tail: "unat (log_tail_length fb w True (data_file b) (metadata_file b) (m_key (?ws ! (k - 1)))) =
      (length ?ws - Suc k) * w"
    using assms(10) by (simp add: unat_of_nat flip: of_nat_mult)
  have "length (metadata_file b) - (length ?ws - Suc k) * w = length file_header + Suc k * w"
  proof -
    have "length ?ws = Suc k + (length ?ws - Suc k)" using assms(7) by simp
    then have "length ?ws * w = Suc k * w + (length ?ws - Suc k) * w" by (metis add_mult_distrib)
    with len show ?thesis by linarith
  qed
  then have "tail_bytes (log_tail_length fb w True (data_file b) (metadata_file b) (m_key (?ws ! (k - 1))))
      (metadata_file b) = drop (Suc k * w) (records tb 0 ?ws)"
    unfolding tail_bytes_def tail using logged_files(2)[OF assms(2) p(3)] by simp
  moreover have "drop (Suc k * w) (records tb 0 ?ws) = concat (map tb (drop (Suc k) (metas 0 ?ws)))"
  proof -
    have "metas 0 ?ws = metas 0 (take (Suc k) ?ws) @ metas (end_offset 0 (take (Suc k) ?ws)) (drop (Suc k) ?ws)"
      by (metis append_take_drop_id metas_append)
    then have "drop (Suc k) (metas 0 ?ws) = metas (end_offset 0 (take (Suc k) ?ws)) (drop (Suc k) ?ws)"
      using assms(7) by (simp add: min_absorb2)
    with drop_records[of tb w "Suc k" ?ws 0] assms(7) fixed_codec.enc_length[OF assms(3)] show ?thesis
      by (simp add: records_def)
  qed
  moreover have "metadata_file a = file_header @ concat (map tb (take k (metas 0 ?ws)))"
    using logged_files(2)[OF assms(1) p(2)] metas_append[of 0 "take k ?ws" "drop k ?ws"] assms(5,7)
    by (simp add: records_def)
  ultimately show ?thesis
    using latest_is_last[OF assms(1,3) p(2)] p(1) by simp
qed

theorem metadata_tail_loses_a_record_witness:
  "metadata_file one_logged @ tail_bytes (log_tail_length dec_metadata 40 True (data_file two_logged)
     (metadata_file two_logged) (latest_logged_message dec_metadata 40 (metadata_file one_logged))) (metadata_file two_logged) =
   metadata_file one_logged"
proof -
  have "length (metadata_file two_logged) = 92"
    using logged_files(2)[OF two_logged_steps] length_records[OF metadata_codec.fixed_codec_axioms]
    by (simp add: two_logged_written file_header_def MAGIC_NUMBER_def enc32_def)
  then have "length (metadata_file two_logged) < 2 ^ 64" by simp
  from metadata_tail_loses_a_record[OF two_logs _ two_logs_agree(1) _ _ two_logs_agree(2,3) this]
  show ?thesis
    using logged_files(2)[OF one_logged_steps]
    by (simp add: one_logged_written two_logged_written records_def)
qed

end
