(* ===== verification/Connections.thy ===== *)
theory Connections
  imports Containers
begin

text \<open>
  The point-to-point connections between the members (\<^verbatim>\<open>connection_manager.h\<close>,
  \<^verbatim>\<open>connection_manager.cpp\<close>). Sockets are another library's: their type is \<open>'s\<close>
  and what they answer comes from a \<open>network\<close>, a parameter of every operation.
\<close>

section \<open>State and environment\<close>

text \<open>
  \<open>connect_to\<close> is the constructor of a socket (\<open>None\<close> when it throws), \<open>accept_nth\<close> the
  listener's \<open>k\<close>-th accept, \<open>exchange_id\<close> sends an id and returns the peer's, \<open>blank\<close> is a
  default-constructed socket. \<open>left_first\<close> is the order in which the compiler evaluates the two
  sides of an assignment, which C++14 leaves open.
\<close>

record 's network =
  connect_to :: "string \<Rightarrow> u32 \<Rightarrow> 's option"
  accept_nth :: "nat \<Rightarrow> 's option"
  exchange_id :: "'s \<Rightarrow> node_id \<Rightarrow> 's \<times> node_id option"
  socket_write :: "'s \<Rightarrow> bytes \<Rightarrow> 's \<times> bool"
  socket_read :: "'s \<Rightarrow> nat \<Rightarrow> 's \<times> bytes option"
  probe :: "'s \<Rightarrow> bool"
  blank :: 's
  left_first :: bool

record 's connections =
  conn_id :: node_id
  conn_port :: u32
  conn_listener :: bool
  sockets :: "(node_id, 's) smap"
  accepted :: nat

abbreviation socket_of :: "'s connections \<Rightarrow> node_id \<Rightarrow> 's option" where
  "socket_of c p \<equiv> sm_find (sockets c) p"

section \<open>Operations\<close>

text \<open>The two sides of a pair: the higher id connects, the lower one accepts.\<close>

definition connect_out :: "'s network \<Rightarrow> node_id \<Rightarrow> string \<Rightarrow> 's connections \<Rightarrow> 's connections \<times> bool" where
  "connect_out net other_id other_ip c =
     (case connect_to net other_ip (conn_port c) of
        None \<Rightarrow> (if left_first net then c\<lparr>sockets := sm_emplace other_id (blank net) (sockets c)\<rparr> else c, False)
      | Some s \<Rightarrow>
          (case exchange_id net s (conn_id c) of
             (s, None) \<Rightarrow> (c\<lparr>sockets := sm_erase other_id (sm_assign other_id s (sockets c))\<rparr>, False)
           | (s, Some remote_id) \<Rightarrow>
               if remote_id \<noteq> other_id
               then (c\<lparr>sockets := sm_erase other_id (sm_assign other_id s (sockets c))\<rparr>, False)
               else (c\<lparr>sockets := sm_assign other_id s (sockets c)\<rparr>, True)))"

definition accept_in :: "'s network \<Rightarrow> 's connections \<Rightarrow> 's connections \<times> bool" where
  "accept_in net c =
     (let c' = c\<lparr>accepted := Suc (accepted c)\<rparr>
      in case accept_nth net (accepted c) of
           None \<Rightarrow> (c', False)
         | Some s \<Rightarrow>
             (case exchange_id net s (conn_id c) of
                (s, None) \<Rightarrow> (c', False)
              | (s, Some remote_id) \<Rightarrow> (c'\<lparr>sockets := sm_assign remote_id s (sockets c)\<rparr>, True)))"

definition add_connection :: "'s network \<Rightarrow> node_id \<Rightarrow> string \<Rightarrow> 's connections \<Rightarrow> 's connections \<times> bool" where
  "add_connection net other_id other_ip c =
     (if other_id < conn_id c then connect_out net other_id other_ip c
      else if conn_id c < other_id then accept_in net c
      else (c, False))"

fun connect_all :: "'s network \<Rightarrow> (node_id, string) smap \<Rightarrow> 's connections \<Rightarrow> 's connections" where
  "connect_all net [] c = c"
| "connect_all net ((p, ip) # ips) c =
     connect_all net ips (if p \<noteq> conn_id c then fst (add_connection net p ip c) else c)"

definition establish_node_connections :: "'s network \<Rightarrow> (node_id, string) smap \<Rightarrow> 's connections \<Rightarrow> 's connections" where
  "establish_node_connections net ip_addrs c = connect_all net ip_addrs (c\<lparr>conn_listener := True\<rparr>)"

definition tcp_connections :: "'s network \<Rightarrow> node_id \<Rightarrow> (node_id, string) smap \<Rightarrow> u32 \<Rightarrow> 's connections" where
  "tcp_connections net me ip_addrs port = establish_node_connections net ip_addrs
     \<lparr>conn_id = me, conn_port = port, conn_listener = False, sockets = [], accepted = 0\<rparr>"

definition destroy :: "'s connections \<Rightarrow> 's connections" where
  "destroy c = c\<lparr>sockets := [], conn_listener := False\<rparr>"

definition tcp_write :: "'s network \<Rightarrow> node_id \<Rightarrow> bytes \<Rightarrow> 's connections \<Rightarrow> ('s connections \<times> bool) result" where
  "tcp_write net p buf c =
     (case socket_of c p of
        None \<Rightarrow> Inl (Assert ''it != sockets.end()'')
      | Some s \<Rightarrow> (case socket_write net s buf of
          (s, ok) \<Rightarrow> Inr (c\<lparr>sockets := sm_assign p s (sockets c)\<rparr>, ok)))"

fun write_sockets :: "'s network \<Rightarrow> node_id \<Rightarrow> bytes \<Rightarrow> bool \<Rightarrow> (node_id, 's) smap \<Rightarrow> (node_id, 's) smap \<times> bool" where
  "write_sockets net me buf success [] = ([], success)"
| "write_sockets net me buf success ((p, s) # ss) =
     (if p = me then (case write_sockets net me buf success ss of (ss, ok) \<Rightarrow> ((p, s) # ss, ok))
      else (case (if success then socket_write net s buf else (s, False)) of
              (s, ok) \<Rightarrow> (case write_sockets net me buf ok ss of (ss, ok) \<Rightarrow> ((p, s) # ss, ok))))"

definition write_all :: "'s network \<Rightarrow> bytes \<Rightarrow> 's connections \<Rightarrow> 's connections \<times> bool" where
  "write_all net buf c = (case write_sockets net (conn_id c) buf True (sockets c) of
     (ss, ok) \<Rightarrow> (c\<lparr>sockets := ss\<rparr>, ok))"

definition tcp_read :: "'s network \<Rightarrow> node_id \<Rightarrow> nat \<Rightarrow> 's connections \<Rightarrow> ('s connections \<times> bytes option) result" where
  "tcp_read net p k c =
     (case socket_of c p of
        None \<Rightarrow> Inl (Assert ''it != sockets.end()'')
      | Some s \<Rightarrow> (case socket_read net s k of
          (s, r) \<Rightarrow> Inr (c\<lparr>sockets := sm_assign p s (sockets c)\<rparr>, r)))"

definition tcp_exchange :: "'s network \<Rightarrow> node_id \<Rightarrow> node_id \<Rightarrow> 's connections \<Rightarrow> ('s connections \<times> node_id option) result" where
  "tcp_exchange net p local c =
     (case socket_of c p of
        None \<Rightarrow> Inl (Assert ''it != sockets.end()'')
      | Some s \<Rightarrow> (case exchange_id net s local of
          (s, r) \<Rightarrow> Inr (c\<lparr>sockets := sm_assign p s (sockets c)\<rparr>, r)))"

definition add_node :: "'s network \<Rightarrow> node_id \<Rightarrow> string \<Rightarrow> 's connections \<Rightarrow> ('s connections \<times> bool) result" where
  "add_node net p ip c =
     bindE (guardE (p \<noteq> conn_id c) (Assert ''new_id != my_id'')) (\<lambda>_.
     bindE (guardE (socket_of c p = None) (Assert ''!sockets.count(new_id)'')) (\<lambda>_.
       Inr (add_connection net p ip c)))"

text \<open>\<^verbatim>\<open>probe_all\<close> returns a signed 32-bit number; its caller takes a negative one for "none".\<close>

fun probe_sockets :: "'s network \<Rightarrow> (node_id, 's) smap \<Rightarrow> u32" where
  "probe_sockets net [] = -1"
| "probe_sockets net ((p, s) # ss) = (if probe net s then p else probe_sockets net ss)"

definition probe_all :: "'s network \<Rightarrow> 's connections \<Rightarrow> int" where
  "probe_all net c = sint (probe_sockets net (sockets c))"

section \<open>Every socket answers for its key\<close>

text \<open>A socket of \<open>p\<close>: one whose peer named \<open>p\<close> in the exchange of ids.\<close>

definition speaks_for :: "'s network \<Rightarrow> node_id \<Rightarrow> 's \<Rightarrow> node_id \<Rightarrow> bool" where
  "speaks_for net me s p \<longleftrightarrow> (\<exists>s0. exchange_id net s0 me = (s, Some p))"

definition connections_inv :: "'s network \<Rightarrow> 's connections \<Rightarrow> bool" where
  "connections_inv net c \<longleftrightarrow> sm_wf (sockets c) \<and>
     (\<forall>p s. socket_of c p = Some s \<longrightarrow> speaks_for net (conn_id c) s p \<or> (left_first net \<and> s = blank net))"

lemma erase_assign: "sm_wf m \<Longrightarrow> sm_find (sm_erase k (sm_assign k v m)) = (sm_find m)(k := None)"
  by (simp add: sm_find_erase sm_wf_assign sm_find_assign)

lemmas sm_changes = erase_assign sm_find_assign sm_find_emplace sm_wf_assign sm_wf_erase sm_wf_emplace

lemma add_connection_fixed:
  "conn_id (fst (add_connection net q ip c)) = conn_id c" "conn_port (fst (add_connection net q ip c)) = conn_port c"
  by (auto simp: add_connection_def connect_out_def accept_in_def Let_def split: option.splits prod.splits)

lemma add_connection_inv:
  assumes "connections_inv net c"
  shows "connections_inv net (fst (add_connection net q ip c))"
proof -
  have "connections_inv net (fst (connect_out net q ip c))" using assms
    by (auto simp: connect_out_def connections_inv_def speaks_for_def sm_changes
        split: option.splits prod.splits if_split_asm)
  moreover have "connections_inv net (fst (accept_in net c))" using assms
    by (auto simp: accept_in_def Let_def connections_inv_def speaks_for_def sm_changes
        split: option.splits prod.splits if_split_asm)
  ultimately show ?thesis using assms by (simp add: add_connection_def)
qed

lemma connect_all_inv: "connections_inv net c \<Longrightarrow> connections_inv net (connect_all net ips c)"
  by (induction net ips c rule: connect_all.induct) (simp add: add_connection_inv)+

text \<open>
  After the constructor, a socket stored under a node's id is one whose peer gave that
  id, whoever was expected and in whichever order the peers arrived, unless the compiler
  evaluates \<^verbatim>\<open>sockets[other_id]\<close> before the socket's constructor, which leaves a
  default-constructed socket when the constructor throws.
\<close>

lemma sockets_answer_for_their_ids:
  assumes "socket_of (tcp_connections net me ips port) p = Some s"
  shows "speaks_for net me s p \<or> (left_first net \<and> s = blank net)"
proof -
  let ?c = "\<lparr>conn_id = me, conn_port = port, conn_listener = True, sockets = [], accepted = 0\<rparr>"
  have "connections_inv net (connect_all net ips ?c)"
    by (rule connect_all_inv) (simp add: connections_inv_def)
  moreover have "conn_id (connect_all net ips c) = conn_id c" for c
    by (induction net ips c rule: connect_all.induct) (simp_all add: add_connection_fixed)
  ultimately show ?thesis
    using assms by (simp add: connections_inv_def tcp_connections_def establish_node_connections_def)
qed

text \<open>A network of node 2 in which a socket is the id of its peer; node 5 comes before node 4.\<close>

definition small_net :: "node_id network" where
  "small_net = \<lparr>connect_to = (\<lambda>ip port. if ip = ''a'' then Some 1 else None),
     accept_nth = (\<lambda>k. if k = 0 then Some 5 else if k = 1 then Some 4 else None),
     exchange_id = (\<lambda>s me. (s, Some s)), socket_write = (\<lambda>s b. (s, True)), socket_read = (\<lambda>s k. (s, None)),
     probe = (\<lambda>s. s = 4), blank = 0, left_first = True\<rparr>"

lemma sockets_answer_for_their_ids_witness:
  "speaks_for small_net 2 4 4 \<or> (left_first small_net \<and> (4 :: node_id) = blank small_net)"
  by (rule sockets_answer_for_their_ids[where ips = "[(1, ''a''), (2, ''b''), (4, ''c''), (5, ''d'')]" and port = 0])
     (simp add: tcp_connections_def establish_node_connections_def add_connection_def connect_out_def accept_in_def
       small_net_def Let_def)

section \<open>The constructor connects everyone\<close>

text \<open>
  What the other members do: a lower one accepts and gives its id, and each higher one
  connects exactly once, the \<open>k\<close>-th to arrive being \<open>arrive k\<close>.
\<close>

definition peers_answer :: "'s network \<Rightarrow> node_id \<Rightarrow> u32 \<Rightarrow> (node_id, string) smap \<Rightarrow> (nat \<Rightarrow> node_id) \<Rightarrow> bool" where
  "peers_answer net me port ips arrive \<longleftrightarrow>
     (\<forall>(p, ip) \<in> set ips. p < me \<longrightarrow> (\<exists>s s'. connect_to net ip port = Some s \<and> exchange_id net s me = (s', Some p))) \<and>
     (\<forall>k < length (filter (\<lambda>e. me < fst e) ips). \<exists>s s'. accept_nth net k = Some s \<and> exchange_id net s me = (s', Some (arrive k)))"

lemma connect_all_dom:
  assumes "sm_wf (sockets c)"
    and "\<forall>(p, ip) \<in> set ips. p < conn_id c \<longrightarrow>
      (\<exists>s s'. connect_to net ip (conn_port c) = Some s \<and> exchange_id net s (conn_id c) = (s', Some p))"
    and "\<forall>k. accepted c \<le> k \<longrightarrow> k < accepted c + length (filter (\<lambda>e. conn_id c < fst e) ips) \<longrightarrow>
      (\<exists>s s'. accept_nth net k = Some s \<and> exchange_id net s (conn_id c) = (s', Some (arrive k)))"
  shows "dom (socket_of (connect_all net ips c)) = dom (socket_of c) \<union> {p \<in> fst ` set ips. p < conn_id c} \<union>
    arrive ` {accepted c ..< accepted c + length (filter (\<lambda>e. conn_id c < fst e) ips)}"
  using assms
proof (induction ips arbitrary: c)
  case (Cons e ips)
  obtain p ip where e: "e = (p, ip)" by fastforce
  consider "p < conn_id c" | "p = conn_id c" | "conn_id c < p" by (rule linorder_cases)
  then show ?case
  proof cases
    case 1
    with Cons.prems(2) obtain s s' where s: "connect_to net ip (conn_port c) = Some s"
      "exchange_id net s (conn_id c) = (s', Some p)" by (auto simp: e)
    have len: "filter (\<lambda>e. conn_id c < fst e) (e # ips) = filter (\<lambda>e. conn_id c < fst e) ips"
      using 1 by (auto simp: e)
    let ?c = "c\<lparr>sockets := sm_assign p s' (sockets c)\<rparr>"
    have step: "connect_all net (e # ips) c = connect_all net ips ?c"
      using 1 s by (simp add: e add_connection_def connect_out_def)
    have "dom (socket_of (connect_all net ips ?c)) = dom (socket_of ?c) \<union> {p \<in> fst ` set ips. p < conn_id ?c} \<union>
        arrive ` {accepted ?c ..< accepted ?c + length (filter (\<lambda>e. conn_id ?c < fst e) ips)}"
      using Cons.prems(1,2) Cons.prems(3)[unfolded len] 1 by (intro Cons.IH) (simp_all add: e sm_wf_assign)
    then show ?thesis using 1 Cons.prems(1) unfolding step by (auto simp: e dom_sm_find keys_assign)
  next
    case 2
    then show ?thesis using Cons by (auto simp: e)
  next
    case 3
    with Cons.prems(3) obtain s s' where s: "accept_nth net (accepted c) = Some s"
      "exchange_id net s (conn_id c) = (s', Some (arrive (accepted c)))" by (auto simp: e)
    let ?c = "c\<lparr>accepted := Suc (accepted c), sockets := sm_assign (arrive (accepted c)) s' (sockets c)\<rparr>"
    have step: "connect_all net (e # ips) c = connect_all net ips ?c"
      using 3 s by (simp add: e add_connection_def accept_in_def Let_def)
    have "dom (socket_of (connect_all net ips ?c)) = dom (socket_of ?c) \<union> {p \<in> fst ` set ips. p < conn_id ?c} \<union>
        arrive ` {accepted ?c ..< accepted ?c + length (filter (\<lambda>e. conn_id ?c < fst e) ips)}"
      using Cons.prems 3 by (intro Cons.IH) (simp_all add: e sm_wf_assign)
    moreover have "{accepted c ..< accepted c + length (filter (\<lambda>e. conn_id c < fst e) (e # ips))} =
        insert (accepted c) {accepted ?c ..< accepted ?c + length (filter (\<lambda>e. conn_id ?c < fst e) ips)}"
      using 3 by (auto simp: e)
    ultimately show ?thesis using 3 Cons.prems(1) unfolding step by (auto simp: e dom_sm_find keys_assign)
  qed
qed simp

text \<open>
  If every other member does its part, the constructor ends with a connection to each of
  them and to nobody else, in whatever order the higher ids connect.
\<close>

lemma constructor_connects_every_member:
  assumes "peers_answer net me port ips arrive"
    and "arrive ` {..< length (filter (\<lambda>e. me < fst e) ips)} = {p \<in> fst ` set ips. me < p}"
  shows "dom (socket_of (tcp_connections net me ips port)) = fst ` set ips - {me}"
proof -
  let ?c = "\<lparr>conn_id = me, conn_port = port, conn_listener = True, sockets = [] :: (node_id, 'a) smap, accepted = 0\<rparr>"
  have "dom (socket_of (connect_all net ips ?c)) = dom (socket_of ?c) \<union> {p \<in> fst ` set ips. p < conn_id ?c} \<union>
      arrive ` {accepted ?c ..< accepted ?c + length (filter (\<lambda>e. conn_id ?c < fst e) ips)}"
    by (rule connect_all_dom) (use assms(1) in \<open>auto simp: peers_answer_def\<close>)
  then have "dom (socket_of (connect_all net ips ?c)) = {p \<in> fst ` set ips. p < me} \<union> {p \<in> fst ` set ips. me < p}"
    using assms(2) by (simp add: lessThan_atLeast0)
  then show ?thesis
    by (auto simp: tcp_connections_def establish_node_connections_def)
qed

lemma constructor_connects_every_member_witness:
  "dom (socket_of (tcp_connections small_net 2 [(1, ''a''), (2, ''b''), (4, ''c''), (5, ''d'')] 0)) = {1, 4, 5}"
proof -
  let ?ips = "[(1, ''a''), (2, ''b''), (4, ''c''), (5 :: node_id, ''d'')]"
  let ?arrive = "\<lambda>k :: nat. if k = 0 then 5 else 4 :: node_id"
  have n: "length (filter (\<lambda>e. 2 < fst e) ?ips) = 2" and high: "{p \<in> fst ` set ?ips. 2 < p} = {4, 5}"
    by auto
  have k: "{..< 2 :: nat} = {0, 1}" by auto
  have k2: "k < 2 \<longleftrightarrow> k = 0 \<or> k = 1" for k :: nat by auto
  have "dom (socket_of (tcp_connections small_net 2 ?ips 0)) = fst ` set ?ips - {2}"
  proof (rule constructor_connects_every_member[where arrive = ?arrive])
    show "peers_answer small_net 2 0 ?ips ?arrive"
      unfolding peers_answer_def n k2 by (simp add: small_net_def)
    show "?arrive ` {..< length (filter (\<lambda>e. 2 < fst e) ?ips)} = {p \<in> fst ` set ?ips. 2 < p}"
      unfolding n high k by (simp add: insert_commute)
  qed
  also have "\<dots> = {1, 4, 5}" by auto
  finally show ?thesis .
qed

section \<open>Failures and polling\<close>

text \<open>
  A failed \<^verbatim>\<open>add_node\<close> leaves the table as it was, so that the node can be added
  again, except in one case: the socket's constructor throws and the compiler has already
  evaluated \<^verbatim>\<open>sockets[other_id]\<close>. Then a dead socket is left and every later
  \<^verbatim>\<open>add_node\<close> of the node stops at the assertion.
\<close>

lemma failed_add_node_restores_or_blocks:
  assumes "sm_wf (sockets c)" and run: "add_node net q ip c = Inr (c', False)"
  shows "if left_first net \<and> q < conn_id c \<and> connect_to net ip (conn_port c) = None
    then socket_of c' = (socket_of c)(q \<mapsto> blank net) \<and> (\<forall>net ip. add_node net q ip c' = Inl (Assert ''!sockets.count(new_id)''))
    else socket_of c' = socket_of c"
proof -
  from run have new: "socket_of c q = None" "q \<noteq> conn_id c" and add: "add_connection net q ip c = (c', False)"
    by (simp_all add: add_node_def)
  have same: "(socket_of c)(q := None) = socket_of c" using new by (simp add: fun_upd_idem)
  show ?thesis
  proof (cases "q < conn_id c")
    case True
    with add assms(1) new same show ?thesis
      by (auto simp: add_connection_def connect_out_def add_node_def sm_changes fun_eq_iff guardE_def
          split: option.splits prod.splits if_split_asm)
  next
    case False
    with add new have "accept_in net c = (c', False)" by (simp add: add_connection_def split: if_split_asm)
    with False show ?thesis by (auto simp: accept_in_def Let_def split: option.splits prod.splits)
  qed
qed

theorem failed_add_node_restores_or_blocks_witness:
  "\<exists>c'. add_node small_net 1 ''x'' (tcp_connections small_net 2 [] 0) = Inr (c', False) \<and>
     socket_of c' = [1 \<mapsto> 0]"
proof -
  define c where "c = tcp_connections small_net 2 [] 0"
  have c: "sm_wf (sockets c)" "socket_of c = Map.empty" "conn_id c = 2"
    by (auto simp: c_def tcp_connections_def establish_node_connections_def)
  have net: "connect_to small_net ''x'' port = None" "left_first small_net" "blank small_net = 0" for port
    by (simp_all add: small_net_def)
  have "\<exists>c'. add_node small_net 1 ''x'' c = Inr (c', False)"
    by (simp add: add_node_def c add_connection_def connect_out_def net)
  then show ?thesis
    using failed_add_node_restores_or_blocks[OF c(1), of small_net 1 "''x''"] unfolding c_def[symmetric]
    by (auto simp: net c)
qed

lemma probe_sockets_find:
  "probe_sockets net ss = (case List.find (\<lambda>(p, s). probe net s) ss of None \<Rightarrow> -1 | Some (p, s) \<Rightarrow> p)"
  by (induction net ss rule: probe_sockets.induct) auto

lemma sint_u32: "sint (p :: u32) = (if uint p < 2 ^ 31 then uint p else uint p - 2 ^ 32)"
proof -
  have eq: "sint p = (uint p + 2 ^ 31) mod 2 ^ 32 - 2 ^ 31"
    by (simp add: sint_uint signed_take_bit_eq_take_bit_shift take_bit_eq_mod)
  have b: "0 \<le> uint p" "uint p < 2 ^ 32" using uint_lt2p[of p] by simp_all
  show ?thesis
  proof (cases "uint p < 2 ^ 31")
    case True
    with b have "(uint p + 2 ^ 31) mod 2 ^ 32 = uint p + 2 ^ 31" by (intro mod_pos_pos_trivial) auto
    with True eq show ?thesis by simp
  next
    case False
    have "(uint p + 2 ^ 31) mod 2 ^ 32 = ((uint p - 2 ^ 31) + 2 ^ 32) mod 2 ^ 32" by (simp add: add.commute)
    also have "\<dots> = (uint p - 2 ^ 31) mod 2 ^ 32" by (rule mod_add_self2)
    also have "\<dots> = uint p - 2 ^ 31" using b False by (intro mod_pos_pos_trivial) auto
    finally show ?thesis using False eq by simp
  qed
qed

text \<open>
  Polling returns the lowest id that has data, but as a signed number: an id of 2^31 or
  more comes out negative, which the receiving loop takes for "nothing to read", and as long
  as that node's data is unread no higher id is served either.
\<close>

lemma poll_finds_lowest_ready:
  "probe_all net c =
    (case List.find (\<lambda>(p, s). probe net s) (sockets c) of
       None \<Rightarrow> -1
     | Some (p, s) \<Rightarrow> if uint p < 2 ^ 31 then uint p else uint p - 2 ^ 32)"
  by (simp add: probe_all_def probe_sockets_find sint_u32 unsigned_minus_1_eq_mask mask_eq_exp_minus_1 split: option.splits)

end
