(* ===== verification/Group_Api.thy ===== *)
theory Group_Api
  imports Group_Life
begin

text \<open>
  The remaining operations of a group (\<^verbatim>\<open>derecho_group_impl.h\<close>): the calls it offers, the
  turn of the thread that refreshes its row, its destructor, and the table it prints.
\<close>

section \<open>Calls\<close>

text \<open>
  A send drops the result handle that a query returns; for the state they are the same. An
  empty list of nodes means the whole group.
\<close>

definition orderedSend ::
  "node_id list \<Rightarrow> nat \<Rightarrow> nat \<Rightarrow> u64 \<Rightarrow> bytes list \<Rightarrow> 'o dgroup \<Rightarrow> ('o dgroup result) option" where
  "orderedSend nodes off k inv_id args g = derechoCallerSend nodes off k inv_id args g"

definition orderedSend_all :: "nat \<Rightarrow> nat \<Rightarrow> u64 \<Rightarrow> bytes list \<Rightarrow> 'o dgroup \<Rightarrow> ('o dgroup result) option" where
  "orderedSend_all off k inv_id args g = orderedSend [] off k inv_id args g"

definition orderedQuery ::
  "node_id list \<Rightarrow> nat \<Rightarrow> nat \<Rightarrow> u64 \<Rightarrow> bytes list \<Rightarrow> 'o dgroup \<Rightarrow> (('o dgroup \<times> pref) result) option" where
  "orderedQuery nodes off k inv_id args g =
     map_option (\<lambda>r. bindE r (\<lambda>g'. Inr (g', (k, inv_id)))) (derechoCallerSend nodes off k inv_id args g)"

definition orderedQuery_all ::
  "nat \<Rightarrow> nat \<Rightarrow> u64 \<Rightarrow> bytes list \<Rightarrow> 'o dgroup \<Rightarrow> (('o dgroup \<times> pref) result) option" where
  "orderedQuery_all off k inv_id args g = orderedQuery [] off k inv_id args g"

section \<open>The thread that refreshes the row\<close>

text \<open>
  One turn of \<^verbatim>\<open>check_failures_loop\<close>: \<open>None\<close> when the flag ends the loop, otherwise what
  the thread does to the group it finds after its sleep.
\<close>

definition check_failures_turn :: "'o dgroup \<Rightarrow> ('o dgroup \<Rightarrow> 'o dgroup) option" where
  "check_failures_turn g = (if thread_shutdown g then None else Some sst_put)"

section \<open>The destructor\<close>

text \<open>
  It wedges the group and joins its two other threads, whose loops end at their next test
  of the flag; the joins do not touch the group.
\<close>

definition destroy_dgroup :: "'o dgroup \<Rightarrow> 'o dgroup" where
  "destroy_dgroup g = group_wedge g"

section \<open>Debugging output\<close>

definition debug_print :: "'o dgroup \<Rightarrow> string" where
  "debug_print g =
     ''In DerechoGroup SST has '' @ show_nat (num_rows (dg_sst g)) @
     '' rows; member_index is '' @ show_nat (member_index g) @ [CHR 0x0A] @ ''Printing SST'' @ [CHR 0x0A] @
     concat (map (\<lambda>i. let r = rows (dg_sst g) ! i in
       show_int (seq_num r) @ '' '' @ show_int (stable_num r) @ '' '' @ show_int (delivered_num r) @ [CHR 0x0A]) [0..<dg_n g]) @
     [CHR 0x0A] @ ''Printing last_received_messages'' @ [CHR 0x0A] @
     concat (map (\<lambda>i. show_int (nReceived (rows (dg_sst g) ! member_index g) ! i) @ '' '' @ [CHR 0x0A]) [0..<dg_n g]) @
     [CHR 0x0A]"

section \<open>What they keep\<close>

text \<open>A query finds the same group as a send and hands out the entry that was recorded.\<close>

lemma orderedQuery_sends:
  "orderedQuery nodes off k inv_id args g = Some (Inr (g', p)) \<longleftrightarrow>
   orderedSend nodes off k inv_id args g = Some (Inr g') \<and> p = (k, inv_id)"
  by (auto simp: orderedQuery_def orderedSend_def)

text \<open>Destroying a group that a view change has wedged issues no call; a live one is wedged.\<close>

lemma destroy_wedged: "thread_shutdown g \<Longrightarrow> destroy_dgroup g = g"
  by (simp add: destroy_dgroup_def group_wedge_def)

lemma destroyed_threads_end: "thread_shutdown (destroy_dgroup g)" "check_failures_turn (destroy_dgroup g) = None"
  by (simp_all add: destroy_dgroup_def group_wedge_def check_failures_turn_def)

lemma destroy_twice: "destroy_dgroup (destroy_dgroup g) = destroy_dgroup g"
  by (simp add: destroy_dgroup_def group_wedge_def)

text \<open>The refreshing thread changes nothing but the table's record of writes.\<close>

lemma check_failures_keeps:
  "check_failures_turn g = Some turn \<Longrightarrow> rows (dg_sst (turn h)) = rows (dg_sst h) \<and>
     pending_sends (turn h) = pending_sends h \<and> dg_calls (turn h) = dg_calls h"
  by (auto simp: check_failures_turn_def sst_put_def put_def split: if_splits)

end
