(* ===== verification/Shutdown.thy ===== *)
theory Shutdown
  imports View
begin

text \<open>
  The two background threads of a managed group and its destructor
  (\<^verbatim>\<open>managed_group_impl.h\<close>): one thread accepts clients and queues them as joins, one waits
  on a condition variable and destroys old views; the destructor raises the flag
  \<^verbatim>\<open>thread_shutdown\<close>, connects to its own port so that \<^verbatim>\<open>accept\<close> returns, joins the first
  thread, notifies the condition variable and joins the second. Every access to shared
  state is a step of its own, so all interleavings are runs.
\<close>

section \<open>Threads\<close>

text \<open>
  Where the cleanup thread is: about to test the flag, to lock, to evaluate the predicate of
  the wait, to release the lock and block, blocked, notified, past the wait, at its end.
\<close>

datatype cleanup_pc = W_test | W_lock | W_check | W_park | W_wait | W_woken | W_work | W_done

datatype listener_pc = L_test | L_accept | L_done

datatype destructor_pc = D_none | D_flagged | D_connected | D_listener_joined | D_joining | D_closed

text \<open>
  \<open>backlog\<close> are the connections \<^verbatim>\<open>accept\<close> has not returned yet, \<open>joins\<close> is
  \<^verbatim>\<open>pending_joins\<close>, \<open>views\<close> is \<^verbatim>\<open>old_views\<close>; \<open>lock_free\<close> is its mutex.
\<close>

record ('v, 'c) service =
  shutdown :: bool
  views :: "'v list"
  lock_free :: bool
  backlog :: "'c list"
  joins :: "'c list"
  cleanup :: cleanup_pc
  listener :: listener_pc
  destructor :: destructor_pc

definition created :: "('v, 'c) service \<Rightarrow> bool" where
  "created s \<longleftrightarrow> s = \<lparr>shutdown = False, views = [], lock_free = True, backlog = [], joins = [],
     cleanup = W_test, listener = L_test, destructor = D_none\<rparr>"

definition notify_cleanup :: "('v, 'c) service \<Rightarrow> ('v, 'c) service" where
  "notify_cleanup s = (if cleanup s = W_wait then s\<lparr>cleanup := W_woken\<rparr> else s)"

text \<open>After the wait: the front view is destroyed and popped, unless the flag is up.\<close>

definition cleanup_old_view :: "('v, 'c) service \<Rightarrow> ('v, 'c) service result" where
  "cleanup_old_view s =
     (if shutdown s then Inr (s\<lparr>lock_free := True, cleanup := W_test\<rparr>)
      else case views s of [] \<Rightarrow> Inl (Undefined ''front of an empty queue'')
           | _ # vs \<Rightarrow> Inr (s\<lparr>views := vs, lock_free := True, cleanup := W_test\<rparr>))"

text \<open>The steps of the threads and of the destructor.\<close>

inductive thread_step :: "'c \<Rightarrow> ('v, 'c) service \<Rightarrow> ('v, 'c) service \<Rightarrow> bool" for self where
  t_test: "cleanup s = W_test \<Longrightarrow> thread_step self s (s\<lparr>cleanup := if shutdown s then W_done else W_lock\<rparr>)"
| t_lock: "cleanup s = W_lock \<or> cleanup s = W_woken \<Longrightarrow> lock_free s \<Longrightarrow>
    thread_step self s (s\<lparr>lock_free := False, cleanup := W_check\<rparr>)"
| t_check: "cleanup s = W_check \<Longrightarrow>
    thread_step self s (s\<lparr>cleanup := if views s \<noteq> [] \<or> shutdown s then W_work else W_park\<rparr>)"
| t_park: "cleanup s = W_park \<Longrightarrow> thread_step self s (s\<lparr>lock_free := True, cleanup := W_wait\<rparr>)"
| t_work: "cleanup s = W_work \<Longrightarrow> cleanup_old_view s = Inr t \<Longrightarrow> thread_step self s t"
| t_accepting: "listener s = L_test \<Longrightarrow> thread_step self s (s\<lparr>listener := if shutdown s then L_done else L_accept\<rparr>)"
| t_accept: "listener s = L_accept \<Longrightarrow> backlog s = c # cs \<Longrightarrow>
    thread_step self s (s\<lparr>backlog := cs, joins := joins s @ [c], listener := L_test\<rparr>)"
| t_flag: "destructor s = D_none \<Longrightarrow> thread_step self s (s\<lparr>shutdown := True, destructor := D_flagged\<rparr>)"
| t_connect: "destructor s = D_flagged \<Longrightarrow> thread_step self s (s\<lparr>backlog := backlog s @ [self], destructor := D_connected\<rparr>)"
| t_join_listener: "destructor s = D_connected \<Longrightarrow> listener s = L_done \<Longrightarrow>
    thread_step self s (s\<lparr>destructor := D_listener_joined\<rparr>)"
| t_notify: "destructor s = D_listener_joined \<Longrightarrow> thread_step self s (notify_cleanup s\<lparr>destructor := D_joining\<rparr>)"
| t_join_cleanup: "destructor s = D_joining \<Longrightarrow> cleanup s = W_done \<Longrightarrow> thread_step self s (s\<lparr>destructor := D_closed\<rparr>)"

text \<open>
  Everything else: a view change queues the view it leaves and notifies, under the lock; a
  client connects; \<^verbatim>\<open>leave\<close> raises the flag; the condition variable wakes without cause.
\<close>

inductive service_step :: "'c \<Rightarrow> ('v, 'c) service \<Rightarrow> ('v, 'c) service \<Rightarrow> bool" for self where
  s_thread: "thread_step self s t \<Longrightarrow> service_step self s t"
| s_view_change: "lock_free s \<Longrightarrow> service_step self s (notify_cleanup (s\<lparr>views := views s @ [v]\<rparr>))"
| s_client: "service_step self s (s\<lparr>backlog := backlog s @ [c]\<rparr>)"
| s_leave: "service_step self s (s\<lparr>shutdown := True\<rparr>)"
| s_spurious: "cleanup s = W_wait \<Longrightarrow> service_step self s (s\<lparr>cleanup := W_woken\<rparr>)"

text \<open>The steps among these that notify no one: a blocked thread stays blocked.\<close>

inductive unwoken_step :: "'c \<Rightarrow> ('v, 'c) service \<Rightarrow> ('v, 'c) service \<Rightarrow> bool" for self where
  u_thread: "thread_step self s t \<Longrightarrow> unwoken_step self s t"
| u_client: "unwoken_step self s (s\<lparr>backlog := backlog s @ [c]\<rparr>)"
| u_leave: "unwoken_step self s (s\<lparr>shutdown := True\<rparr>)"

definition view_changed :: "'v \<Rightarrow> ('v, 'c) service \<Rightarrow> ('v, 'c) service" where
  "view_changed v s = notify_cleanup (s\<lparr>views := views s @ [v]\<rparr>)"

lemma service_step_iff:
  "service_step self s t \<longleftrightarrow> unwoken_step self s t \<or> lock_free s \<and> (\<exists>v. t = view_changed v s) \<or>
     cleanup s = W_wait \<and> t = s\<lparr>cleanup := W_woken\<rparr>"
proof
  show "service_step self s t \<Longrightarrow> unwoken_step self s t \<or> lock_free s \<and> (\<exists>v. t = view_changed v s) \<or>
      cleanup s = W_wait \<and> t = s\<lparr>cleanup := W_woken\<rparr>"
    by (erule service_step.cases) (auto simp: view_changed_def intro: unwoken_step.intros)
  show "unwoken_step self s t \<or> lock_free s \<and> (\<exists>v. t = view_changed v s) \<or>
      cleanup s = W_wait \<and> t = s\<lparr>cleanup := W_woken\<rparr> \<Longrightarrow> service_step self s t"
    by (elim disjE conjE exE) (auto simp: view_changed_def elim!: unwoken_step.cases intro: service_step.intros)
qed

section \<open>The invariant\<close>

definition lock_ok :: "('v, 'c) service \<Rightarrow> bool" where
  "lock_ok s \<longleftrightarrow> lock_free s = (cleanup s \<notin> {W_check, W_park, W_work}) \<and>
     (cleanup s = W_work \<longrightarrow> views s \<noteq> [] \<or> shutdown s)"

definition flag_ok :: "('v, 'c) service \<Rightarrow> bool" where
  "flag_ok s \<longleftrightarrow> destructor s \<noteq> D_none \<or> cleanup s = W_done \<or> listener s = L_done \<longrightarrow> shutdown s"

definition order_ok :: "('v, 'c) service \<Rightarrow> bool" where
  "order_ok s \<longleftrightarrow> (destructor s = D_connected \<and> listener s = L_accept \<longrightarrow> backlog s \<noteq> []) \<and>
     (destructor s \<in> {D_listener_joined, D_joining, D_closed} \<longrightarrow> listener s = L_done) \<and>
     (destructor s = D_closed \<longrightarrow> cleanup s = W_done)"

definition service_inv :: "('v, 'c) service \<Rightarrow> bool" where
  "service_inv s \<longleftrightarrow> lock_ok s \<and> flag_ok s \<and> order_ok s"

text \<open>The cleanup of a view and the notification, as the fields they change.\<close>

lemma cleanup_old_view_fields:
  assumes "cleanup_old_view s = Inr t"
  shows "lock_free t \<and> cleanup t = W_test \<and> shutdown t = shutdown s \<and> listener t = listener s \<and>
    backlog t = backlog s \<and> destructor t = destructor s"
  using assms by (cases "shutdown s"; cases "views s") (auto simp: cleanup_old_view_def)

lemma notify_fields:
  "cleanup (notify_cleanup s) = (if cleanup s = W_wait then W_woken else cleanup s)"
  "shutdown (notify_cleanup s) = shutdown s" "views (notify_cleanup s) = views s"
  "lock_free (notify_cleanup s) = lock_free s" "backlog (notify_cleanup s) = backlog s"
  "listener (notify_cleanup s) = listener s" "destructor (notify_cleanup s) = destructor s"
  by (simp_all add: notify_cleanup_def)

lemma lock_ok_thread:
  assumes "thread_step self s t" "lock_ok s"
  shows "lock_ok t"
  using assms(1)
proof cases
  case t_work
  then show ?thesis using assms(2-) cleanup_old_view_fields[OF t_work(2)] by (simp add: lock_ok_def)
qed (use assms(2-) in \<open>simp_all add: lock_ok_def notify_fields split: if_splits\<close>)

lemma flag_ok_thread:
  assumes "thread_step self s t" "flag_ok s"
  shows "flag_ok t"
  using assms(1)
proof cases
  case t_work
  then show ?thesis using assms(2-) cleanup_old_view_fields[OF t_work(2)] by (simp add: flag_ok_def)
qed (use assms(2-) in \<open>auto simp: flag_ok_def notify_fields\<close>)

lemma order_ok_thread:
  assumes "thread_step self s t" "flag_ok s" "order_ok s"
  shows "order_ok t"
  using assms(1)
proof cases
  case t_work
  then show ?thesis using assms(2-) cleanup_old_view_fields[OF t_work(2)] by (simp add: order_ok_def flag_ok_def)
qed (use assms(2-) in \<open>auto simp: order_ok_def flag_ok_def notify_fields\<close>)

lemma service_step_inv:
  assumes "service_step self s t" "service_inv s"
  shows "service_inv t"
  using assms(1)
proof cases
  case s_thread
  with assms(2) show ?thesis
    by (simp add: service_inv_def lock_ok_thread[OF s_thread] flag_ok_thread[OF s_thread] order_ok_thread[OF s_thread])
qed (use assms(2) in \<open>auto simp: service_inv_def lock_ok_def flag_ok_def order_ok_def notify_fields\<close>)

interpretation background: state_machine created "service_step self" service_inv
proof
  show "created s \<Longrightarrow> service_inv s" for s :: "('v, 'c) service"
    by (simp add: created_def service_inv_def lock_ok_def flag_ok_def order_ok_def)
qed (rule service_step_inv)

text \<open>The cleanup thread never takes the front of an empty queue.\<close>

lemma cleanup_pops_a_view:
  assumes "reachable created (service_step self) s" "cleanup s = W_work"
  shows "\<exists>t. cleanup_old_view s = Inr t"
proof -
  have "views s \<noteq> [] \<or> shutdown s"
    using background.inv_reachable[OF assms(1)] assms(2) by (simp add: service_inv_def lock_ok_def)
  then show ?thesis by (cases "views s") (auto simp: cleanup_old_view_def)
qed

section \<open>When the destructor returns\<close>

definition closes :: "'c \<Rightarrow> ('v, 'c) service \<Rightarrow> bool" where
  "closes self s \<longleftrightarrow> (\<exists>t. (thread_step self)\<^sup>*\<^sup>* s t \<and> destructor t = D_closed)"

lemma closes_step: "thread_step self s t \<Longrightarrow> closes self t \<Longrightarrow> closes self s"
  unfolding closes_def using converse_rtranclp_into_rtranclp by metis

text \<open>With the flag up, every place but the two around blocking leads to the end.\<close>

lemma unblocked_closes:
  fixes self :: 'c and s :: "('v, 'c) service"
  assumes "shutdown s" "lock_ok s" "destructor s = D_joining" "cleanup s \<notin> {W_park, W_wait}"
  shows "closes self s"
proof -
  have finish: "closes self s" if "destructor s = D_joining" "cleanup s = W_done" for s :: "('v, 'c) service"
    using t_join_cleanup[OF that, of self] by (auto simp: closes_def)
  have test: "closes self s" if "destructor s = D_joining" "cleanup s = W_test" "shutdown s" for s :: "('v, 'c) service"
    by (rule closes_step[OF t_test[OF that(2)] finish]) (simp_all add: that)
  have work: "closes self s" if "destructor s = D_joining" "cleanup s = W_work" "shutdown s" for s :: "('v, 'c) service"
    by (rule closes_step[OF t_work[OF that(2)] test[of "s\<lparr>lock_free := True, cleanup := W_test\<rparr>"]])
       (simp_all add: that cleanup_old_view_def)
  have check: "closes self s" if "destructor s = D_joining" "cleanup s = W_check" "shutdown s" for s :: "('v, 'c) service"
    by (rule closes_step[OF t_check[OF that(2)] work]) (simp_all add: that)
  have lock: "closes self s" if "destructor s = D_joining" "cleanup s = W_lock \<or> cleanup s = W_woken" "shutdown s" "lock_free s"
    for s :: "('v, 'c) service"
    by (rule closes_step[OF t_lock[OF that(2,4)] check]) (simp_all add: that)
  show ?thesis
    using assms finish test work check lock by (cases "cleanup s") (auto simp: lock_ok_def)
qed

lemma unblocked_stays_thread:
  assumes "thread_step self s t" "shutdown s" "destructor s \<in> {D_joining, D_closed}" "cleanup s \<notin> {W_park, W_wait}"
    "destructor s = D_closed \<longrightarrow> cleanup s = W_done"
  shows "shutdown t \<and> destructor t \<in> {D_joining, D_closed} \<and> cleanup t \<notin> {W_park, W_wait} \<and>
    (destructor t = D_closed \<longrightarrow> cleanup t = W_done)"
  using assms(1)
proof cases
  case t_work
  then show ?thesis using assms(2-) cleanup_old_view_fields[OF t_work(2)] by auto
qed (use assms(2-) in \<open>auto simp: notify_fields\<close>)

lemma unblocked_stays:
  assumes "service_step self s t" "shutdown s" "destructor s \<in> {D_joining, D_closed}" "cleanup s \<notin> {W_park, W_wait}"
    "destructor s = D_closed \<longrightarrow> cleanup s = W_done"
  shows "shutdown t \<and> destructor t \<in> {D_joining, D_closed} \<and> cleanup t \<notin> {W_park, W_wait} \<and>
    (destructor t = D_closed \<longrightarrow> cleanup t = W_done)"
  using assms(1)
proof cases
  case s_thread
  then show ?thesis using assms(2-) by (rule unblocked_stays_thread)
qed (use assms(2-) in \<open>simp_all add: notify_fields\<close>)

lemma blocked_stays:
  assumes "unwoken_step self s t" "destructor s = D_joining" "cleanup s \<in> {W_park, W_wait}"
  shows "destructor t = D_joining \<and> cleanup t \<in> {W_park, W_wait}"
  using assms(1)
proof cases
  case u_thread
  then show ?thesis by cases (use assms(2-) in \<open>auto simp: notify_fields\<close>)
qed (use assms(2-) in simp_all)

lemma unwoken_reachable:
  "(unwoken_step self)\<^sup>*\<^sup>* s u \<Longrightarrow> reachable created (service_step self) s \<Longrightarrow> reachable created (service_step self) u"
  by (induction rule: rtranclp_induct) (auto simp: service_step_iff intro: reachable_step)

text \<open>A blocked thread that is woken finishes.\<close>

lemma woken_closes:
  assumes "reachable created (service_step self) u" "destructor u = D_joining" "cleanup u = W_wait"
  shows "closes self (view_changed v u)" "closes self (u\<lparr>cleanup := W_woken\<rparr>)" "lock_free u"
proof -
  have inv: "service_inv u" by (rule background.inv_reachable[OF assms(1)])
  then have f: "shutdown u" "lock_free u" using assms(2,3) by (auto simp: service_inv_def flag_ok_def lock_ok_def)
  then show "closes self (view_changed v u)" "closes self (u\<lparr>cleanup := W_woken\<rparr>)" "lock_free u"
    using assms(2,3) by (auto intro!: unblocked_closes simp: view_changed_def notify_cleanup_def lock_ok_def)
qed

text \<open>
  C27. Destroying a managed group can hang. When the destructor has notified the cleanup
  thread and waits for it, everything depends on where that thread was. If it had evaluated
  the wait's predicate and not yet blocked, or is blocked since, the notification is lost: no
  steps of the threads, of clients or of \<^verbatim>\<open>leave\<close> let the destructor return. Only a view change
  that still comes, with the notification it sends for its own old view, or a wake-up without
  cause lets it: after either of them the threads can finish. If the thread was anywhere else,
  then however the program goes on, view changes included, the threads can still finish. The
  flag is raised without the mutex, so the first case occurs.
\<close>

theorem destructor_returns_unless_wakeup_lost:
  assumes "reachable created (service_step self) s" "destructor s = D_joining"
  shows "if cleanup s \<in> {W_park, W_wait}
    then \<forall>u. (unwoken_step self)\<^sup>*\<^sup>* s u \<longrightarrow> destructor u = D_joining \<and>
      (cleanup u = W_wait \<longrightarrow> (\<forall>v. service_step self u (view_changed v u) \<and> closes self (view_changed v u)) \<and>
         closes self (u\<lparr>cleanup := W_woken\<rparr>))
    else \<forall>u. (service_step self)\<^sup>*\<^sup>* s u \<longrightarrow> closes self u"
proof (cases "cleanup s \<in> {W_park, W_wait}")
  case True
  have "destructor u = D_joining \<and> (cleanup u = W_wait \<longrightarrow>
      (\<forall>v. service_step self u (view_changed v u) \<and> closes self (view_changed v u)) \<and> closes self (u\<lparr>cleanup := W_woken\<rparr>))"
    if run: "(unwoken_step self)\<^sup>*\<^sup>* s u" for u
  proof -
    from run have "destructor u = D_joining \<and> cleanup u \<in> {W_park, W_wait}"
    proof (induction rule: rtranclp_induct)
      case (step y z)
      then show ?case by (intro blocked_stays[OF step(2)]) simp_all
    qed (use assms(2) True in simp)
    then show ?thesis using woken_closes[OF unwoken_reachable[OF run assms(1)]] by (auto simp: service_step_iff)
  qed
  then show ?thesis using True by simp
next
  case False
  have inv: "service_inv s" by (rule background.inv_reachable[OF assms(1)])
  then have flag: "shutdown s" using assms(2) by (simp add: service_inv_def flag_ok_def)
  have "closes self u" if "(service_step self)\<^sup>*\<^sup>* s u" for u
  proof -
    from that have u: "shutdown u \<and> destructor u \<in> {D_joining, D_closed} \<and> cleanup u \<notin> {W_park, W_wait} \<and>
        (destructor u = D_closed \<longrightarrow> cleanup u = W_done) \<and> service_inv u"
    proof (induction rule: rtranclp_induct)
      case base
      then show ?case using flag assms(2) False inv by simp
    next
      case (step y z)
      then show ?case using unblocked_stays[OF step(2)] service_step_inv[OF step(2)] by simp
    qed
    show ?thesis
    proof (cases "destructor u = D_closed")
      case True
      then show ?thesis by (auto simp: closes_def)
    next
      case False
      then show ?thesis using u by (intro unblocked_closes) (auto simp: service_inv_def)
    qed
  qed
  then show ?thesis using False by simp
qed

text \<open>
  The lost wake-up: the cleanup thread finds no old view and the flag down; the destructor
  raises the flag, connects, joins the listener, which has queued the destructor's own
  connection as a joining client, and notifies no one; then the cleanup thread blocks.
\<close>

definition lost_wakeup :: "('v, nat) service" where
  "lost_wakeup = \<lparr>shutdown = True, views = [], lock_free = True, backlog = [], joins = [7],
     cleanup = W_wait, listener = L_done, destructor = D_joining\<rparr>"

lemma thread_reachable:
  "reachable created (service_step self) s \<Longrightarrow> thread_step self s t \<Longrightarrow> reachable created (service_step self) t"
  by (blast intro: reachable_step s_thread)

lemma lost_wakeup_reachable: "reachable created (service_step 7) lost_wakeup"
proof -
  let ?s = "\<lambda>sd lf bl js c l d. \<lparr>shutdown = sd, views = [], lock_free = lf, backlog = bl, joins = js,
     cleanup = c, listener = l, destructor = d\<rparr> :: ('v, nat) service"
  note go = thread_reachable[where self = 7]
  have "reachable created (service_step 7) (?s False True [] [] W_test L_test D_none)"
    by (rule reachable_init) (simp add: created_def)
  from go[OF this t_test] have "reachable created (service_step 7) (?s False True [] [] W_lock L_test D_none)" by simp
  from go[OF this t_lock] have "reachable created (service_step 7) (?s False False [] [] W_check L_test D_none)" by simp
  from go[OF this t_check] have "reachable created (service_step 7) (?s False False [] [] W_park L_test D_none)" by simp
  from go[OF this t_accepting] have "reachable created (service_step 7) (?s False False [] [] W_park L_accept D_none)" by simp
  from go[OF this t_flag] have "reachable created (service_step 7) (?s True False [] [] W_park L_accept D_flagged)" by simp
  from go[OF this t_connect] have "reachable created (service_step 7) (?s True False [7] [] W_park L_accept D_connected)" by simp
  from go[OF this t_accept[where c = 7 and cs = "[]"]]
  have "reachable created (service_step 7) (?s True False [] [7] W_park L_test D_connected)" by simp
  from go[OF this t_accepting] have "reachable created (service_step 7) (?s True False [] [7] W_park L_done D_connected)" by simp
  from go[OF this t_join_listener] have "reachable created (service_step 7) (?s True False [] [7] W_park L_done D_listener_joined)" by simp
  from go[OF this t_notify] have "reachable created (service_step 7) (?s True False [] [7] W_park L_done D_joining)"
    by (simp add: notify_cleanup_def)
  from go[OF this t_park] show ?thesis by (simp add: lost_wakeup_def)
qed

theorem destructor_returns_unless_wakeup_lost_witness:
  "(\<nexists>u. (unwoken_step 7)\<^sup>*\<^sup>* (lost_wakeup :: (nat, nat) service) u \<and> destructor u = D_closed) \<and>
   (\<exists>t. (service_step 7)\<^sup>*\<^sup>* (lost_wakeup :: (nat, nat) service) t \<and> destructor t = D_closed)"
proof -
  let ?s = "lost_wakeup :: (nat, nat) service"
  have at: "destructor ?s = D_joining" "cleanup ?s = W_wait" by (simp_all add: lost_wakeup_def)
  have blocked: "\<forall>u. (unwoken_step 7)\<^sup>*\<^sup>* ?s u \<longrightarrow> destructor u = D_joining \<and>
      (cleanup u = W_wait \<longrightarrow> (\<forall>v. service_step 7 u (view_changed v u) \<and> closes 7 (view_changed v u)) \<and>
         closes 7 (u\<lparr>cleanup := W_woken\<rparr>))"
    using destructor_returns_unless_wakeup_lost[OF lost_wakeup_reachable at(1)] at(2) by simp
  then have "service_step 7 ?s (view_changed 0 ?s)" "closes 7 (view_changed 0 ?s)" using at(2) by blast+
  moreover have "(thread_step 7)\<^sup>*\<^sup>* x t \<Longrightarrow> (service_step 7)\<^sup>*\<^sup>* x t" for x t :: "(nat, nat) service"
    by (erule rtranclp_mono[THEN predicate2D, rotated]) (auto intro: s_thread)
  ultimately have "\<exists>t. (service_step 7)\<^sup>*\<^sup>* ?s t \<and> destructor t = D_closed"
    unfolding closes_def by (meson converse_rtranclp_into_rtranclp)
  then show ?thesis using blocked by fastforce
qed

end
