(* ===== verification/State_Files.thy ===== *)
theory State_Files
  imports View_Io
begin

text \<open>
  The two programs around the saved-state file: \<^verbatim>\<open>parse_state_file\<close> prints the view in the
  file it is given, \<^verbatim>\<open>create_state_file\<close> writes one from such a text. A run maps the
  arguments, the input and the disk to the exit code, the output and the disk it leaves.
\<close>

section \<open>The programs\<close>

definition usage :: "string \<Rightarrow> string" where
  "usage prog = ''Usage: '' @ prog @ '' <filename>'' @ [newline]"

text \<open>With neither file on disk \<^verbatim>\<open>load_view\<close> returns null, which is then printed.\<close>

definition parse_state_file :: "(bytes \<Rightarrow> view) \<Rightarrow> string list \<Rightarrow> disk \<Rightarrow> (int \<times> string) result" where
  "parse_state_file from_bytes argv d =
     (if length argv < 2 then Inr (1, usage ''parse_state_file'')
      else bindE (load_view from_bytes (argv ! 1) d) (\<lambda>v.
        case v of None \<Rightarrow> Inl (Undefined ''null view'') | Some v \<Rightarrow> Inr (0, write_view v)))"

definition create_state_file ::
  "(view \<Rightarrow> bytes) \<Rightarrow> bool \<Rightarrow> string list \<Rightarrow> string \<Rightarrow> disk \<Rightarrow> (int \<times> string \<times> disk) result" where
  "create_state_file to_bytes rename_ok argv stdin d =
     (if length argv < 2 then Inr (1, usage ''create_state_file'', d)
      else bindE (read_view empty_view stdin) (\<lambda>v. Inr (0, [], persist_view to_bytes rename_ok v (argv ! 1) d)))"

section \<open>They invert each other\<close>

lemma read_saved_whole:
  assumes "length (to_bytes v) < 2 ^ 64" "from_bytes (to_bytes v) = v"
  shows "read_saved from_bytes (Some (saved_bytes to_bytes v)) = Inr (Some v)"
  using read_saved_prefix[where to_bytes = to_bytes and from_bytes = from_bytes and v = v, OF assms order_refl]
  by (simp add: length_saved)

lemma load_persisted:
  assumes "length (to_bytes v) < 2 ^ 64" "from_bytes (to_bytes v) = v" "rename_ok \<or> d name = None"
  shows "load_view from_bytes name (persist_view to_bytes rename_ok v name d) = Inr (Some v)"
  using assms(3) read_saved_whole[where to_bytes = to_bytes and from_bytes = from_bytes and v = v, OF assms(1,2)]
  by (cases rename_ok) (simp_all add: load_view_def persist_view_def write_swap_def rename_def read_saved_def[of _ None])

text \<open>What \<^verbatim>\<open>operator<<\<close> can print so that it can be read again.\<close>

definition printable :: "view \<Rightarrow> bool" where
  "printable v \<longleftrightarrow> int32 (vid v) \<and> int32 (nFailed v) \<and> int32 (num_members v) \<and> int32 (my_rank v) \<and>
     list_all plain_word (member_ips v)"

text \<open>
  C39. The utilities invert each other: the file \<^verbatim>\<open>create_state_file\<close> makes from the text of a
  view is printed by \<^verbatim>\<open>parse_state_file\<close> as the same text, byte for byte, whatever was on
  the disk before, if the numbers fit an \<^verbatim>\<open>int\<close>, no address is empty or contains white
  space, and the library reads back the bytes it makes of the view. That holds even when
  the final rename fails, if there was no file of that name: the view is then found in the
  swap file.
\<close>

theorem state_file_text_roundtrip:
  assumes "printable v" "rename_ok \<or> d name = None"
    and "length (to_bytes (v\<lparr>who := None, IKnowIAmLeader := False\<rparr>)) < 2 ^ 64"
    and "from_bytes (to_bytes (v\<lparr>who := None, IKnowIAmLeader := False\<rparr>)) = v\<lparr>who := None, IKnowIAmLeader := False\<rparr>"
  shows "\<exists>d'. create_state_file to_bytes rename_ok [prog, name] (write_view v) d = Inr (0, [], d') \<and>
    parse_state_file from_bytes [prog', name] d' = Inr (0, write_view v)"
proof -
  let ?v = "v\<lparr>who := None, IKnowIAmLeader := False\<rparr>"
  have "read_view empty_view (write_view v) = Inr ?v"
    using assms(1) by (intro view_text_roundtrip) (simp_all add: printable_def list_all_iff)
  moreover have "write_view ?v = write_view v" by (simp add: write_view_def)
  moreover note load_persisted[where to_bytes = to_bytes and from_bytes = from_bytes and v = ?v and name = name and d = d, OF assms(3,4,2)]
  ultimately show ?thesis by (simp add: create_state_file_def parse_state_file_def)
qed

text \<open>A view of three members, saved over an older file by a library that stores its number.\<close>

theorem state_file_text_roundtrip_witness:
  "\<exists>d'. create_state_file (\<lambda>v. enc32 (word_of_int (vid v))) True [''create'', ''s''] (write_view sample_view)
       [''s'' \<mapsto> [1, 2, 3]] = Inr (0, [], d') \<and>
     parse_state_file (\<lambda>bs. sample_view\<lparr>vid := uint (dec32 bs), who := None, IKnowIAmLeader := False\<rparr>) [''parse'', ''s''] d' =
       Inr (0, write_view sample_view)"
  by (rule state_file_text_roundtrip)
     (simp_all add: printable_def sample_view_def int32_def plain_word_def is_space_def u32_codec.dec_exact u32_codec.enc_length)

text \<open>The other runs: too few arguments, and a file that is not there.\<close>

lemma parse_state_file_fails:
  "length argv < 2 \<Longrightarrow> parse_state_file from_bytes argv d = Inr (1, usage ''parse_state_file'')"
  "d name = None \<Longrightarrow> d (name @ SWAP_FILE_EXTENSION) = None \<Longrightarrow>
   parse_state_file from_bytes [prog, name] d = Inl (Undefined ''null view'')"
  by (simp_all add: parse_state_file_def load_view_def read_saved_def)

lemma create_state_file_fails:
  "length argv < 2 \<Longrightarrow> create_state_file to_bytes rename_ok argv stdin d = Inr (1, usage ''create_state_file'', d)"
  "read_view empty_view stdin = Inl e \<Longrightarrow> create_state_file to_bytes rename_ok [prog, name] stdin d = Inl e"
  by (simp_all add: create_state_file_def)

end
