(* ===== verification/Event_Log.thy ===== *)
theory Event_Log
  imports View
begin

text \<open>
  The debugging log (\<^verbatim>\<open>logger.h\<close>, \<^verbatim>\<open>logger.cpp\<close>): two vectors of ten million places, made once,
  and a cursor; every event is written at the cursor with the microseconds since the start
  of the program. Nothing compares the cursor with the size. \<^verbatim>\<open>print_log\<close> of the managed
  group writes the events out, each with a letter for the node.
\<close>

section \<open>The log\<close>

record logger =
  events :: "string list"
  times :: "int list"
  curr_event :: nat

definition log_capacity :: nat where
  "log_capacity = 10000000"

definition new_logger :: logger where
  "new_logger = \<lparr>events = replicate log_capacity [], times = replicate log_capacity 0, curr_event = 0\<rparr>"

text \<open>\<open>currtime\<close> is the clock in microseconds, \<open>start\<close> the global \<^verbatim>\<open>program_start_time\<close>.\<close>

definition log_event :: "int \<Rightarrow> int \<times> string \<Rightarrow> logger \<Rightarrow> logger result" where
  "log_event start e l =
     (case e of (currtime, event_text) \<Rightarrow>
        if curr_event l < length (times l) \<and> curr_event l < length (events l)
        then Inr (l\<lparr>times := (times l)[curr_event l := currtime - start],
                    events := (events l)[curr_event l := event_text], curr_event := curr_event l + 1\<rparr>)
        else Inl (Undefined ''write past the end of the log''))"

fun log_events :: "int \<Rightarrow> (int \<times> string) list \<Rightarrow> logger \<Rightarrow> logger result" where
  "log_events start [] l = Inr l"
| "log_events start (e # es) l = bindE (log_event start e l) (log_events start es)"

section \<open>Printing\<close>

text \<open>
  \<^verbatim>\<open>std::string("A..Z")[id]\<close>: the letter of a node id, the terminating zero for 26, and
  undefined beyond.
\<close>

definition alphabet :: string where
  "alphabet = ''ABCDEFGHIJKLMNOPQRSTUVWXYZ''"

definition letter_of :: "node_id \<Rightarrow> string result" where
  "letter_of n = (if unat n < length alphabet then Inr [alphabet ! unat n]
     else if unat n = length alphabet then Inr [CHR 0x00] else Inl (Undefined ''no such letter''))"

definition print_event :: "view \<Rightarrow> logger \<Rightarrow> nat \<Rightarrow> string result" where
  "print_event v l i =
     (if my_rank v < 0 \<or> length (members v) \<le> nat (my_rank v) then Inl (Undefined ''members[my_rank]'')
      else bindE (letter_of (members v ! nat (my_rank v)))
        (\<lambda>c. Inr (show_int (times l ! i) @ '','' @ events l ! i @ '','' @ c @ [CHR 0x0A])))"

fun print_from :: "view \<Rightarrow> logger \<Rightarrow> nat list \<Rightarrow> string result" where
  "print_from v l [] = Inr []"
| "print_from v l (i # js) = bindE (print_event v l i) (\<lambda>s. bindE (print_from v l js) (\<lambda>t. Inr (s @ t)))"

definition print_log :: "view \<Rightarrow> logger \<Rightarrow> string result" where
  "print_log v l = print_from v l [0..<curr_event l]"

section \<open>The log is a list of events until it is full\<close>

text \<open>What the vectors hold below the cursor.\<close>

definition logged :: "logger \<Rightarrow> (int \<times> string) list" where
  "logged l = zip (take (curr_event l) (times l)) (take (curr_event l) (events l))"

definition logger_wf :: "logger \<Rightarrow> bool" where
  "logger_wf l \<longleftrightarrow> length (events l) = log_capacity \<and> length (times l) = log_capacity \<and> curr_event l \<le> log_capacity"

lemma logger_wf_new: "logger_wf new_logger" "logged new_logger = []"
  by (simp_all add: logger_wf_def new_logger_def logged_def)

lemma length_logged: "logger_wf l \<Longrightarrow> length (logged l) = curr_event l"
  by (simp add: logger_wf_def logged_def)

lemma logged_nth: "logger_wf l \<Longrightarrow> i < curr_event l \<Longrightarrow> logged l ! i = (times l ! i, events l ! i)"
  by (simp add: logger_wf_def logged_def)

text \<open>One event: appended while there is room, undefined behaviour once the log is full.\<close>

lemma log_event_appends:
  assumes "logger_wf l" "curr_event l < log_capacity"
  shows "\<exists>l'. log_event start (t, e) l = Inr l' \<and> logger_wf l' \<and> logged l' = logged l @ [(t - start, e)]"
  using assms
  by (auto simp: log_event_def logger_wf_def logged_def take_Suc_conv_app_nth)

lemma log_event_full: "logger_wf l \<Longrightarrow> curr_event l = log_capacity \<Longrightarrow>
    log_event start e l = Inl (Undefined ''write past the end of the log'')"
  by (simp add: log_event_def logger_wf_def split: prod.split)

lemma log_events_from:
  assumes "logger_wf l"
  shows "(length (logged l) + length es \<le> log_capacity \<longrightarrow> (\<exists>l'. log_events start es l = Inr l' \<and> logger_wf l' \<and>
      logged l' = logged l @ map (\<lambda>(t, e). (t - start, e)) es)) \<and>
    (log_capacity < length (logged l) + length es \<longrightarrow>
      log_events start es l = Inl (Undefined ''write past the end of the log''))"
  using assms
proof (induction es arbitrary: l)
  case (Cons x es)
  obtain t e where x: "x = (t, e)" by (cases x)
  show ?case
  proof (cases "curr_event l < log_capacity")
    case True
    then obtain l1 where l1: "log_event start (t, e) l = Inr l1" "logger_wf l1" "logged l1 = logged l @ [(t - start, e)]"
      using log_event_appends[OF Cons.prems] by blast
    with Cons.IH[OF l1(2)] show ?thesis by (simp add: x)
  next
    case False
    then have "curr_event l = log_capacity" using Cons.prems by (simp add: logger_wf_def)
    with log_event_full[OF Cons.prems this] length_logged[OF Cons.prems] show ?thesis by simp
  qed
qed (simp add: length_logged logger_wf_def)

section \<open>What is printed\<close>

definition log_line :: "char \<Rightarrow> int \<times> string \<Rightarrow> string" where
  "log_line c e = show_int (fst e) @ '','' @ snd e @ '','' @ [c] @ [CHR 0x0A]"

text \<open>The letter printed for a node id, with the terminating zero as the one after \<^verbatim>\<open>Z\<close>.\<close>

definition node_letter :: "node_id \<Rightarrow> char" where
  "node_letter n = (alphabet @ [CHR 0x00]) ! unat n"

lemma letter_of_small: "letter_of n = (if unat n \<le> 26 then Inr [node_letter n] else Inl (Undefined ''no such letter''))"
proof -
  have "length alphabet = 26" by (simp add: alphabet_def)
  then show ?thesis by (auto simp: letter_of_def node_letter_def nth_append)
qed

lemma print_from_ok:
  assumes wf: "logger_wf l" and rank: "0 \<le> my_rank v" "nat (my_rank v) < length (members v)"
    and small: "unat (members v ! nat (my_rank v)) \<le> 26" and js: "\<forall>i \<in> set js. i < curr_event l"
  shows "print_from v l js = Inr (concat (map (\<lambda>i. log_line (node_letter (members v ! nat (my_rank v))) (logged l ! i)) js))"
  using js rank small by (induction js) (simp_all add: print_event_def letter_of_small log_line_def logged_nth[OF wf])

text \<open>
  Every event is kept and printed: a program that logs at most ten million events and whose
  node id is at most 26 prints one line for each, in the order they were logged; the next
  event is a write past the end of both vectors.
\<close>

lemma every_event_is_printed:
  assumes "0 \<le> my_rank v" "nat (my_rank v) < length (members v)" "unat (members v ! nat (my_rank v)) \<le> 26"
  shows "(length es \<le> 10000000 \<longrightarrow> (\<exists>l. log_events start es new_logger = Inr l \<and>
      print_log v l = Inr (concat (map (\<lambda>(t, e). log_line (node_letter (members v ! nat (my_rank v))) (t - start, e)) es)))) \<and>
    (10000000 < length es \<longrightarrow> log_events start es new_logger = Inl (Undefined ''write past the end of the log''))"
proof -
  let ?line = "log_line (node_letter (members v ! nat (my_rank v)))"
  have print: "print_log v l = Inr (concat (map ?line (logged l)))" if "logger_wf l" for l
  proof -
    have "map (\<lambda>i. ?line (logged l ! i)) [0..<curr_event l] = map ?line (logged l)"
      using length_logged[OF that] by (intro nth_equalityI) simp_all
    then show ?thesis using print_from_ok[OF that assms, of "[0..<curr_event l]"] by (simp add: print_log_def)
  qed
  from log_events_from[OF logger_wf_new(1), of es start] print show ?thesis
    by (auto simp: logger_wf_new(2) log_capacity_def comp_def case_prod_unfold)
qed

end
