(* ===== verification/Row_Text.thy ===== *)
theory Row_Text
  imports Sst_Row
begin

text \<open>
  The small operations on rows that the protocol code calls or prints with
  (\<^verbatim>\<open>derecho_row.h\<close>): the setters of one field and of a whole array, which the other
  theories write as record and list updates, and the text of a row.
\<close>

section \<open>Setters\<close>

text \<open>
  \<^verbatim>\<open>set(e, value)\<close> for a scalar, given as the update function of its field, and for an array
  of known length. The fences order the writes; a row is read as a whole in the model.
\<close>

definition set_field :: "(('a \<Rightarrow> 'a) \<Rightarrow> derecho_row \<Rightarrow> derecho_row) \<Rightarrow> 'a \<Rightarrow> derecho_row \<Rightarrow> derecho_row" where
  "set_field upd v r = upd (\<lambda>_. v) r"

definition set_array :: "nat \<Rightarrow> 'a list \<Rightarrow> 'a list \<Rightarrow> 'a list" where
  "set_array Len e v = take Len v @ drop Len e"

lemma set_field_is_update:
  "set_field nChanges_update v r = r\<lparr>nChanges := v\<rparr>" "set_field wedged_update b r = r\<lparr>wedged := b\<rparr>"
  by (simp_all add: set_field_def)

text \<open>Copying a whole array is copying its prefix of full length, and replaces it.\<close>

lemma set_array_whole:
  "length e = Len \<Longrightarrow> length v = Len \<Longrightarrow> set_array Len e v = v"
  "set_array Len e v = set_array_prefix e v Len"
  by (simp_all add: set_array_def set_array_prefix_def)

section \<open>The text of a row\<close>

definition show_flag :: "bool \<Rightarrow> string" where
  "show_flag b = (if b then ''T'' else ''F'')"

text \<open>The pending changes are printed from the ring, with nothing between them.\<close>

definition row_to_string :: "nat \<Rightarrow> derecho_row \<Rightarrow> string" where
  "row_to_string N r =
     ''Vid='' @ show_int (row_vid r) @ '' Suspected={ '' @
     concat (map (\<lambda>n. show_flag (suspected r ! n) @ '' '') [0..<N]) @
     ''}, nChanges='' @ show_int (nChanges r) @ '', nCommitted='' @ show_int (nCommitted r) @ '', Changes={ '' @
     concat (map (\<lambda>n. show_nat (unat (changes r ! nat (n mod int N)))) [nCommitted r..nChanges r - 1]) @
     '' }, nAcked= '' @ show_int (nAcked r) @ '', nReceived={ '' @
     concat (map (\<lambda>n. show_int (nReceived r ! n) @ '' '') [0..<N]) @
     ''}, Wedged = '' @ show_flag (wedged r) @ '', GlobalMin = { '' @
     concat (map (\<lambda>n. show_int (globalMin r ! n) @ '' '') [0..<N]) @
     ''}, GlobalMinReady='' @ (if globalMinReady r then ''1'' else ''0'') @ [CHR 0x0A]"

text \<open>
  So the text does not determine the row: the changes 1 and 23 print as 12 and 3 do.
\<close>

lemma row_text_ambiguous:
  assumes "nCommitted r = 0" "nChanges r = 2"
  shows "row_to_string 2 (r\<lparr>changes := [1, 23]\<rparr>) = row_to_string 2 (r\<lparr>changes := [12, 3]\<rparr>)"
proof -
  have "[0..1] = [0, 1 :: int]" by (simp add: upto.simps)
  with assms show ?thesis by (simp add: row_to_string_def show_nat.simps)
qed

end
