(* ===== verification/Spec2Isabelle.thy ===== *)
theory Spec2Isabelle
  imports Replica_Life View_History Removed_Callers Rpc_Setup Log_Recovery Connections
    Group_Api Shutdown State_Files Event_Log Row_Text
begin

text \<open>
  Derecho: a library for replicated objects on a totally ordered, virtually synchronous
  multicast over RDMA. The repository's own code is the group membership service
  (\<^verbatim>\<open>ManagedGroup\<close>), the multicast of one view (\<^verbatim>\<open>DerechoGroup\<close>), the row of the shared
  state table, remote calls, the message log with its recovery tools, and the connection
  manager. RDMC, the state table itself, the sockets and the serialiser are empty
  submodules: calls to them are recorded in the state, what they return is an argument.

  \<^bold>\<open>How the parts interact.\<close> A node has one \<^verbatim>\<open>ManagedGroup\<close>. It holds the current \<^verbatim>\<open>View\<close>
  (members, ranks, failures) with its shared state table, and the \<^verbatim>\<open>DerechoGroup\<close> of that
  view. The group sends through one RDMC group per sender, publishes in its row of the table
  what it has received, knows to be stable and has delivered, and delivers in round-robin
  order what the minimum over the rows allows. A delivered message is raw (a callback of the
  application) or cooked: a call that the \<^verbatim>\<open>Dispatcher\<close> routes to a registered function of a
  replicated object, whose reply travels over the point-to-point connections and resolves a
  promise of the caller. Delivered messages may be logged by the \<^verbatim>\<open>FileWriter\<close>. Suspicions
  and joins become changes that the leader proposes, all acknowledge and the leader commits;
  the members then wedge, agree on how much of each sender to deliver, install the next view
  and build the next group from the old one.

  \<^bold>\<open>Theories and sources.\<close>
  \<^item> \<open>Prelude\<close>, \<open>Containers\<close>, \<open>Codec\<close>: errors as values, scans and minima, the locale of state
    machines with an invariant; \<^verbatim>\<open>std::map\<close> and \<^verbatim>\<open>std::set_difference\<close>; little-endian integers
    in a byte buffer (locale \<open>fixed_codec\<close>).
  \<^item> \<open>Sst_Row\<close>, \<open>Row_Text\<close>: \<^verbatim>\<open>derecho_row.h\<close>, \<^verbatim>\<open>derecho_row.cpp\<close>; a row is the record \<open>derecho_row\<close>, the table the
    record \<open>sst\<close> with this node's copies of all rows.
  \<^item> \<open>View\<close>, \<open>View_Io\<close>: \<^verbatim>\<open>view.h\<close>, \<^verbatim>\<open>view_impl.h\<close>; the view, leadership, merging of changes, the
    text form and the saved-state file with its swap file; \<open>State_Files\<close>:
    \<^verbatim>\<open>parse_state_file.cpp\<close>, \<^verbatim>\<open>create_state_file.cpp\<close>. The locale \<open>bounded_queue\<close> is the
    contract of the changes array.
  \<^item> \<open>Rpc\<close>, \<open>Rpc_Calls\<close>, \<open>Rpc_Setup\<close>: \<^verbatim>\<open>derecho_caller.h\<close>; message header, promises, invocables,
    dispatcher; calls between two nodes; how member functions are registered and found. Sizes
    are the \<^verbatim>\<open>int\<close> they are passed in: \<open>int_alloc\<close>. \<open>Removed_Callers\<close>: what a whole view change
    does to the callers of the nodes it removes.
  \<^item> \<open>Serialisation\<close>: what the sources rely on of the serialisation library, which is not part of
    the repository, as the record \<open>serial\<close> and the contract \<open>reads_as\<close>; a view is read as
    \<open>sent_view\<close>, with the fields that \<^verbatim>\<open>view.h\<close> lists and the others as its constructor leaves them.
    The serialisers built there show that the contract can be met, for any view in range.
  \<^item> \<open>Persistence\<close>, \<open>Log_Recovery\<close>: \<^verbatim>\<open>filewriter.cpp\<close>, \<^verbatim>\<open>persistence.h\<close>, \<^verbatim>\<open>log_tail_length.cpp\<close>,
    \<^verbatim>\<open>latest_logged_message.cpp\<close>.
  \<^item> \<open>Connections\<close>: \<^verbatim>\<open>connection_manager.h\<close>, \<^verbatim>\<open>connection_manager.cpp\<close>.
  \<^item> \<open>Derecho_Group\<close>, \<open>Group_Life\<close>, \<open>Group_Api\<close>: \<^verbatim>\<open>derecho_group.h\<close>, \<^verbatim>\<open>derecho_group_impl.h\<close>; every method, RDMC
    handler and trigger is a function on the record \<open>dgroup\<close>. \<open>Group_Order\<close>, \<open>Group_Steps\<close> and
    \<open>Group_Delivery\<close> are the invariant of one group, its step relation and what follows.
  \<^item> \<open>Send_Log\<close>, \<open>Node_Log\<close>, \<open>Cluster\<close>, \<open>Total_Order\<close>, \<open>View_Change\<close>, \<open>Replication\<close>: all members of
    a view together; \<open>Replica_Life\<close>: one view's cluster after another (below).
  \<^item> \<open>Managed_Group\<close>: \<^verbatim>\<open>managed_group.h\<close>, \<^verbatim>\<open>managed_group_impl.h\<close>; the predicates, triggers and
    calls of the membership service on the record \<open>managed\<close>. \<open>Membership\<close>, \<open>Suspicion\<close>,
    \<open>Agreement\<close> and \<open>Ragged_Edge\<close> hold what they guarantee at one node; \<open>Gms_Cluster\<close>,
    \<open>View_Agreement\<close> and \<open>View_Decision\<close> run them at all members of a view (below),
    \<open>Handover\<close> and \<open>View_History\<close> follow a group through its views, and \<open>Join_Faults\<close> shows
    two ways in which a join goes wrong.
  \<^item> \<open>Join_Protocol\<close>, \<open>Managed_Start\<close>: the state transfer to a joining node and the three
    constructors of \<^verbatim>\<open>ManagedGroup\<close>. \<open>Shutdown\<close>: its background threads and its destructor, step
    by step. \<open>Event_Log\<close>: \<^verbatim>\<open>logger.h\<close>, \<^verbatim>\<open>logger.cpp\<close> and \<^verbatim>\<open>print_log\<close>.

  \<^bold>\<open>The model of many nodes.\<close> A \<open>cluster\<close> gives each rank a \<open>dgroup\<close>, each sender the log of
  what it has handed to RDMC, and each pair of nodes the number of messages transferred. Its
  steps \<open>c_step\<close> are the operations of one node each: the application asks for a position,
  fills it, sends; the send loop runs; RDMC starts or completes the next transfer of a
  sender at a receiver, in the sender's order; the triggers fire; the writer calls back; the
  group is wedged; calls are prepared and answered. A row of another node may be replaced at
  any time by any mixture of values its owner has ever published, so nothing is assumed of
  the table's timing or of the order in which its fields arrive. The application's sizes
  must leave room for the header in 64 bits; RDMC delivers each sender's messages intact and
  in order, which is its documented behaviour. Failures appear as the wedging of nodes and
  as transfers that never complete.

  \<^bold>\<open>The membership service of many nodes.\<close> A \<open>gms_cluster\<close> gives each rank a \<open>managed\<close>. A step
  \<open>gms_step\<close> lets one member that is still in the view run a predicate that is registered
  and holds with its trigger, a call of the application or of the failure detector, or a turn
  of the multicast; lets it finish the view change and continue in the next view; or lets a
  row arrive. A copy of a row may be out of date by any amount and torn: it pairs the list of
  changes and the joining address of one publication with a count of changes no newer, as a
  write from the first field to the last leaves it. The runs are those in which no member
  marks the leader failed, of views of at most \<^verbatim>\<open>MAX_MEMBERS\<close> members (\<open>N\<close>), from a start in
  which proposals of the view before may be pending.

  \<^bold>\<open>The life of a group.\<close> A \<open>life\<close> is the list of the views a group has left, its current view
  and that view's \<open>gms_cluster\<close>. It goes on by a step of the cluster or, when the members have
  installed the next view, to the cluster \<open>next_cluster\<close> of the states they continue with and
  of the state a joining client's constructor leaves. This composes views under conditions
  the definition names, and only then: the leader stays and has no other change pending (view
  changes that overlap are left out), a removed member was marked failed by everyone who goes
  on (else their next view is not well formed), the members the leader has marked failed do
  not go on, and a member's copies of the others' rows in the new table are what the memory
  held, with counts of zero or less, or rows their owners have published there, torn or not
  (\<open>view_table\<close>), since every member writes its row before the tables are synchronised. A start
  of the protocol (\<open>begins_view\<close>) is a start as above in which nobody has committed more than
  the leader, which every run keeps. \<open>replica_life_step\<close> composes the clusters of the
  multicast in the same way, under conditions that the code does not ensure: the members that
  go on have received the same messages up to the trim and each call was for all of them or
  for none, no message waits for its log record, each builds its next group from its old one
  (with any list of failed members), and a joining node starts with the leader's objects.

  \<^bold>\<open>What is shown.\<close> Within a view: what is delivered anywhere has been received everywhere;
  deliveries refine the round-robin merge of the senders' logs, hence total order; the
  objects of each member are the calls of that merge folded over its first objects, hence
  replicas that delivered equally far are equal; an ordered call does at every destination
  what its function does to the caller's arguments. Across views: accepted messages are
  delivered, members that received the same leave with the same messages and objects, own
  messages are delivered or resent, the next groups are again such a cluster, a joining node
  is sent the objects it must start with, and so the replicas agree in every view of a life
  in which those conditions hold at each view change. Of the membership protocol: members install
  the same next view, a view change needs every live member's acknowledgement, the ring of
  changes never overwrites one still to be installed, suspicions mark members failed; the
  constructors of two founders start the protocol, the next view starts it again, and so
  each view of a life differs from the one before by one member and is everyone's. Of the
  parts: queries get their answers, or an exception when a view change removes the node asked; a remote call runs the method it names
  on the arguments sent, the log's records locate their messages, saving the view survives a
  crash, the state-file utilities invert each other, the behaviour of failing connections.
  Several theorems state faults of the code as it is written: the trim that delivers a message at the members that hold it and not at the others,
  the recovered leader that sends no objects, the waiting client whose address is lost, the
  silent client that removes the leader, the lost log record, the reply that raises, the dead
  socket, functions of one type that shadow each other, the destructor that misses its wake-up and
  waits for a view change to bring another.

  \<^bold>\<open>Bounds and fuel.\<close> No loop carries fuel: loops are structural recursions or folds, and the
  busy wait of an ordered send is a \<open>partial_function\<close> whose non-termination is a theorem.
  Words have the width of the code (8, 16, 32 or 64 bits) where the code's unsigned
  arithmetic matters; the signed 64-bit sequence numbers are integers.

  \<^bold>\<open>Not modelled.\<close> The threads themselves (each loop is its body, or a step), output to the
  console, the calls that add to the event log, template machinery that is resolved at compile time,
  tests, benchmarks and experiments, the shell script, and the submodules, whose directories
  are empty. Point-to-point calls that change an object at one member only are the
  application's business: the steps of the cluster let them prepare and resolve promises but
  not touch the objects.
\<close>

end
